(* ===== verification/LuaPrelude.thy ===== *)
theory LuaPrelude
  imports Main "HOL-Library.Word"
begin

text \<open>
  Shared vocabulary of the development: the errors a Lua primitive can raise, the
  sequencing of fallible steps, C character classes, and generic facts about lists,
  words and fallible steps that the components use.

  A C function that may call \<^verbatim>\<open>luaD_throw\<close> returns a value of the sum type
  \<open>lua_error + 'a\<close>; \<open>Inl\<close> is the error that \<^verbatim>\<open>longjmp\<close> carries to the protected
  call.  Two further constructors never come from the code: \<open>ErrFault\<close> marks an access
  outside a C object (undefined behaviour of the program), and \<open>ErrFuel\<close> marks a loop that
  used up the iterations its model was given.  Both exist so that theorems can state that
  they do not occur.
\<close>

unbundle bit_operations_syntax

section \<open>Errors and sequencing\<close>

datatype lua_error =
    ErrRun string        \<comment> \<open>\<^verbatim>\<open>LUA_ERRRUN\<close>\<close>
  | ErrSyntax string     \<comment> \<open>\<^verbatim>\<open>LUA_ERRSYNTAX\<close>\<close>
  | ErrMem               \<comment> \<open>\<^verbatim>\<open>LUA_ERRMEM\<close>\<close>
  | ErrFault             \<comment> \<open>access outside an object\<close>
  | ErrFuel              \<comment> \<open>a loop ran longer than its model allows\<close>

named_theorems bindE_simps "unfolding of fallible steps"

fun bindE :: "'e + 'a \<Rightarrow> ('a \<Rightarrow> 'e + 'b) \<Rightarrow> 'e + 'b" where
  "bindE (Inl e) f = Inl e"
| "bindE (Inr x) f = f x"

lemma bindE_cong [fundef_cong]:
  "m = m' \<Longrightarrow> (\<And>x. m' = Inr x \<Longrightarrow> f x = g x) \<Longrightarrow> bindE m f = bindE m' g"
  by (cases m') auto

lemma bindE_Inr_iff [bindE_simps]:
  "bindE m f = Inr y \<longleftrightarrow> (\<exists>x. m = Inr x \<and> f x = Inr y)"
  by (cases m) auto

lemma bindE_Inl_iff [bindE_simps]:
  "bindE m f = Inl e \<longleftrightarrow> m = Inl e \<or> (\<exists>x. m = Inr x \<and> f x = Inl e)"
  by (cases m) auto

lemma bindE_InrE:
  assumes "bindE m f = Inr y"
  obtains x where "m = Inr x" and "f x = Inr y"
  using assms by (cases m) auto

lemma bindE_assoc: "bindE (bindE m f) g = bindE m (\<lambda>x. bindE (f x) g)"
  by (cases m) auto

text \<open>Errors that the code can raise, as against the two that mark a failed model.\<close>

definition code_error :: "lua_error \<Rightarrow> bool" where
  "code_error e \<longleftrightarrow> e \<noteq> ErrFault \<and> e \<noteq> ErrFuel"

definition no_fault :: "lua_error + 'a \<Rightarrow> bool" where
  "no_fault r \<longleftrightarrow> (case r of Inl e \<Rightarrow> code_error e | Inr _ \<Rightarrow> True)"

lemma no_fault_Inr [simp]: "no_fault (Inr x)"
  by (simp add: no_fault_def)

lemma no_fault_Inl [simp]: "no_fault (Inl e) \<longleftrightarrow> code_error e"
  by (simp add: no_fault_def)

lemma code_error_simps [simp]:
  "code_error (ErrRun s)" "code_error (ErrSyntax s)" "code_error ErrMem"
  "\<not> code_error ErrFault" "\<not> code_error ErrFuel"
  by (simp_all add: code_error_def)

lemma no_fault_bindE:
  "no_fault m \<Longrightarrow> (\<And>x. m = Inr x \<Longrightarrow> no_fault (f x)) \<Longrightarrow> no_fault (bindE m f)"
  by (cases m) auto

text \<open>
  \<open>safe m Q\<close>: the step \<open>m\<close> ends with an error the code raises or with a result in \<open>Q\<close>.
\<close>

definition safe :: "lua_error + 'a \<Rightarrow> ('a \<Rightarrow> bool) \<Rightarrow> bool" where
  "safe m Q \<longleftrightarrow> (case m of Inl e \<Rightarrow> code_error e | Inr x \<Rightarrow> Q x)"

lemma safe_Inr [simp]: "safe (Inr x) Q \<longleftrightarrow> Q x"
  by (simp add: safe_def)

lemma safe_Inl [simp]: "safe (Inl e) Q \<longleftrightarrow> code_error e"
  by (simp add: safe_def)

lemma safe_bindE: "safe m P \<Longrightarrow> (\<And>x. m = Inr x \<Longrightarrow> P x \<Longrightarrow> safe (f x) Q) \<Longrightarrow> safe (bindE m f) Q"
  by (cases m) auto

lemma safe_mono: "safe m P \<Longrightarrow> (\<And>x. m = Inr x \<Longrightarrow> P x \<Longrightarrow> Q x) \<Longrightarrow> safe m Q"
  by (cases m) auto

lemma safe_D: "safe m P \<Longrightarrow> m = Inr x \<Longrightarrow> P x"
  by simp

lemma safe_no_fault: "safe m P \<Longrightarrow> no_fault m"
  by (cases m) auto

section \<open>C strings and characters\<close>

type_synonym byte = char

definition NUL :: byte where
  "NUL = char_of (0::nat)"

text \<open>What a C function that stops at the first \<^verbatim>\<open>'\0'\<close> sees of a byte string.\<close>

definition cstr :: "string \<Rightarrow> string" where
  "cstr s = takeWhile (\<lambda>c. c \<noteq> NUL) s"

lemma cstr_id: "NUL \<notin> set s \<Longrightarrow> cstr s = s"
  unfolding cstr_def by (auto simp: takeWhile_eq_all_conv)

lemma NUL_notin_cstr [simp]: "NUL \<notin> set (cstr s)"
  unfolding cstr_def by (metis set_takeWhileD)

lemma length_cstr_le [simp]: "length (cstr s) \<le> length s"
  unfolding cstr_def by (rule length_takeWhile_le)

text \<open>The character codes of \<^verbatim>\<open>ctype.h\<close> in the C locale, on \<^verbatim>\<open>int\<close> arguments
  (\<^verbatim>\<open>EOF\<close> is \<open>-1\<close> and belongs to no class).\<close>

definition isdigit :: "int \<Rightarrow> bool" where
  "isdigit c \<longleftrightarrow> 48 \<le> c \<and> c \<le> 57"

definition isalpha :: "int \<Rightarrow> bool" where
  "isalpha c \<longleftrightarrow> (65 \<le> c \<and> c \<le> 90) \<or> (97 \<le> c \<and> c \<le> 122)"

definition isalnum :: "int \<Rightarrow> bool" where
  "isalnum c \<longleftrightarrow> isalpha c \<or> isdigit c"

definition isspace :: "int \<Rightarrow> bool" where
  "isspace c \<longleftrightarrow> c = 32 \<or> (9 \<le> c \<and> c \<le> 13)"

definition iscntrl :: "int \<Rightarrow> bool" where
  "iscntrl c \<longleftrightarrow> (0 \<le> c \<and> c \<le> 31) \<or> c = 127"

lemmas ctype_defs = isdigit_def isalpha_def isalnum_def isspace_def iscntrl_def

text \<open>\<^verbatim>\<open>cast(int, cast(unsigned char, c))\<close> and its inverse on \<open>0..255\<close>.\<close>

definition char2int :: "byte \<Rightarrow> int" where
  "char2int c = int (of_char c)"

definition int2char :: "int \<Rightarrow> byte" where
  "int2char i = char_of (nat (i mod 256))"

lemma of_char_bound: "(of_char (c::char) :: nat) < 256"
  by (metis mod_less_divisor of_char_of char_of_char zero_less_numeral)

lemma char2int_range [simp]: "0 \<le> char2int c" "char2int c < 256" "char2int c \<le> 255"
proof -
  have "char2int c = int (of_char c)" by (simp add: char2int_def)
  then show "0 \<le> char2int c" "char2int c < 256" "char2int c \<le> 255"
    using of_char_bound [of c] by linarith+
qed

lemma char2int_nat: "char2int c = int (of_char c)"
  by (simp add: char2int_def)

lemma int2char_char2int [simp]: "int2char (char2int c) = c"
  using of_char_bound [of c] by (simp add: int2char_def char2int_nat nat_mod_distrib)

lemma char2int_int2char [simp]: "0 \<le> i \<Longrightarrow> i < 256 \<Longrightarrow> char2int (int2char i) = i"
  by (simp add: int2char_def char2int_def nat_mod_distrib of_char_of)

lemma char2int_inject [simp]: "char2int c = char2int d \<longleftrightarrow> c = d"
  by (metis int2char_char2int)

section \<open>Words\<close>

lemma unat_bound: "unat (w :: 'a::len word) < 2 ^ LENGTH('a)"
  by (rule unsigned_less)

lemma uint_unat: "uint w = int (unat w)"
  by simp

lemma unat_le_uint: "n \<le> unat w \<longleftrightarrow> int n \<le> uint w" "unat w \<le> n \<longleftrightarrow> uint w \<le> int n"
  by (simp_all only: uint_unat of_nat_le_iff)

lemma unat_less_uint: "n < unat w \<longleftrightarrow> int n < uint w" "unat w < n \<longleftrightarrow> uint w < int n"
  by (simp_all only: uint_unat of_nat_less_iff)

lemma unat_drop_bit: "unat (drop_bit n (w :: 'a::len word)) = unat w div 2 ^ n"
  unfolding unsigned_drop_bit_eq
  by (simp only: take_bit_nat_eq_self unat_bound drop_bit_eq_div)

lemma uint_drop_bit:
  fixes w :: "'a::len word"
  shows "uint (drop_bit n w) = uint w div 2 ^ n"
  by (metis unat_drop_bit of_nat_numeral of_nat_power uint_nat zdiv_int)

text \<open>A number whose low bits are clear combines with low bits by addition.\<close>

lemma or_low_bits:
  fixes a b :: int
  assumes "0 \<le> b" "b < 2 ^ n"
  shows "(a * 2 ^ n) OR b = a * 2 ^ n + b"
proof -
  have b: "b = take_bit n b" using assms by (simp add: take_bit_int_eq_self)
  have "\<not> bit (push_bit n a) i \<or> \<not> bit (take_bit n b) i" for i
    by (auto simp: bit_simps)
  then have "push_bit n a + take_bit n b = push_bit n a OR take_bit n b"
    by (rule disjunctive_add)
  then show ?thesis using b by (simp add: push_bit_eq_mult)
qed

end
