(* ===== verification/LuaNumber.thy ===== *)
theory LuaNumber
  imports LuaPrelude "HOL-Library.Log_Nat"
begin

text \<open>
  \<^verbatim>\<open>lua_Number\<close> (\<^verbatim>\<open>luaconf.h\<close>): an IEEE 754 \<^verbatim>\<open>double\<close>, modelled by its 64 bits, with the
  primitive operations the \<^verbatim>\<open>luai_num*\<close>, \<^verbatim>\<open>lua_number2int\<close>, \<^verbatim>\<open>cast_num\<close> and
  \<^verbatim>\<open>lua_str2number\<close> macros name.  The build modelled is the 64-bit one
  (\<^verbatim>\<open>lua_number2int\<close> is the C cast, done by \<^verbatim>\<open>cvttsd2si\<close>), and \<^verbatim>\<open>strtod\<close> is the C89
  one, which reads decimal numerals and rounds to nearest even.
\<close>

section \<open>Representation\<close>

type_synonym lua_Number = "64 word"

definition dbl_sign :: "lua_Number \<Rightarrow> bool" where
  "dbl_sign x \<longleftrightarrow> bit x 63"

definition dbl_exp :: "lua_Number \<Rightarrow> int" where
  "dbl_exp x = uint (drop_bit 52 x AND 2047)"

definition dbl_frac :: "lua_Number \<Rightarrow> int" where
  "dbl_frac x = uint (x AND mask 52)"

definition dbl_isnan :: "lua_Number \<Rightarrow> bool" where
  "dbl_isnan x \<longleftrightarrow> dbl_exp x = 2047 \<and> dbl_frac x \<noteq> 0"

definition dbl_isinf :: "lua_Number \<Rightarrow> bool" where
  "dbl_isinf x \<longleftrightarrow> dbl_exp x = 2047 \<and> dbl_frac x = 0"

definition dbl_iszero :: "lua_Number \<Rightarrow> bool" where
  "dbl_iszero x \<longleftrightarrow> dbl_exp x = 0 \<and> dbl_frac x = 0"

text \<open>A finite double is \<open>\<plusminus> m * 2^e\<close> with an integral significand \<open>m\<close>.\<close>

definition dbl_signif :: "lua_Number \<Rightarrow> int" where
  "dbl_signif x = (if dbl_exp x = 0 then dbl_frac x else 2 ^ 52 + dbl_frac x)"

definition dbl_scale :: "lua_Number \<Rightarrow> int" where
  "dbl_scale x = (if dbl_exp x = 0 then 1 else dbl_exp x) - 1075"

definition dbl_bits :: "bool \<Rightarrow> int \<Rightarrow> lua_Number" where
  "dbl_bits s m = word_of_int ((if s then 2 ^ 63 else 0) + m)"

definition dbl_inf :: "bool \<Rightarrow> lua_Number" where
  "dbl_inf s = dbl_bits s (2047 * 2 ^ 52)"

definition dbl_nan :: lua_Number where
  "dbl_nan = dbl_bits True (2047 * 2 ^ 52 + 2 ^ 51)"

section \<open>Rounding an exact quotient\<close>

text \<open>
  \<open>dbl_round s n d\<close> is the double nearest to \<open>\<plusminus> n/d\<close>, ties to even: the exponent \<open>e\<close> is
  chosen so that the integral significand has 53 bits (fewer for subnormals), and the
  carry of rounding up moves into the exponent field by itself.
\<close>

definition dbl_quot :: "int \<Rightarrow> int \<Rightarrow> int \<Rightarrow> int \<times> int" where
  "dbl_quot n d e = (if e < 0 then (n * 2 ^ nat (- e), d) else (n, d * 2 ^ nat e))"

definition dbl_round_exp :: "int \<Rightarrow> int \<Rightarrow> int" where
  "dbl_round_exp n d =
     (let e0 = bitlen n - bitlen d - 53;
          (a, b) = dbl_quot n d e0;
          e1 = (if a div b \<ge> 2 ^ 53 then e0 + 1 else e0)
      in max e1 (-1074))"

definition dbl_round :: "bool \<Rightarrow> int \<Rightarrow> int \<Rightarrow> lua_Number" where
  "dbl_round s n d =
     (if n = 0 then dbl_bits s 0
      else let e = dbl_round_exp n d; (a, b) = dbl_quot n d e;
               q = a div b; r = a mod b;
               q' = (if 2 * r > b \<or> (2 * r = b \<and> odd q) then q + 1 else q);
               m = (e + 1074) * 2 ^ 52 + q'
           in if m \<ge> 2047 * 2 ^ 52 then dbl_inf s else dbl_bits s m)"

section \<open>Conversions between numbers and integers\<close>

definition cast_num :: "int \<Rightarrow> lua_Number" where
  "cast_num i = dbl_round (i < 0) \<bar>i\<bar> 1"

text \<open>The integral part, rounded towards zero; \<open>None\<close> for infinities and NaN.\<close>

definition dbl_trunc :: "lua_Number \<Rightarrow> int option" where
  "dbl_trunc x =
     (if dbl_exp x = 2047 then None
      else let m = dbl_signif x; e = dbl_scale x;
               a = (if 0 \<le> e then m * 2 ^ nat e else m div 2 ^ nat (- e))
           in Some (if dbl_sign x then - a else a))"

definition INT_MIN :: int where "INT_MIN = - (2 ^ 31)"
definition INT_MAX :: int where "INT_MAX = 2 ^ 31 - 1"
definition MAX_INT :: int where "MAX_INT = INT_MAX - 2"
definition MAX_SIZET :: int where "MAX_SIZET = 2 ^ 64 - 1 - 2"

definition lua_number2int :: "lua_Number \<Rightarrow> int" where
  "lua_number2int x =
     (case dbl_trunc x of None \<Rightarrow> INT_MIN
      | Some i \<Rightarrow> if INT_MIN \<le> i \<and> i \<le> INT_MAX then i else INT_MIN)"

section \<open>Comparisons\<close>

definition luai_numeq :: "lua_Number \<Rightarrow> lua_Number \<Rightarrow> bool" where
  "luai_numeq a b \<longleftrightarrow>
     \<not> dbl_isnan a \<and> \<not> dbl_isnan b \<and> (a = b \<or> (dbl_iszero a \<and> dbl_iszero b))"

definition luai_numisnan :: "lua_Number \<Rightarrow> bool" where
  "luai_numisnan a \<longleftrightarrow> \<not> luai_numeq a a"

text \<open>Magnitudes of two doubles of the same sign order as their lower 63 bits do.\<close>

definition dbl_magn :: "lua_Number \<Rightarrow> int" where
  "dbl_magn x = (if dbl_sign x then - uint (x AND mask 63) else uint (x AND mask 63))"

definition luai_numlt :: "lua_Number \<Rightarrow> lua_Number \<Rightarrow> bool" where
  "luai_numlt a b \<longleftrightarrow> \<not> dbl_isnan a \<and> \<not> dbl_isnan b \<and> dbl_magn a < dbl_magn b"

definition luai_numle :: "lua_Number \<Rightarrow> lua_Number \<Rightarrow> bool" where
  "luai_numle a b \<longleftrightarrow> \<not> dbl_isnan a \<and> \<not> dbl_isnan b \<and> dbl_magn a \<le> dbl_magn b"

lemma luai_numisnan_iff [simp]: "luai_numisnan a \<longleftrightarrow> dbl_isnan a"
  by (auto simp: luai_numisnan_def luai_numeq_def)

lemma luai_numeq_sym: "luai_numeq a b \<longleftrightarrow> luai_numeq b a"
  by (auto simp: luai_numeq_def)

lemma luai_numeq_trans: "luai_numeq a b \<Longrightarrow> luai_numeq b c \<Longrightarrow> luai_numeq a c"
  by (auto simp: luai_numeq_def)

section \<open>Numbers as text\<close>

text \<open>
  \<^verbatim>\<open>sprintf(s, "%.14g", n)\<close>: the value, exactly, as a quotient; its decimal exponent; the
  14 significant digits, rounded to nearest even; and the shorter of the two notations.
\<close>

definition digit_char :: "int \<Rightarrow> byte" where
  "digit_char d = int2char (48 + d)"

function dec_digits :: "int \<Rightarrow> string" where
  "dec_digits n = (if n < 10 then [digit_char n] else dec_digits (n div 10) @ [digit_char (n mod 10)])"
  by pat_completeness auto
termination
  by (relation "measure nat") auto

declare dec_digits.simps [simp del]

function dec_exp_up :: "int \<Rightarrow> int \<Rightarrow> int" where
  "dec_exp_up n d = (if 0 < d \<and> 10 * d \<le> n then 1 + dec_exp_up n (10 * d) else 0)"
  by pat_completeness auto
termination
  by (relation "measure (\<lambda>(n, d). nat (n - d))") auto

function dec_exp_down :: "int \<Rightarrow> int \<Rightarrow> int" where
  "dec_exp_down n d = (if 0 < n \<and> n < d then dec_exp_down (10 * n) d - 1 else 0)"
  by pat_completeness auto
termination
  by (relation "measure (\<lambda>(n, d). nat (d - n))") auto

declare dec_exp_up.simps [simp del] dec_exp_down.simps [simp del]

definition dec_exp :: "int \<Rightarrow> int \<Rightarrow> int" where
  "dec_exp n d = (if n < d then dec_exp_down n d else dec_exp_up n d)"

definition round_half_even :: "int \<Rightarrow> int \<Rightarrow> int" where
  "round_half_even n d =
     (let q = n div d; r = n mod d
      in if 2 * r > d \<or> (2 * r = d \<and> odd q) then q + 1 else q)"

definition dec14 :: "int \<Rightarrow> int \<Rightarrow> int \<times> int" where
  "dec14 n d =
     (let x = dec_exp n d;
          m = (if x \<le> 13 then round_half_even (n * 10 ^ nat (13 - x)) d
               else round_half_even n (d * 10 ^ nat (x - 13)))
      in if m = 10 ^ 14 then (10 ^ 13, x + 1) else (m, x))"

definition strip_zeros :: "string \<Rightarrow> string" where
  "strip_zeros s = rev (dropWhile (\<lambda>c. c = CHR ''0'') (rev s))"

definition with_point :: "string \<Rightarrow> string \<Rightarrow> string" where
  "with_point a b = (if b = [] then a else a @ ''.'' @ b)"

definition format_g14 :: "int \<Rightarrow> int \<Rightarrow> string" where
  "format_g14 m x =
     (let ds = dec_digits m in
      if x < -4 \<or> 14 \<le> x then
        with_point (take 1 ds) (strip_zeros (drop 1 ds)) @ (if x < 0 then ''e-'' else ''e+'')
        @ (if \<bar>x\<bar> < 10 then ''0'' else []) @ dec_digits \<bar>x\<bar>
      else if 0 \<le> x then with_point (take (nat (x + 1)) ds) (strip_zeros (drop (nat (x + 1)) ds))
      else with_point ''0'' (strip_zeros (replicate (nat (- x - 1)) CHR ''0'' @ ds)))"

definition lua_number2str :: "lua_Number \<Rightarrow> string" where
  "lua_number2str x =
     (let s = (if dbl_sign x then ''-'' else []) in
      if dbl_isnan x then s @ ''nan''
      else if dbl_isinf x then s @ ''inf''
      else if dbl_iszero x then s @ ''0''
      else let (n, d) = (if 0 \<le> dbl_scale x then (dbl_signif x * 2 ^ nat (dbl_scale x), 1)
                         else (dbl_signif x, 2 ^ nat (- dbl_scale x)));
               (m, e) = dec14 n d
           in s @ format_g14 m e)"

section \<open>Small integers are represented exactly\<close>

lemma dbl_frac_uint: "dbl_frac x = uint x mod 2 ^ 52"
  unfolding dbl_frac_def take_bit_eq_mask [symmetric] unsigned_take_bit_eq
  by (simp only: take_bit_eq_mod)

lemma dbl_exp_uint: "dbl_exp x = uint x div 2 ^ 52 mod 2 ^ 11"
proof -
  have m: "(2047 :: lua_Number) = mask 11" by (simp add: mask_eq_exp_minus_1)
  show ?thesis
    unfolding dbl_exp_def m take_bit_eq_mask [symmetric] unsigned_take_bit_eq unsigned_drop_bit_eq
    using mod_pos_pos_trivial [of "uint x" "2 ^ 64"] uint_lt2p [of x]
    by (simp add: take_bit_eq_mod drop_bit_eq_div)
qed

lemma dbl_sign_uint: "dbl_sign x \<longleftrightarrow> 2 ^ 63 \<le> uint x"
proof -
  have "uint x < 2 ^ 64" using uint_lt2p [of x] by simp
  moreover have "bit x 63 = bit (uint x) 63"
    by (simp add: bit_uint_iff)
  then have b: "bit x 63 = odd (uint x div 2 ^ 63)"
    by (simp only: bit_iff_odd [of "uint x"])
  have "uint x div 2 ^ 63 = (if 2 ^ 63 \<le> uint x then 1 else 0)"
    using \<open>uint x < 2 ^ 64\<close> by auto
  then show ?thesis unfolding dbl_sign_def b by auto
qed

lemma dbl_fields:
  assumes "0 \<le> e" "e < 2047" "0 \<le> f" "f < 2 ^ 52"
  shows "dbl_sign (dbl_bits s (e * 2 ^ 52 + f)) = s"
    and "dbl_exp (dbl_bits s (e * 2 ^ 52 + f)) = e"
    and "dbl_frac (dbl_bits s (e * 2 ^ 52 + f)) = f"
proof -
  let ?n = "(if s then 2 ^ 63 else 0) + (e * 2 ^ 52 + f)"
  have "0 \<le> ?n \<and> ?n < 2 ^ 64" using assms by (cases s) auto
  then have u: "uint (dbl_bits s (e * 2 ^ 52 + f)) = ?n"
    unfolding dbl_bits_def uint_word_of_int_eq take_bit_eq_mod
    by (intro mod_pos_pos_trivial) simp_all
  have m: "(e * 2 ^ 52 + f) div 2 ^ 52 = e" "(e * 2 ^ 52 + f) mod 2 ^ 52 = f"
    using assms by simp_all
  have "?n = ((if s then 2 ^ 11 else 0) + e) * 2 ^ 52 + f" by (cases s) simp_all
  then have m: "?n div 2 ^ 52 = (if s then 2 ^ 11 else 0) + e" "?n mod 2 ^ 52 = f"
    using assms by simp_all
  show "dbl_sign (dbl_bits s (e * 2 ^ 52 + f)) = s"
    using assms unfolding dbl_sign_uint u by (cases s) auto
  show "dbl_exp (dbl_bits s (e * 2 ^ 52 + f)) = e"
    using assms unfolding dbl_exp_uint u m by (cases s) auto
  show "dbl_frac (dbl_bits s (e * 2 ^ 52 + f)) = f"
    unfolding dbl_frac_uint u m ..
qed

lemma bitlen_range: "0 < n \<Longrightarrow> 2 ^ nat (bitlen n - 1) \<le> n \<and> n < 2 ^ nat (bitlen n) \<and> 0 < bitlen n"
  using bitlen_bounds [of n] by (cases "bitlen n = 0") (auto simp: bitlen_eq_zero_iff bitlen_nonneg order.strict_iff_order)

text \<open>Integers below \<open>2^53\<close> in magnitude keep their value, sign and all.\<close>

lemma dbl_round_int:
  assumes "0 < n" "n < 2 ^ 53"
  defines "k \<equiv> bitlen n"
  shows "dbl_round s n 1 = dbl_bits s ((k + 1022) * 2 ^ 52 + (n * 2 ^ nat (53 - k) - 2 ^ 52))"
    and "1 \<le> k" "k \<le> 53" "2 ^ 52 \<le> n * 2 ^ nat (53 - k)" "n * 2 ^ nat (53 - k) < 2 ^ 53"
proof -
  have r: "2 ^ nat (k - 1) \<le> n" "n < 2 ^ nat k" "0 < k"
    using bitlen_range [of n] assms by (auto simp: k_def)
  have "(2::int) ^ nat (k - 1) < 2 ^ 53" using r(1) assms(2) by linarith
  then have "nat (k - 1) < 53" by (rule power_less_imp_less_exp [rotated]) simp
  then have k: "1 \<le> k" "k \<le> 53" using r(3) by auto
  then show "1 \<le> k" "k \<le> 53" by auto
  have "(2::int) ^ 52 = 2 ^ nat (k - 1) * 2 ^ nat (53 - k)"
    using k by (simp add: power_add [symmetric] nat_add_distrib [symmetric])
  also have "\<dots> \<le> n * 2 ^ nat (53 - k)" using r(1) by simp
  finally show lo: "2 ^ 52 \<le> n * 2 ^ nat (53 - k)" .
  have "n * 2 ^ nat (53 - k) < 2 ^ nat k * 2 ^ nat (53 - k)" using r(2) by simp
  also have "\<dots> = (2::int) ^ 53"
    using k by (simp add: power_add [symmetric] nat_add_distrib [symmetric])
  finally show hi: "n * 2 ^ nat (53 - k) < 2 ^ 53" .
  have b1: "bitlen (1::int) = 1" by code_simp
  have "n * 2 ^ nat (54 - k) = 2 * (n * 2 ^ nat (53 - k))"
  proof -
    have "nat (54 - k) = Suc (nat (53 - k))" using k by simp
    then show ?thesis by simp
  qed
  moreover have "(2::int) ^ 53 = 2 * 2 ^ 52" by simp
  ultimately have q0: "2 ^ 53 \<le> n * 2 ^ nat (54 - k)" using lo by linarith
  have e: "dbl_round_exp n 1 = k - 53"
    using k q0 by (simp add: dbl_round_exp_def dbl_quot_def b1 k_def [symmetric])
  have q: "dbl_quot n 1 (k - 53) = (n * 2 ^ nat (53 - k), 1)"
    using k by (cases "k = 53") (simp_all add: dbl_quot_def)
  let ?q = "n * 2 ^ nat (53 - k)"
  have m: "(k - 53 + 1074) * 2 ^ 52 + ?q = (k + 1022) * 2 ^ 52 + (?q - 2 ^ 52)"
    by (simp add: distrib_right left_diff_distrib)
  have "(k - 53 + 1074) * 2 ^ 52 + ?q < 2047 * 2 ^ 52" using k hi by simp
  then have "dbl_round s n 1 = dbl_bits s ((k - 53 + 1074) * 2 ^ 52 + ?q)"
    unfolding dbl_round_def Let_def e q using assms(1) by simp
  then show "dbl_round s n 1 = dbl_bits s ((k + 1022) * 2 ^ 52 + (?q - 2 ^ 52))"
    by (simp only: m)
qed

lemma dbl_trunc_cast_num:
  assumes "\<bar>i\<bar> < 2 ^ 53"
  shows "dbl_trunc (cast_num i) = Some i"
proof (cases "i = 0")
  case True
  have "dbl_trunc (dbl_bits False 0) = Some 0" by code_simp
  with True show ?thesis by (simp add: cast_num_def dbl_round_def)
next
  case False
  let ?n = "\<bar>i\<bar>" let ?k = "bitlen ?n" let ?s = "i < 0"
  let ?f = "?n * 2 ^ nat (53 - ?k) - 2 ^ 52"
  have n: "0 < ?n" "?n < 2 ^ 53" using False assms by auto
  note R = dbl_round_int [OF n]
  have x: "cast_num i = dbl_bits ?s ((?k + 1022) * 2 ^ 52 + ?f)"
    using R(1) by (simp add: cast_num_def)
  have "0 \<le> ?k + 1022" "?k + 1022 < 2047" "0 \<le> ?f" "?f < 2 ^ 52" using R(2-5) by auto
  note F = dbl_fields [OF this, of ?s, folded x]
  have sc: "dbl_scale (cast_num i) = ?k - 53" "dbl_signif (cast_num i) = ?n * 2 ^ nat (53 - ?k)"
    using R(2) F by (simp_all add: dbl_scale_def dbl_signif_def)
  show ?thesis
    using R(2,3) F(1,2) by (cases "?k = 53") (auto simp: dbl_trunc_def sc Let_def abs_if simp flip: mult_minus_left)
qed

lemma lua_number2int_cast_num [simp]:
  "INT_MIN \<le> i \<Longrightarrow> i \<le> INT_MAX \<Longrightarrow> lua_number2int (cast_num i) = i"
  using dbl_trunc_cast_num [of i] by (simp add: lua_number2int_def INT_MIN_def INT_MAX_def)

end
