(* ===== verification/LuaObject.thy ===== *)
theory LuaObject
  imports LuaNumber
begin

text \<open>
  \<^verbatim>\<open>lobject.h\<close> and \<^verbatim>\<open>lobject.c\<close>: tagged values and the generic functions over them.

  A \<^verbatim>\<open>TValue\<close> is a datatype with one constructor per tag.  Strings are interned
  (\<^verbatim>\<open>lstring.c\<close>), so the object a string value points to is identified with its bytes;
  tables, functions, userdata and threads are the addresses of their objects.  The tags
  \<^verbatim>\<open>LUA_TPROTO\<close> and \<^verbatim>\<open>LUA_TUPVAL\<close> never occur in a \<^verbatim>\<open>TValue\<close> of a program, and
  \<^verbatim>\<open>LUA_TDEADKEY\<close> is written only by the collector, which is not modelled.
\<close>

section \<open>Values\<close>

datatype tvalue =
    TNil
  | TBoolean bool
  | TLightUserdata nat
  | TNumber lua_Number
  | TString string
  | TTable nat
  | TFunction nat
  | TUserdata nat
  | TThread nat

fun ttype :: "tvalue \<Rightarrow> int" where
  "ttype TNil = 0"
| "ttype (TBoolean _) = 1"
| "ttype (TLightUserdata _) = 2"
| "ttype (TNumber _) = 3"
| "ttype (TString _) = 4"
| "ttype (TTable _) = 5"
| "ttype (TFunction _) = 6"
| "ttype (TUserdata _) = 7"
| "ttype (TThread _) = 8"

definition iscollectable :: "tvalue \<Rightarrow> bool" where
  "iscollectable v \<longleftrightarrow> ttype v \<ge> 4"

definition l_isfalse :: "tvalue \<Rightarrow> bool" where
  "l_isfalse v \<longleftrightarrow> v = TNil \<or> v = TBoolean False"

text \<open>\<^verbatim>\<open>luaO_rawequalObj\<close>: numbers by \<^verbatim>\<open>luai_numeq\<close>, all else by payload.\<close>

definition luaO_rawequalObj :: "tvalue \<Rightarrow> tvalue \<Rightarrow> bool" where
  "luaO_rawequalObj t1 t2 =
     (if ttype t1 \<noteq> ttype t2 then False
      else case t1 of
        TNil \<Rightarrow> True
      | TNumber a \<Rightarrow> (case t2 of TNumber b \<Rightarrow> luai_numeq a b | _ \<Rightarrow> False)
      | _ \<Rightarrow> t1 = t2)"

lemma rawequal_iff:
  "luaO_rawequalObj a b \<longleftrightarrow>
     (\<exists>m n. a = TNumber m \<and> b = TNumber n \<and> luai_numeq m n) \<or> (\<not> (\<exists>m. a = TNumber m) \<and> a = b)"
  by (cases a; cases b; simp add: luaO_rawequalObj_def)

lemma rawequal_simps [simp]:
  "luaO_rawequalObj (TNumber m) (TNumber n) = luai_numeq m n"
  "luaO_rawequalObj TNil v \<longleftrightarrow> v = TNil" "luaO_rawequalObj v TNil \<longleftrightarrow> v = TNil"
  "luaO_rawequalObj (TString s) v \<longleftrightarrow> v = TString s" "luaO_rawequalObj v (TString s) \<longleftrightarrow> v = TString s"
  by (auto simp: rawequal_iff)

lemma rawequal_sym: "luaO_rawequalObj a b \<longleftrightarrow> luaO_rawequalObj b a"
  by (auto simp: rawequal_iff luai_numeq_sym)

lemma rawequal_trans: "luaO_rawequalObj a b \<Longrightarrow> luaO_rawequalObj b c \<Longrightarrow> luaO_rawequalObj a c"
  by (auto simp: rawequal_iff intro: luai_numeq_trans)

lemma rawequal_ttype: "luaO_rawequalObj a b \<Longrightarrow> ttype a = ttype b"
  by (auto simp: rawequal_iff)

lemma rawequal_refl_iff:
  "luaO_rawequalObj a a \<longleftrightarrow> (\<forall>n. a = TNumber n \<longrightarrow> \<not> dbl_isnan n)"
  by (auto simp: rawequal_iff luai_numeq_def)

section \<open>Floating point bytes and logarithms\<close>

lemma drop1_Suc_less:
  assumes "(16::32 word) \<le> x"
  shows "unat (drop_bit 1 (x + 1)) < unat x"
proof -
  have "16 \<le> unat x" using assms by (simp add: word_le_nat_alt)
  moreover have "unat (x + 1) \<le> unat x + 1"
    by (simp add: unat_word_ariths)
  moreover have "unat (drop_bit 1 (x + 1)) = unat (x + 1) div 2"
    by (simp only: unat_drop_bit) simp
  ultimately show ?thesis by linarith
qed

function int2fb_loop :: "32 word \<Rightarrow> nat \<Rightarrow> 32 word \<times> nat" where
  "int2fb_loop x e = (if x \<ge> 16 then int2fb_loop (drop_bit 1 (x + 1)) (Suc e) else (x, e))"
  by pat_completeness auto
termination
  by (relation "measure (\<lambda>(x, e). unat x)") (auto intro: drop1_Suc_less simp: One_nat_def [symmetric] simp del: One_nat_def)

declare int2fb_loop.simps [simp del]

definition luaO_int2fb :: "32 word \<Rightarrow> int" where
  "luaO_int2fb x0 =
     (case int2fb_loop x0 0 of (x, e) \<Rightarrow>
        if x < 8 then uint x
        else (int (e + 1) * 8) OR (uint x - 8))"

definition luaO_fb2int :: "int \<Rightarrow> int" where
  "luaO_fb2int x =
     (let e = drop_bit 3 x AND 31
      in if e = 0 then x else push_bit (nat (e - 1)) ((x AND 7) + 8))"

text \<open>What the loop leaves: the rounded-up quotient by the least power of two that makes it
  fit in four bits.\<close>

lemma int2fb_loop_spec:
  "int2fb_loop x e = (y, e') \<Longrightarrow> x \<noteq> -1 \<Longrightarrow>
     \<exists>k. e' = e + k \<and> unat y = (unat x + 2 ^ k - 1) div 2 ^ k \<and> unat y \<le> 15
       \<and> (0 < k \<longrightarrow> 8 \<le> unat y \<and> 15 * 2 ^ (k - 1) < unat x)"
proof (induction x e arbitrary: y e' rule: int2fb_loop.induct)
  case (1 x e)
  show ?case
  proof (cases "x \<ge> 16")
    case False
    then have "unat x \<le> 15" by (simp add: word_le_nat_alt)
    with False "1.prems" show ?thesis by (auto simp: int2fb_loop.simps [of x e])
  next
    case True
    let ?x = "drop_bit 1 (x + 1)"
    have x16: "16 \<le> unat x" using True by (simp add: word_le_nat_alt)
    have "unat (x + 1) = unat x + 1"
      using "1.prems"(2) by (metis Suc_eq_plus1 add.commute add_eq_0_iff unatSuc)
    then have ux: "unat ?x = (unat x + 1) div 2" by (simp only: unat_drop_bit) simp
    have "unat ?x < 2 ^ 31 + 1" using ux unat_bound [of x] by simp
    moreover have "unat (-1 :: 32 word) = 2 ^ 32 - 1"
      by (simp add: unsigned_minus_1_eq_mask mask_eq_exp_minus_1)
    ultimately have "?x \<noteq> -1" by auto
    have "int2fb_loop ?x (Suc e) = (y, e')"
      using "1.prems"(1) True by (simp add: int2fb_loop.simps [of x e])
    then obtain k where k: "e' = Suc e + k" "unat y = (unat ?x + 2 ^ k - 1) div 2 ^ k"
      "unat y \<le> 15" "0 < k \<longrightarrow> 8 \<le> unat y \<and> 15 * 2 ^ (k - 1) < unat ?x"
      using "1.IH" [OF True _ \<open>?x \<noteq> -1\<close>] by blast
    have "(unat x + 2 ^ Suc k - 1) div 2 ^ Suc k = (unat x + 2 ^ Suc k - 1) div 2 div 2 ^ k"
      by (simp add: div_mult2_eq)
    also have "(unat x + 2 ^ Suc k - 1) div 2 = unat ?x + 2 ^ k - 1"
      using ux by simp
    finally have y: "unat y = (unat x + 2 ^ Suc k - 1) div 2 ^ Suc k" using k(2) by simp
    have "8 \<le> unat y \<and> 15 * 2 ^ k < unat x"
    proof (cases k)
      case 0
      then show ?thesis using k(2) ux x16 by simp
    next
      case (Suc j)
      then have "8 \<le> unat y \<and> 15 * 2 ^ j < unat ?x" using k(4) by simp
      then have "8 \<le> unat y \<and> 15 * (2 * 2 ^ j) < unat x" using ux by linarith
      then show ?thesis using Suc by simp
    qed
    with y k(1,3) show ?thesis by (intro exI [of _ "Suc k"]) simp
  qed
qed

lemma fb2int_code:
  assumes "0 \<le> m" "m < 8" "k < 31"
  shows "luaO_fb2int (int (k + 1) * 8 + m) = (m + 8) * 2 ^ k"
proof -
  have "drop_bit 3 (int (k + 1) * 8 + m) = int (k + 1)"
    using assms by (simp add: drop_bit_eq_div)
  moreover have "int (k + 1) AND 31 = int (k + 1)"
    using assms take_bit_eq_mask [of 5 "int (k + 1)"] by (simp add: mask_eq_exp_minus_1 take_bit_eq_mod)
  moreover have "(int (k + 1) * 8 + m) AND 7 = m"
  proof -
    have "(int (k + 1) * 8 + m) AND 7 = (int (k + 1) * 8 + m) mod 8"
      using take_bit_eq_mask [of 3 "int (k + 1) * 8 + m"]
      by (simp add: mask_eq_exp_minus_1 take_bit_eq_mod)
    also have "\<dots> = m" using assms by presburger
    finally show ?thesis .
  qed
  ultimately show ?thesis
    by (simp add: luaO_fb2int_def Let_def push_bit_eq_mult)
qed

lemma fb2int_small: "0 \<le> x \<Longrightarrow> x < 8 \<Longrightarrow> luaO_fb2int x = x"
  by (simp add: luaO_fb2int_def drop_bit_eq_div)

lemma fb2int_int2fb:
  assumes "x \<noteq> -1"
  obtains k where "luaO_fb2int (luaO_int2fb x) = int ((unat x + 2 ^ k - 1) div 2 ^ k * 2 ^ k)"
    and "0 < k \<longrightarrow> 15 * 2 ^ (k - 1) < unat x" and "(unat x + 2 ^ k - 1) div 2 ^ k \<le> 15"
proof -
  obtain y e where l: "int2fb_loop x 0 = (y, e)" by (cases "int2fb_loop x 0")
  from int2fb_loop_spec [OF l assms] have e: "unat y = (unat x + 2 ^ e - 1) div 2 ^ e" "unat y \<le> 15"
    "0 < e \<longrightarrow> 8 \<le> unat y \<and> 15 * 2 ^ (e - 1) < unat x" by auto
  have uy: "uint y = int (unat y)" by simp
  have "luaO_fb2int (luaO_int2fb x) = int (unat y * 2 ^ e)"
  proof (cases "y < 8")
    case True
    then have "unat y < 8" by (simp add: word_less_nat_alt)
    with e(3) have "e = 0" by (cases e) auto
    with True \<open>unat y < 8\<close> show ?thesis
      using fb2int_small [of "uint y"] by (simp add: luaO_int2fb_def l word_less_def)
  next
    case False
    then have y8: "8 \<le> unat y" by (simp add: word_less_nat_alt)
    have "e < 31"
    proof (rule ccontr)
      assume "\<not> e < 31"
      then have "(2::nat) ^ 30 \<le> 2 ^ (e - 1)" by (intro power_increasing) auto
      then show False using e(3) \<open>\<not> e < 31\<close> unat_bound [of x] by simp
    qed
    have "luaO_int2fb x = int (e + 1) * 2 ^ 3 OR (uint y - 8)"
      using False by (simp add: luaO_int2fb_def l)
    also have "\<dots> = int (e + 1) * 8 + (uint y - 8)"
      using y8 e(2) by (subst or_low_bits) (auto simp: unat_le_uint)
    finally show ?thesis
      using fb2int_code [of "uint y - 8" e] y8 e(2) \<open>e < 31\<close> by (simp add: unat_le_uint)
  qed
  with that [of e] e show thesis by simp
qed

text \<open>The static table of \<^verbatim>\<open>luaO_log2\<close>, row by row.\<close>

definition log_2 :: "int list" where
  "log_2 =
     [0,1,2,2,3,3,3,3,4,4,4,4,4,4,4,4,5,5,5,5,5,5,5,5,5,5,5,5,5,5,5,5]
     @ replicate 32 6 @ replicate 32 7 @ replicate 32 7
     @ replicate 32 8 @ replicate 32 8 @ replicate 32 8 @ replicate 32 8"

lemma drop8_less:
  assumes "(256::32 word) \<le> x"
  shows "unat (drop_bit 8 x) < unat x"
proof -
  have "256 \<le> unat x" using assms by (simp add: word_le_nat_alt)
  then show ?thesis by (simp only: unat_drop_bit) simp
qed

function log2_loop :: "32 word \<Rightarrow> int \<Rightarrow> 32 word \<times> int" where
  "log2_loop x l = (if x \<ge> 256 then log2_loop (drop_bit 8 x) (l + 8) else (x, l))"
  by pat_completeness auto
termination
  by (relation "measure (\<lambda>(x, l). unat x)") (auto intro: drop8_less)

declare log2_loop.simps [simp del]

definition luaO_log2 :: "32 word \<Rightarrow> int" where
  "luaO_log2 x0 = (case log2_loop x0 (-1) of (x, l) \<Rightarrow> l + log_2 ! unat x)"

definition ceillog2 :: "int \<Rightarrow> int" where
  "ceillog2 x = luaO_log2 (word_of_int (x - 1)) + 1"

lemma log_2_table:
  "list_all (\<lambda>(i, t). 1 \<le> t \<and> 2 ^ nat (t - 1) \<le> i \<and> i < 2 ^ nat t) (zip [1..255] (tl log_2))"
  by code_simp

lemma length_log_2: "length log_2 = 256"
  by (simp add: log_2_def)

lemma log_2_bounds:
  assumes "0 < n" "n < 256"
  shows "1 \<le> log_2 ! n \<and> 2 ^ nat (log_2 ! n - 1) \<le> int n \<and> int n < 2 ^ nat (log_2 ! n)"
proof -
  obtain k where k: "n = Suc k" "k < 255" using assms by (cases n) auto
  then have "([1..255] ! k, tl log_2 ! k) \<in> set (zip [1..255] (tl log_2))"
    by (intro in_set_zip [THEN iffD2]) (auto simp: length_log_2 intro!: exI [of _ k])
  moreover have "[1..255] ! k = int n" "tl log_2 ! k = log_2 ! n"
    using k by (simp_all add: nth_tl length_log_2)
  ultimately show ?thesis using log_2_table unfolding list_all_iff by fastforce
qed

lemma log2_loop_spec:
  "log2_loop x l = (y, l') \<Longrightarrow> \<exists>j. l' = l + 8 * int j \<and> unat y = unat x div 2 ^ (8 * j) \<and> unat y < 256
     \<and> (unat x \<noteq> 0 \<longrightarrow> unat y \<noteq> 0)"
proof (induction x l arbitrary: y l' rule: log2_loop.induct)
  case (1 x l)
  show ?case
  proof (cases "x \<ge> 256")
    case False
    then show ?thesis using "1.prems"
      by (auto simp: log2_loop.simps [of x l] word_le_nat_alt intro!: exI [of _ 0])
  next
    case True
    let ?x = "drop_bit 8 x"
    have ux: "unat ?x = unat x div 256" by (simp only: unat_drop_bit) simp
    have "log2_loop ?x (l + 8) = (y, l')" using "1.prems" True by (simp add: log2_loop.simps [of x l])
    from "1.IH" [OF True this] obtain j where j: "l' = l + 8 + 8 * int j"
      "unat y = unat ?x div 2 ^ (8 * j)" "unat y < 256" "unat ?x \<noteq> 0 \<longrightarrow> unat y \<noteq> 0" by auto
    moreover have "unat ?x \<noteq> 0" using True ux by (simp add: word_le_nat_alt)
    moreover have "unat x div 2 ^ (8 * Suc j) = unat x div 256 div 2 ^ (8 * j)"
      by (simp add: power_add flip: div_mult2_eq)
    ultimately show ?thesis using ux by (intro exI [of _ "Suc j"]) simp
  qed
qed

lemma luaO_log2_bounds:
  assumes "x \<noteq> 0"
  shows "0 \<le> luaO_log2 x" "2 ^ nat (luaO_log2 x) \<le> uint x" "uint x < 2 ^ nat (luaO_log2 x + 1)"
proof -
  obtain y l where l: "log2_loop x (-1) = (y, l)" by (cases "log2_loop x (-1)")
  have "unat x \<noteq> 0" using assms by (simp add: unat_eq_zero)
  with log2_loop_spec [OF l] obtain j where j: "l = 8 * int j - 1"
    "unat y = unat x div 2 ^ (8 * j)" "0 < unat y" "unat y < 256" by auto
  let ?t = "log_2 ! unat y"
  have t: "1 \<le> ?t" "2 ^ nat (?t - 1) \<le> uint y" "uint y < 2 ^ nat ?t"
    using log_2_bounds [of "unat y"] j(3,4) by simp_all
  have e: "luaO_log2 x = 8 * int j + (?t - 1)" by (simp add: luaO_log2_def l j(1))
  have y: "uint y = uint x div 2 ^ (8 * j)" 
    by (simp only: uint_unat j(2) zdiv_int of_nat_power of_nat_numeral)
  have p: "(2::int) ^ nat (8 * int j + (?t - 1)) = 2 ^ (8 * j) * 2 ^ nat (?t - 1)"
    "(2::int) ^ nat (8 * int j + (?t - 1) + 1) = 2 ^ (8 * j) * 2 ^ nat ?t"
    using t(1) by (simp_all add: nat_add_distrib nat_mult_distrib flip: power_add)
  show "0 \<le> luaO_log2 x" using e t(1) by simp
  have "2 ^ (8 * j) * 2 ^ nat (?t - 1) \<le> 2 ^ (8 * j) * uint y" using t(2) by simp
  also have "\<dots> \<le> uint x" unfolding y by (simp add: minus_mod_eq_mult_div [symmetric])
  finally show "2 ^ nat (luaO_log2 x) \<le> uint x" unfolding e p .
  have "uint x < 2 ^ (8 * j) * (uint y + 1)" unfolding y
    using pos_mod_bound [of "2 ^ (8 * j)" "uint x"] mult_div_mod_eq [of "2 ^ (8 * j)" "uint x"]
    by (simp only: distrib_left mult_1_right) (metis add_less_cancel_left zero_less_numeral zero_less_power)
  also have "\<dots> \<le> 2 ^ (8 * j) * 2 ^ nat ?t" using t(3) by simp
  finally show "uint x < 2 ^ nat (luaO_log2 x + 1)" unfolding e p .
qed

text \<open>\<open>ceillog2 x\<close> is the least exponent whose power of two reaches \<open>x\<close>.\<close>

lemma ceillog2_spec:
  assumes "1 \<le> x" "x \<le> 2 ^ 31"
  shows "0 \<le> ceillog2 x" and "x \<le> 2 ^ nat (ceillog2 x)" and "ceillog2 x \<le> int n \<longleftrightarrow> x \<le> 2 ^ n"
proof -
  let ?w = "word_of_int (x - 1) :: 32 word"
  have u: "uint ?w = x - 1"
    using assms unfolding uint_word_of_int_eq by (intro take_bit_int_eq_self) simp_all
  have *: "0 \<le> ceillog2 x \<and> x \<le> 2 ^ nat (ceillog2 x) \<and> (ceillog2 x \<le> int n \<longleftrightarrow> x \<le> 2 ^ n)"
  proof (cases "x = 1")
    case True
    have "luaO_log2 0 = -1" by code_simp
    with True show ?thesis by (simp add: ceillog2_def)
  next
    case False
    then have "?w \<noteq> 0" using u by auto
    note B = luaO_log2_bounds [OF this, unfolded u]
    have "ceillog2 x \<le> int n" if "x \<le> 2 ^ n"
    proof (rule ccontr)
      assume "\<not> ceillog2 x \<le> int n"
      then have "n \<le> nat (luaO_log2 ?w)" by (simp add: ceillog2_def)
      then have "(2::int) ^ n \<le> 2 ^ nat (luaO_log2 ?w)" by (rule power_increasing) simp
      with B(2) that show False by linarith
    qed
    moreover have "x \<le> 2 ^ n" if "ceillog2 x \<le> int n"
    proof -
      have "nat (luaO_log2 ?w + 1) \<le> n" using that by (simp add: ceillog2_def)
      then have "(2::int) ^ nat (luaO_log2 ?w + 1) \<le> 2 ^ n" by (rule power_increasing) simp
      with B(3) show ?thesis by linarith
    qed
    ultimately show ?thesis using B by (auto simp: ceillog2_def)
  qed
  then show "0 \<le> ceillog2 x" "x \<le> 2 ^ nat (ceillog2 x)" "ceillog2 x \<le> int n \<longleftrightarrow> x \<le> 2 ^ n"
    by auto
qed

lemma fb2int_cases:
  assumes "0 \<le> c" "c < 256"
  obtains m j where "luaO_fb2int c = m * 2 ^ j" "0 \<le> m" "m \<le> 15"
proof (cases "c < 8")
  case True
  with assms that [of c 0] show thesis by (simp add: fb2int_small)
next
  case False
  let ?k = "nat (c div 8 - 1)"
  have "1 \<le> c div 8" using False by simp
  then have "c = int (?k + 1) * 8 + c mod 8" by simp
  have "?k < 31" using assms by auto
  with \<open>c = int (?k + 1) * 8 + c mod 8\<close> have "luaO_fb2int c = (c mod 8 + 8) * 2 ^ ?k"
    using fb2int_code [of "c mod 8" ?k] by simp
  then show thesis by (rule that) (simp_all add: pos_mod_bound [THEN less_imp_le])
qed

text \<open>Rounding up to a multiple of \<open>2^k\<close> stays below every representable size above.\<close>

lemma round_up_least:
  fixes x m :: nat
  assumes "x \<le> m * 2 ^ j" "m \<le> 15" "0 < k \<longrightarrow> 15 * 2 ^ (k - 1) < x"
  shows "(x + 2 ^ k - 1) div 2 ^ k * 2 ^ k \<le> m * 2 ^ j"
proof (cases "k \<le> j")
  case True
  then have t: "m * 2 ^ j = m * 2 ^ (j - k) * 2 ^ k" by (simp flip: power_add)
  have "(x + 2 ^ k - 1) div 2 ^ k \<le> (m * 2 ^ (j - k) * 2 ^ k + 2 ^ k - 1) div 2 ^ k"
    using assms(1) unfolding t by (intro div_le_mono) simp
  also have "\<dots> = m * 2 ^ (j - k)"
  proof -
    have "m * 2 ^ (j - k) * 2 ^ k + 2 ^ k - 1 = (2 ^ k - 1) + m * 2 ^ (j - k) * 2 ^ k" by simp
    moreover have "((2 ^ k - 1) + t * 2 ^ k) div 2 ^ k = t" for t :: nat
    proof -
      have "((2 ^ k - 1) + t * 2 ^ k) div 2 ^ k = t + (2 ^ k - 1) div 2 ^ k"
        by (rule div_mult_self1) simp
      then show ?thesis by simp
    qed
    ultimately show ?thesis by (simp only:)
  qed
  finally show ?thesis unfolding t by simp
next
  case False
  then have "(2::nat) ^ j \<le> 2 ^ (k - 1)" by (intro power_increasing) auto
  then have "m * 2 ^ j \<le> 15 * 2 ^ (k - 1)" using assms(2) by (rule mult_le_mono [rotated])
  with assms(1,3) False show ?thesis by simp
qed

text \<open>
  C1.  A "floating point byte" is a safe table-size hint: for every size up to \<open>15 * 2^27\<close>
  (the largest one whose rounding fits an \<^verbatim>\<open>int\<close>), decoding what \<^verbatim>\<open>luaO_int2fb\<close> encodes gives
  at least that size, does not overflow, and no other byte decodes to a value that is
  both large enough and smaller.
\<close>

theorem luaO_int2fb_least:
  assumes "uint x \<le> 15 * 2 ^ 27"
  shows "uint x \<le> luaO_fb2int (luaO_int2fb x) \<and> luaO_fb2int (luaO_int2fb x) \<le> INT_MAX
    \<and> (\<forall>c \<in> {0..<256}. uint x \<le> luaO_fb2int c \<longrightarrow> luaO_fb2int (luaO_int2fb x) \<le> luaO_fb2int c)"
proof -
  have "x \<noteq> -1" using assms by (auto simp: unsigned_minus_1_eq_mask mask_eq_exp_minus_1)
  then obtain k where k: "luaO_fb2int (luaO_int2fb x) = int ((unat x + 2 ^ k - 1) div 2 ^ k * 2 ^ k)"
    "0 < k \<longrightarrow> 15 * 2 ^ (k - 1) < unat x" by (rule fb2int_int2fb)
  let ?r = "(unat x + 2 ^ k - 1) div 2 ^ k * 2 ^ k"
  have least: "?r \<le> m * 2 ^ j" if "unat x \<le> m * 2 ^ j" "m \<le> 15" for m j
    using round_up_least [OF that k(2)] .
  have "unat x \<le> 15 * 2 ^ 27" using assms by (simp add: unat_le_uint)
  from least [OF this] have "?r \<le> 15 * 2 ^ 27" by simp
  then have "int ?r \<le> int (15 * 2 ^ 27)" by (simp only: of_nat_le_iff)
  then have hi: "int ?r \<le> INT_MAX" by (simp add: INT_MAX_def)
  have "unat x + 2 ^ k - 1 < ?r + 2 ^ k"
  proof -
    have "(unat x + 2 ^ k - 1) mod 2 ^ k < 2 ^ k" by simp
    then show ?thesis using div_mult_mod_eq [of "unat x + 2 ^ k - 1" "2 ^ k"] by linarith
  qed
  then have "unat x \<le> ?r" by simp
  then have lo: "uint x \<le> int ?r" by (simp only: unat_le_uint)
  have "int ?r \<le> luaO_fb2int c" if c: "0 \<le> c" "c < 256" "uint x \<le> luaO_fb2int c" for c
  proof -
    obtain m j where m: "luaO_fb2int c = m * 2 ^ j" "0 \<le> m" "m \<le> 15"
      using c(1,2) by (rule fb2int_cases)
    then have e: "luaO_fb2int c = int (nat m * 2 ^ j)" by simp
    then have "unat x \<le> nat m * 2 ^ j" using c(3) by (simp only: unat_le_uint)
    from least [OF this] m(3) have "?r \<le> nat m * 2 ^ j" by simp
    then show ?thesis unfolding e by (simp only: of_nat_le_iff)
  qed
  with lo hi show ?thesis unfolding k(1) by auto
qed

theorem luaO_int2fb_least_witness:
  "uint (1000 :: 32 word) \<le> 15 * 2 ^ 27 \<and> 1000 \<le> luaO_fb2int (luaO_int2fb 1000)
   \<and> luaO_int2fb 1000 = 64"
  using luaO_int2fb_least [of 1000] by (simp, code_simp)

section \<open>Numerals\<close>

text \<open>
  \<^verbatim>\<open>strtod\<close> of C89 on a string without \<^verbatim>\<open>'\0'\<close>: leading white space, a sign, digits
  with at most one decimal point (the locale's character \<open>dp\<close>) and at least one digit, and
  an exponent if digits follow it.  The result is the number with the unread rest; with no
  numeral, the rest is the whole input, as \<^verbatim>\<open>endptr == s\<close>.
\<close>

definition digit_val :: "byte \<Rightarrow> int" where
  "digit_val c = char2int c - 48"

fun span_digits :: "int \<Rightarrow> nat \<Rightarrow> string \<Rightarrow> int \<times> nat \<times> string" where
  "span_digits acc k [] = (acc, k, [])"
| "span_digits acc k (c # cs) =
     (if isdigit (char2int c) then span_digits (10 * acc + digit_val c) (Suc k) cs
      else (acc, k, c # cs))"

definition skip_space :: "string \<Rightarrow> string" where
  "skip_space s = dropWhile (\<lambda>c. isspace (char2int c)) s"

definition read_sign :: "string \<Rightarrow> bool \<times> string" where
  "read_sign s =
     (case s of
        c # r \<Rightarrow> if c = CHR ''-'' then (True, r) else if c = CHR ''+'' then (False, r) else (False, s)
      | [] \<Rightarrow> (False, s))"

definition read_exponent :: "string \<Rightarrow> int \<times> string" where
  "read_exponent s =
     (case s of
        c # r \<Rightarrow>
          if c = CHR ''e'' \<or> c = CHR ''E'' then
            (case read_sign r of (neg, r1) \<Rightarrow>
             case span_digits 0 0 r1 of (v, k, r2) \<Rightarrow>
               if k = 0 then (0, s) else (if neg then - v else v, r2))
          else (0, s)
      | [] \<Rightarrow> (0, s))"

definition scale10 :: "bool \<Rightarrow> int \<Rightarrow> int \<Rightarrow> lua_Number" where
  "scale10 neg m e =
     (if 0 \<le> e then dbl_round neg (m * 10 ^ nat e) 1 else dbl_round neg m (10 ^ nat (- e)))"

definition strtod :: "byte \<Rightarrow> string \<Rightarrow> lua_Number \<times> string" where
  "strtod dp s =
     (case read_sign (skip_space s) of (neg, s1) \<Rightarrow>
      case span_digits 0 0 s1 of (m1, k1, s2) \<Rightarrow>
      case (case s2 of
              c # r \<Rightarrow> if c = dp then span_digits m1 0 r else (m1, 0, s2)
            | [] \<Rightarrow> (m1, 0, s2)) of (m2, k2, s3) \<Rightarrow>
        if k1 + k2 = 0 then (0, s)
        else case read_exponent s3 of (e, s4) \<Rightarrow> (scale10 neg m2 (e - int k2), s4))"

definition hex_val :: "byte \<Rightarrow> int option" where
  "hex_val c =
     (let i = char2int c in
      if isdigit i then Some (i - 48)
      else if 65 \<le> i \<and> i \<le> 70 then Some (i - 55)
      else if 97 \<le> i \<and> i \<le> 102 then Some (i - 87)
      else None)"

fun span_hex :: "int \<Rightarrow> nat \<Rightarrow> string \<Rightarrow> int \<times> nat \<times> string" where
  "span_hex acc k [] = (acc, k, [])"
| "span_hex acc k (c # cs) =
     (case hex_val c of
        Some v \<Rightarrow> span_hex (16 * acc + v) (Suc k) cs
      | None \<Rightarrow> (acc, k, c # cs))"

definition ULONG_MAX :: int where "ULONG_MAX = 2 ^ 64 - 1"

text \<open>\<^verbatim>\<open>strtoul(s, &endptr, 16)\<close>, with its optional \<^verbatim>\<open>0x\<close> and its clamping.\<close>

definition strtoul16 :: "string \<Rightarrow> int \<times> string" where
  "strtoul16 s =
     (case read_sign (skip_space s) of (neg, s1) \<Rightarrow>
      let s2 = (case s1 of
                  z # x # d # r \<Rightarrow>
                    if z = CHR ''0'' \<and> (x = CHR ''x'' \<or> x = CHR ''X'') \<and> hex_val d \<noteq> None
                    then d # r else s1
                | _ \<Rightarrow> s1)
      in case span_hex 0 0 s2 of (v, k, r) \<Rightarrow>
           if k = 0 then (0, s)
           else if v > ULONG_MAX then (ULONG_MAX, r)
           else (if neg then (- v) mod (ULONG_MAX + 1) else v, r))"

text \<open>\<^verbatim>\<open>luaO_str2d\<close>: \<open>None\<close> is the result \<^verbatim>\<open>0\<close>, "conversion failed".\<close>

definition luaO_str2d :: "byte \<Rightarrow> string \<Rightarrow> lua_Number option" where
  "luaO_str2d dp str =
     (let s = cstr str in
      case strtod dp s of (r0, e0) \<Rightarrow>
        if e0 = s then None
        else case (case e0 of
                     c # _ \<Rightarrow> if c = CHR ''x'' \<or> c = CHR ''X''
                             then (case strtoul16 s of (v, e1) \<Rightarrow> (cast_num v, e1)) else (r0, e0)
                   | [] \<Rightarrow> (r0, e0)) of (r, e) \<Rightarrow>
               if e = [] then Some r
               else if skip_space e \<noteq> [] then None else Some r)"

section \<open>Formatted messages\<close>

text \<open>
  \<^verbatim>\<open>luaO_pushvfstring\<close>: the string that the concatenation of the pushed pieces leaves.  The
  arguments are tagged with the type the caller passed; taking one at another type, or
  running past the end of the format after a trailing \<^verbatim>\<open>%\<close>, is undefined.
\<close>

datatype fmt_arg =
    FStr "string option"    \<comment> \<open>\<^verbatim>\<open>char *\<close>, possibly \<^verbatim>\<open>NULL\<close>\<close>
  | FInt int
  | FNum lua_Number
  | FPtr string             \<comment> \<open>the text \<^verbatim>\<open>%p\<close> prints for the pointer\<close>

fun pushv_step :: "byte \<Rightarrow> fmt_arg list \<Rightarrow> lua_error + string \<times> fmt_arg list" where
  "pushv_step c args =
     (if c = CHR ''s'' then
        (case args of FStr None # r \<Rightarrow> Inr (''(null)'', r) | FStr (Some s) # r \<Rightarrow> Inr (cstr s, r)
         | _ \<Rightarrow> Inl ErrFault)
      else if c = CHR ''c'' then
        (case args of FInt i # r \<Rightarrow> Inr (cstr [int2char i], r) | _ \<Rightarrow> Inl ErrFault)
      else if c = CHR ''d'' then
        (case args of FInt i # r \<Rightarrow> Inr (lua_number2str (cast_num i), r) | _ \<Rightarrow> Inl ErrFault)
      else if c = CHR ''f'' then
        (case args of FNum n # r \<Rightarrow> Inr (lua_number2str n, r) | _ \<Rightarrow> Inl ErrFault)
      else if c = CHR ''p'' then
        (case args of FPtr s # r \<Rightarrow> Inr (cstr s, r) | _ \<Rightarrow> Inl ErrFault)
      else if c = CHR ''%'' then Inr (''%'', args)
      else Inr ([CHR ''%'', c], args))"

declare pushv_step.simps [simp del]

fun luaO_pushvfstring :: "string \<Rightarrow> fmt_arg list \<Rightarrow> lua_error + string" where
  "luaO_pushvfstring [] args = Inr []"
| "luaO_pushvfstring [c] args = (if c = CHR ''%'' then Inl ErrFault else Inr [c])"
| "luaO_pushvfstring (c # d # r) args =
     (if c = CHR ''%'' then
        bindE (pushv_step d args) (\<lambda>(s, args').
        bindE (luaO_pushvfstring r args') (\<lambda>t. Inr (s @ t)))
      else bindE (luaO_pushvfstring (d # r) args) (\<lambda>t. Inr (c # t)))"

section \<open>Chunk names\<close>

text \<open>
  \<^verbatim>\<open>luaO_chunkid\<close>: the string left in \<^verbatim>\<open>out\<close>.  \<^verbatim>\<open>bufflen\<close> is a \<^verbatim>\<open>size_t\<close>, so subtracting
  the room for the decoration wraps round when it is too small.
\<close>

definition size_t_minus :: "int \<Rightarrow> int \<Rightarrow> int" where
  "size_t_minus a b = (a - b) mod 2 ^ 64"

definition is_newline :: "byte \<Rightarrow> bool" where
  "is_newline c \<longleftrightarrow> char2int c = 10 \<or> char2int c = 13"

definition chunkid_string :: "string \<Rightarrow> int \<Rightarrow> string" where
  "chunkid_string source bufflen =
     (let len0 = int (length (takeWhile (\<lambda>c. \<not> is_newline c) source));
          b = size_t_minus bufflen 17;
          len = (if len0 > b then b else len0)
      in ''[string \"''
         @ (if nat len < length source then take (nat len) source @ ''...'' else source)
         @ ''\"]'')"

definition luaO_chunkid :: "string \<Rightarrow> int \<Rightarrow> string" where
  "luaO_chunkid src bufflen =
     (let source = cstr src in
      case source of
        [] \<Rightarrow> chunkid_string source bufflen
      | c # r \<Rightarrow>
          if c = CHR ''='' then take (nat (bufflen - 1)) r
          else if c = CHR ''@'' then
            (let b = size_t_minus bufflen 8; l = int (length r)
             in if l > b then ''...'' @ drop (nat (l - b)) r else r)
          else chunkid_string source bufflen)"

lemma length_takeWhile_int: "int (length (takeWhile P xs)) \<le> int (length xs)"
  by (simp add: length_takeWhile_le)

text \<open>
  \<^verbatim>\<open>luaO_chunkid\<close> never writes past its buffer: for every source name, however long, and
  every buffer of at least 18 bytes (\<^verbatim>\<open>LUA_IDSIZE\<close> is 60, \<^verbatim>\<open>MAXSRC\<close> is 80), the string it leaves,
  with its terminating \<^verbatim>\<open>'\0'\<close>, fits in \<^verbatim>\<open>bufflen\<close> bytes, and the string holds no \<^verbatim>\<open>'\0'\<close>.
\<close>

theorem luaO_chunkid_fits:
  assumes "18 \<le> bufflen" "bufflen < 2 ^ 64"
  shows "int (length (luaO_chunkid src bufflen)) + 1 \<le> bufflen \<and> NUL \<notin> set (luaO_chunkid src bufflen)"
proof -
  let ?s = "cstr src"
  have m: "size_t_minus bufflen 8 = bufflen - 8" "size_t_minus bufflen 17 = bufflen - 17"
    using assms by (simp_all add: size_t_minus_def)
  have z: "NUL \<notin> set ?s" by simp
  have c: "NUL \<noteq> CHR ''.''" "NUL \<notin> set ''[string \"''" "NUL \<notin> set ''\"]''" "NUL \<notin> set ''...''"
    by code_simp+
  consider (eq) r where "?s = CHR ''='' # r" | (at) r where "?s = CHR ''@'' # r"
    | (str) "luaO_chunkid src bufflen = chunkid_string ?s bufflen"
    unfolding luaO_chunkid_def Let_def by (cases ?s; simp split: if_splits) metis+
  then show ?thesis
  proof cases
    case eq
    then have "luaO_chunkid src bufflen = take (nat (bufflen - 1)) r"
      by (simp add: luaO_chunkid_def Let_def)
    with assms z eq show ?thesis by (auto dest: in_set_takeD)
  next
    case at
    then have "luaO_chunkid src bufflen =
      (if int (length r) > bufflen - 8 then ''...'' @ drop (nat (int (length r) - (bufflen - 8))) r else r)"
      by (simp add: luaO_chunkid_def Let_def m)
    with assms z at c show ?thesis by (auto dest: in_set_dropD)
  next
    case str
    let ?l0 = "int (length (takeWhile (\<lambda>c. \<not> is_newline c) ?s))"
    let ?l = "if ?l0 > bufflen - 17 then bufflen - 17 else ?l0"
    have e: "luaO_chunkid src bufflen = ''[string \"''
        @ (if nat ?l < length ?s then take (nat ?l) ?s @ ''...'' else ?s) @ ''\"]''"
      unfolding str chunkid_string_def Let_def m ..
    have l: "0 \<le> ?l" "?l \<le> bufflen - 17" using assms by auto
    have n: "NUL \<notin> set (take k ?s)" for k using z by (auto dest: in_set_takeD)
    have len: "length (''[string \"'' :: string) = 9" "length (''\"]'' :: string) = 2" "length (''...'' :: string) = 3"
      by simp_all
    show ?thesis
    proof (cases "nat ?l < length ?s")
      case True
      then have r: "luaO_chunkid src bufflen = ''[string \"'' @ (take (nat ?l) ?s @ ''...'') @ ''\"]''"
        unfolding e by (simp only: if_True)
      have "int (length (take (nat ?l) ?s)) \<le> bufflen - 17" using l True by simp
      then show ?thesis using n c unfolding r set_append length_append len by auto
    next
      case False
      then have r: "luaO_chunkid src bufflen = ''[string \"'' @ ?s @ ''\"]''"
        unfolding e by (simp only: if_False)
      have "int (length ?s) \<le> bufflen - 17" using False l by linarith
      then show ?thesis using z c unfolding r set_append length_append len by auto
    qed
  qed
qed

theorem luaO_chunkid_fits_witness:
  "(18::int) \<le> 20 \<and> (20::int) < 2 ^ 64 \<and> luaO_chunkid ''=abcdefghijklmnopqrstuvw'' 20 = ''abcdefghijklmnopqrs''
   \<and> int (length (luaO_chunkid ''=abcdefghijklmnopqrstuvw'' 20)) + 1 \<le> 20"
  using luaO_chunkid_fits [of 20 "''=abcdefghijklmnopqrstuvw''"] by (simp, code_simp)

end
