(* ===== verification/LuaArith.thy ===== *)
theory LuaArith
  imports LuaObject
begin

text \<open>
  The arithmetic of numbers: the \<^verbatim>\<open>luai_num*\<close> primitives of \<^verbatim>\<open>luaconf.h\<close> on IEEE 754 doubles.
  A result is the exact rational result, rounded once by \<open>dbl_round\<close>; a NaN operand is
  returned quiet, as the SSE2 instructions do.  \<^verbatim>\<open>pow\<close> belongs to the C mathematics library,
  whose rounding is not specified, and is a parameter of the operations that use it.
\<close>

definition dbl_quiet :: "lua_Number \<Rightarrow> lua_Number" where
  "dbl_quiet x = x OR push_bit 51 1"

definition luai_numunm :: "lua_Number \<Rightarrow> lua_Number" where
  "luai_numunm x = x XOR push_bit 63 1"

text \<open>A finite double as an exact quotient.\<close>

definition dbl_num :: "lua_Number \<Rightarrow> int" where
  "dbl_num x = (if dbl_sign x then -1 else 1) * dbl_signif x * 2 ^ nat (dbl_scale x)"

definition dbl_den :: "lua_Number \<Rightarrow> int" where
  "dbl_den x = 2 ^ nat (- dbl_scale x)"

definition dbl_rat :: "bool \<Rightarrow> int \<Rightarrow> int \<Rightarrow> lua_Number" where
  "dbl_rat zero_sign n d = (if n = 0 then dbl_bits zero_sign 0 else dbl_round (n < 0) \<bar>n\<bar> d)"

definition luai_numadd :: "lua_Number \<Rightarrow> lua_Number \<Rightarrow> lua_Number" where
  "luai_numadd a b =
     (if dbl_isnan a then dbl_quiet a
      else if dbl_isnan b then dbl_quiet b
      else if dbl_isinf a then (if dbl_isinf b \<and> dbl_sign a \<noteq> dbl_sign b then dbl_nan else a)
      else if dbl_isinf b then b
      else dbl_rat (dbl_sign a \<and> dbl_sign b)
             (dbl_num a * dbl_den b + dbl_num b * dbl_den a) (dbl_den a * dbl_den b))"

definition luai_numsub :: "lua_Number \<Rightarrow> lua_Number \<Rightarrow> lua_Number" where
  "luai_numsub a b =
     (if dbl_isnan a then dbl_quiet a
      else if dbl_isnan b then dbl_quiet b
      else luai_numadd a (luai_numunm b))"

definition luai_nummul :: "lua_Number \<Rightarrow> lua_Number \<Rightarrow> lua_Number" where
  "luai_nummul a b =
     (let s = (dbl_sign a \<noteq> dbl_sign b) in
      if dbl_isnan a then dbl_quiet a
      else if dbl_isnan b then dbl_quiet b
      else if dbl_isinf a \<or> dbl_isinf b then
        (if dbl_iszero a \<or> dbl_iszero b then dbl_nan else dbl_inf s)
      else dbl_rat s (dbl_num a * dbl_num b) (dbl_den a * dbl_den b))"

definition luai_numdiv :: "lua_Number \<Rightarrow> lua_Number \<Rightarrow> lua_Number" where
  "luai_numdiv a b =
     (let s = (dbl_sign a \<noteq> dbl_sign b) in
      if dbl_isnan a then dbl_quiet a
      else if dbl_isnan b then dbl_quiet b
      else if dbl_isinf a then (if dbl_isinf b then dbl_nan else dbl_inf s)
      else if dbl_isinf b then dbl_bits s 0
      else if dbl_iszero b then (if dbl_iszero a then dbl_nan else dbl_inf s)
      else dbl_rat s (sgn (dbl_num b) * dbl_num a * dbl_den b) (\<bar>dbl_num b\<bar> * dbl_den a))"

text \<open>\<^verbatim>\<open>floor\<close> of the C library; a zero result keeps the sign of its argument.\<close>

definition dbl_floor :: "lua_Number \<Rightarrow> lua_Number" where
  "dbl_floor x =
     (if dbl_isnan x then dbl_quiet x
      else if dbl_isinf x then x
      else dbl_rat (dbl_sign x) (dbl_num x div dbl_den x) 1)"

definition luai_nummod :: "lua_Number \<Rightarrow> lua_Number \<Rightarrow> lua_Number" where
  "luai_nummod a b = luai_numsub a (luai_nummul (dbl_floor (luai_numdiv a b)) b)"

section \<open>Arithmetic on integers is exact\<close>

text \<open>An integral double below \<open>2^53\<close> in magnitude, in canonical form.\<close>

lemma dbl_cast_num:
  assumes "\<bar>i\<bar> < 2 ^ 53"
  shows "\<not> dbl_isnan (cast_num i) \<and> \<not> dbl_isinf (cast_num i) \<and> dbl_num (cast_num i) = i * dbl_den (cast_num i)
    \<and> 0 < dbl_den (cast_num i) \<and> (dbl_sign (cast_num i) \<longleftrightarrow> i < 0) \<and> (dbl_iszero (cast_num i) \<longleftrightarrow> i = 0)"
proof (cases "i = 0")
  case True
  have z: "cast_num 0 = dbl_bits False 0" by (simp add: cast_num_def dbl_round_def)
  have "\<not> dbl_isnan (dbl_bits False 0) \<and> \<not> dbl_isinf (dbl_bits False 0) \<and> dbl_num (dbl_bits False 0) = 0
    \<and> \<not> dbl_sign (dbl_bits False 0) \<and> dbl_iszero (dbl_bits False 0)" by code_simp
  with True z show ?thesis by (simp add: dbl_den_def)
next
  case False
  let ?n = "\<bar>i\<bar>" let ?k = "bitlen ?n" let ?s = "i < 0"
  let ?f = "?n * 2 ^ nat (53 - ?k) - 2 ^ 52"
  have n: "0 < ?n" "?n < 2 ^ 53" using False assms by auto
  note R = dbl_round_int [OF n]
  have x: "cast_num i = dbl_bits ?s ((?k + 1022) * 2 ^ 52 + ?f)" using R(1) by (simp add: cast_num_def)
  have "0 \<le> ?k + 1022" "?k + 1022 < 2047" "0 \<le> ?f" "?f < 2 ^ 52" using R(2-5) by auto
  note F = dbl_fields [OF this, of ?s, folded x]
  have sc: "dbl_scale (cast_num i) = ?k - 53" "dbl_signif (cast_num i) = ?n * 2 ^ nat (53 - ?k)"
    using R(2) F by (simp_all add: dbl_scale_def dbl_signif_def)
  have "dbl_num (cast_num i) = (if ?s then -1 else 1) * ?n * 2 ^ nat (53 - ?k)"
    using R(3) F(1) by (simp add: dbl_num_def sc)
  moreover have "(if ?s then -1 else 1) * ?n = i" by simp
  moreover have "dbl_den (cast_num i) = 2 ^ nat (53 - ?k)" by (simp add: dbl_den_def sc)
  moreover have "\<not> dbl_isnan (cast_num i) \<and> \<not> dbl_isinf (cast_num i) \<and> \<not> dbl_iszero (cast_num i)"
    using F R(2,3) by (auto simp: dbl_isnan_def dbl_isinf_def dbl_iszero_def)
  ultimately show ?thesis using F(1) False by simp
qed

text \<open>Rounding an integral quotient gives the integer, in any representation of the quotient.\<close>

lemma dbl_round_exact:
  assumes "0 < n" "n < 2 ^ 53"
  shows "dbl_round s (n * 2 ^ j) (2 ^ j) = dbl_round s n 1"
proof -
  have b: "bitlen (n * 2 ^ j) - bitlen (2 ^ j) = bitlen n - bitlen (1::int)"
  proof -
    have "bitlen (n * 2 ^ j) = bitlen n + int j"
      using assms(1) by (simp add: bitlen_pow2)
    moreover have "bitlen (2 ^ j :: int) = bitlen 1 + int j"
      using bitlen_pow2 [of 1 j] by simp
    ultimately show ?thesis by simp
  qed
  have q: "dbl_quot (n * 2 ^ j) (2 ^ j) e = (2 ^ j * fst (dbl_quot n 1 e), 2 ^ j * snd (dbl_quot n 1 e))" for e
    by (simp add: dbl_quot_def algebra_simps)
  have e: "dbl_round_exp (n * 2 ^ j) (2 ^ j) = dbl_round_exp n 1"
    by (simp add: dbl_round_exp_def b q Let_def split: prod.splits)
  show ?thesis
    unfolding dbl_round_def e q using assms(1)
    by (simp add: Let_def case_prod_unfold mult_mod_right [symmetric])
qed

lemma dbl_rat_exact:
  assumes "\<bar>n\<bar> < 2 ^ 53" "z \<longrightarrow> n \<noteq> 0"
  shows "dbl_rat z (n * 2 ^ j) (2 ^ j) = cast_num n"
proof (cases "n = 0")
  case True
  with assms(2) show ?thesis by (simp add: dbl_rat_def cast_num_def dbl_round_def)
next
  case False
  then have "(n * 2 ^ j < 0) = (n < 0)" "\<bar>n * 2 ^ j\<bar> = \<bar>n\<bar> * 2 ^ j" by (simp_all add: mult_less_0_iff abs_mult)
  with False dbl_round_exact [of "\<bar>n\<bar>" "n < 0" j] assms(1) show ?thesis
    by (simp add: dbl_rat_def cast_num_def)
qed

lemma dbl_den_power: "\<exists>j. dbl_den x = 2 ^ j"
  by (auto simp: dbl_den_def)

lemma numadd_int:
  assumes "\<bar>i\<bar> < 2 ^ 53" "\<bar>j\<bar> < 2 ^ 53" "\<bar>i + j\<bar> < 2 ^ 53"
  shows "luai_numadd (cast_num i) (cast_num j) = cast_num (i + j)"
proof -
  note I = dbl_cast_num [OF assms(1)] and J = dbl_cast_num [OF assms(2)]
  obtain p q where d: "dbl_den (cast_num i) = 2 ^ p" "dbl_den (cast_num j) = 2 ^ q" using dbl_den_power by metis
  have "luai_numadd (cast_num i) (cast_num j) = dbl_rat (i < 0 \<and> j < 0) ((i + j) * 2 ^ (p + q)) (2 ^ (p + q))"
    using I J by (simp add: luai_numadd_def d power_add algebra_simps)
  then show ?thesis using dbl_rat_exact [OF assms(3)] by auto
qed

lemma nummul_int:
  assumes "\<bar>i\<bar> < 2 ^ 53" "\<bar>j\<bar> < 2 ^ 53" "\<bar>i * j\<bar> < 2 ^ 53" "i = 0 \<longrightarrow> 0 \<le> j" "j = 0 \<longrightarrow> 0 \<le> i"
  shows "luai_nummul (cast_num i) (cast_num j) = cast_num (i * j)"
proof -
  note I = dbl_cast_num [OF assms(1)] and J = dbl_cast_num [OF assms(2)]
  obtain p q where d: "dbl_den (cast_num i) = 2 ^ p" "dbl_den (cast_num j) = 2 ^ q" using dbl_den_power by metis
  have "luai_nummul (cast_num i) (cast_num j) = dbl_rat ((i < 0) \<noteq> (j < 0)) ((i * j) * 2 ^ (p + q)) (2 ^ (p + q))"
    using I J by (simp add: luai_nummul_def d power_add algebra_simps)
  then show ?thesis using dbl_rat_exact [OF assms(3)] assms(4,5) by auto
qed

text \<open>
  C18. Arithmetic on integers is exact: as long as the operands and the result are below
  \<open>2^53\<close> in magnitude, adding their floating point representations gives the representation of
  the sum, and multiplying those of non-negative integers that of the product.
\<close>

theorem integer_arithmetic_exact:
  assumes "\<bar>i\<bar> < 2 ^ 53" "\<bar>j\<bar> < 2 ^ 53"
  shows "(\<bar>i + j\<bar> < 2 ^ 53 \<longrightarrow> luai_numadd (cast_num i) (cast_num j) = cast_num (i + j))
    \<and> (\<bar>i * j\<bar> < 2 ^ 53 \<and> 0 \<le> i \<and> 0 \<le> j \<longrightarrow> luai_nummul (cast_num i) (cast_num j) = cast_num (i * j))"
  using numadd_int [OF assms] nummul_int [OF assms] by auto

lemma integer_arithmetic_exact_witness:
  "luai_numadd (cast_num 123456789) (cast_num (-987654321)) = cast_num (-864197532)
   \<and> luai_nummul (cast_num 94906265) (cast_num 94906265) = cast_num 9007199136250225"
  using integer_arithmetic_exact [of 123456789 "-987654321"] integer_arithmetic_exact [of 94906265 94906265] by simp

end
