(* ===== verification/LuaString.thy ===== *)
theory LuaString
  imports LuaObject "HOL-Library.Multiset"
begin

text \<open>
  \<^verbatim>\<open>lstring.c\<close>: the table that keeps every string once.

  A string object is its header with its bytes; its address stands for the pointer the rest
  of the program compares.  The table is the array of chains \<^verbatim>\<open>strt.hash\<close>, each chain a list
  in the order of \<^verbatim>\<open>gch.next\<close>.  \<open>st_heap\<close> is the first address the allocator has not handed
  out; the allocator itself does not fail here.
\<close>

section \<open>The string table\<close>

record tstring =
  ts_addr :: nat
  ts_bytes :: string
  ts_hash :: "32 word"
  ts_reserved :: nat
  ts_marked :: "8 word"

record stringtable =
  st_hash :: "tstring list list"
  st_nuse :: "32 word"
  st_sweepstring :: bool
  st_currentwhite :: "8 word"
  st_heap :: nat

definition WHITEBITS :: "8 word" where "WHITEBITS = 3"

definition luaC_white :: "8 word \<Rightarrow> 8 word" where
  "luaC_white currentwhite = currentwhite AND WHITEBITS"

definition isdead :: "8 word \<Rightarrow> tstring \<Rightarrow> bool" where
  "isdead currentwhite ts \<longleftrightarrow> ts_marked ts AND (currentwhite XOR WHITEBITS) AND WHITEBITS \<noteq> 0"

definition changewhite :: "tstring \<Rightarrow> tstring" where
  "changewhite ts = ts\<lparr>ts_marked := ts_marked ts XOR WHITEBITS\<rparr>"

text \<open>\<^verbatim>\<open>lmod(s, size)\<close>, for a size that is a power of two.\<close>

definition lmod :: "32 word \<Rightarrow> nat \<Rightarrow> nat" where
  "lmod s n = unat (s AND (word_of_nat n - 1))"

lemma lmod_pow2:
  assumes "k \<le> 31"
  shows "lmod s (2 ^ k) = unat s mod 2 ^ k"
proof -
  have "(word_of_nat (2 ^ k) :: 32 word) - 1 = mask k"
    by (simp add: mask_eq_exp_minus_1)
  then show ?thesis
    unfolding lmod_def
    by (simp only: take_bit_eq_mask [symmetric] unsigned_take_bit_eq) (simp add: take_bit_eq_mod)
qed

lemma lmod_less: "k \<le> 31 \<Longrightarrow> lmod s (2 ^ k) < 2 ^ k"
  by (simp add: lmod_pow2)

section \<open>Hashing\<close>

text \<open>The loop \<^verbatim>\<open>for (l1=l; l1>=step; l1-=step)\<close>: \<open>step\<close> is at least one.\<close>

function hash_loop :: "string \<Rightarrow> nat \<Rightarrow> nat \<Rightarrow> 32 word \<Rightarrow> 32 word" where
  "hash_loop str step l1 h =
     (if step \<le> l1 \<and> 0 < step then
        hash_loop str step (l1 - step)
          (h XOR (push_bit 5 h + drop_bit 2 h + word_of_int (char2int (str ! (l1 - 1)))))
      else h)"
  by pat_completeness auto
termination
  by (relation "measure (\<lambda>(str, step, l1, h). l1)") auto

declare hash_loop.simps [simp del]

definition luaS_hash :: "string \<Rightarrow> 32 word" where
  "luaS_hash str =
     (let l = length str; step = l div 32 + 1
      in hash_loop str step l (word_of_nat l))"

section \<open>Growing the table\<close>

text \<open>One node moved to the head of its chain in the new array.\<close>

definition rehash_node :: "tstring \<Rightarrow> tstring list list \<Rightarrow> tstring list list" where
  "rehash_node p newhash =
     (let h1 = lmod (ts_hash p) (length newhash)
      in newhash[h1 := p # newhash ! h1])"

definition luaS_resize :: "nat \<Rightarrow> stringtable \<Rightarrow> stringtable" where
  "luaS_resize newsize tb =
     (if st_sweepstring tb then tb
      else tb\<lparr>st_hash := fold rehash_node (concat (st_hash tb)) (replicate newsize [])\<rparr>)"

section \<open>Interning\<close>

definition sizeof_TString :: int where "sizeof_TString = 24"

definition luaM_toobig :: lua_error where
  "luaM_toobig = ErrRun ''memory allocation error: block too big''"

definition newlstr :: "stringtable \<Rightarrow> string \<Rightarrow> 32 word \<Rightarrow> lua_error + tstring \<times> stringtable" where
  "newlstr tb str h =
     (if int (length str) + 1 > MAX_SIZET - sizeof_TString then Inl luaM_toobig
      else
        let ts = \<lparr>ts_addr = st_heap tb, ts_bytes = str, ts_hash = h, ts_reserved = 0,
                  ts_marked = luaC_white (st_currentwhite tb)\<rparr>;
            i = lmod h (length (st_hash tb));
            tb1 = tb\<lparr>st_heap := st_heap tb + 1, st_hash := (st_hash tb)[i := ts # st_hash tb ! i],
                     st_nuse := st_nuse tb + 1\<rparr>;
            n = length (st_hash tb1)
        in Inr (ts, if st_nuse tb1 > word_of_nat n \<and> int n \<le> MAX_INT div 2
                    then luaS_resize (n * 2) tb1 else tb1))"

text \<open>The search along a chain; a hit that the collector has condemned is revived.\<close>

fun find_string :: "8 word \<Rightarrow> string \<Rightarrow> tstring list \<Rightarrow> (tstring \<times> tstring list) option" where
  "find_string cw str [] = None"
| "find_string cw str (ts # chain) =
     (if ts_bytes ts = str then
        let ts' = (if isdead cw ts then changewhite ts else ts) in Some (ts', ts' # chain)
      else case find_string cw str chain of
             None \<Rightarrow> None
           | Some (r, chain') \<Rightarrow> Some (r, ts # chain'))"

definition luaS_newlstr :: "stringtable \<Rightarrow> string \<Rightarrow> lua_error + tstring \<times> stringtable" where
  "luaS_newlstr tb str =
     (let h = luaS_hash str; i = lmod h (length (st_hash tb))
      in case find_string (st_currentwhite tb) str (st_hash tb ! i) of
           Some (ts, chain) \<Rightarrow> Inr (ts, tb\<lparr>st_hash := (st_hash tb)[i := chain]\<rparr>)
         | None \<Rightarrow> newlstr tb str h)"

section \<open>The interning invariant\<close>

text \<open>What the rest of the program can observe of a table: which object holds which bytes.\<close>

definition interned :: "stringtable \<Rightarrow> string \<Rightarrow> nat \<Rightarrow> bool" where
  "interned tb s a \<longleftrightarrow> (\<exists>ts \<in> set (concat (st_hash tb)). ts_bytes ts = s \<and> ts_addr ts = a)"

definition strings_placed :: "tstring list list \<Rightarrow> bool" where
  "strings_placed hs \<longleftrightarrow>
     (\<forall>i < length hs. \<forall>ts \<in> set (hs ! i). ts_hash ts = luaS_hash (ts_bytes ts) \<and> i = lmod (luaS_hash (ts_bytes ts)) (length hs))"

definition strt_ok :: "stringtable \<Rightarrow> bool" where
  "strt_ok tb \<longleftrightarrow>
     (\<exists>k \<le> 31. length (st_hash tb) = 2 ^ k)
     \<and> strings_placed (st_hash tb)
     \<and> distinct (map ts_bytes (concat (st_hash tb)))
     \<and> distinct (map ts_addr (concat (st_hash tb)))
     \<and> (\<forall>ts \<in> set (concat (st_hash tb)). ts_addr ts < st_heap tb)
     \<and> st_nuse tb = word_of_nat (length (concat (st_hash tb)))
     \<and> (luaC_white (st_currentwhite tb) = 1 \<or> luaC_white (st_currentwhite tb) = 2)"

lemma mset_concat_update:
  "i < length xss \<Longrightarrow> mset (concat (xss[i := x # xss ! i])) = add_mset x (mset (concat xss))"
  by (induction xss arbitrary: i) (auto split: nat.split)

lemma mset_distinct_map: "mset xs = mset ys \<Longrightarrow> distinct (map f xs) \<longleftrightarrow> distinct (map f ys)"
  by (metis mset_eq_imp_distinct_iff mset_map)

lemma length_rehash_node [simp]: "length (rehash_node p hs) = length hs"
  by (simp add: rehash_node_def Let_def)

lemma length_fold_rehash [simp]: "length (fold rehash_node ps hs) = length hs"
  by (induction ps arbitrary: hs) simp_all

lemma strings_placed_rehash_node:
  assumes "strings_placed hs" "length hs = 2 ^ k" "k \<le> 31" "ts_hash p = luaS_hash (ts_bytes p)"
  shows "strings_placed (rehash_node p hs)" "mset (concat (rehash_node p hs)) = add_mset p (mset (concat hs))"
proof -
  have "lmod (ts_hash p) (length hs) < length hs" using assms(2,3) by (simp add: lmod_less)
  then show "strings_placed (rehash_node p hs)" "mset (concat (rehash_node p hs)) = add_mset p (mset (concat hs))"
    using assms(1,4)
    by (auto simp: rehash_node_def Let_def strings_placed_def nth_list_update mset_concat_update)
qed

lemma strings_placed_fold:
  assumes "strings_placed hs" "length hs = 2 ^ k" "k \<le> 31" "\<forall>p \<in> set ps. ts_hash p = luaS_hash (ts_bytes p)"
  shows "strings_placed (fold rehash_node ps hs) \<and>
    mset (concat (fold rehash_node ps hs)) = mset ps + mset (concat hs)"
  using assms
proof (induction ps arbitrary: hs)
  case (Cons p ps)
  then show ?case
    using strings_placed_rehash_node [of hs k p] Cons.IH [of "rehash_node p hs"] by simp
qed simp

lemma strings_placed_replicate: "strings_placed (replicate n [])"
  by (simp add: strings_placed_def)

lemma strings_placed_hash:
  "strings_placed hs \<Longrightarrow> ts \<in> set (concat hs) \<Longrightarrow> ts_hash ts = luaS_hash (ts_bytes ts)"
  unfolding strings_placed_def by (metis UN_E in_set_conv_nth set_concat)

text \<open>Resizing keeps every object where its bytes are found.\<close>

lemma luaS_resize_ok:
  assumes "strt_ok tb" "k \<le> 31"
  shows "strt_ok (luaS_resize (2 ^ k) tb)"
    and "mset (concat (st_hash (luaS_resize (2 ^ k) tb))) = mset (concat (st_hash tb))"
proof -
  have "strings_placed (st_hash tb)" using assms(1) by (simp add: strt_ok_def)
  then have "\<forall>p \<in> set (concat (st_hash tb)). ts_hash p = luaS_hash (ts_bytes p)"
    using strings_placed_hash by blast
  from strings_placed_fold [OF strings_placed_replicate _ assms(2) this, of "2 ^ k"]
  have f: "strings_placed (fold rehash_node (concat (st_hash tb)) (replicate (2 ^ k) []))"
    "mset (concat (fold rehash_node (concat (st_hash tb)) (replicate (2 ^ k) []))) = mset (concat (st_hash tb))"
    by simp_all
  show "mset (concat (st_hash (luaS_resize (2 ^ k) tb))) = mset (concat (st_hash tb))"
    using f(2) by (simp add: luaS_resize_def)
  show "strt_ok (luaS_resize (2 ^ k) tb)"
  proof (cases "st_sweepstring tb")
    case True
    with assms(1) show ?thesis by (simp add: luaS_resize_def)
  next
    case False
    note m = mset_distinct_map [OF f(2)] mset_eq_setD [OF f(2)] mset_eq_length [OF f(2)]
    show ?thesis
      using assms f(1) unfolding strt_ok_def luaS_resize_def
      by (auto simp: False m simp del: set_concat)
  qed
qed

text \<open>The search returns the one object with these bytes, if there is one.\<close>

lemma find_string_None: "find_string cw str chain = None \<longleftrightarrow> str \<notin> ts_bytes ` set chain"
  by (induction chain) (auto simp: Let_def split: option.splits)

lemma find_string_Some:
  "find_string cw str chain = Some (ts, chain') \<Longrightarrow>
     \<exists>xs ys t. chain = xs @ t # ys \<and> chain' = xs @ ts # ys \<and> ts_bytes t = str \<and>
       (ts = t \<and> \<not> isdead cw t \<or> ts = changewhite t \<and> isdead cw t)"
proof (induction chain arbitrary: chain')
  case (Cons a chain)
  show ?case
  proof (cases "ts_bytes a = str")
    case True
    with Cons.prems show ?thesis by (force simp: Let_def split: if_splits)
  next
    case False
    with Cons.prems obtain c where c: "find_string cw str chain = Some (ts, c)" "chain' = a # c"
      by (auto split: option.splits)
    from Cons.IH [OF c(1)] obtain xs ys t where "chain = xs @ t # ys" "c = xs @ ts # ys" "ts_bytes t = str"
      "ts = t \<and> \<not> isdead cw t \<or> ts = changewhite t \<and> isdead cw t" by blast
    with c(2) show ?thesis by (intro exI [of _ "a # xs"] exI [of _ ys] exI [of _ t]) simp
  qed
qed simp

lemma changewhite_fields [simp]:
  "ts_bytes (changewhite ts) = ts_bytes ts" "ts_addr (changewhite ts) = ts_addr ts"
  "ts_hash (changewhite ts) = ts_hash ts"
  by (simp_all add: changewhite_def)

lemma isdead_iff: "isdead cw ts \<longleftrightarrow> (ts_marked ts AND 3) AND ((cw AND 3) XOR 3) \<noteq> 0"
proof -
  have "ts_marked ts AND (cw XOR 3) AND 3 = (ts_marked ts AND 3) AND ((cw AND 3) XOR (3 :: 8 word))"
    by (rule bit_word_eqI) (auto simp: bit_simps)
  then show ?thesis by (simp add: isdead_def WHITEBITS_def)
qed

lemma xor_3_and_3: "(a XOR 3) AND 3 = (a AND 3) XOR (3 :: 8 word)"
  by (rule bit_word_eqI) (auto simp: bit_simps)

lemma and_3_cases: "(a AND 3 :: 8 word) \<in> {0, 1, 2, 3}"
proof -
  have "a AND 3 \<le> 3" by (rule word_and_le1)
  then have "unat (a AND 3) \<le> 3" by (simp add: word_le_nat_alt)
  then have "unat (a AND 3) \<in> {0, 1, 2, 3}" by auto
  then show ?thesis by (auto simp: word_unat_eq_iff)
qed

text \<open>A revived object is alive: flipping both bits gives it the current white.\<close>

lemma changewhite_alive:
  assumes "luaC_white cw = 1 \<or> luaC_white cw = 2" "isdead cw ts"
  shows "\<not> isdead cw (changewhite ts)"
proof -
  have "ts_marked ts AND 3 \<in> {0, 1, 2, 3}" by (rule and_3_cases)
  then show ?thesis
    using assms
    by (auto simp: isdead_iff xor_3_and_3 changewhite_def WHITEBITS_def luaC_white_def)
qed

lemma new_alive:
  "luaC_white cw = 1 \<or> luaC_white cw = 2 \<Longrightarrow> ts_marked ts = luaC_white cw \<Longrightarrow> \<not> isdead cw ts"
  by (auto simp: isdead_iff luaC_white_def WHITEBITS_def)

section \<open>Interning is a map from bytes to addresses\<close>

lemma interned_unique:
  assumes "strt_ok tb" "interned tb s a" "interned tb s' a'"
  shows "a = a' \<longleftrightarrow> s = s'"
proof -
  have "inj_on ts_bytes (set (concat (st_hash tb)))" "inj_on ts_addr (set (concat (st_hash tb)))"
    using assms(1) unfolding strt_ok_def distinct_map by blast+
  then show ?thesis
    using assms(2,3) unfolding interned_def by (metis inj_onD)
qed

lemma interned_mset:
  "mset (concat (st_hash tb)) = mset (concat (st_hash tb')) \<Longrightarrow> interned tb = interned tb'"
  using mset_eq_setD unfolding interned_def fun_eq_iff by blast

text \<open>The new object at the head of its chain, before the table grows.\<close>

definition link_string :: "stringtable \<Rightarrow> tstring \<Rightarrow> stringtable" where
  "link_string tb ts =
     (let i = lmod (ts_hash ts) (length (st_hash tb))
      in tb\<lparr>st_heap := st_heap tb + 1, st_hash := (st_hash tb)[i := ts # st_hash tb ! i],
            st_nuse := st_nuse tb + 1\<rparr>)"

lemma link_string_ok:
  assumes ok: "strt_ok tb" and new: "ts_bytes ts \<notin> ts_bytes ` set (concat (st_hash tb))"
    and ts: "ts_hash ts = luaS_hash (ts_bytes ts)" "ts_addr ts = st_heap tb"
  shows "strt_ok (link_string tb ts)"
    and "mset (concat (st_hash (link_string tb ts))) = mset (ts # concat (st_hash tb))"
proof -
  let ?n = "length (st_hash tb)" let ?i = "lmod (ts_hash ts) ?n" let ?tb = "link_string tb ts"
  obtain k where k: "k \<le> 31" "?n = 2 ^ k" using ok by (auto simp: strt_ok_def)
  then have i: "?i < ?n" by (simp add: lmod_less)
  show m: "mset (concat (st_hash ?tb)) = mset (ts # concat (st_hash tb))"
    using i by (simp add: link_string_def Let_def mset_concat_update)
  have "\<exists>k \<le> 31. length (st_hash ?tb) = 2 ^ k"
    using k by (auto simp: link_string_def Let_def)
  moreover have "strings_placed (st_hash ?tb)"
    using ok i ts by (auto simp: strt_ok_def strings_placed_def link_string_def Let_def nth_list_update)
  moreover have "distinct (map ts_bytes (concat (st_hash ?tb)))" "distinct (map ts_addr (concat (st_hash ?tb)))"
    using ok new ts unfolding mset_distinct_map [OF m] by (fastforce simp: strt_ok_def)+
  moreover have "\<forall>ts \<in> set (concat (st_hash ?tb)). ts_addr ts < st_heap ?tb"
    using ok ts unfolding mset_eq_setD [OF m] by (fastforce simp: strt_ok_def link_string_def Let_def)
  moreover have "st_nuse ?tb = word_of_nat (length (concat (st_hash ?tb)))"
    using ok unfolding mset_eq_length [OF m] by (simp add: strt_ok_def link_string_def Let_def)
  ultimately show "strt_ok ?tb"
    using ok by (simp add: strt_ok_def link_string_def Let_def)
qed

lemma newlstr_interns:
  assumes ok: "strt_ok tb" and new: "str \<notin> ts_bytes ` set (concat (st_hash tb))"
    and len: "int (length str) + 1 \<le> MAX_SIZET - sizeof_TString" and h: "h = luaS_hash str"
  obtains ts tb' where "newlstr tb str h = Inr (ts, tb')" "strt_ok tb'" "ts_bytes ts = str"
    "\<not> isdead (st_currentwhite tb') ts"
    "\<And>s a. interned tb' s a \<longleftrightarrow> interned tb s a \<or> (s = str \<and> a = ts_addr ts)"
proof -
  let ?n = "length (st_hash tb)"
  define ts where "ts = \<lparr>ts_addr = st_heap tb, ts_bytes = str, ts_hash = h, ts_reserved = 0,
                  ts_marked = luaC_white (st_currentwhite tb)\<rparr>"
  define tb1 where "tb1 = link_string tb ts"
  have ok1: "strt_ok tb1" and m: "mset (concat (st_hash tb1)) = mset (ts # concat (st_hash tb))"
    unfolding tb1_def using ok new h by (intro link_string_ok; simp add: ts_def)+
  obtain k where k: "k \<le> 31" "?n = 2 ^ k" using ok by (auto simp: strt_ok_def)
  let ?grow = "st_nuse tb1 > word_of_nat ?n \<and> int ?n \<le> MAX_INT div 2"
  define tb' where "tb' = (if ?grow then luaS_resize (?n * 2) tb1 else tb1)"
  have grown: "strt_ok tb' \<and> mset (concat (st_hash tb')) = mset (concat (st_hash tb1))"
  proof (cases ?grow)
    case True
    then have "(2::int) ^ k < 2 ^ 31" using k by (simp add: MAX_INT_def INT_MAX_def)
    then have "Suc k \<le> 31" by (metis Suc_leI one_less_numeral_iff power_less_imp_less_exp semiring_norm(76))
    from luaS_resize_ok [OF ok1 this] True k(2) show ?thesis by (simp add: tb'_def mult.commute)
  qed (auto simp: tb'_def ok1)
  have "newlstr tb str h = Inr (ts, tb')"
    using len by (simp add: newlstr_def Let_def tb'_def tb1_def ts_def link_string_def)
  moreover have "interned tb' s a \<longleftrightarrow> interned tb s a \<or> (s = str \<and> a = ts_addr ts)" for s a
    using interned_mset [of tb' tb1] grown mset_eq_setD [OF m] by (auto simp: interned_def ts_def)
  moreover have "\<not> isdead (st_currentwhite tb') ts"
    using new_alive [of "st_currentwhite tb" ts] ok
    by (simp add: tb'_def tb1_def luaS_resize_def link_string_def Let_def strt_ok_def ts_def)
  ultimately show thesis using that grown by (simp add: ts_def)
qed

text \<open>A hit changes at most the colour of one object.\<close>

lemma replace_string_ok:
  assumes ok: "strt_ok tb" and i: "i < length (st_hash tb)" and c: "st_hash tb ! i = xs @ t # ys"
    and t: "ts_bytes t' = ts_bytes t" "ts_addr t' = ts_addr t" "ts_hash t' = ts_hash t"
  shows "strt_ok (tb\<lparr>st_hash := (st_hash tb)[i := xs @ t' # ys]\<rparr>)" (is "strt_ok ?tb")
    and "interned (tb\<lparr>st_hash := (st_hash tb)[i := xs @ t' # ys]\<rparr>) = interned tb"
proof -
  have split: "st_hash tb = take i (st_hash tb) @ (xs @ t # ys) # drop (Suc i) (st_hash tb)"
    using id_take_nth_drop [OF i] c by simp
  have new: "(st_hash tb)[i := xs @ t' # ys] = take i (st_hash tb) @ (xs @ t' # ys) # drop (Suc i) (st_hash tb)"
    using i by (simp add: upd_conv_take_nth_drop)
  define A B where "A = concat (take i (st_hash tb)) @ xs" and "B = ys @ concat (drop (Suc i) (st_hash tb))"
  then have AB: "concat ((st_hash tb)[i := xs @ t' # ys]) = A @ t' # B" unfolding new by simp
  have AB': "concat (st_hash tb) = A @ t # B"
    using arg_cong [OF split, of concat] by (simp add: A_def B_def)
  show "interned ?tb = interned tb"
    by (auto simp: interned_def fun_eq_iff AB AB' t simp del: set_concat)
  have "strings_placed ((st_hash tb)[i := xs @ t' # ys])"
    using ok i c t unfolding strings_placed_def strt_ok_def
    by (auto simp: nth_list_update)
  then show "strt_ok ?tb"
    using ok by (auto simp: strt_ok_def AB AB' t simp del: set_concat)
qed

lemma luaS_newlstr_spec:
  assumes "strt_ok tb" "int (length str) + 1 \<le> MAX_SIZET - sizeof_TString"
  shows "\<exists>ts tb'. luaS_newlstr tb str = Inr (ts, tb') \<and> strt_ok tb' \<and> ts_bytes ts = str
      \<and> \<not> isdead (st_currentwhite tb') ts
      \<and> (\<forall>s a. interned tb' s a \<longleftrightarrow> interned tb s a \<or> (s = str \<and> a = ts_addr ts))"
proof -
  let ?h = "luaS_hash str" let ?i = "lmod ?h (length (st_hash tb))"
  obtain k where k: "k \<le> 31" "length (st_hash tb) = 2 ^ k" using assms(1) by (auto simp: strt_ok_def)
  then have i: "?i < length (st_hash tb)" by (simp add: lmod_less)
  show ?thesis
  proof (cases "find_string (st_currentwhite tb) str (st_hash tb ! ?i)")
    case None
    have "str \<notin> ts_bytes ` set (concat (st_hash tb))"
    proof
      assume "str \<in> ts_bytes ` set (concat (st_hash tb))"
      then obtain j ts where j: "j < length (st_hash tb)" "ts \<in> set (st_hash tb ! j)" "ts_bytes ts = str"
        by (auto simp: in_set_conv_nth [of _ "st_hash tb"])
      then have "j = ?i" using assms(1) unfolding strt_ok_def strings_placed_def by blast
      with j None show False by (auto simp: find_string_None)
    qed
    then obtain ts tb' where "newlstr tb str ?h = Inr (ts, tb')" "strt_ok tb'" "ts_bytes ts = str"
      "\<not> isdead (st_currentwhite tb') ts"
      "\<And>s a. interned tb' s a \<longleftrightarrow> interned tb s a \<or> (s = str \<and> a = ts_addr ts)"
      using newlstr_interns [OF assms(1) _ assms(2) refl] by metis
    with None show ?thesis by (simp add: luaS_newlstr_def Let_def)
  next
    case (Some r)
    obtain ts chain where r: "r = (ts, chain)" by (cases r)
    from find_string_Some [OF Some [unfolded r]] obtain xs ys t where
      c: "st_hash tb ! ?i = xs @ t # ys" "chain = xs @ ts # ys" "ts_bytes t = str"
      and ts: "ts = t \<and> \<not> isdead (st_currentwhite tb) t \<or> ts = changewhite t \<and> isdead (st_currentwhite tb) t"
      by blast
    then have f: "ts_bytes ts = ts_bytes t" "ts_addr ts = ts_addr t" "ts_hash ts = ts_hash t" by auto
    have "interned tb str (ts_addr ts)"
      using nth_mem [OF i] c f unfolding interned_def by (auto intro!: bexI [of _ t] bexI [of _ "st_hash tb ! ?i"])
    moreover have "\<not> isdead (st_currentwhite tb) ts"
      using ts changewhite_alive [of "st_currentwhite tb" t] assms(1) by (auto simp: strt_ok_def)
    ultimately show ?thesis
      using replace_string_ok [OF assms(1) i c(1) f] Some r c f by (auto simp: luaS_newlstr_def Let_def)
  qed
qed

text \<open>
  C4. Interning.  On a table in order a string that is not too long is interned without an
  error: the object returned holds its bytes and is alive, the table is in order again, every
  binding of bytes to an object is kept, and the only binding that can be new is this one.
\<close>

theorem luaS_newlstr_interns:
  assumes "strt_ok tb" "int (length str) + 1 \<le> MAX_SIZET - sizeof_TString"
  shows "\<exists>ts tb'. luaS_newlstr tb str = Inr (ts, tb') \<and> strt_ok tb' \<and> ts_bytes ts = str
      \<and> \<not> isdead (st_currentwhite tb') ts
      \<and> (\<forall>s a. interned tb' s a \<longleftrightarrow> interned tb s a \<or> (s = str \<and> a = ts_addr ts))"
  by (rule luaS_newlstr_spec [OF assms])

definition strt_demo :: stringtable where
  "strt_demo = \<lparr>st_hash = [[], []], st_nuse = 0, st_sweepstring = False, st_currentwhite = 1, st_heap = 0\<rparr>"

lemma strt_demo_ok: "strt_ok strt_demo"
proof -
  have "\<exists>k \<le> 31. Suc (Suc 0) = 2 ^ k" by (intro exI [of _ 1]) simp
  then show ?thesis
    by (auto simp: strt_ok_def strt_demo_def strings_placed_def luaC_white_def WHITEBITS_def nth_Cons split: nat.splits)
qed

lemma luaS_newlstr_interns_witness:
  "\<exists>ts tb'. luaS_newlstr strt_demo ''end'' = Inr (ts, tb') \<and> strt_ok tb' \<and> interned tb' ''end'' (ts_addr ts)"
  using luaS_newlstr_interns [OF strt_demo_ok, of "''end''"]
  by (auto simp: MAX_SIZET_def sizeof_TString_def)

text \<open>
  What interning is for: with the objects of two strings, comparing the pointers is
  comparing the bytes, however the table grew in between.
\<close>

theorem interned_pointer_equality:
  assumes "strt_ok tb" "luaS_newlstr tb s1 = Inr (t1, tb1)" "luaS_newlstr tb1 s2 = Inr (t2, tb2)"
    "int (length s1) + 1 \<le> MAX_SIZET - sizeof_TString" "int (length s2) + 1 \<le> MAX_SIZET - sizeof_TString"
  shows "ts_addr t1 = ts_addr t2 \<longleftrightarrow> s1 = s2"
proof -
  from luaS_newlstr_spec [OF assms(1,4)] assms(2)
  have 1: "strt_ok tb1" "interned tb1 s1 (ts_addr t1)" by auto
  from luaS_newlstr_spec [OF 1(1) assms(5)] assms(3) 1(2)
  have "strt_ok tb2" "interned tb2 s1 (ts_addr t1)" "interned tb2 s2 (ts_addr t2)" by auto
  then show ?thesis by (rule interned_unique)
qed

lemma interned_pointer_equality_witness:
  "\<exists>t1 tb1 t2 tb2. luaS_newlstr strt_demo ''end'' = Inr (t1, tb1) \<and> luaS_newlstr tb1 ''and'' = Inr (t2, tb2)
      \<and> ts_addr t1 \<noteq> ts_addr t2"
proof -
  have len: "int (length ''end'') + 1 \<le> MAX_SIZET - sizeof_TString" "int (length ''and'') + 1 \<le> MAX_SIZET - sizeof_TString"
    by (simp_all add: MAX_SIZET_def sizeof_TString_def)
  from luaS_newlstr_spec [OF strt_demo_ok len(1)] obtain t1 tb1
    where 1: "luaS_newlstr strt_demo ''end'' = Inr (t1, tb1)" "strt_ok tb1" by blast
  from luaS_newlstr_spec [OF 1(2) len(2)] obtain t2 tb2
    where 2: "luaS_newlstr tb1 ''and'' = Inr (t2, tb2)" by blast
  from interned_pointer_equality [OF strt_demo_ok 1(1) 2 len] 1 2 show ?thesis by auto
qed

end
