(* ===== verification/LuaTable.thy ===== *)
theory LuaTable
  imports LuaString
begin

text \<open>
  \<^verbatim>\<open>ltable.c\<close>: tables, the array part and the hash part with its internal chains.

  A node's position in \<open>t_node\<close> stands for its address, \<open>n_next\<close> for its \<^verbatim>\<open>next\<close> pointer, and
  \<open>t_lastfree\<close> for \<^verbatim>\<open>t->lastfree - t->node\<close>.  \<open>t_dummy\<close> says that \<^verbatim>\<open>t->node\<close> is the shared
  \<^verbatim>\<open>dummynode\<close>; \<open>t_node\<close> then holds that one node.  A function of the code that returns the
  address of a value returns a \<open>slot\<close> here, and the caller's assignment through the pointer is
  \<open>slot_write\<close>.  A walk along a chain may visit every node once; a longer walk would never end
  in the code, and is \<open>ErrFuel\<close> here.
\<close>

section \<open>The structure\<close>

record node =
  n_val :: tvalue
  n_key :: tvalue
  n_next :: "nat option"

record table =
  t_flags :: "8 word"
  t_lsizenode :: nat
  t_metatable :: "nat option"
  t_array :: "tvalue list"
  t_node :: "node list"
  t_dummy :: bool
  t_lastfree :: int

datatype slot =
    SNil            \<comment> \<open>\<^verbatim>\<open>luaO_nilobject\<close>\<close>
  | SArray nat      \<comment> \<open>\<^verbatim>\<open>&t->array[i]\<close>\<close>
  | SNode nat       \<comment> \<open>\<^verbatim>\<open>gval(gnode(t, i))\<close>\<close>

definition MAXBITS :: nat where "MAXBITS = 26"
definition MAXASIZE :: int where "MAXASIZE = 2 ^ MAXBITS"

definition dummynode :: node where
  "dummynode = \<lparr>n_val = TNil, n_key = TNil, n_next = None\<rparr>"

definition sizearray :: "table \<Rightarrow> nat" where
  "sizearray t = length (t_array t)"

definition sizenode :: "table \<Rightarrow> nat" where
  "sizenode t = 2 ^ t_lsizenode t"

abbreviation gnode :: "table \<Rightarrow> nat \<Rightarrow> node" where
  "gnode t i \<equiv> t_node t ! i"

definition slot_read :: "table \<Rightarrow> slot \<Rightarrow> tvalue" where
  "slot_read t s =
     (case s of SNil \<Rightarrow> TNil | SArray i \<Rightarrow> t_array t ! i | SNode i \<Rightarrow> n_val (gnode t i))"

definition node_update :: "nat \<Rightarrow> (node \<Rightarrow> node) \<Rightarrow> table \<Rightarrow> table" where
  "node_update i f t = t\<lparr>t_node := (t_node t)[i := f (t_node t ! i)]\<rparr>"

text \<open>\<^verbatim>\<open>setobj(L, slot, v)\<close>; writing the constant \<^verbatim>\<open>luaO_nilobject\<close> is a fault.\<close>

definition slot_write :: "table \<Rightarrow> slot \<Rightarrow> tvalue \<Rightarrow> lua_error + table" where
  "slot_write t s v =
     (case s of
        SNil \<Rightarrow> Inl ErrFault
      | SArray i \<Rightarrow> if i < length (t_array t) then Inr (t\<lparr>t_array := (t_array t)[i := v]\<rparr>) else Inl ErrFault
      | SNode i \<Rightarrow> if i < length (t_node t) \<and> \<not> t_dummy t
                   then Inr (node_update i (\<lambda>n. n\<lparr>n_val := v\<rparr>) t) else Inl ErrFault)"

section \<open>Main positions\<close>

text \<open>\<^verbatim>\<open>hashpow2\<close>, \<^verbatim>\<open>hashmod\<close> and \<^verbatim>\<open>IntPoint\<close>.\<close>

definition hashpow2 :: "table \<Rightarrow> 32 word \<Rightarrow> nat" where
  "hashpow2 t n = lmod n (sizenode t)"

definition hashmod :: "table \<Rightarrow> 32 word \<Rightarrow> nat" where
  "hashmod t n = unat (n mod ((word_of_nat (sizenode t) - 1) OR 1))"

definition hashpointer :: "table \<Rightarrow> nat \<Rightarrow> nat" where
  "hashpointer t p = hashmod t (word_of_nat p)"

text \<open>The two halves of the number's representation, added modulo \<open>2^32\<close>.\<close>

definition hashnum :: "table \<Rightarrow> lua_Number \<Rightarrow> nat" where
  "hashnum t n =
     (if luai_numeq n (cast_num 0) then 0
      else hashmod t (ucast n + ucast (drop_bit 32 n)))"

definition mainposition :: "table \<Rightarrow> tvalue \<Rightarrow> nat" where
  "mainposition t key =
     (case key of
        TNumber n \<Rightarrow> hashnum t n
      | TString s \<Rightarrow> hashpow2 t (luaS_hash s)
      | TBoolean b \<Rightarrow> hashpow2 t (if b then 1 else 0)
      | TLightUserdata p \<Rightarrow> hashpointer t p
      | TTable p \<Rightarrow> hashpointer t p
      | TFunction p \<Rightarrow> hashpointer t p
      | TUserdata p \<Rightarrow> hashpointer t p
      | TThread p \<Rightarrow> hashpointer t p
      | TNil \<Rightarrow> hashpointer t 0)"

definition arrayindex :: "tvalue \<Rightarrow> int" where
  "arrayindex key =
     (case key of
        TNumber n \<Rightarrow> (let k = lua_number2int n in if luai_numeq (cast_num k) n then k else -1)
      | _ \<Rightarrow> -1)"

section \<open>Searching\<close>

text \<open>
  \<^verbatim>\<open>do { if (P(n)) return ...; else n = gnext(n); } while (n)\<close>: the position of the first node
  of the chain from \<open>i\<close> that satisfies \<open>P\<close>.
\<close>

fun chain_find :: "nat \<Rightarrow> (node \<Rightarrow> bool) \<Rightarrow> node list \<Rightarrow> nat \<Rightarrow> lua_error + nat option" where
  "chain_find 0 P ns i = Inl ErrFuel"
| "chain_find (Suc fuel) P ns i =
     (if i \<ge> length ns then Inl ErrFault
      else if P (ns ! i) then Inr (Some i)
      else case n_next (ns ! i) of None \<Rightarrow> Inr None | Some j \<Rightarrow> chain_find fuel P ns j)"

definition search :: "table \<Rightarrow> nat \<Rightarrow> (node \<Rightarrow> bool) \<Rightarrow> lua_error + slot" where
  "search t mp P =
     bindE (chain_find (length (t_node t)) P (t_node t) mp)
       (\<lambda>r. Inr (case r of None \<Rightarrow> SNil | Some i \<Rightarrow> SNode i))"

definition key_is_num :: "lua_Number \<Rightarrow> node \<Rightarrow> bool" where
  "key_is_num nk n \<longleftrightarrow> (case n_key n of TNumber m \<Rightarrow> luai_numeq m nk | _ \<Rightarrow> False)"

definition luaH_getnum :: "table \<Rightarrow> int \<Rightarrow> lua_error + slot" where
  "luaH_getnum t key =
     (if 1 \<le> key \<and> key \<le> int (sizearray t) then Inr (SArray (nat (key - 1)))
      else let nk = cast_num key in search t (hashnum t nk) (key_is_num nk))"

definition luaH_getstr :: "table \<Rightarrow> string \<Rightarrow> lua_error + slot" where
  "luaH_getstr t key = search t (hashpow2 t (luaS_hash key)) (\<lambda>n. n_key n = TString key)"

definition get_generic :: "table \<Rightarrow> tvalue \<Rightarrow> lua_error + slot" where
  "get_generic t key = search t (mainposition t key) (\<lambda>n. luaO_rawequalObj (n_key n) key)"

definition luaH_get :: "table \<Rightarrow> tvalue \<Rightarrow> lua_error + slot" where
  "luaH_get t key =
     (case key of
        TNil \<Rightarrow> Inr SNil
      | TString s \<Rightarrow> luaH_getstr t s
      | TNumber n \<Rightarrow>
          let k = lua_number2int n in
          if luai_numeq (cast_num k) n then luaH_getnum t k else get_generic t key
      | _ \<Rightarrow> get_generic t key)"

section \<open>Traversal\<close>

definition findindex :: "table \<Rightarrow> tvalue \<Rightarrow> lua_error + int" where
  "findindex t key =
     (if key = TNil then Inr (-1)
      else let i = arrayindex key in
        if 0 < i \<and> i \<le> int (sizearray t) then Inr (i - 1)
        else bindE (get_generic t key) (\<lambda>s.
          case s of SNode n \<Rightarrow> Inr (int n + int (sizearray t))
          | _ \<Rightarrow> Inl (ErrRun (''invalid key to '' @ [CHR 0x27] @ ''next'' @ [CHR 0x27]))))"

text \<open>The two \<^verbatim>\<open>for\<close> loops of \<^verbatim>\<open>luaH_next\<close>, over the array part and over the node part.\<close>

fun next_array :: "nat \<Rightarrow> tvalue list \<Rightarrow> (tvalue \<times> tvalue) option" where
  "next_array i [] = None"
| "next_array i (v # vs) =
     (if v \<noteq> TNil then Some (TNumber (cast_num (int i + 1)), v) else next_array (Suc i) vs)"

fun next_node :: "node list \<Rightarrow> (tvalue \<times> tvalue) option" where
  "next_node [] = None"
| "next_node (n # ns) = (if n_val n \<noteq> TNil then Some (n_key n, n_val n) else next_node ns)"

definition luaH_next :: "table \<Rightarrow> tvalue \<Rightarrow> lua_error + (tvalue \<times> tvalue) option" where
  "luaH_next t key =
     bindE (findindex t key) (\<lambda>i0.
     let i = nat (i0 + 1) in
     case next_array i (drop i (t_array t)) of
       Some r \<Rightarrow> Inr (Some r)
     | None \<Rightarrow> Inr (next_node (drop (max i (sizearray t) - sizearray t) (t_node t))))"

section \<open>Counting keys\<close>

text \<open>
  \<^verbatim>\<open>computesizes\<close>: the loop state is \<open>i\<close>, \<open>twotoi\<close>, \<open>a\<close>, \<open>na\<close>, \<open>n\<close>; the result is the new
  \<^verbatim>\<open>*narray\<close> and \<^verbatim>\<open>na\<close>.  An index past the end of \<open>nums\<close> is a fault.
\<close>

function computesizes_loop ::
    "int list \<Rightarrow> int \<Rightarrow> nat \<Rightarrow> int \<Rightarrow> int \<Rightarrow> int \<Rightarrow> int \<Rightarrow> lua_error + int \<times> int" where
  "computesizes_loop nums narray i twotoi a na n =
     (if twotoi div 2 < narray \<and> 0 < twotoi then
        if i \<ge> length nums then Inl ErrFault
        else
          let c = nums ! i;
              a' = (if c > 0 then a + c else a);
              big = c > 0 \<and> a' > twotoi div 2;
              n' = (if big then twotoi else n);
              na' = (if big then a' else na)
          in if a' = narray then Inr (n', na')
             else computesizes_loop nums narray (Suc i) (twotoi * 2) a' na' n'
      else Inr (n, na))"
  by pat_completeness auto
termination
  by (relation "measure (\<lambda>(nums, narray, i, twotoi, a, na, n). length nums - i)") auto

declare computesizes_loop.simps [simp del]

definition computesizes :: "int list \<Rightarrow> int \<Rightarrow> lua_error + int \<times> int" where
  "computesizes nums narray = computesizes_loop nums narray 0 1 0 0 0"

definition nums_add :: "nat \<Rightarrow> int \<Rightarrow> int list \<Rightarrow> int list" where
  "nums_add i c nums = nums[i := nums ! i + c]"

text \<open>\<^verbatim>\<open>countint\<close>: the number of keys counted, and the new counters.\<close>

definition countint :: "tvalue \<Rightarrow> int list \<Rightarrow> int \<times> int list" where
  "countint key nums =
     (let k = arrayindex key in
      if 0 < k \<and> k \<le> MAXASIZE then (1, nums_add (nat (ceillog2 k)) 1 nums) else (0, nums))"

text \<open>The slices of \<^verbatim>\<open>numusearray\<close>: \<open>i\<close> is the first index not counted yet (from 1).\<close>

definition count_used :: "tvalue list \<Rightarrow> int" where
  "count_used vs = int (length (filter (\<lambda>v. v \<noteq> TNil) vs))"

function numusearray_loop ::
    "tvalue list \<Rightarrow> nat \<Rightarrow> nat \<Rightarrow> nat \<Rightarrow> int \<Rightarrow> int list \<Rightarrow> int \<times> int list" where
  "numusearray_loop arr lg ttlg i ause nums =
     (if lg > MAXBITS then (ause, nums)
      else
        let lim = min ttlg (length arr) in
        if ttlg > length arr \<and> i > lim then (ause, nums)
        else
          let lc = count_used (drop (i - 1) (take lim arr))
          in numusearray_loop arr (lg + 1) (ttlg * 2) (max i (lim + 1)) (ause + lc) (nums_add lg lc nums))"
  by pat_completeness auto
termination
  by (relation "measure (\<lambda>(arr, lg, ttlg, i, ause, nums). Suc MAXBITS - lg)") auto

declare numusearray_loop.simps [simp del]

definition numusearray :: "table \<Rightarrow> int list \<Rightarrow> int \<times> int list" where
  "numusearray t nums = numusearray_loop (t_array t) 0 1 1 0 nums"

text \<open>\<^verbatim>\<open>while (i--)\<close> from the last node down: total of used nodes, those with array keys, counters.\<close>

definition numusehash_node :: "node \<Rightarrow> int \<times> int \<times> int list \<Rightarrow> int \<times> int \<times> int list" where
  "numusehash_node n st =
     (case st of (totaluse, ause, nums) \<Rightarrow>
        if n_val n \<noteq> TNil then
          (case countint (n_key n) nums of (c, nums') \<Rightarrow> (totaluse + 1, ause + c, nums'))
        else (totaluse, ause, nums))"

definition numusehash :: "table \<Rightarrow> int list \<Rightarrow> int \<times> int \<times> int list" where
  "numusehash t nums = fold numusehash_node (rev (t_node t)) (0, 0, nums)"

section \<open>Sizing the parts\<close>

definition setarrayvector :: "table \<Rightarrow> nat \<Rightarrow> table" where
  "setarrayvector t n =
     t\<lparr>t_array := take n (t_array t) @ replicate (n - length (t_array t)) TNil\<rparr>"

definition setnodevector :: "table \<Rightarrow> int \<Rightarrow> lua_error + table" where
  "setnodevector t n =
     (if n = 0 then
        Inr (t\<lparr>t_node := [dummynode], t_dummy := True, t_lsizenode := 0, t_lastfree := 0\<rparr>)
      else
        let lsize = ceillog2 n in
        if lsize > int MAXBITS then Inl (ErrRun ''table overflow'')
        else
          let sz = 2 ^ nat lsize in
          Inr (t\<lparr>t_node := replicate sz dummynode, t_dummy := False,
                 t_lsizenode := nat lsize, t_lastfree := int sz\<rparr>))"

definition luaH_new :: "nat \<Rightarrow> int \<Rightarrow> lua_error + table" where
  "luaH_new narray nhash =
     setnodevector
       (setarrayvector
          \<lparr>t_flags = -1, t_lsizenode = 0, t_metatable = None, t_array = [],
           t_node = [dummynode], t_dummy = True, t_lastfree = 0\<rparr> narray) nhash"

section \<open>Inserting keys\<close>

text \<open>\<^verbatim>\<open>while (t->lastfree-- > t->node)\<close>: the test reads the old value, the body the new one.\<close>

function getfreepos :: "table \<Rightarrow> nat option \<times> table" where
  "getfreepos t =
     (let t' = t\<lparr>t_lastfree := t_lastfree t - 1\<rparr> in
      if t_lastfree t > 0 then
        if n_key (gnode t' (nat (t_lastfree t'))) = TNil then (Some (nat (t_lastfree t')), t')
        else getfreepos t'
      else (None, t'))"
  by pat_completeness auto
termination
  by (relation "measure (\<lambda>t. nat (t_lastfree t))") auto

declare getfreepos.simps [simp del]

text \<open>\<^verbatim>\<open>while (gnext(othern) != mp) othern = gnext(othern)\<close>\<close>

fun find_previous :: "nat \<Rightarrow> node list \<Rightarrow> nat \<Rightarrow> nat \<Rightarrow> lua_error + nat" where
  "find_previous 0 ns mp i = Inl ErrFuel"
| "find_previous (Suc fuel) ns mp i =
     (if n_next (ns ! i) = Some mp then Inr i
      else case n_next (ns ! i) of None \<Rightarrow> Inl ErrFault | Some j \<Rightarrow> find_previous fuel ns mp j)"

text \<open>The new key at its final position.\<close>

definition put_key :: "nat \<Rightarrow> tvalue \<Rightarrow> table \<Rightarrow> lua_error + slot \<times> table" where
  "put_key mp key t = Inr (SNode mp, node_update mp (\<lambda>n. n\<lparr>n_key := key\<rparr>) t)"

text \<open>\<^verbatim>\<open>newkey\<close> once \<^verbatim>\<open>getfreepos\<close> has found \<open>n\<close>.\<close>

definition newkey_collide :: "table \<Rightarrow> tvalue \<Rightarrow> nat \<Rightarrow> nat \<Rightarrow> lua_error + slot \<times> table" where
  "newkey_collide t key mp n =
     (let othern = mainposition t (n_key (gnode t mp)) in
      if othern \<noteq> mp then
        bindE (find_previous (length (t_node t)) (t_node t) mp othern) (\<lambda>prev.
        let t1 = node_update prev (\<lambda>x. x\<lparr>n_next := Some n\<rparr>) t;
            t2 = node_update n (\<lambda>x. gnode t1 mp) t1;
            t3 = node_update mp (\<lambda>x. x\<lparr>n_next := None, n_val := TNil\<rparr>) t2
        in put_key mp key t3)
      else
        let t1 = node_update n (\<lambda>x. x\<lparr>n_next := n_next (gnode t mp)\<rparr>) t;
            t2 = node_update mp (\<lambda>x. x\<lparr>n_next := Some n\<rparr>) t1
        in put_key n key t2)"

text \<open>\<^verbatim>\<open>newkey\<close>; \<open>grow\<close> is what it does when no position is free.\<close>

definition newkey_with ::
    "(table \<Rightarrow> tvalue \<Rightarrow> lua_error + slot \<times> table) \<Rightarrow> table \<Rightarrow> tvalue \<Rightarrow> lua_error + slot \<times> table" where
  "newkey_with grow t key =
     (let mp = mainposition t key in
      if mp \<ge> length (t_node t) then Inl ErrFault
      else if n_val (gnode t mp) \<noteq> TNil \<or> t_dummy t then
        (case getfreepos t of
           (None, t1) \<Rightarrow> grow t1 key
         | (Some n, t1) \<Rightarrow> newkey_collide t1 key mp n)
      else put_key mp key t)"

definition luaH_set_with ::
    "(table \<Rightarrow> tvalue \<Rightarrow> lua_error + slot \<times> table) \<Rightarrow> table \<Rightarrow> tvalue \<Rightarrow> lua_error + slot \<times> table" where
  "luaH_set_with grow t key =
     bindE (luaH_get t key) (\<lambda>p.
     let t1 = t\<lparr>t_flags := 0\<rparr> in
     if p \<noteq> SNil then Inr (p, t1)
     else if key = TNil then Inl (ErrRun ''table index is nil'')
     else if (case key of TNumber n \<Rightarrow> luai_numisnan n | _ \<Rightarrow> False) then Inl (ErrRun ''table index is NaN'')
     else newkey_with grow t1 key)"

definition luaH_setnum_with ::
    "(table \<Rightarrow> tvalue \<Rightarrow> lua_error + slot \<times> table) \<Rightarrow> table \<Rightarrow> int \<Rightarrow> lua_error + slot \<times> table" where
  "luaH_setnum_with grow t key =
     bindE (luaH_getnum t key) (\<lambda>p.
     if p \<noteq> SNil then Inr (p, t) else newkey_with grow t (TNumber (cast_num key)))"

definition luaH_setstr_with ::
    "(table \<Rightarrow> tvalue \<Rightarrow> lua_error + slot \<times> table) \<Rightarrow> table \<Rightarrow> string \<Rightarrow> lua_error + slot \<times> table" where
  "luaH_setstr_with grow t key =
     bindE (luaH_getstr t key) (\<lambda>p.
     if p \<noteq> SNil then Inr (p, t) else newkey_with grow t (TString key))"

section \<open>Rehashing\<close>

text \<open>The two re-insertion loops of \<^verbatim>\<open>resize\<close>, given the insertion they call.\<close>

fun reinsert_array ::
    "(table \<Rightarrow> int \<Rightarrow> lua_error + slot \<times> table) \<Rightarrow> nat \<Rightarrow> tvalue list \<Rightarrow> table \<Rightarrow> lua_error + table" where
  "reinsert_array setnum i [] t = Inr t"
| "reinsert_array setnum i (v # vs) t =
     (if v \<noteq> TNil then
        bindE (setnum t (int i + 1)) (\<lambda>(s, t1). bindE (slot_write t1 s v) (\<lambda>t2.
        reinsert_array setnum (Suc i) vs t2))
      else reinsert_array setnum (Suc i) vs t)"

fun reinsert_nodes ::
    "(table \<Rightarrow> tvalue \<Rightarrow> lua_error + slot \<times> table) \<Rightarrow> node list \<Rightarrow> table \<Rightarrow> lua_error + table" where
  "reinsert_nodes setk [] t = Inr t"
| "reinsert_nodes setk (n # ns) t =
     (if n_val n \<noteq> TNil then
        bindE (setk t (n_key n)) (\<lambda>(s, t1). bindE (slot_write t1 s (n_val n)) (\<lambda>t2.
        reinsert_nodes setk ns t2))
      else reinsert_nodes setk ns t)"

definition resize_with ::
    "(table \<Rightarrow> tvalue \<Rightarrow> lua_error + slot \<times> table) \<Rightarrow> table \<Rightarrow> nat \<Rightarrow> int \<Rightarrow> lua_error + table" where
  "resize_with grow t nasize nhsize =
     (let oldasize = sizearray t;
          nold = t_node t;
          t1 = (if nasize > oldasize then setarrayvector t nasize else t) in
      bindE (setnodevector t1 nhsize) (\<lambda>t2.
      bindE (if nasize < oldasize then
               reinsert_array (luaH_setnum_with grow) nasize (drop nasize (t_array t2))
                 (t2\<lparr>t_array := take nasize (t_array t2)\<rparr>)
             else Inr t2) (\<lambda>t3.
      reinsert_nodes (luaH_set_with grow) (rev nold) t3)))"

definition rehash_with ::
    "(table \<Rightarrow> tvalue \<Rightarrow> lua_error + slot \<times> table) \<Rightarrow> table \<Rightarrow> tvalue \<Rightarrow> lua_error + table" where
  "rehash_with grow t ek =
     (case numusearray t (replicate (MAXBITS + 1) 0) of (nasize1, nums1) \<Rightarrow>
      case numusehash t nums1 of (totaluse, ause, nums2) \<Rightarrow>
      case countint ek nums2 of (c, nums3) \<Rightarrow>
      bindE (computesizes nums3 (nasize1 + ause + c)) (\<lambda>(nasize, na).
      resize_with grow t (nat nasize) (nasize1 + totaluse + 1 - na)))"

text \<open>
  The recursion \<^verbatim>\<open>newkey\<close> -- \<^verbatim>\<open>rehash\<close> -- \<^verbatim>\<open>resize\<close> -- \<^verbatim>\<open>luaH_set\<close> -- \<^verbatim>\<open>newkey\<close>, by its depth.  The
  insertions of a \<^verbatim>\<open>resize\<close> never find the table full, so one level is enough; a deeper
  recursion is \<open>ErrFuel\<close>.
\<close>

fun grow :: "nat \<Rightarrow> table \<Rightarrow> tvalue \<Rightarrow> lua_error + slot \<times> table" where
  "grow 0 t key = Inl ErrFuel"
| "grow (Suc depth) t key =
     bindE (rehash_with (grow depth) t key) (\<lambda>t1. luaH_set_with (grow depth) t1 key)"

definition newkey :: "table \<Rightarrow> tvalue \<Rightarrow> lua_error + slot \<times> table" where
  "newkey = newkey_with (grow 1)"

definition luaH_set :: "table \<Rightarrow> tvalue \<Rightarrow> lua_error + slot \<times> table" where
  "luaH_set = luaH_set_with (grow 1)"

definition luaH_setnum :: "table \<Rightarrow> int \<Rightarrow> lua_error + slot \<times> table" where
  "luaH_setnum = luaH_setnum_with (grow 1)"

definition luaH_setstr :: "table \<Rightarrow> string \<Rightarrow> lua_error + slot \<times> table" where
  "luaH_setstr = luaH_setstr_with (grow 1)"

text \<open>A \<^verbatim>\<open>resize\<close> that had to grow the table again would be a second level.\<close>

definition resize :: "table \<Rightarrow> nat \<Rightarrow> int \<Rightarrow> lua_error + table" where
  "resize = resize_with (grow 0)"

definition luaH_resizearray :: "table \<Rightarrow> nat \<Rightarrow> lua_error + table" where
  "luaH_resizearray t nasize = resize t nasize (if t_dummy t then 0 else int (sizenode t))"

section \<open>The border\<close>

definition getnum_value :: "table \<Rightarrow> int \<Rightarrow> lua_error + tvalue" where
  "getnum_value t j = bindE (luaH_getnum t j) (\<lambda>s. Inr (slot_read t s))"

text \<open>\<^verbatim>\<open>while (j - i > 1)\<close> of \<^verbatim>\<open>unbound_search\<close>, on \<^verbatim>\<open>unsigned int\<close>s that do not wrap.\<close>

function border_binary :: "table \<Rightarrow> int \<Rightarrow> int \<Rightarrow> lua_error + int" where
  "border_binary t i j =
     (if j - i > 1 then
        let m = (i + j) div 2 in
        bindE (getnum_value t m) (\<lambda>v. if v = TNil then border_binary t i m else border_binary t m j)
      else Inr i)"
  by pat_completeness auto
termination
  by (relation "measure (\<lambda>(t, i, j). nat (j - i))") auto

declare border_binary.simps [simp del]

text \<open>The linear search; counting past \<^verbatim>\<open>INT_MAX\<close> would be undefined.\<close>

function border_linear :: "table \<Rightarrow> int \<Rightarrow> lua_error + int" where
  "border_linear t i =
     (if i > INT_MAX then Inl ErrFault
      else bindE (getnum_value t i) (\<lambda>v. if v \<noteq> TNil then border_linear t (i + 1) else Inr (i - 1)))"
  by pat_completeness auto
termination
  by (relation "measure (\<lambda>(t, i). nat (INT_MAX + 1 - i))") auto

declare border_linear.simps [simp del]

function unbound_double :: "table \<Rightarrow> int \<Rightarrow> int \<Rightarrow> lua_error + int" where
  "unbound_double t i j =
     bindE (getnum_value t j) (\<lambda>v.
     if v \<noteq> TNil then
       (if j * 2 > MAX_INT then border_linear t 1
        else if j \<le> 0 then Inl ErrFault else unbound_double t j (j * 2))
     else border_binary t i j)"
  by pat_completeness auto
termination
  by (relation "measure (\<lambda>(t, i, j). nat (MAX_INT - j))") auto

declare unbound_double.simps [simp del]

definition unbound_search :: "table \<Rightarrow> int \<Rightarrow> lua_error + int" where
  "unbound_search t j = unbound_double t j (j + 1)"

function array_border :: "tvalue list \<Rightarrow> nat \<Rightarrow> nat \<Rightarrow> nat" where
  "array_border arr i j =
     (if j - i > 1 then
        let m = (i + j) div 2 in
        if arr ! (m - 1) = TNil then array_border arr i m else array_border arr m j
      else i)"
  by pat_completeness auto
termination
  by (relation "measure (\<lambda>(arr, i, j). j - i)") auto

declare array_border.simps [simp del]

definition luaH_getn :: "table \<Rightarrow> lua_error + int" where
  "luaH_getn t =
     (let j = sizearray t in
      if j > 0 \<and> t_array t ! (j - 1) = TNil then Inr (int (array_border (t_array t) 0 j))
      else if t_dummy t then Inr (int j)
      else unbound_search t (int j))"

end
