(* ===== verification/LuaTableInv.thy ===== *)
theory LuaTableInv
  imports LuaTable
begin

text \<open>
  The invariant of tables (\<^verbatim>\<open>ltable.c\<close>): the chains of the hash part have no cycle and no
  two predecessors, every key is found from its main position, and the main position of every
  key holds a key that belongs there.  Searching is shown to end and to be right; insertion is
  shown to keep the invariant.
\<close>

section \<open>Chains\<close>

definition next_edge :: "node list \<Rightarrow> (nat \<times> nat) set" where
  "next_edge ns = {(i, j). i < length ns \<and> n_next (ns ! i) = Some j}"

lemma next_edge_iff: "(i, j) \<in> next_edge ns \<longleftrightarrow> i < length ns \<and> n_next (ns ! i) = Some j"
  by (simp add: next_edge_def)

definition chains_ok :: "node list \<Rightarrow> bool" where
  "chains_ok ns \<longleftrightarrow>
     (\<forall>i j. (i, j) \<in> next_edge ns \<longrightarrow> j < length ns)
     \<and> (\<forall>i i' j. (i, j) \<in> next_edge ns \<longrightarrow> (i', j) \<in> next_edge ns \<longrightarrow> i = i')
     \<and> (\<exists>rank :: nat \<Rightarrow> nat. \<forall>i j. (i, j) \<in> next_edge ns \<longrightarrow> rank j < rank i)"

definition reach :: "node list \<Rightarrow> nat \<Rightarrow> nat set" where
  "reach ns i = {j. (i, j) \<in> (next_edge ns)\<^sup>*}"

lemma reach_refl [simp]: "i \<in> reach ns i"
  by (simp add: reach_def)

lemma reach_trans: "j \<in> reach ns i \<Longrightarrow> k \<in> reach ns j \<Longrightarrow> k \<in> reach ns i"
  by (auto simp: reach_def)

lemma reach_step: "(i, j) \<in> next_edge ns \<Longrightarrow> k \<in> reach ns j \<Longrightarrow> k \<in> reach ns i"
  by (auto simp: reach_def)

lemma reach_unfold:
  "i < length ns \<Longrightarrow> reach ns i = insert i (case n_next (ns ! i) of None \<Rightarrow> {} | Some j \<Rightarrow> reach ns j)"
  by (auto simp: reach_def next_edge_iff elim: converse_rtranclE split: option.splits
      intro: converse_rtrancl_into_rtrancl)

lemma reach_less:
  assumes "chains_ok ns" "i < length ns" "j \<in> reach ns i"
  shows "j < length ns"
proof -
  have "(i, j) \<in> (next_edge ns)\<^sup>*" using assms(3) by (simp add: reach_def)
  then show ?thesis
    by (induction rule: rtrancl_induct) (use assms in \<open>auto simp: chains_ok_def\<close>)
qed

lemma reach_rank:
  assumes "\<And>i j. (i, j) \<in> next_edge ns \<Longrightarrow> rank j < (rank i :: nat)" "j \<in> reach ns i"
  shows "j = i \<or> rank j < rank i"
proof -
  have "(i, j) \<in> (next_edge ns)\<^sup>*" using assms(2) by (simp add: reach_def)
  then show ?thesis
    by (induction rule: rtrancl_induct) (use assms(1) in \<open>auto dest: less_trans\<close>)
qed

lemma reach_card:
  assumes "chains_ok ns" "i < length ns" "n_next (ns ! i) = Some j"
  shows "card (reach ns j) < card (reach ns i)" and "i \<notin> reach ns j"
proof -
  have e: "(i, j) \<in> next_edge ns" using assms by (simp add: next_edge_iff)
  obtain rank :: "nat \<Rightarrow> nat" where rank: "\<And>i j. (i, j) \<in> next_edge ns \<Longrightarrow> rank j < rank i"
    using assms(1) unfolding chains_ok_def by blast
  show ni: "i \<notin> reach ns j"
    using reach_rank [of ns rank i j, OF rank] rank [OF e] by auto
  have "reach ns i \<subseteq> {..< length ns}"
    using reach_less [OF assms(1,2)] by blast
  then have "finite (reach ns i)" by (rule finite_subset) simp
  moreover have "reach ns j \<subset> reach ns i"
    using ni reach_step [OF e] by auto
  ultimately show "card (reach ns j) < card (reach ns i)" by (rule psubset_card_mono)
qed

lemma reach_card_le: "chains_ok ns \<Longrightarrow> i < length ns \<Longrightarrow> card (reach ns i) \<le> length ns"
  using card_mono [of "{..< length ns}" "reach ns i"] reach_less [of ns i] by auto

text \<open>A walk of at most \<open>length ns\<close> nodes covers its chain.\<close>

lemma chain_find_spec:
  assumes "chains_ok ns" "i < length ns" "card (reach ns i) \<le> fuel"
  shows "(\<exists>j \<in> reach ns i. P (ns ! j) \<and> chain_find fuel P ns i = Inr (Some j))
    \<or> (\<forall>j \<in> reach ns i. \<not> P (ns ! j)) \<and> chain_find fuel P ns i = Inr None"
  using assms(2,3)
proof (induction fuel arbitrary: i)
  case 0
  have "finite (reach ns i)"
    using reach_less [OF assms(1) "0.prems"(1)] by (auto intro: finite_subset [of _ "{..< length ns}"])
  with 0 show ?case by (metis card_0_eq empty_iff le_zero_eq reach_refl)
next
  case (Suc fuel)
  show ?case
  proof (cases "n_next (ns ! i)")
    case None
    with Suc.prems show ?thesis by (simp add: reach_unfold)
  next
    case (Some j)
    then have j: "j < length ns" "card (reach ns j) < card (reach ns i)"
      using assms(1) Suc.prems reach_card by (auto simp: chains_ok_def next_edge_iff)
    with Suc.IH [of j] Suc.prems Some show ?thesis by (auto simp: reach_unfold [of i])
  qed
qed

lemma chain_find_length:
  assumes "chains_ok ns" "i < length ns"
  obtains j where "j \<in> reach ns i" "P (ns ! j)" "chain_find (length ns) P ns i = Inr (Some j)"
    | "\<forall>j \<in> reach ns i. \<not> P (ns ! j)" "chain_find (length ns) P ns i = Inr None"
  using chain_find_spec [OF assms reach_card_le [OF assms], of P] by blast

lemma find_previous_spec:
  assumes "chains_ok ns" "i < length ns" "card (reach ns i) \<le> fuel" "mp \<in> reach ns i" "mp \<noteq> i"
  shows "\<exists>p \<in> reach ns i. n_next (ns ! p) = Some mp \<and> p < length ns \<and> find_previous fuel ns mp i = Inr p"
  using assms(2-)
proof (induction fuel arbitrary: i)
  case 0
  have "finite (reach ns i)"
    using reach_less [OF assms(1) "0.prems"(1)] by (auto intro: finite_subset [of _ "{..< length ns}"])
  with 0 show ?case by (metis card_0_eq empty_iff le_zero_eq reach_refl)
next
  case (Suc fuel)
  from Suc.prems obtain j where j: "n_next (ns ! i) = Some j" "mp \<in> reach ns j"
    by (auto simp: reach_unfold [of i] split: option.splits)
  show ?case
  proof (cases "j = mp")
    case True
    with j Suc.prems show ?thesis by (intro bexI [of _ i]) auto
  next
    case False
    have jl: "j < length ns" "card (reach ns j) < card (reach ns i)"
      using assms(1) Suc.prems j reach_card by (auto simp: chains_ok_def next_edge_iff)
    with Suc.IH [of j] Suc.prems j False obtain p where
      "p \<in> reach ns j" "n_next (ns ! p) = Some mp" "p < length ns" "find_previous fuel ns mp j = Inr p" by auto
    with j False Suc.prems show ?thesis by (intro bexI [of _ p]) (auto simp: reach_unfold [of i])
  qed
qed

section \<open>Main positions\<close>

lemma hashmod_less:
  assumes "t_lsizenode t \<le> 31"
  shows "hashmod t n < sizenode t"
proof (cases "t_lsizenode t = 0")
  case True
  then show ?thesis by (simp add: hashmod_def sizenode_def)
next
  case False
  let ?k = "t_lsizenode t"
  have m: "(word_of_nat (sizenode t) - 1 :: 32 word) = mask ?k"
    by (simp add: sizenode_def mask_eq_exp_minus_1)
  moreover have "mask ?k OR (1 :: 32 word) = mask ?k"
    using False by (intro bit_word_eqI) (auto simp: bit_simps)
  moreover have "(mask ?k :: 32 word) \<noteq> 0" using False by simp
  ultimately have "unat (n mod (mask ?k :: 32 word)) < unat (mask ?k :: 32 word)"
    unfolding unat_mod_distrib by (intro mod_less_divisor) (simp add: unat_gt_0)
  also have "mask ?k = take_bit ?k (-1 :: 32 word)" by simp
  also have "unat (take_bit ?k (-1 :: 32 word)) \<le> 2 ^ ?k - 1"
    unfolding unsigned_take_bit_eq using take_bit_nat_less_exp [of ?k "unat (-1 :: 32 word)"] by linarith
  finally show ?thesis using \<open>mask ?k OR 1 = mask ?k\<close> m by (simp add: hashmod_def sizenode_def)
qed

lemma mainposition_less:
  assumes "t_lsizenode t \<le> 31"
  shows "mainposition t key < sizenode t"
proof -
  have "0 < sizenode t" by (simp add: sizenode_def)
  moreover have "hashpow2 t n < sizenode t" for n
    using lmod_less [OF assms, of n] by (simp add: hashpow2_def sizenode_def)
  ultimately show ?thesis
    using hashmod_less [OF assms]
    by (auto simp: mainposition_def hashnum_def hashpointer_def split: tvalue.splits)
qed

lemma luai_numeq_zero: "luai_numeq n (cast_num 0) \<longleftrightarrow> dbl_iszero n"
proof -
  have "\<not> dbl_isnan (cast_num 0)" "dbl_iszero (cast_num 0)" by code_simp+
  then show ?thesis by (auto simp: luai_numeq_def dbl_iszero_def dbl_isnan_def)
qed

lemma mainposition_cong:
  assumes "luaO_rawequalObj a b"
  shows "mainposition t a = mainposition t b"
proof -
  have "luai_numeq m n \<Longrightarrow> hashnum t m = hashnum t n" for m n
    by (auto simp: hashnum_def luai_numeq_zero) (auto simp: luai_numeq_def)
  then show ?thesis using assms by (auto simp: rawequal_iff mainposition_def)
qed

text \<open>The main position depends on the node vector's size alone.\<close>

lemma mainposition_lsizenode:
  "t_lsizenode t = t_lsizenode t' \<Longrightarrow> mainposition t = mainposition t'"
  by (simp add: mainposition_def fun_eq_iff hashnum_def hashpow2_def hashmod_def hashpointer_def sizenode_def
      split: tvalue.split)

section \<open>Integer keys\<close>

lemma lua_number2int_range: "INT_MIN \<le> lua_number2int n" "lua_number2int n \<le> INT_MAX"
  by (auto simp: lua_number2int_def INT_MIN_def INT_MAX_def split: option.splits)

lemma dbl_zero_trunc: "dbl_iszero n \<Longrightarrow> dbl_trunc n = Some 0"
  by (simp add: dbl_iszero_def dbl_trunc_def dbl_signif_def dbl_scale_def)

lemma numeq_number2int: "luai_numeq a b \<Longrightarrow> lua_number2int a = lua_number2int b"
  by (auto simp: luai_numeq_def lua_number2int_def dbl_zero_trunc)

lemma cast_num_not_nan:
  assumes "INT_MIN \<le> i" "i \<le> INT_MAX"
  shows "\<not> dbl_isnan (cast_num i)"
proof -
  have "dbl_trunc (cast_num i) = Some i"
    using assms by (intro dbl_trunc_cast_num) (auto simp: INT_MIN_def INT_MAX_def)
  then show ?thesis by (auto simp: dbl_trunc_def dbl_isnan_def split: if_splits)
qed

lemma luai_numeq_refl_int [simp]:
  "INT_MIN \<le> i \<Longrightarrow> i \<le> INT_MAX \<Longrightarrow> luai_numeq (cast_num i) (cast_num i)"
  using cast_num_not_nan by (simp add: luai_numeq_def)

lemma arrayindex_range: "INT_MIN \<le> arrayindex k" "arrayindex k \<le> INT_MAX"
proof -
  have "INT_MIN \<le> -1" "-1 \<le> INT_MAX" by (simp_all add: INT_MIN_def INT_MAX_def)
  then show "INT_MIN \<le> arrayindex k" "arrayindex k \<le> INT_MAX"
    by (auto simp: arrayindex_def Let_def lua_number2int_range split: tvalue.split)
qed

text \<open>A positive array index is exactly a key equal to that integer.\<close>

lemma arrayindex_iff:
  assumes "0 < i" "i \<le> INT_MAX"
  shows "arrayindex k = i \<longleftrightarrow> luaO_rawequalObj (TNumber (cast_num i)) k"
proof
  assume "arrayindex k = i"
  then show "luaO_rawequalObj (TNumber (cast_num i)) k"
    using assms by (auto simp: arrayindex_def Let_def split: tvalue.splits if_splits)
next
  assume "luaO_rawequalObj (TNumber (cast_num i)) k"
  then obtain n where n: "k = TNumber n" "luai_numeq (cast_num i) n" by (auto simp: rawequal_iff)
  have "lua_number2int (cast_num i) = i"
    using assms by (intro lua_number2int_cast_num) (simp_all add: INT_MIN_def)
  then have "lua_number2int n = i" using numeq_number2int [OF n(2)] by simp
  with n show "arrayindex k = i" by (simp add: arrayindex_def)
qed

lemma arrayindex_cong: "luaO_rawequalObj a b \<Longrightarrow> arrayindex a = arrayindex b"
proof (cases "0 < arrayindex a")
  case True
  assume e: "luaO_rawequalObj a b"
  have "luaO_rawequalObj (TNumber (cast_num (arrayindex a))) a"
    using arrayindex_iff [OF True arrayindex_range(2), of a] by simp
  then have "luaO_rawequalObj (TNumber (cast_num (arrayindex a))) b" using e by (rule rawequal_trans)
  then show ?thesis using arrayindex_iff [OF True arrayindex_range(2), of b] by simp
next
  case False
  assume e: "luaO_rawequalObj a b"
  have z: "luai_numeq m n \<Longrightarrow> luai_numeq k m \<Longrightarrow> luai_numeq k n" for k m n
    using luai_numeq_trans by blast
  from e show ?thesis
    by (auto simp: rawequal_iff arrayindex_def Let_def numeq_number2int dest: z z [OF luai_numeq_sym [THEN iffD1]])
qed

lemma arrayindex_num: "0 < i \<Longrightarrow> i \<le> INT_MAX \<Longrightarrow> arrayindex (TNumber (cast_num i)) = i"
  using arrayindex_iff [of i "TNumber (cast_num i)"] by (simp add: INT_MIN_def)

section \<open>The invariant\<close>

definition in_array :: "table \<Rightarrow> tvalue \<Rightarrow> bool" where
  "in_array t key \<longleftrightarrow> 1 \<le> arrayindex key \<and> arrayindex key \<le> int (sizearray t)"

definition node_ok :: "table \<Rightarrow> nat \<Rightarrow> bool" where
  "node_ok t i \<longleftrightarrow>
     (let n = gnode t i; mp = mainposition t (n_key n) in
      (\<forall>j. n_next n = Some j \<longrightarrow> n_key (gnode t j) \<noteq> TNil)
      \<and> (if n_key n = TNil then n_val n = TNil \<and> n_next n = None
         else luaO_rawequalObj (n_key n) (n_key n) \<and> \<not> in_array t (n_key n)
              \<and> i \<in> reach (t_node t) mp \<and> n_key (gnode t mp) \<noteq> TNil
              \<and> mainposition t (n_key (gnode t mp)) = mp))"

definition nodes_ok :: "table \<Rightarrow> bool" where
  "nodes_ok t \<longleftrightarrow>
     t_lsizenode t \<le> MAXBITS \<and> length (t_node t) = sizenode t \<and> chains_ok (t_node t)
     \<and> (\<forall>i < length (t_node t). node_ok t i)
     \<and> (\<forall>i < length (t_node t). \<forall>j < length (t_node t).
          luaO_rawequalObj (n_key (gnode t i)) (n_key (gnode t j)) \<longrightarrow> n_key (gnode t i) \<noteq> TNil \<longrightarrow> i = j)"

definition free_ok :: "table \<Rightarrow> bool" where
  "free_ok t \<longleftrightarrow> t_lastfree t \<le> int (length (t_node t)) \<and>
     (\<forall>i < length (t_node t). t_lastfree t \<le> int i \<longrightarrow> n_key (gnode t i) \<noteq> TNil)"

definition table_ok :: "table \<Rightarrow> bool" where
  "table_ok t \<longleftrightarrow> nodes_ok t \<and> int (sizearray t) \<le> MAXASIZE
     \<and> (if t_dummy t then t_node t = [dummynode] \<and> t_lastfree t \<le> 0 else free_ok t)"

text \<open>The reference for searching: a scan of the nodes in memory order, no hashing, no chains.\<close>

definition scan :: "table \<Rightarrow> tvalue \<Rightarrow> slot" where
  "scan t key =
     (if key = TNil then SNil
      else if in_array t key then SArray (nat (arrayindex key - 1))
      else case find (\<lambda>i. luaO_rawequalObj (n_key (gnode t i)) key) [0 ..< length (t_node t)] of
             None \<Rightarrow> SNil | Some i \<Rightarrow> SNode i)"

definition lookup :: "table \<Rightarrow> tvalue \<Rightarrow> tvalue" where
  "lookup t key = slot_read t (scan t key)"

lemma mp_less: "nodes_ok t \<Longrightarrow> mainposition t key < length (t_node t)"
  using mainposition_less [of t key] by (simp add: nodes_ok_def MAXBITS_def)

lemma nodes_ok_unique:
  "nodes_ok t \<Longrightarrow> i < length (t_node t) \<Longrightarrow> j < length (t_node t) \<Longrightarrow>
    luaO_rawequalObj (n_key (gnode t i)) key \<Longrightarrow> luaO_rawequalObj (n_key (gnode t j)) key \<Longrightarrow> key \<noteq> TNil \<Longrightarrow> i = j"
proof -
  assume a: "nodes_ok t" "i < length (t_node t)" "j < length (t_node t)"
    "luaO_rawequalObj (n_key (gnode t i)) key" "luaO_rawequalObj (n_key (gnode t j)) key" "key \<noteq> TNil"
  then have "luaO_rawequalObj (n_key (gnode t i)) (n_key (gnode t j))"
    by (intro rawequal_trans [OF a(4)]) (simp add: rawequal_sym)
  moreover have "n_key (gnode t i) \<noteq> TNil" using a(4,6) by auto
  ultimately show ?thesis using a(1-3) by (simp add: nodes_ok_def)
qed

lemma scan_SNode:
  assumes "nodes_ok t" "key \<noteq> TNil" "\<not> in_array t key" "i < length (t_node t)"
    "luaO_rawequalObj (n_key (gnode t i)) key"
  shows "scan t key = SNode i"
proof -
  have "find (\<lambda>i. luaO_rawequalObj (n_key (gnode t i)) key) [0 ..< length (t_node t)] \<noteq> None"
    using assms(4,5) by (auto simp: find_None_iff)
  then obtain j where j: "find (\<lambda>i. luaO_rawequalObj (n_key (gnode t i)) key) [0 ..< length (t_node t)] = Some j"
    by auto
  then have "j < length (t_node t)" "luaO_rawequalObj (n_key (gnode t j)) key"
    by (auto simp: find_Some_iff)
  with nodes_ok_unique [OF assms(1)] assms have "j = i" by blast
  with j assms show ?thesis by (simp add: scan_def)
qed

lemma scan_SNil:
  "key \<noteq> TNil \<Longrightarrow> \<not> in_array t key \<Longrightarrow>
    \<forall>i < length (t_node t). \<not> luaO_rawequalObj (n_key (gnode t i)) key \<Longrightarrow> scan t key = SNil"
  by (simp add: scan_def find_None_iff [THEN iffD2] split: option.split)

lemma scan_cases [consumes 1, case_names nil array node none]:
  assumes "nodes_ok t"
  obtains "key = TNil" "scan t key = SNil"
    | "key \<noteq> TNil" "in_array t key" "scan t key = SArray (nat (arrayindex key - 1))"
        "nat (arrayindex key - 1) < length (t_array t)"
    | i where "key \<noteq> TNil" "\<not> in_array t key" "i < length (t_node t)"
        "luaO_rawequalObj (n_key (gnode t i)) key" "scan t key = SNode i"
    | "key \<noteq> TNil" "\<not> in_array t key" "scan t key = SNil"
        "\<forall>i < length (t_node t). \<not> luaO_rawequalObj (n_key (gnode t i)) key"
proof (cases "key = TNil")
  case True
  then show thesis using that(1) by (simp add: scan_def)
next
  case False
  show thesis
  proof (cases "in_array t key")
    case True
    then show thesis using that(2) False by (auto simp: scan_def in_array_def sizearray_def)
  next
    case no: False
    show thesis
    proof (cases "\<exists>i < length (t_node t). luaO_rawequalObj (n_key (gnode t i)) key")
      case True
      then show thesis using that(3) scan_SNode [OF assms False no] False no by blast
    next
      case none: False
      then show thesis using that(4) scan_SNil [OF False no] False no by blast
    qed
  qed
qed

section \<open>Searching is the scan\<close>

lemma search_spec:
  assumes ok: "nodes_ok t" and key: "key \<noteq> TNil" "\<not> in_array t key"
    and P: "\<And>n. P n \<longleftrightarrow> luaO_rawequalObj (n_key n) key"
  shows "search t (mainposition t key) P = Inr (scan t key)"
proof -
  let ?mp = "mainposition t key"
  have c: "chains_ok (t_node t)" and mp: "?mp < length (t_node t)"
    using ok mp_less by (simp_all add: nodes_ok_def)
  show ?thesis
  proof (rule chain_find_length [OF c mp, of P])
    fix j assume j: "j \<in> reach (t_node t) ?mp" "P (gnode t j)"
      "chain_find (length (t_node t)) P (t_node t) ?mp = Inr (Some j)"
    then show ?thesis
      using scan_SNode [OF ok key reach_less [OF c mp j(1)]] P by (simp add: search_def)
  next
    assume none: "\<forall>j \<in> reach (t_node t) ?mp. \<not> P (gnode t j)"
      and r: "chain_find (length (t_node t)) P (t_node t) ?mp = Inr None"
    have "\<not> luaO_rawequalObj (n_key (gnode t i)) key" if i: "i < length (t_node t)" for i
    proof
      assume e: "luaO_rawequalObj (n_key (gnode t i)) key"
      then have "n_key (gnode t i) \<noteq> TNil" using key(1) by auto
      then have "i \<in> reach (t_node t) (mainposition t (n_key (gnode t i)))"
        using ok i by (auto simp: nodes_ok_def node_ok_def Let_def)
      then show False using none e P mainposition_cong [OF e] by simp
    qed
    then show ?thesis using scan_SNil [OF key] r by (simp add: search_def)
  qed
qed

lemma get_generic_spec:
  "nodes_ok t \<Longrightarrow> key \<noteq> TNil \<Longrightarrow> \<not> in_array t key \<Longrightarrow> get_generic t key = Inr (scan t key)"
  unfolding get_generic_def by (rule search_spec) simp_all

lemma luaH_getstr_spec: "nodes_ok t \<Longrightarrow> luaH_getstr t s = Inr (scan t (TString s))"
proof -
  assume ok: "nodes_ok t"
  have "hashpow2 t (luaS_hash s) = mainposition t (TString s)" by (simp add: mainposition_def)
  then show ?thesis
    unfolding luaH_getstr_def
    by (auto intro!: search_spec [OF ok] simp: in_array_def arrayindex_def)
qed

lemma luaH_getnum_spec:
  assumes "nodes_ok t" "INT_MIN \<le> k" "k \<le> INT_MAX" "sizearray t \<le> 2 ^ 26"
  shows "luaH_getnum t k = Inr (scan t (TNumber (cast_num k)))"
proof -
  let ?key = "TNumber (cast_num k)"
  have ai: "arrayindex ?key = k" using assms(2,3) by (simp add: arrayindex_def)
  show ?thesis
  proof (cases "1 \<le> k \<and> k \<le> int (sizearray t)")
    case True
    then show ?thesis using ai by (simp add: luaH_getnum_def scan_def in_array_def)
  next
    case False
    then have "\<not> in_array t ?key" using ai by (simp add: in_array_def)
    moreover have "key_is_num (cast_num k) n \<longleftrightarrow> luaO_rawequalObj (n_key n) ?key" for n
      by (cases "n_key n") (simp_all add: key_is_num_def luaO_rawequalObj_def)
    moreover have "hashnum t (cast_num k) = mainposition t ?key" by (simp add: mainposition_def)
    ultimately show ?thesis
      using False search_spec [OF assms(1), of ?key "key_is_num (cast_num k)"]
      by (auto simp: luaH_getnum_def Let_def)
  qed
qed

lemma scan_cong:
  assumes "nodes_ok t" "luaO_rawequalObj a b"
  shows "scan t a = scan t b"
proof -
  have "luaO_rawequalObj x a \<longleftrightarrow> luaO_rawequalObj x b" for x
    using assms(2) rawequal_trans rawequal_sym by metis
  then show ?thesis
    using assms(2) arrayindex_cong [OF assms(2)]
    by (cases "a = TNil") (auto simp: scan_def in_array_def)
qed

lemma luaH_get_spec:
  assumes "nodes_ok t" "sizearray t \<le> 2 ^ 26"
  shows "luaH_get t key = Inr (scan t key)"
proof (cases key)
  case (TNumber n)
  show ?thesis
  proof (cases "luai_numeq (cast_num (lua_number2int n)) n")
    case True
    have "luaH_getnum t (lua_number2int n) = Inr (scan t (TNumber (cast_num (lua_number2int n))))"
      using luaH_getnum_spec [OF assms(1) lua_number2int_range assms(2)] .
    with True TNumber show ?thesis
      using scan_cong [OF assms(1), of "TNumber (cast_num (lua_number2int n))" key] by (simp add: luaH_get_def)
  next
    case False
    with TNumber have "\<not> in_array t key" by (simp add: in_array_def arrayindex_def)
    with False TNumber show ?thesis using get_generic_spec [OF assms(1)] by (simp add: luaH_get_def)
  qed
qed (use luaH_getstr_spec [OF assms(1)] get_generic_spec [OF assms(1), of key]
    in \<open>auto simp: luaH_get_def in_array_def arrayindex_def scan_def\<close>)

section \<open>Changing a chain\<close>

text \<open>A free node \<open>n\<close> is linked in right behind \<open>mp\<close>.\<close>

definition chain_inserted :: "node list \<Rightarrow> node list \<Rightarrow> nat \<Rightarrow> nat \<Rightarrow> bool" where
  "chain_inserted ns ns' mp n \<longleftrightarrow>
     chains_ok ns \<and> length ns' = length ns \<and> mp < length ns \<and> n < length ns \<and> n \<noteq> mp
     \<and> n_next (ns ! n) = None \<and> (\<forall>i. (i, n) \<notin> next_edge ns)
     \<and> (\<forall>i < length ns. n_next (ns' ! i) =
          (if i = mp then Some n else if i = n then n_next (ns ! mp) else n_next (ns ! i)))"

lemma chain_insertedD:
  assumes "chain_inserted ns ns' mp n"
  shows "chains_ok ns" "length ns' = length ns" "mp < length ns" "n < length ns" "n \<noteq> mp"
    "n_next (ns ! n) = None" "\<And>i. (i, n) \<notin> next_edge ns"
    "\<And>i. i < length ns \<Longrightarrow> n_next (ns' ! i) =
          (if i = mp then Some n else if i = n then n_next (ns ! mp) else n_next (ns ! i))"
  using assms by (auto simp: chain_inserted_def)


lemma chain_inserted_edge:
  assumes I: "chain_inserted ns ns' mp n"
  shows "(i, j) \<in> next_edge ns' \<longleftrightarrow>
    (i = mp \<and> j = n) \<or> (i = n \<and> (mp, j) \<in> next_edge ns) \<or> (i \<noteq> mp \<and> i \<noteq> n \<and> (i, j) \<in> next_edge ns)"
  using chain_insertedD(2-5,8) [OF I] by (auto simp: next_edge_iff split: if_splits)

lemma chain_inserted_ok:
  assumes I: "chain_inserted ns ns' mp n"
  shows "chains_ok ns'"
proof -
  note ok = chain_insertedD(1) [OF I] and len = chain_insertedD(2) [OF I] and mp = chain_insertedD(3) [OF I]
    and n = chain_insertedD(4,5) [OF I] and isolated = chain_insertedD(6,7) [OF I]
    and edge_iff = chain_inserted_edge [OF I]
  obtain rank :: "nat \<Rightarrow> nat" where rank: "\<And>i j. (i, j) \<in> next_edge ns \<Longrightarrow> rank j < rank i"
    using ok unfolding chains_ok_def by blast
  define r where "r i = (if i = n then 2 * rank mp + 1 else 2 * rank i + 2)" for i
  have "r j < r i" if "(i, j) \<in> next_edge ns'" for i j
    using that rank [of i j] rank [of mp j] isolated n by (auto simp: edge_iff r_def)
  moreover have "j < length ns'" if "(i, j) \<in> next_edge ns'" for i j
    using that ok n len unfolding edge_iff chains_ok_def by auto
  moreover have "i = i'" if "(i, j) \<in> next_edge ns'" "(i', j) \<in> next_edge ns'" for i i' j
    using that ok isolated n unfolding edge_iff chains_ok_def by blast
  ultimately show ?thesis unfolding chains_ok_def by blast
qed

lemma chain_inserted_reach:
  assumes I: "chain_inserted ns ns' mp n"
    and "j \<in> reach ns i"
  shows "j \<in> reach ns' i"
proof -
  note ok = chain_insertedD(1) [OF I] and len = chain_insertedD(2) [OF I] and mp = chain_insertedD(3) [OF I]
    and n = chain_insertedD(4,5) [OF I] and isolated = chain_insertedD(6,7) [OF I]
    and edge_iff = chain_inserted_edge [OF I]
  have "(i, j) \<in> (next_edge ns)\<^sup>*" using assms(2) by (simp add: reach_def)
  then have "(i, j) \<in> (next_edge ns')\<^sup>*"
  proof (induction rule: rtrancl_induct)
    case (step y z)
    have "(y, z) \<in> (next_edge ns')\<^sup>*"
    proof (cases "y = mp")
      case True
      then have "(mp, n) \<in> next_edge ns'" "(n, z) \<in> next_edge ns'"
        using step(2) n by (auto simp: edge_iff)
      with True show ?thesis by (meson converse_rtrancl_into_rtrancl r_into_rtrancl)
    next
      case False
      have "y \<noteq> n" using step(2) isolated(1) by (auto simp: next_edge_iff)
      with False step(2) have "(y, z) \<in> next_edge ns'" by (simp add: edge_iff)
      then show ?thesis by simp
    qed
    with step show ?case by simp
  qed simp
  then show ?thesis by (simp add: reach_def)
qed

lemma chain_inserted_new: "chain_inserted ns ns' mp n \<Longrightarrow> n \<in> reach ns' mp"
  by (auto simp: reach_def chain_inserted_edge)

text \<open>The node \<open>mp\<close>, with predecessor \<open>prev\<close>, moves to the free position \<open>n\<close>.\<close>

definition chain_moved :: "node list \<Rightarrow> node list \<Rightarrow> nat \<Rightarrow> nat \<Rightarrow> nat \<Rightarrow> bool" where
  "chain_moved ns ns' mp n prev \<longleftrightarrow>
     chains_ok ns \<and> length ns' = length ns \<and> mp < length ns \<and> n < length ns \<and> n \<noteq> mp
     \<and> n_next (ns ! n) = None \<and> (\<forall>i. (i, n) \<notin> next_edge ns) \<and> (prev, mp) \<in> next_edge ns
     \<and> (\<forall>i < length ns. n_next (ns' ! i) =
          (if i = mp then None else if i = n then n_next (ns ! mp) else if i = prev then Some n
           else n_next (ns ! i)))"

lemma chain_movedD:
  assumes "chain_moved ns ns' mp n prev"
  shows "chains_ok ns" "length ns' = length ns" "mp < length ns" "n < length ns" "n \<noteq> mp"
    "n_next (ns ! n) = None" "\<And>i. (i, n) \<notin> next_edge ns" "(prev, mp) \<in> next_edge ns"
    "\<And>i. i < length ns \<Longrightarrow> n_next (ns' ! i) =
          (if i = mp then None else if i = n then n_next (ns ! mp) else if i = prev then Some n
           else n_next (ns ! i))"
  using assms by (auto simp: chain_moved_def)


lemma chain_moved_prev:
  assumes I: "chain_moved ns ns' mp n prev"
  shows "prev \<noteq> mp" "prev \<noteq> n"
proof -
  note ok = chain_movedD(1) [OF I] and len = chain_movedD(2) [OF I] and mp = chain_movedD(3) [OF I]
    and n = chain_movedD(4,5) [OF I] and isolated = chain_movedD(6,7) [OF I] and prev = chain_movedD(8) [OF I]
  obtain rank :: "nat \<Rightarrow> nat" where "\<And>i j. (i, j) \<in> next_edge ns \<Longrightarrow> rank j < rank i"
    using ok unfolding chains_ok_def by blast
  then show "prev \<noteq> mp" using prev by blast
  show "prev \<noteq> n" using prev isolated(1) by (auto simp: next_edge_iff)
qed

lemma chain_moved_edge:
  assumes I: "chain_moved ns ns' mp n prev"
  shows "(i, j) \<in> next_edge ns' \<longleftrightarrow>
    (i = prev \<and> j = n) \<or> (i = n \<and> (mp, j) \<in> next_edge ns) \<or>
    (i \<noteq> mp \<and> i \<noteq> n \<and> i \<noteq> prev \<and> (i, j) \<in> next_edge ns)"
  using chain_movedD(2-5,8-) [OF I] chain_moved_prev [OF I] by (auto simp: next_edge_iff split: if_splits)

lemma chain_moved_ok:
  assumes I: "chain_moved ns ns' mp n prev"
  shows "chains_ok ns'"
proof -
  note ok = chain_movedD(1) [OF I] and len = chain_movedD(2) [OF I] and mp = chain_movedD(3) [OF I]
    and n = chain_movedD(4,5) [OF I] and isolated = chain_movedD(6,7) [OF I] and prev = chain_movedD(8) [OF I]
  note edge_iff = chain_moved_edge [OF I] and prev_neq = chain_moved_prev [OF I]
  obtain rank :: "nat \<Rightarrow> nat" where rank: "\<And>i j. (i, j) \<in> next_edge ns \<Longrightarrow> rank j < rank i"
    using ok unfolding chains_ok_def by blast
  define r where "r i = (if i = n then rank mp else rank i)" for i
  have "r j < r i" if "(i, j) \<in> next_edge ns'" for i j
    using that rank [of i j] rank [of mp j] rank [OF prev] isolated prev_neq by (auto simp: edge_iff r_def)
  moreover have "j < length ns'" if "(i, j) \<in> next_edge ns'" for i j
    using that ok n len unfolding edge_iff chains_ok_def by auto
  moreover have "i = i'" if "(i, j) \<in> next_edge ns'" "(i', j) \<in> next_edge ns'" for i i' j
    using that ok isolated n unfolding edge_iff chains_ok_def by blast
  ultimately show ?thesis unfolding chains_ok_def by blast
qed

lemma chain_moved_reach:
  assumes I: "chain_moved ns ns' mp n prev"
    and "j \<in> reach ns i"
  defines "moved \<equiv> \<lambda>i. if i = mp then n else i"
  shows "moved j \<in> reach ns' (moved i)"
proof -
  note ok = chain_movedD(1) [OF I] and len = chain_movedD(2) [OF I] and mp = chain_movedD(3) [OF I]
    and n = chain_movedD(4,5) [OF I] and isolated = chain_movedD(6,7) [OF I] and prev = chain_movedD(8) [OF I]
  note edge_iff = chain_moved_edge [OF I] and prev_neq = chain_moved_prev [OF I]
  have "(i, j) \<in> (next_edge ns)\<^sup>*" using assms(2) by (simp add: reach_def)
  then have "(moved i, moved j) \<in> (next_edge ns')\<^sup>*"
  proof (induction rule: rtrancl_induct)
    case (step y z)
    have "y = prev" if "z = mp" using ok prev step(2) that unfolding chains_ok_def by blast
    moreover have "z = mp" if "y = prev" using step(2) prev that by (auto simp: next_edge_iff)
    moreover have "y \<noteq> n" using step(2) isolated(1) by (auto simp: next_edge_iff)
    ultimately have "(moved y, moved z) \<in> next_edge ns'"
      using step(2) prev_neq by (auto simp: edge_iff moved_def)
    with step show ?case by simp
  qed simp
  then show ?thesis by (simp add: reach_def)
qed

section \<open>What a table holds\<close>

definition live :: "table \<Rightarrow> (tvalue \<times> tvalue) set" where
  "live t = {(n_key (gnode t i), n_val (gnode t i)) | i. i < length (t_node t) \<and> n_val (gnode t i) \<noteq> TNil}"

definition used_nodes :: "table \<Rightarrow> nat set" where
  "used_nodes t = {i. i < length (t_node t) \<and> n_key (gnode t i) \<noteq> TNil}"

lemma finite_used [simp]: "finite (used_nodes t)"
  by (simp add: used_nodes_def)

lemma used_le: "card (used_nodes t) \<le> length (t_node t)"
  using card_mono [of "{..< length (t_node t)}" "used_nodes t"] by (auto simp: used_nodes_def)

lemma lookup_array: "in_array t k \<Longrightarrow> lookup t k = t_array t ! nat (arrayindex k - 1)"
  by (auto simp: lookup_def scan_def slot_read_def in_array_def arrayindex_def)

lemma lookup_nil [simp]: "lookup t TNil = TNil"
  by (simp add: lookup_def scan_def slot_read_def)

lemma lookup_live:
  assumes "nodes_ok t" "\<not> in_array t k" "v \<noteq> TNil"
  shows "lookup t k = v \<longleftrightarrow> (\<exists>k'. (k', v) \<in> live t \<and> luaO_rawequalObj k' k) \<and> k \<noteq> TNil"
  using assms(1)
proof (cases rule: scan_cases [where key = k])
  case (node i)
  then show ?thesis
    using assms nodes_ok_unique [OF assms(1)]
    by (fastforce simp: lookup_def slot_read_def live_def)
qed (use assms in \<open>auto simp: lookup_def slot_read_def live_def\<close>)

lemma lookup_eqI:
  assumes "nodes_ok t" "nodes_ok t'" "t_array t' = t_array t" "live t' = live t"
  shows "lookup t' k = lookup t k"
proof (cases "in_array t k")
  case True
  moreover from this have "in_array t' k" using assms(3) by (simp add: in_array_def sizearray_def)
  ultimately show ?thesis using assms(3) by (simp add: lookup_array)
next
  case False
  then have "\<not> in_array t' k" using assms(3) by (simp add: in_array_def sizearray_def)
  then have "v \<noteq> TNil \<Longrightarrow> lookup t' k = v \<longleftrightarrow> lookup t k = v" for v
    using False assms by (simp add: lookup_live)
  then show ?thesis by metis
qed

lemma lookup_cong: "nodes_ok t \<Longrightarrow> luaO_rawequalObj a b \<Longrightarrow> lookup t a = lookup t b"
  by (simp add: lookup_def scan_cong)

section \<open>Finding a free position\<close>

lemma used_nodes_lastfree [simp]: "used_nodes (t\<lparr>t_lastfree := l\<rparr>) = used_nodes t"
  by (simp add: used_nodes_def)

lemma getfreepos_spec:
  assumes "free_ok t" "getfreepos t = (r, t')"
  shows "\<exists>l. t' = t\<lparr>t_lastfree := l\<rparr> \<and>
    (case r of None \<Rightarrow> used_nodes t = {..< length (t_node t)}
     | Some n \<Rightarrow> l = int n \<and> n < length (t_node t) \<and> n_key (gnode t n) = TNil \<and>
         (\<forall>i < length (t_node t). n < i \<longrightarrow> n_key (gnode t i) \<noteq> TNil))"
  using assms
proof (induction t rule: getfreepos.induct)
  case (1 t)
  let ?t = "t\<lparr>t_lastfree := t_lastfree t - 1\<rparr>"
  consider "t_lastfree t \<le> 0"
    | "0 < t_lastfree t" "n_key (gnode t (nat (t_lastfree t - 1))) = TNil"
    | "0 < t_lastfree t" "n_key (gnode t (nat (t_lastfree t - 1))) \<noteq> TNil"
    by linarith
  then show ?case
  proof cases
    case 1
    then show ?thesis
      using "1.prems" by (subst (asm) getfreepos.simps) (auto simp: Let_def used_nodes_def free_ok_def intro!: exI)
  next
    case 2
    then show ?thesis
      using "1.prems" by (subst (asm) getfreepos.simps) (auto simp: Let_def free_ok_def intro!: exI)
  next
    case 3
    have "t_lastfree t - 1 \<le> int i \<Longrightarrow> i < length (t_node t) \<Longrightarrow> n_key (gnode t i) \<noteq> TNil" for i
      using 3 "1.prems"(1) by (cases "i = nat (t_lastfree t - 1)") (auto simp: free_ok_def)
    then have "free_ok ?t" using "1.prems"(1) by (auto simp: free_ok_def)
    moreover have "getfreepos ?t = (r, t')" using 3 "1.prems"(2) by (simp add: getfreepos.simps [of t] Let_def)
    ultimately show ?thesis using "1.IH" [OF refl] 3 by (cases r) simp_all
  qed
qed

lemma getfreepos_Some:
  assumes "free_ok t" "card (used_nodes t) < length (t_node t)"
  obtains n where "getfreepos t = (Some n, t\<lparr>t_lastfree := int n\<rparr>)" "n < length (t_node t)"
    "n_key (gnode t n) = TNil" "\<And>i. i < length (t_node t) \<Longrightarrow> n < i \<Longrightarrow> n_key (gnode t i) \<noteq> TNil"
proof -
  obtain r t' where g: "getfreepos t = (r, t')" by (cases "getfreepos t")
  from getfreepos_spec [OF assms(1) g] assms(2) show thesis
    using that g by (cases r) auto
qed

section \<open>Inserting a key\<close>

text \<open>A key that can be inserted and is not there.\<close>

definition fresh_key :: "table \<Rightarrow> tvalue \<Rightarrow> bool" where
  "fresh_key t key \<longleftrightarrow> key \<noteq> TNil \<and> luaO_rawequalObj key key \<and> \<not> in_array t key
     \<and> (\<forall>i < length (t_node t). \<not> luaO_rawequalObj (n_key (gnode t i)) key)"

lemma fresh_key_scan:
  "nodes_ok t \<Longrightarrow> scan t key = SNil \<Longrightarrow> key \<noteq> TNil \<Longrightarrow> luaO_rawequalObj key key \<Longrightarrow> fresh_key t key"
  by (cases rule: scan_cases [where t = t and key = key]) (auto simp: fresh_key_def)

text \<open>What every insertion achieves.\<close>

definition key_added :: "table \<Rightarrow> tvalue \<Rightarrow> nat \<Rightarrow> nat \<Rightarrow> table \<Rightarrow> bool" where
  "key_added t key i j t' \<longleftrightarrow>
     nodes_ok t' \<and> t_array t' = t_array t \<and> t_lsizenode t' = t_lsizenode t \<and> t_dummy t' = t_dummy t
     \<and> i < length (t_node t') \<and> luaO_rawequalObj (n_key (gnode t' i)) key \<and> live t' = live t
     \<and> j < length (t_node t) \<and> used_nodes t' = insert j (used_nodes t)"

lemma nodes_okD:
  assumes "nodes_ok t" "i < length (t_node t)"
  shows "n_next (gnode t i) = Some j \<Longrightarrow> n_key (gnode t j) \<noteq> TNil \<and> j < length (t_node t)"
    and "n_key (gnode t i) = TNil \<Longrightarrow> n_val (gnode t i) = TNil \<and> n_next (gnode t i) = None"
    and "n_key (gnode t i) \<noteq> TNil \<Longrightarrow>
      luaO_rawequalObj (n_key (gnode t i)) (n_key (gnode t i)) \<and> \<not> in_array t (n_key (gnode t i))
      \<and> i \<in> reach (t_node t) (mainposition t (n_key (gnode t i)))
      \<and> n_key (gnode t (mainposition t (n_key (gnode t i)))) \<noteq> TNil
      \<and> mainposition t (n_key (gnode t (mainposition t (n_key (gnode t i))))) = mainposition t (n_key (gnode t i))"
proof -
  have c: "chains_ok (t_node t)" and ok: "node_ok t i" using assms by (simp_all add: nodes_ok_def)
  show "n_key (gnode t j) \<noteq> TNil \<and> j < length (t_node t)" if "n_next (gnode t i) = Some j"
    using c ok that assms(2) by (simp add: node_ok_def Let_def chains_ok_def next_edge_iff)
  show "n_val (gnode t i) = TNil \<and> n_next (gnode t i) = None" if "n_key (gnode t i) = TNil"
    using ok that by (simp add: node_ok_def Let_def)
  assume "n_key (gnode t i) \<noteq> TNil"
  then show "luaO_rawequalObj (n_key (gnode t i)) (n_key (gnode t i)) \<and> \<not> in_array t (n_key (gnode t i))
      \<and> i \<in> reach (t_node t) (mainposition t (n_key (gnode t i)))
      \<and> n_key (gnode t (mainposition t (n_key (gnode t i)))) \<noteq> TNil
      \<and> mainposition t (n_key (gnode t (mainposition t (n_key (gnode t i))))) = mainposition t (n_key (gnode t i))"
    using ok unfolding node_ok_def Let_def by (simp only: if_False) blast
qed

lemma nodes_ok_distinct:
  "nodes_ok t \<Longrightarrow> i < length (t_node t) \<Longrightarrow> j < length (t_node t) \<Longrightarrow>
    luaO_rawequalObj (n_key (gnode t i)) (n_key (gnode t j)) \<Longrightarrow> n_key (gnode t i) \<noteq> TNil \<Longrightarrow> i = j"
  by (simp add: nodes_ok_def)

lemma node_okI:
  assumes "\<And>j. n_next (gnode t i) = Some j \<Longrightarrow> n_key (gnode t j) \<noteq> TNil"
    and "n_key (gnode t i) = TNil \<Longrightarrow> n_val (gnode t i) = TNil \<and> n_next (gnode t i) = None"
    and "n_key (gnode t i) \<noteq> TNil \<Longrightarrow>
      luaO_rawequalObj (n_key (gnode t i)) (n_key (gnode t i)) \<and> \<not> in_array t (n_key (gnode t i))"
    and "n_key (gnode t i) \<noteq> TNil \<Longrightarrow> i \<in> reach (t_node t) (mainposition t (n_key (gnode t i)))"
    and "n_key (gnode t i) \<noteq> TNil \<Longrightarrow> n_key (gnode t (mainposition t (n_key (gnode t i)))) \<noteq> TNil
      \<and> mainposition t (n_key (gnode t (mainposition t (n_key (gnode t i))))) = mainposition t (n_key (gnode t i))"
  shows "node_ok t i"
  unfolding node_ok_def Let_def if_bool_eq_conj
  by (intro conjI allI impI) (use assms in blast)+

lemma live_same:
  assumes "length (t_node t') = length (t_node t)" "\<And>i. n_val (gnode t' i) = n_val (gnode t i)"
    "\<And>i. n_val (gnode t i) \<noteq> TNil \<Longrightarrow> n_key (gnode t' i) = n_key (gnode t i)"
  shows "live t' = live t"
  unfolding live_def assms(1,2) by (intro Collect_cong ex_cong1) (use assms(3) in auto)

lemma key_addedI:
  assumes ok: "nodes_ok t" and len: "length (t_node t') = length (t_node t)"
    and same: "t_array t' = t_array t" "t_lsizenode t' = t_lsizenode t" "t_dummy t' = t_dummy t"
    and chains: "chains_ok (t_node t')" and nodes: "\<And>i. i < length (t_node t) \<Longrightarrow> node_ok t' i"
    and distinct: "\<And>i j. i < length (t_node t) \<Longrightarrow> j < length (t_node t) \<Longrightarrow>
      luaO_rawequalObj (n_key (gnode t' i)) (n_key (gnode t' j)) \<Longrightarrow> n_key (gnode t' i) \<noteq> TNil \<Longrightarrow> i = j"
    and key: "p < length (t_node t)" "luaO_rawequalObj (n_key (gnode t' p)) key"
    and live: "live t' = live t" and used: "used_nodes t' = insert j (used_nodes t)" "j < length (t_node t)"
  shows "key_added t key p j t'"
proof -
  have "nodes_ok t'"
    unfolding nodes_ok_def len using ok same chains nodes distinct
    by (auto simp: nodes_ok_def sizenode_def)
  then show ?thesis
    using same key live used len by (auto simp: key_added_def)
qed

text \<open>The key goes into its free main position.\<close>

lemma put_key_main:
  assumes ok: "nodes_ok t" and fresh: "fresh_key t key"
    and free: "n_val (gnode t (mainposition t key)) = TNil"
  shows "key_added t key (mainposition t key) (mainposition t key)
    (node_update (mainposition t key) (\<lambda>n. n\<lparr>n_key := key\<rparr>) t)" (is "key_added t key ?mp ?mp ?t")
proof -
  have mp: "?mp < length (t_node t)" using ok by (rule mp_less)
  have M: "mainposition ?t = mainposition t" by (rule mainposition_lsizenode) (simp add: node_update_def)
  have A: "in_array ?t = in_array t" by (simp add: in_array_def fun_eq_iff sizearray_def node_update_def)
  have N: "gnode ?t i = (if i = ?mp then (gnode t ?mp)\<lparr>n_key := key\<rparr> else gnode t i)" for i
    using mp by (simp add: node_update_def nth_list_update)
  have L: "length (t_node ?t) = length (t_node t)" by (simp add: node_update_def)
  have E: "next_edge (t_node ?t) = next_edge (t_node t)" by (auto simp: next_edge_iff L N split: if_splits)
  then have R: "reach (t_node ?t) = reach (t_node t)" by (simp add: reach_def fun_eq_iff)
  have k: "key \<noteq> TNil" "luaO_rawequalObj key key" "\<not> in_array t key"
    "\<And>i. i < length (t_node t) \<Longrightarrow> \<not> luaO_rawequalObj (n_key (gnode t i)) key"
    using fresh by (simp_all add: fresh_key_def)
  have nok: "node_ok ?t i" if i: "i < length (t_node t)" for i
  proof (rule node_okI; (unfold M A R)?)
    show "n_key (gnode ?t j) \<noteq> TNil" if "n_next (gnode ?t i) = Some j" for j
      using that nodes_okD(1) [OF ok i] k(1) by (auto simp: N split: if_splits)
    show "n_val (gnode ?t i) = TNil \<and> n_next (gnode ?t i) = None" if "n_key (gnode ?t i) = TNil"
      using that nodes_okD(2) [OF ok i] k(1) by (auto simp: N split: if_splits)
    assume used: "n_key (gnode ?t i) \<noteq> TNil"
    show "luaO_rawequalObj (n_key (gnode ?t i)) (n_key (gnode ?t i)) \<and> \<not> in_array t (n_key (gnode ?t i))"
      using used nodes_okD(3) [OF ok i] k(2,3) unfolding N by (cases "i = ?mp") simp_all
    show "i \<in> reach (t_node t) (mainposition t (n_key (gnode ?t i)))"
      using used nodes_okD(3) [OF ok i] unfolding N by (cases "i = ?mp") simp_all
    show "n_key (gnode ?t (mainposition t (n_key (gnode ?t i)))) \<noteq> TNil \<and>
      mainposition t (n_key (gnode ?t (mainposition t (n_key (gnode ?t i))))) = mainposition t (n_key (gnode ?t i))"
      using used nodes_okD(3) [OF ok i] k(1) unfolding N
      by (cases "i = ?mp"; cases "mainposition t (n_key (gnode t i)) = ?mp") simp_all
  qed
  have dist: "i = j" if "i < length (t_node t)" "j < length (t_node t)"
    "luaO_rawequalObj (n_key (gnode ?t i)) (n_key (gnode ?t j))" "n_key (gnode ?t i) \<noteq> TNil" for i j
    using that k(4) k(4) [unfolded rawequal_sym [of _ key]] nodes_ok_distinct [OF ok]
    by (cases "i = ?mp"; cases "j = ?mp") (simp_all add: N)
  have c: "chains_ok (t_node t)" using ok by (simp add: nodes_ok_def)
  show ?thesis
  proof (rule key_addedI [OF ok L _ _ _ _ nok dist mp])
    show "chains_ok (t_node ?t)" using c unfolding chains_ok_def E L .
    show "live ?t = live t" using free by (intro live_same [OF L]) (auto simp: N)
    show "used_nodes ?t = insert ?mp (used_nodes t)" unfolding used_nodes_def L N using mp k(1) by auto
    show "luaO_rawequalObj (n_key (gnode ?t ?mp)) key" using k(2) by (simp add: N)
    show "?mp < length (t_node t)" by (rule mp)
  qed (simp_all add: node_update_def)
qed

text \<open>The new key goes into the free position \<open>n\<close>, behind the key in its main position.\<close>

lemma put_key_behind:
  assumes ok: "nodes_ok t" and fresh: "fresh_key t key" and mp: "mp = mainposition t key"
    and own: "n_key (gnode t mp) \<noteq> TNil" "mainposition t (n_key (gnode t mp)) = mp"
    and n: "n < length (t_node t)" "n_key (gnode t n) = TNil"
  defines "t' \<equiv> node_update n (\<lambda>x. x\<lparr>n_key := key\<rparr>) (node_update mp (\<lambda>x. x\<lparr>n_next := Some n\<rparr>)
      (node_update n (\<lambda>x. x\<lparr>n_next := n_next (gnode t mp)\<rparr>) t))"
  shows "key_added t key n n t'"
proof -
  have mpl: "mp < length (t_node t)" using ok mp by (simp add: mp_less)
  have ne: "n \<noteq> mp" using own n by auto
  have M: "mainposition t' = mainposition t"
    by (rule mainposition_lsizenode) (simp add: node_update_def t'_def)
  have A: "in_array t' = in_array t" by (simp add: in_array_def fun_eq_iff sizearray_def node_update_def t'_def)
  have L: "length (t_node t') = length (t_node t)" by (simp add: node_update_def t'_def)
  have N: "gnode t' i = (if i = n then (gnode t n)\<lparr>n_next := n_next (gnode t mp), n_key := key\<rparr>
      else if i = mp then (gnode t mp)\<lparr>n_next := Some n\<rparr> else gnode t i)" for i
    using mpl n(1) ne by (simp add: node_update_def nth_list_update t'_def)
  note isolated = nodes_okD(2) [OF ok n]
  have nopred: "(i, n) \<notin> next_edge (t_node t)" for i
    using nodes_okD(1) [OF ok, of i n] n(2) by (auto simp: next_edge_iff)
  have I: "chain_inserted (t_node t) (t_node t') mp n"
    using ok mpl n(1) ne isolated nopred L by (auto simp: chain_inserted_def N nodes_ok_def)
  have k: "key \<noteq> TNil" "luaO_rawequalObj key key" "\<not> in_array t key"
    "\<And>i. i < length (t_node t) \<Longrightarrow> \<not> luaO_rawequalObj (n_key (gnode t i)) key"
    using fresh by (simp_all add: fresh_key_def)
  have K: "n_key (gnode t' i) = (if i = n then key else n_key (gnode t i))" for i by (simp add: N)
  have nok: "node_ok t' i" if i: "i < length (t_node t)" for i
  proof (rule node_okI; (unfold M A)?)
    show "n_key (gnode t' j) \<noteq> TNil" if "n_next (gnode t' i) = Some j" for j
      using that nodes_okD(1) [OF ok i] nodes_okD(1) [OF ok mpl] k(1) by (auto simp: N split: if_splits)
    show "n_val (gnode t' i) = TNil \<and> n_next (gnode t' i) = None" if "n_key (gnode t' i) = TNil"
      using that nodes_okD(2) [OF ok i] k(1) own by (auto simp: N split: if_splits)
    assume used: "n_key (gnode t' i) \<noteq> TNil"
    show "luaO_rawequalObj (n_key (gnode t' i)) (n_key (gnode t' i)) \<and> \<not> in_array t (n_key (gnode t' i))"
      using used nodes_okD(3) [OF ok i] k(2,3) unfolding K by (cases "i = n") simp_all
    show "i \<in> reach (t_node t') (mainposition t (n_key (gnode t' i)))"
      using used nodes_okD(3) [OF ok i] chain_inserted_reach [OF I] chain_inserted_new [OF I] mp
      unfolding K by (cases "i = n") simp_all
    show "n_key (gnode t' (mainposition t (n_key (gnode t' i)))) \<noteq> TNil \<and>
      mainposition t (n_key (gnode t' (mainposition t (n_key (gnode t' i))))) = mainposition t (n_key (gnode t' i))"
      using used nodes_okD(3) [OF ok i] n(2) own mp ne unfolding K
      by (cases "i = n"; cases "mainposition t (n_key (gnode t i)) = n") simp_all
  qed
  have dist: "i = j" if "i < length (t_node t)" "j < length (t_node t)"
    "luaO_rawequalObj (n_key (gnode t' i)) (n_key (gnode t' j))" "n_key (gnode t' i) \<noteq> TNil" for i j
    using that k(4) k(4) [unfolded rawequal_sym [of _ key]] nodes_ok_distinct [OF ok]
    by (cases "i = n"; cases "j = n") (simp_all add: K)
  show ?thesis
  proof (rule key_addedI [OF ok L _ _ _ _ nok dist n(1)])
    show "chains_ok (t_node t')" by (rule chain_inserted_ok [OF I])
    show "live t' = live t" using isolated by (intro live_same [OF L]) (auto simp: N)
    show "used_nodes t' = insert n (used_nodes t)" unfolding used_nodes_def L K using n(1) k(1) by auto
    show "luaO_rawequalObj (n_key (gnode t' n)) key" using k(2) by (simp add: K)
  qed (simp_all add: t'_def node_update_def n(1))
qed

lemma live_move:
  assumes "length (t_node t') = length (t_node t)" "n_val (gnode t n) = TNil" "mp < length (t_node t)"
    "n < length (t_node t)" "n \<noteq> mp"
    and K: "\<And>i. i \<noteq> mp \<Longrightarrow> n_key (gnode t' i) = n_key (gnode t (if i = n then mp else i))"
    and V: "\<And>i. n_val (gnode t' i) = (if i = mp then TNil else n_val (gnode t (if i = n then mp else i)))"
  shows "live t' = live t"
proof (intro equalityI subsetI)
  fix x assume "x \<in> live t'"
  then obtain i where "i < length (t_node t)" "i \<noteq> mp" "n_val (gnode t (if i = n then mp else i)) \<noteq> TNil"
    "x = (n_key (gnode t (if i = n then mp else i)), n_val (gnode t (if i = n then mp else i)))"
    using assms(1) by (auto simp: live_def V K split: if_splits)
  then show "x \<in> live t" using assms(3) unfolding live_def by (cases "i = n") auto
next
  fix x assume "x \<in> live t"
  then obtain i where i: "i < length (t_node t)" "n_val (gnode t i) \<noteq> TNil" "x = (n_key (gnode t i), n_val (gnode t i))"
    by (auto simp: live_def)
  define j where "j = (if i = mp then n else i)"
  have "i \<noteq> n" using i assms(2) by auto
  then have "j < length (t_node t')" "n_key (gnode t' j) = n_key (gnode t i)" "n_val (gnode t' j) = n_val (gnode t i)"
    using i assms by (auto simp: j_def K V)
  then show "x \<in> live t'" using i unfolding live_def by (intro CollectI exI [of _ j]) simp
qed

text \<open>The key in the main position does not belong there: it moves to the free position.\<close>

lemma put_key_move:
  assumes ok: "nodes_ok t" and fresh: "fresh_key t key" and mp: "mp = mainposition t key"
    and other: "n_key (gnode t mp) \<noteq> TNil" "mainposition t (n_key (gnode t mp)) \<noteq> mp"
    and n: "n < length (t_node t)" "n_key (gnode t n) = TNil"
    and prev: "prev < length (t_node t)" "n_next (gnode t prev) = Some mp"
  defines "t1 \<equiv> node_update prev (\<lambda>x. x\<lparr>n_next := Some n\<rparr>) t"
  defines "t' \<equiv> node_update mp (\<lambda>x. x\<lparr>n_key := key\<rparr>)
      (node_update mp (\<lambda>x. x\<lparr>n_next := None, n_val := TNil\<rparr>) (node_update n (\<lambda>x. gnode t1 mp) t1))"
  shows "key_added t key mp n t'"
proof -
  have mpl: "mp < length (t_node t)" using ok mp by (simp add: mp_less)
  have ne: "n \<noteq> mp" using other n by auto
  have M: "mainposition t' = mainposition t"
    by (rule mainposition_lsizenode) (simp add: node_update_def t'_def t1_def)
  have A: "in_array t' = in_array t"
    by (simp add: in_array_def fun_eq_iff sizearray_def node_update_def t'_def t1_def)
  have L: "length (t_node t') = length (t_node t)" by (simp add: node_update_def t'_def t1_def)
  note isolated = nodes_okD(2) [OF ok n]
  have c: "chains_ok (t_node t)" using ok by (simp add: nodes_ok_def)
  have pe: "(prev, mp) \<in> next_edge (t_node t)" using prev by (simp add: next_edge_iff)
  have pne: "prev \<noteq> mp" using c pe unfolding chains_ok_def by blast
  have pn: "prev \<noteq> n" using isolated prev by auto
  have N: "gnode t' i = (if i = mp then (gnode t mp)\<lparr>n_next := None, n_val := TNil, n_key := key\<rparr>
      else if i = n then gnode t mp else if i = prev then (gnode t prev)\<lparr>n_next := Some n\<rparr> else gnode t i)" for i
    using mpl n(1) ne prev(1) pne pn by (simp add: node_update_def nth_list_update t'_def t1_def)
  have nopred: "(i, n) \<notin> next_edge (t_node t)" for i
    using nodes_okD(1) [OF ok, of i n] n(2) by (auto simp: next_edge_iff)
  have I: "chain_moved (t_node t) (t_node t') mp n prev"
    using c mpl n(1) ne isolated nopred L pe by (auto simp: chain_moved_def N)
  have k: "key \<noteq> TNil" "luaO_rawequalObj key key" "\<not> in_array t key"
    "\<And>i. i < length (t_node t) \<Longrightarrow> \<not> luaO_rawequalObj (n_key (gnode t i)) key"
    using fresh by (simp_all add: fresh_key_def)
  have K: "n_key (gnode t' i) = (if i = mp then key else if i = n then n_key (gnode t mp)
      else n_key (gnode t i))" for i by (simp add: N)
  have V: "n_val (gnode t' i) = (if i = mp then TNil else n_val (gnode t (if i = n then mp else i)))" for i
    by (simp add: N)
  note own = nodes_okD(3) [OF ok mpl other(1)]
  have nok: "node_ok t' i" if i: "i < length (t_node t)" for i
  proof (rule node_okI; (unfold M A)?)
    show "n_key (gnode t' j) \<noteq> TNil" if "n_next (gnode t' i) = Some j" for j
      using that nodes_okD(1) [OF ok i] nodes_okD(1) [OF ok mpl] k(1) other(1) by (auto simp: N split: if_splits)
    show "n_val (gnode t' i) = TNil \<and> n_next (gnode t' i) = None" if "n_key (gnode t' i) = TNil"
      using that nodes_okD(2) [OF ok i] k(1) other(1) prev by (auto simp: N split: if_splits)
    assume used: "n_key (gnode t' i) \<noteq> TNil"
    show "luaO_rawequalObj (n_key (gnode t' i)) (n_key (gnode t' i)) \<and> \<not> in_array t (n_key (gnode t' i))"
      using used nodes_okD(3) [OF ok i] own k(2,3) unfolding K by (cases "i = mp"; cases "i = n") simp_all
    have away: "mainposition t (n_key (gnode t i)) \<noteq> mp" if "n_key (gnode t i) \<noteq> TNil"
      using nodes_okD(3) [OF ok i that] other(2) by auto
    have mpn: "mainposition t (n_key (gnode t i)) \<noteq> n" if "n_key (gnode t i) \<noteq> TNil"
      using nodes_okD(3) [OF ok i that] n(2) by auto
    have mpn': "mainposition t (n_key (gnode t mp)) \<noteq> n" using own n(2) by auto
    show "i \<in> reach (t_node t') (mainposition t (n_key (gnode t' i)))"
      using used nodes_okD(3) [OF ok i] own chain_moved_reach [OF I, of i "mainposition t (n_key (gnode t i))"]
        chain_moved_reach [OF I, of mp "mainposition t (n_key (gnode t mp))"] mp away other(2)
      unfolding K by (cases "i = mp"; cases "i = n") simp_all
    show "n_key (gnode t' (mainposition t (n_key (gnode t' i)))) \<noteq> TNil \<and>
      mainposition t (n_key (gnode t' (mainposition t (n_key (gnode t' i))))) = mainposition t (n_key (gnode t' i))"
      using used nodes_okD(3) [OF ok i] own away mpn mpn' mp k(1) other(2) unfolding K
      by (cases "i = mp"; cases "i = n") simp_all
  qed
  have dist: "i = j" if "i < length (t_node t)" "j < length (t_node t)"
    "luaO_rawequalObj (n_key (gnode t' i)) (n_key (gnode t' j))" "n_key (gnode t' i) \<noteq> TNil" for i j
  proof -
    let ?f = "\<lambda>i. if i = n then mp else i"
    have f: "?f i < length (t_node t)" "?f j < length (t_node t)" using that(1,2) mpl by simp_all
    have Kf: "i \<noteq> mp \<Longrightarrow> n_key (gnode t' i) = n_key (gnode t (?f i))" for i by (simp add: K)
    note no = k(4) [OF f(1)] k(4) [OF f(2)] k(4) [OF f(2), unfolded rawequal_sym [of _ key]]
    show ?thesis
    proof (cases "i = mp \<or> j = mp")
      case True
      then show ?thesis using that(3) no Kf [of i] Kf [of j] by (cases "i = mp"; cases "j = mp") (simp_all add: K)
    next
      case False
      then have "?f i = ?f j" using that(3,4) nodes_ok_distinct [OF ok f] by (simp add: Kf)
      with False show ?thesis by (simp split: if_splits)
    qed
  qed
  show ?thesis
  proof (rule key_addedI [OF ok L _ _ _ _ nok dist mpl])
    show "chains_ok (t_node t')" by (rule chain_moved_ok [OF I])
    show "live t' = live t" by (rule live_move [where mp = mp and n = n]) (use L isolated mpl n ne K V in auto)
    show "used_nodes t' = insert n (used_nodes t)"
      unfolding used_nodes_def L K using n(1) k(1) mpl other(1) by auto
    show "luaO_rawequalObj (n_key (gnode t' mp)) key" using k(2) by (simp add: K)
  qed (simp_all add: t'_def t1_def node_update_def n(1))
qed

section \<open>\<open>newkey\<close> with room left\<close>

lemma nodes_ok_cong:
  assumes "t_node t' = t_node t" "t_lsizenode t' = t_lsizenode t" "t_array t' = t_array t"
  shows "nodes_ok t' = nodes_ok t" "in_array t' = in_array t" "mainposition t' = mainposition t"
    "scan t' = scan t" "lookup t' = lookup t" "live t' = live t" "used_nodes t' = used_nodes t"
proof -
  show M: "mainposition t' = mainposition t" by (rule mainposition_lsizenode) (rule assms)
  show A: "in_array t' = in_array t" by (simp add: in_array_def fun_eq_iff sizearray_def assms)
  show "nodes_ok t' = nodes_ok t" by (simp add: nodes_ok_def node_ok_def assms M A sizenode_def)
  show S: "scan t' = scan t" by (simp add: scan_def fun_eq_iff assms A)
  show "lookup t' = lookup t" by (simp add: lookup_def slot_read_def fun_eq_iff S assms split: slot.split)
  show "live t' = live t" "used_nodes t' = used_nodes t" by (simp_all add: live_def used_nodes_def assms)
qed

lemma key_added_length: "key_added t key i j t' \<Longrightarrow> nodes_ok t \<Longrightarrow> length (t_node t') = length (t_node t)"
  by (simp add: key_added_def nodes_ok_def sizenode_def)

lemma key_added_same:
  assumes "key_added t0 key i j t'"
    "t_node t0 = t_node t" "t_lsizenode t0 = t_lsizenode t" "t_array t0 = t_array t" "t_dummy t0 = t_dummy t"
  shows "key_added t key i j t'"
  using assms nodes_ok_cong [of t0 t] by (simp add: key_added_def)

lemma fresh_key_cong:
  "t_node t' = t_node t \<Longrightarrow> t_array t' = t_array t \<Longrightarrow> fresh_key t' key = fresh_key t key"
  by (simp add: fresh_key_def in_array_def sizearray_def)

lemma newkey_collide_ok:
  assumes ok: "nodes_ok t" and fresh: "fresh_key t key" and mp: "mp = mainposition t key"
    and used: "n_key (gnode t mp) \<noteq> TNil" and n: "n < length (t_node t)" "n_key (gnode t n) = TNil"
  shows "\<exists>i t'. newkey_collide t key mp n = Inr (SNode i, t') \<and> key_added t key i n t' \<and> t_lastfree t' = t_lastfree t"
proof (cases "mainposition t (n_key (gnode t mp)) = mp")
  case True
  then show ?thesis
    using put_key_behind [OF ok fresh mp used True n]
    by (auto simp: newkey_collide_def put_key_def node_update_def)
next
  case False
  let ?o = "mainposition t (n_key (gnode t mp))"
  have c: "chains_ok (t_node t)" using ok by (simp add: nodes_ok_def)
  have mpl: "mp < length (t_node t)" using ok mp by (simp add: mp_less)
  have o: "?o < length (t_node t)" using ok by (rule mp_less)
  have "mp \<in> reach (t_node t) ?o" using nodes_okD(3) [OF ok mpl used] by blast
  from find_previous_spec [OF c o reach_card_le [OF c o] this False [symmetric]]
  obtain p where p: "n_next (gnode t p) = Some mp" "p < length (t_node t)"
    "find_previous (length (t_node t)) (t_node t) mp ?o = Inr p" by blast
  show ?thesis
    using put_key_move [OF ok fresh mp used False n p(2,1)] False p(3)
    by (auto simp: newkey_collide_def put_key_def Let_def) (auto simp: node_update_def)
qed

lemma newkey_with_ok:
  assumes ok: "table_ok t" and fresh: "fresh_key t key" and room: "\<not> t_dummy t"
      "card (used_nodes t) < length (t_node t) \<or> n_val (gnode t (mainposition t key)) = TNil"
  shows "\<exists>i j t'. newkey_with g t key = Inr (SNode i, t') \<and> key_added t key i j t' \<and> table_ok t'"
proof -
  let ?mp = "mainposition t key"
  have nok: "nodes_ok t" and free: "free_ok t" and arr: "int (sizearray t) \<le> MAXASIZE"
    using ok room by (simp_all add: table_ok_def)
  have mpl: "?mp < length (t_node t)" using nok by (rule mp_less)
  have fin: "table_ok t'" if "key_added t key i j t'" "t_lastfree t' \<le> int (length (t_node t))"
    "\<And>x. x < length (t_node t) \<Longrightarrow> t_lastfree t' \<le> int x \<Longrightarrow> x \<noteq> j \<Longrightarrow> n_key (gnode t x) \<noteq> TNil" for i j t'
  proof -
    have "x \<in> used_nodes t'" if "x < length (t_node t)" "t_lastfree t' \<le> int x" for x
      using that \<open>key_added t key i j t'\<close> \<open>\<And>x. x < length (t_node t) \<Longrightarrow> t_lastfree t' \<le> int x \<Longrightarrow> x \<noteq> j \<Longrightarrow> n_key (gnode t x) \<noteq> TNil\<close> [of x]
      by (cases "x = j") (auto simp: key_added_def used_nodes_def)
    then show ?thesis
      using that room(1) arr key_added_length [OF that(1) nok]
      by (auto simp: table_ok_def key_added_def free_ok_def sizearray_def used_nodes_def)
  qed
  show ?thesis
  proof (cases "n_val (gnode t ?mp) = TNil")
    case True
    let ?t = "node_update ?mp (\<lambda>n. n\<lparr>n_key := key\<rparr>) t"
    have a: "key_added t key ?mp ?mp ?t" by (rule put_key_main [OF nok fresh True])
    moreover have "table_ok ?t"
      using free by (intro fin [OF a]) (auto simp: node_update_def free_ok_def)
    ultimately show ?thesis using True room(1) mpl by (auto simp: newkey_with_def put_key_def Let_def)
  next
    case False
    obtain n where n: "getfreepos t = (Some n, t\<lparr>t_lastfree := int n\<rparr>)" "n < length (t_node t)"
      "n_key (gnode t n) = TNil" "\<And>i. i < length (t_node t) \<Longrightarrow> n < i \<Longrightarrow> n_key (gnode t i) \<noteq> TNil"
      using getfreepos_Some [OF free] room(2) False by blast
    let ?t = "t\<lparr>t_lastfree := int n\<rparr>"
    note cong = nodes_ok_cong [of ?t t] and used = nodes_okD(2) [OF nok mpl]
    have "\<exists>i t'. newkey_collide ?t key ?mp n = Inr (SNode i, t') \<and> key_added ?t key i n t' \<and> t_lastfree t' = t_lastfree ?t"
      using nok fresh n used False cong by (intro newkey_collide_ok) (auto simp: fresh_key_cong [of ?t t])
    then obtain i t' where c: "newkey_collide ?t key ?mp n = Inr (SNode i, t')" "key_added ?t key i n t'"
      "t_lastfree t' = int n" by auto
    have a: "key_added t key i n t'" by (rule key_added_same [OF c(2)]) simp_all
    have "table_ok t'" using n(2,4) c(3) by (intro fin [OF a]) auto
    with a c n(1) False mpl show ?thesis by (auto simp: newkey_with_def Let_def)
  qed
qed

section \<open>Setting a key\<close>

text \<open>The sizes that only a rehash changes.\<close>

definition same_sizes :: "table \<Rightarrow> table \<Rightarrow> bool" where
  "same_sizes t t' \<longleftrightarrow> sizearray t' = sizearray t \<and> length (t_node t') = length (t_node t)
     \<and> t_lsizenode t' = t_lsizenode t \<and> t_dummy t' = t_dummy t"

lemma same_sizes_refl [simp]: "same_sizes t t"
  by (simp add: same_sizes_def)

lemma same_sizes_trans: "same_sizes a b \<Longrightarrow> same_sizes b c \<Longrightarrow> same_sizes a c"
  by (simp add: same_sizes_def)

lemma same_sizes_in_array: "same_sizes t t' \<Longrightarrow> in_array t' = in_array t"
  by (simp add: same_sizes_def in_array_def fun_eq_iff)

lemma table_ok_sizearray: "table_ok t \<Longrightarrow> sizearray t \<le> 2 ^ 26"
  by (simp add: table_ok_def MAXASIZE_def MAXBITS_def)

lemma table_ok_nodes: "table_ok t \<Longrightarrow> nodes_ok t"
  by (simp add: table_ok_def)

text \<open>The result of asking a table for the place of a key: the place is the key's, nothing
  else has changed, and at most one node more is in use.\<close>

definition placed :: "table \<Rightarrow> tvalue \<Rightarrow> slot \<Rightarrow> table \<Rightarrow> bool" where
  "placed t key s t' \<longleftrightarrow> table_ok t' \<and> s = scan t' key \<and> s \<noteq> SNil \<and> lookup t' = lookup t \<and> same_sizes t t'
     \<and> t_array t' = t_array t
     \<and> card (used_nodes t') \<le> card (used_nodes t) + (if scan t key = SNil then 1 else 0)"

definition room :: "table \<Rightarrow> tvalue \<Rightarrow> bool" where
  "room t key \<longleftrightarrow> scan t key \<noteq> SNil \<or> (\<not> t_dummy t \<and>
     (card (used_nodes t) < length (t_node t) \<or> n_val (gnode t (mainposition t key)) = TNil))"

lemma key_added_placed:
  assumes "table_ok t" "table_ok t'" "key_added t key i j t'" "fresh_key t key"
  shows "placed t key (SNode i) t'"
proof -
  have ok: "nodes_ok t" "nodes_ok t'" using assms(1,2) by (simp_all add: table_ok_def)
  have a: "t_array t' = t_array t" "i < length (t_node t')" "luaO_rawequalObj (n_key (gnode t' i)) key"
    "live t' = live t" "used_nodes t' = insert j (used_nodes t)" "t_lsizenode t' = t_lsizenode t" "t_dummy t' = t_dummy t"
    using assms(3) by (simp_all add: key_added_def)
  have f: "key \<noteq> TNil" "\<not> in_array t' key" "scan t key = SNil"
    using assms(4) a(1) by (auto simp: fresh_key_def in_array_def sizearray_def intro!: scan_SNil)
  have "scan t' key = SNode i" using scan_SNode [OF ok(2) f(1,2) a(2,3)] .
  moreover have "lookup t' = lookup t" using lookup_eqI [OF ok a(1,4)] by (simp add: fun_eq_iff)
  ultimately show ?thesis
    using assms(2) a f(3) key_added_length [OF assms(3) ok(1)] card_insert_le_m1 [of "Suc (card (used_nodes t))" "used_nodes t" j]
    by (simp add: placed_def same_sizes_def sizearray_def)
qed

lemma newkey_with_placed:
  assumes "table_ok t" "scan t key = SNil" "key \<noteq> TNil" "luaO_rawequalObj key key" "room t key"
  shows "\<exists>s t'. newkey_with g t key = Inr (s, t') \<and> placed t key s t'"
proof -
  have f: "fresh_key t key"
    using fresh_key_scan [of t key] assms by (simp add: table_ok_def)
  with newkey_with_ok [OF assms(1) f, of g] assms(2,5) obtain i j t' where
    "newkey_with g t key = Inr (SNode i, t')" "key_added t key i j t'" "table_ok t'" by (auto simp: room_def)
  with key_added_placed [OF assms(1) _ _ f] show ?thesis by blast
qed

lemma placed_present: "table_ok t \<Longrightarrow> scan t key \<noteq> SNil \<Longrightarrow> placed t key (scan t key) t"
  by (simp add: placed_def)

lemma placed_flags: "placed (t\<lparr>t_flags := f\<rparr>) key s t' \<Longrightarrow> placed t key s t'"
  using nodes_ok_cong [of "t\<lparr>t_flags := f\<rparr>" t] by (auto simp: placed_def same_sizes_def sizearray_def)

lemma table_ok_flags: "table_ok t \<Longrightarrow> table_ok (t\<lparr>t_flags := f\<rparr>)"
  using nodes_ok_cong [of "t\<lparr>t_flags := f\<rparr>" t] by (auto simp: table_ok_def free_ok_def sizearray_def split: if_splits)

definition valid_key :: "tvalue \<Rightarrow> bool" where
  "valid_key key \<longleftrightarrow> key \<noteq> TNil \<and> \<not> (case key of TNumber n \<Rightarrow> luai_numisnan n | _ \<Rightarrow> False)"

lemma valid_key_iff: "valid_key key \<longleftrightarrow> key \<noteq> TNil \<and> luaO_rawequalObj key key"
  by (cases key) (auto simp: valid_key_def rawequal_refl_iff)

lemma luaH_set_with_ok:
  assumes "table_ok t" "valid_key key" "room t key"
  shows "\<exists>s t'. luaH_set_with g t key = Inr (s, t') \<and> placed t key s t'"
proof -
  let ?t = "t\<lparr>t_flags := 0\<rparr>"
  have ok: "table_ok ?t" using assms(1) by (rule table_ok_flags)
  have get: "luaH_get t key = Inr (scan t key)"
    using luaH_get_spec table_ok_nodes table_ok_sizearray assms(1) by blast
  have S: "scan ?t = scan t" using nodes_ok_cong [of ?t t] by simp
  show ?thesis
  proof (cases "scan t key = SNil")
    case True
    have "room ?t key" using assms(3) nodes_ok_cong [of ?t t] by (simp add: room_def)
    with newkey_with_placed [OF ok, of key g] True S assms(2) obtain s t' where
      "newkey_with g ?t key = Inr (s, t')" "placed ?t key s t'" by (auto simp: valid_key_iff)
    with True get assms(2) placed_flags show ?thesis
      by (fastforce simp: luaH_set_with_def valid_key_def Let_def)
  next
    case False
    then show ?thesis
      using placed_flags [OF placed_present [OF ok], of key] get S by (auto simp: luaH_set_with_def Let_def)
  qed
qed

lemma luaH_setnum_with_ok:
  assumes "table_ok t" "INT_MIN \<le> k" "k \<le> INT_MAX" "room t (TNumber (cast_num k))"
  shows "\<exists>s t'. luaH_setnum_with g t k = Inr (s, t') \<and> placed t (TNumber (cast_num k)) s t'"
proof -
  have "luaH_getnum t k = Inr (scan t (TNumber (cast_num k)))"
    using luaH_getnum_spec [of t k] assms table_ok_nodes table_ok_sizearray by blast
  then show ?thesis
    using placed_present [OF assms(1)] newkey_with_placed [OF assms(1), of "TNumber (cast_num k)" g] assms(2-)
    by (cases "scan t (TNumber (cast_num k)) = SNil") (auto simp: luaH_setnum_with_def)
qed

lemma luaH_setstr_with_ok:
  assumes "table_ok t" "room t (TString k)"
  shows "\<exists>s t'. luaH_setstr_with g t k = Inr (s, t') \<and> placed t (TString k) s t'"
proof -
  have "luaH_getstr t k = Inr (scan t (TString k))"
    using luaH_getstr_spec assms table_ok_nodes by blast
  then show ?thesis
    using placed_present [OF assms(1)] newkey_with_placed [OF assms(1), of "TString k" g] assms(2)
    by (cases "scan t (TString k) = SNil") (auto simp: luaH_setstr_with_def)
qed

section \<open>Writing a value\<close>

lemma scan_inj:
  assumes "nodes_ok t" "scan t a = scan t b" "scan t a \<noteq> SNil"
  shows "luaO_rawequalObj a b"
  using assms(1)
proof (cases rule: scan_cases [where key = a])
  case array
  from assms(1) show ?thesis
  proof (cases rule: scan_cases [where key = b])
    case b: array
    then have e: "arrayindex a = arrayindex b" "0 < arrayindex a"
      using array assms(2) by (auto simp: in_array_def)
    then have "luaO_rawequalObj (TNumber (cast_num (arrayindex a))) a" "luaO_rawequalObj (TNumber (cast_num (arrayindex a))) b"
      using arrayindex_iff [OF e(2) arrayindex_range(2)] e(1) by (metis, metis)
    then show ?thesis by (metis rawequal_sym rawequal_trans)
  qed (use array assms(2) in auto)
next
  case (node i)
  from assms(1) show ?thesis
  proof (cases rule: scan_cases [where key = b])
    case b: (node j)
    then show ?thesis using node assms(2) by (metis rawequal_sym rawequal_trans slot.inject(2))
  qed (use node assms(2) in auto)
qed (use assms(3) in auto)

lemma scan_SArray: "nodes_ok t \<Longrightarrow> scan t k = SArray i \<Longrightarrow> i < length (t_array t)"
  by (cases rule: scan_cases [where t = t and key = k]) auto

lemma scan_SNodeD: "nodes_ok t \<Longrightarrow> scan t k = SNode i \<Longrightarrow>
    i < length (t_node t) \<and> n_key (gnode t i) \<noteq> TNil"
  by (cases rule: scan_cases [where t = t and key = k]) auto

lemma node_val_update:
  fixes v :: tvalue
  assumes ok: "nodes_ok t" and i: "i < length (t_node t)" "n_key (gnode t i) \<noteq> TNil"
  defines "t' \<equiv> node_update i (\<lambda>n. n\<lparr>n_val := v\<rparr>) t"
  shows "nodes_ok t'" "scan t' = scan t" "used_nodes t' = used_nodes t"
proof -
  have M: "mainposition t' = mainposition t"
    by (rule mainposition_lsizenode) (simp add: node_update_def t'_def)
  have A: "in_array t' = in_array t" by (simp add: in_array_def fun_eq_iff sizearray_def node_update_def t'_def)
  have L: "length (t_node t') = length (t_node t)" by (simp add: node_update_def t'_def)
  have K: "n_key (gnode t' j) = n_key (gnode t j)" "n_next (gnode t' j) = n_next (gnode t j)"
    and V: "j \<noteq> i \<Longrightarrow> n_val (gnode t' j) = n_val (gnode t j)" for j
    using i(1) by (cases "j = i"; simp add: node_update_def t'_def nth_list_update)+
  have E: "next_edge (t_node t') = next_edge (t_node t)" by (auto simp: next_edge_iff L K)
  have R: "reach (t_node t') = reach (t_node t)" by (simp add: reach_def fun_eq_iff E)
  show "scan t' = scan t" by (simp add: scan_def fun_eq_iff A K L)
  show "used_nodes t' = used_nodes t" by (simp add: used_nodes_def K L)
  have c: "chains_ok (t_node t)" using ok by (simp add: nodes_ok_def)
  have "chains_ok (t_node t')" using c unfolding chains_ok_def E L .
  moreover have "node_ok t' j" if j: "j < length (t_node t)" for j
  proof (rule node_okI; (unfold K M A R)?)
    show "n_val (gnode t' j) = TNil \<and> n_next (gnode t j) = None" if "n_key (gnode t j) = TNil"
      using nodes_okD(2) [OF ok j that] V [of j] i(2) that by (cases "j = i") auto
  qed (use nodes_okD [OF ok j] in blast)+
  ultimately show "nodes_ok t'"
    using ok unfolding nodes_ok_def L K by (auto simp: t'_def node_update_def sizenode_def)
qed

lemma slot_write_ok:
  assumes ok: "table_ok t" and s: "scan t key \<noteq> SNil"
  obtains t' where "slot_write t (scan t key) v = Inr t'" "table_ok t'" "scan t' = scan t"
    "used_nodes t' = used_nodes t" "same_sizes t t'"
    "\<And>k. lookup t' k = (if luaO_rawequalObj k key then v else lookup t k)"
proof -
  have nok: "nodes_ok t" using ok by (simp add: table_ok_def)
  have same: "scan t k = scan t key \<longleftrightarrow> luaO_rawequalObj k key" if "scan t k \<noteq> SNil \<or> scan t key \<noteq> SNil" for k
    using that scan_inj [OF nok, of k key] scan_cong [OF nok, of k key] by metis
  show thesis
  proof (cases "scan t key")
    case (SArray i)
    let ?t = "t\<lparr>t_array := (t_array t)[i := v]\<rparr>"
    have i: "i < length (t_array t)" using scan_SArray [OF nok SArray] .
    have M: "mainposition ?t = mainposition t" by (rule mainposition_lsizenode) simp
    have A: "in_array ?t = in_array t" by (simp add: in_array_def fun_eq_iff sizearray_def)
    have S: "scan ?t = scan t" by (simp add: scan_def fun_eq_iff A)
    have "node_ok ?t = node_ok t" by (simp add: node_ok_def fun_eq_iff M A)
    then have "nodes_ok ?t" using nok by (simp add: nodes_ok_def sizenode_def)
    then have ok': "table_ok ?t"
      using ok by (auto simp: table_ok_def free_ok_def sizearray_def split: if_splits)
    have "lookup ?t k = (if luaO_rawequalObj k key then v else lookup t k)" for k
      using same [of k] s SArray i by (auto simp: lookup_def S slot_read_def nth_list_update split: slot.splits)
    then show thesis
      using that [OF _ ok' S] i SArray by (simp add: slot_write_def same_sizes_def sizearray_def used_nodes_def)
  next
    case (SNode i)
    let ?t = "node_update i (\<lambda>n. n\<lparr>n_val := v\<rparr>) t"
    have i: "i < length (t_node t)" "n_key (gnode t i) \<noteq> TNil" using scan_SNodeD [OF nok SNode] by auto
    then have nd: "\<not> t_dummy t" using ok by (auto simp: table_ok_def dummynode_def split: if_splits)
    note U = node_val_update [OF nok i, of v]
    have K: "n_key (gnode ?t j) = n_key (gnode t j)" for j
      using i by (cases "j = i") (simp_all add: node_update_def)
    have ok': "table_ok ?t"
      using ok nd U(1) K by (simp add: table_ok_def free_ok_def sizearray_def node_update_def)
    have "lookup ?t k = (if luaO_rawequalObj k key then v else lookup t k)" for k
      using same [of k] s SNode i unfolding lookup_def U(2)
      by (auto simp: slot_read_def node_update_def nth_list_update split: slot.splits)
    moreover have "same_sizes t ?t" by (simp add: same_sizes_def sizearray_def node_update_def)
    ultimately show thesis
      using that [OF _ ok' U(2,3)] i nd SNode by (simp add: slot_write_def)
  qed (use s in simp)
qed

end
