(* ===== verification/LuaTableResize.thy ===== *)
theory LuaTableResize
  imports LuaTableInv
begin

text \<open>
  Rehashing (\<^verbatim>\<open>rehash\<close>, \<^verbatim>\<open>resize\<close>, \<^verbatim>\<open>computesizes\<close> and the counting functions of
  \<^verbatim>\<open>ltable.c\<close>): the counts are the numbers of keys they claim to be, the new sizes have room
  for every key and for the one that did not fit, the re-insertion never grows the table
  again, and the table holds what it held.
\<close>

section \<open>Storing a list of bindings\<close>

fun puts :: "(table \<Rightarrow> tvalue \<Rightarrow> lua_error + slot \<times> table) \<Rightarrow> (tvalue \<times> tvalue) list \<Rightarrow> table \<Rightarrow> lua_error + table" where
  "puts place [] t = Inr t"
| "puts place ((k, v) # L) t =
     bindE (place t k) (\<lambda>(s, t1). bindE (slot_write t1 s v) (\<lambda>t2. puts place L t2))"

definition placer :: "(table \<Rightarrow> tvalue \<Rightarrow> lua_error + slot \<times> table) \<Rightarrow> tvalue \<Rightarrow> bool" where
  "placer place key \<longleftrightarrow>
     (\<forall>t. table_ok t \<longrightarrow> room t key \<longrightarrow> (\<exists>s t'. place t key = Inr (s, t') \<and> placed t key s t'))"

definition capacity :: "table \<Rightarrow> nat" where
  "capacity t = (if t_dummy t then 0 else length (t_node t))"

lemma same_sizes_capacity: "same_sizes t t' \<Longrightarrow> capacity t' = capacity t"
  by (simp add: same_sizes_def capacity_def)

definition hash_keys :: "table \<Rightarrow> (tvalue \<times> tvalue) list \<Rightarrow> nat" where
  "hash_keys t L = length (filter (\<lambda>(k, v). \<not> in_array t k) L)"

lemma in_array_scan: "in_array t k \<Longrightarrow> scan t k \<noteq> SNil"
  by (auto simp: scan_def in_array_def arrayindex_def)

text \<open>One assignment \<^verbatim>\<open>setobj(luaH_set(t, key), v)\<close>.\<close>

lemma put_ok:
  assumes "table_ok t" "placer place key" "room t key"
  obtains s t1 t2 where "place t key = Inr (s, t1)" "slot_write t1 s v = Inr t2" "table_ok t2" "same_sizes t t2"
    "card (used_nodes t2) \<le> card (used_nodes t) + (if in_array t key then 0 else 1)"
    "\<And>k. lookup t2 k = (if luaO_rawequalObj k key then v else lookup t k)"
proof -
  obtain s t1 where p: "place t key = Inr (s, t1)" "placed t key s t1"
    using assms unfolding placer_def by blast
  then have ok1: "table_ok t1" "s = scan t1 key" "scan t1 key \<noteq> SNil" "lookup t1 = lookup t" "same_sizes t t1"
    "card (used_nodes t1) \<le> card (used_nodes t) + (if scan t key = SNil then 1 else 0)"
    by (auto simp: placed_def)
  obtain t2 where t2: "slot_write t1 (scan t1 key) v = Inr t2" "table_ok t2" "scan t2 = scan t1"
    "used_nodes t2 = used_nodes t1" "same_sizes t1 t2"
    "\<And>k. lookup t2 k = (if luaO_rawequalObj k key then v else lookup t1 k)"
    by (rule slot_write_ok [OF ok1(1,3), of v]) (assumption | rule that)+
  have u: "card (used_nodes t2) \<le> card (used_nodes t) + (if in_array t key then 0 else 1)"
    using ok1(6) t2(4) in_array_scan [of t key] by (auto split: if_splits)
  have l: "lookup t2 k = (if luaO_rawequalObj k key then v else lookup t k)" for k
    using t2(6) ok1(4) by simp
  show thesis
    by (rule that [OF p(1) t2(1) [folded ok1(2)] t2(2) same_sizes_trans [OF ok1(5) t2(5)] u l])
qed

lemma puts_ok:
  assumes "table_ok t" "\<forall>(k, v) \<in> set L. placer place k" "card (used_nodes t) + hash_keys t L \<le> capacity t"
    and "\<forall>(k, v) \<in> set L. v = T k" "\<forall>a b. luaO_rawequalObj a b \<longrightarrow> T a = T b"
  shows "\<exists>t'. puts place L t = Inr t' \<and> table_ok t' \<and> same_sizes t t'
    \<and> card (used_nodes t') \<le> card (used_nodes t) + hash_keys t L
    \<and> (\<forall>k. lookup t' k = (if \<exists>(k', v) \<in> set L. luaO_rawequalObj k k' then T k else lookup t k))"
  using assms(1-4)
proof (induction L arbitrary: t)
  case (Cons kv L)
  obtain k v where kv: "kv = (k, v)" by (cases kv)
  have v: "v = T k" and pl: "placer place k" using Cons.prems kv by auto
  have "room t k"
  proof (cases "in_array t k")
    case False
    then show ?thesis using Cons.prems(3) by (simp add: room_def hash_keys_def kv capacity_def split: if_splits)
  qed (simp add: room_def in_array_scan)
  from put_ok [OF Cons.prems(1) pl this, of v] obtain s t1 t2 where
    p: "place t k = Inr (s, t1)" "slot_write t1 s v = Inr t2" "table_ok t2" "same_sizes t t2"
    "card (used_nodes t2) \<le> card (used_nodes t) + (if in_array t k then 0 else 1)"
    "\<And>k'. lookup t2 k' = (if luaO_rawequalObj k' k then v else lookup t k')" by blast
  have h: "hash_keys t2 L = hash_keys t L" "hash_keys t (kv # L) = (if in_array t k then 0 else 1) + hash_keys t L"
    using same_sizes_in_array [OF p(4)] by (simp_all add: hash_keys_def kv)
  have "card (used_nodes t2) + hash_keys t2 L \<le> capacity t2"
    using Cons.prems(3) h p(5) same_sizes_capacity [OF p(4)] by (simp split: if_splits)
  from Cons.IH [OF p(3) _ this] Cons.prems(2,4) obtain t' where t': "puts place L t2 = Inr t'" "table_ok t'" "same_sizes t2 t'"
    "card (used_nodes t') \<le> card (used_nodes t2) + hash_keys t2 L"
    "\<forall>k. lookup t' k = (if \<exists>(k', v) \<in> set L. luaO_rawequalObj k k' then T k else lookup t2 k)" by auto
  have "lookup t' x = (if \<exists>(k', v) \<in> set (kv # L). luaO_rawequalObj x k' then T x else lookup t x)" for x
    using t'(5) p(6) assms(5) v kv by auto
  moreover have "card (used_nodes t') \<le> card (used_nodes t) + hash_keys t (kv # L)"
    using t'(4) h p(5) by simp
  ultimately show ?case
    using t'(1,2) same_sizes_trans [OF p(4) t'(3)] p(1,2) kv by auto
qed simp

definition node_pairs :: "node list \<Rightarrow> (tvalue \<times> tvalue) list" where
  "node_pairs ns = map (\<lambda>n. (n_key n, n_val n)) (filter (\<lambda>n. n_val n \<noteq> TNil) ns)"

definition array_pairs :: "nat \<Rightarrow> tvalue list \<Rightarrow> (tvalue \<times> tvalue) list" where
  "array_pairs i vs =
     map (\<lambda>(j, v). (TNumber (cast_num (int j + 1)), v)) (filter (\<lambda>(j, v). v \<noteq> TNil) (enumerate i vs))"

lemma reinsert_nodes_puts: "reinsert_nodes place ns t = puts place (node_pairs ns) t"
proof (induction ns arbitrary: t)
  case (Cons n ns)
  then show ?case by (cases "n_val n = TNil") (simp_all add: node_pairs_def cong: bindE_cong)
qed (simp add: node_pairs_def)

lemma reinsert_array_puts:
  assumes "int (i + length vs) \<le> INT_MAX"
  shows "reinsert_array setnum i vs t = puts (\<lambda>t k. setnum t (arrayindex k)) (array_pairs i vs) t"
  using assms
proof (induction vs arbitrary: i t)
  case (Cons v vs)
  have "arrayindex (TNumber (cast_num (int i + 1))) = int i + 1"
    using Cons.prems by (intro arrayindex_num) auto
  with Cons.IH [of "Suc i"] Cons.prems show ?case
    by (cases "v = TNil") (simp_all add: array_pairs_def algebra_simps cong: bindE_cong)
qed (simp add: array_pairs_def)

section \<open>A table with an empty hash part\<close>

section \<open>A table with an empty hash part\<close>

lemma no_keys:
  assumes "\<forall>n \<in> set (t_node t). n_key n = TNil \<and> n_val n = TNil"
  shows "used_nodes t = {}" "live t = {}"
  using assms by (auto simp: used_nodes_def live_def)

text \<open>After \<open>setnodevector\<close> the hash part is empty and has room for the keys asked for.\<close>

lemma setnodevector_ok:
  assumes "int (sizearray t) \<le> MAXASIZE" "0 \<le> n" "n \<le> 2 ^ 26"
  obtains t' where "setnodevector t n = Inr t'" "table_ok t'" "t_array t' = t_array t" "used_nodes t' = {}"
    "int (capacity t') \<ge> n" "t_dummy t' \<longleftrightarrow> n = 0" "live t' = {}"
proof (cases "n = 0")
  case True
  let ?t = "t\<lparr>t_node := [dummynode], t_dummy := True, t_lsizenode := 0, t_lastfree := 0\<rparr>"
  have "next_edge [dummynode] = {}" by (auto simp: next_edge_iff dummynode_def)
  then have "chains_ok [dummynode]" by (simp add: chains_ok_def)
  then have "table_ok ?t"
    using assms(1) by (simp add: table_ok_def nodes_ok_def node_ok_def Let_def dummynode_def sizenode_def sizearray_def)
  moreover have "used_nodes ?t = {}" "live ?t = {}"
    using no_keys [of ?t] by (simp_all add: dummynode_def)
  ultimately show thesis using that [of ?t] True by (simp add: setnodevector_def capacity_def)
next
  case False
  have n: "1 \<le> n" "n \<le> 2 ^ 31" using assms False by auto
  let ?l = "nat (ceillog2 n)" let ?sz = "2 ^ ?l :: nat"
  have l: "0 \<le> ceillog2 n" "n \<le> 2 ^ ?l" "ceillog2 n \<le> int MAXBITS"
    using ceillog2_spec(1,2) [OF n] ceillog2_spec(3) [OF n, of MAXBITS] assms(3) by (simp_all add: MAXBITS_def)
  let ?t = "t\<lparr>t_node := replicate ?sz dummynode, t_dummy := False, t_lsizenode := ?l, t_lastfree := int ?sz\<rparr>"
  have "next_edge (replicate ?sz dummynode) = {}" by (auto simp: next_edge_iff dummynode_def)
  then have "chains_ok (replicate ?sz dummynode)" by (simp add: chains_ok_def)
  moreover have "?l \<le> MAXBITS" using l by simp
  ultimately have "table_ok ?t"
    using assms(1)
    by (simp add: table_ok_def nodes_ok_def node_ok_def Let_def dummynode_def sizenode_def sizearray_def free_ok_def)
  with that [of ?t] False l show thesis
    by (simp add: setnodevector_def Let_def used_nodes_def live_def dummynode_def capacity_def)
qed

lemma lookup_empty_hash:
  assumes "table_ok t" "live t = {}"
  shows "lookup t k = (if in_array t k then t_array t ! nat (arrayindex k - 1) else TNil)"
proof (cases "in_array t k")
  case False
  then have "v \<noteq> TNil \<Longrightarrow> lookup t k \<noteq> v" for v
    using lookup_live [of t k v] assms by (simp add: table_ok_def)
  with False show ?thesis by auto
qed (simp add: lookup_array)

section \<open>\<open>resize\<close>\<close>

lemma setarrayvector_fields [simp]:
  "t_node (setarrayvector t n) = t_node t" "t_dummy (setarrayvector t n) = t_dummy t"
  "sizearray (setarrayvector t n) = n"
  by (auto simp: setarrayvector_def sizearray_def)

text \<open>The keys a table must keep in its hash part once the array part has \<open>n\<close> places.\<close>

definition outside :: "nat \<Rightarrow> tvalue \<Rightarrow> bool" where
  "outside n k \<longleftrightarrow> \<not> (1 \<le> arrayindex k \<and> arrayindex k \<le> int n)"

definition table_pairs :: "table \<Rightarrow> (tvalue \<times> tvalue) list" where
  "table_pairs t = array_pairs 0 (t_array t) @ node_pairs (t_node t)"

definition count_outside :: "nat \<Rightarrow> (tvalue \<times> tvalue) list \<Rightarrow> nat" where
  "count_outside n L = length (filter (\<lambda>(k, v). outside n k) L)"

lemma count_outside_append [simp]: "count_outside n (A @ B) = count_outside n A + count_outside n B"
  by (simp add: count_outside_def)

lemma hash_keys_outside: "hash_keys t L = count_outside (sizearray t) L"
  by (simp add: hash_keys_def count_outside_def outside_def in_array_def)

lemma count_outside_mset: "mset A = mset B \<Longrightarrow> count_outside n A = count_outside n B"
  unfolding count_outside_def by (metis mset_filter size_mset)

lemma set_node_pairs: "set (node_pairs ns) = {(n_key n, n_val n) | n. n \<in> set ns \<and> n_val n \<noteq> TNil}"
  by (auto simp: node_pairs_def)

lemma set_node_pairs_live: "set (node_pairs (t_node t)) = live t"
  by (auto simp: set_node_pairs live_def in_set_conv_nth)

lemma set_array_pairs:
  "set (array_pairs i vs) = {(TNumber (cast_num (int (i + j) + 1)), vs ! j) | j. j < length vs \<and> vs ! j \<noteq> TNil}"
proof (intro set_eqI iffI)
  fix x assume "x \<in> set (array_pairs i vs)"
  then obtain j v where "(j, v) \<in> set (enumerate i vs)" "v \<noteq> TNil" "x = (TNumber (cast_num (int j + 1)), v)"
    by (auto simp: array_pairs_def)
  then show "x \<in> {(TNumber (cast_num (int (i + j) + 1)), vs ! j) | j. j < length vs \<and> vs ! j \<noteq> TNil}"
    by (intro CollectI exI [of _ "j - i"]) (auto simp: in_set_enumerate_eq)
next
  fix x assume "x \<in> {(TNumber (cast_num (int (i + j) + 1)), vs ! j) | j. j < length vs \<and> vs ! j \<noteq> TNil}"
  then obtain j where j: "j < length vs" "vs ! j \<noteq> TNil" "x = (TNumber (cast_num (int (i + j) + 1)), vs ! j)" by blast
  then have "(i + j, vs ! j) \<in> set (enumerate i vs)" by (simp add: in_set_enumerate_eq)
  then show "x \<in> set (array_pairs i vs)" using j unfolding array_pairs_def by force
qed

lemma array_pairs_append: "array_pairs i (a @ b) = array_pairs i a @ array_pairs (i + length a) b"
  by (simp add: array_pairs_def enumerate_append_eq)

lemma in_array_key:
  assumes "in_array t k"
  shows "luaO_rawequalObj k (TNumber (cast_num (arrayindex k)))"
  using assms arrayindex_iff [of "arrayindex k" k] arrayindex_range(2) [of k]
  by (simp add: in_array_def rawequal_sym)

lemma lookup_nth:
  assumes "sizearray t \<le> 2 ^ 26" "j < sizearray t"
  shows "lookup t (TNumber (cast_num (int j + 1))) = t_array t ! j"
    and "in_array t (TNumber (cast_num (int j + 1)))"
    and "arrayindex (TNumber (cast_num (int j + 1))) = int j + 1"
proof -
  show a: "arrayindex (TNumber (cast_num (int j + 1))) = int j + 1"
    using assms by (intro arrayindex_num) (auto simp: INT_MAX_def)
  with assms show "in_array t (TNumber (cast_num (int j + 1)))" by (simp add: in_array_def)
  then show "lookup t (TNumber (cast_num (int j + 1))) = t_array t ! j" by (simp add: lookup_array a)
qed

lemma placer_num:
  assumes "int j + 1 \<le> INT_MAX"
  shows "placer (\<lambda>t k. luaH_setnum_with g t (arrayindex k)) (TNumber (cast_num (int j + 1)))"
  using assms luaH_setnum_with_ok [of _ "int j + 1" g] arrayindex_num [of "int j + 1"]
  by (simp add: placer_def INT_MIN_def)

lemma placer_key: "valid_key key \<Longrightarrow> placer (luaH_set_with g) key"
  using luaH_set_with_ok unfolding placer_def by blast

lemma live_valid: "nodes_ok t \<Longrightarrow> (k, v) \<in> live t \<Longrightarrow> valid_key k \<and> lookup t k = v"
proof -
  assume ok: "nodes_ok t" and l: "(k, v) \<in> live t"
  then obtain i where i: "i < length (t_node t)" "k = n_key (gnode t i)" "v = n_val (gnode t i)" "v \<noteq> TNil"
    by (auto simp: live_def)
  have u: "n_key (gnode t i) \<noteq> TNil" using nodes_okD(2) [OF ok i(1)] i by auto
  note nodes_okD(3) [OF ok i(1) u]
  then show ?thesis using u lookup_live [OF ok, of k v] i l by (auto simp: valid_key_iff)
qed

text \<open>What is left of the old array part once the first \<open>n\<close> places are taken over.\<close>

definition spilled :: "nat \<Rightarrow> table \<Rightarrow> (tvalue \<times> tvalue) list" where
  "spilled n t = array_pairs n (drop n (t_array t))"

lemma spilled_lookup:
  assumes "sizearray t \<le> 2 ^ 26" "(k, v) \<in> set (spilled n t)"
  shows "v = lookup t k" "\<exists>j \<ge> n. j < sizearray t \<and> k = TNumber (cast_num (int j + 1))"
proof -
  obtain j where j: "j < length (drop n (t_array t))" "k = TNumber (cast_num (int (n + j) + 1))" "v = drop n (t_array t) ! j"
    using assms(2) by (auto simp: spilled_def set_array_pairs)
  then show "v = lookup t k" using lookup_nth(1) [OF assms(1), of "n + j"] by (simp add: sizearray_def)
  show "\<exists>j \<ge> n. j < sizearray t \<and> k = TNumber (cast_num (int j + 1))"
    using j by (intro exI [of _ "n + j"]) (simp add: sizearray_def)
qed

text \<open>Every binding of the table is in the part taken over, spilled, or in a node.\<close>

lemma lookup_covered:
  assumes ok: "table_ok t" and v: "lookup t k \<noteq> TNil"
  shows "(1 \<le> arrayindex k \<and> arrayindex k \<le> int n \<and> in_array t k)
    \<or> (\<exists>(k', v) \<in> set (spilled n t @ node_pairs (t_node t)). luaO_rawequalObj k k')"
proof (cases "in_array t k")
  case True
  let ?j = "nat (arrayindex k - 1)"
  have j: "?j < sizearray t" "int ?j + 1 = arrayindex k" using True by (auto simp: in_array_def)
  show ?thesis
  proof (cases "arrayindex k \<le> int n")
    case False
    then have "n \<le> ?j" "t_array t ! ?j \<noteq> TNil" using j True v by (auto simp: lookup_array)
    then have "(TNumber (cast_num (arrayindex k)), t_array t ! ?j) \<in> set (spilled n t)"
      using j unfolding spilled_def set_array_pairs sizearray_def
      by (intro CollectI exI [of _ "?j - n"]) (auto simp: nth_drop)
    then show ?thesis using in_array_key [OF True] by auto
  qed (use True in \<open>auto simp: in_array_def\<close>)
next
  case False
  then obtain k' where "(k', lookup t k) \<in> live t" "luaO_rawequalObj k' k"
    using lookup_live [of t k "lookup t k"] ok v by (auto simp: table_ok_def)
  then show ?thesis using rawequal_sym by (auto simp: set_node_pairs_live)
qed

lemma table_ok_new_array:
  assumes "table_ok t" "used_nodes t = {}" "int (length arr) \<le> MAXASIZE"
  shows "table_ok (t\<lparr>t_array := arr\<rparr>)" "live (t\<lparr>t_array := arr\<rparr>) = live t"
    "used_nodes (t\<lparr>t_array := arr\<rparr>) = used_nodes t" "capacity (t\<lparr>t_array := arr\<rparr>) = capacity t"
proof -
  have nil: "n_key (gnode t i) = TNil" if "i < length (t_node t)" for i
    using assms(2) that by (auto simp: used_nodes_def)
  have M: "mainposition (t\<lparr>t_array := arr\<rparr>) = mainposition t" by (rule mainposition_lsizenode) simp
  have "node_ok (t\<lparr>t_array := arr\<rparr>) i \<longleftrightarrow> node_ok t i" if "i < length (t_node t)" for i
    using nil [OF that] by (simp add: node_ok_def Let_def)
  then show "table_ok (t\<lparr>t_array := arr\<rparr>)"
    using assms(1,3) by (auto simp: table_ok_def nodes_ok_def free_ok_def sizenode_def sizearray_def split: if_splits)
qed (simp_all add: live_def used_nodes_def capacity_def)

text \<open>\<open>resize\<close> up to its two loops: an array part of the new size, an empty hash part.\<close>

definition resize_start :: "table \<Rightarrow> nat \<Rightarrow> int \<Rightarrow> table \<Rightarrow> bool" where
  "resize_start t nasize nhsize tb \<longleftrightarrow>
     table_ok tb \<and> used_nodes tb = {} \<and> live tb = {} \<and> nhsize \<le> int (capacity tb)
     \<and> (t_dummy tb \<longleftrightarrow> nhsize = 0)
     \<and> t_array tb = take nasize (t_array t) @ replicate (nasize - sizearray t) TNil"

lemma resize_base:
  assumes ok: "table_ok t" and sz: "int nasize \<le> MAXASIZE" "0 \<le> nhsize" "nhsize \<le> 2 ^ 26"
  shows "\<exists>tb. resize_start t nasize nhsize tb \<and> resize_with g t nasize nhsize =
      bindE (reinsert_array (luaH_setnum_with g) nasize (drop nasize (t_array t)) tb)
        (reinsert_nodes (luaH_set_with g) (rev (t_node t)))"
proof (cases "nasize < sizearray t")
  case True
  have "int (sizearray t) \<le> MAXASIZE" using ok by (simp add: table_ok_def)
  then obtain t2 where t2: "setnodevector t nhsize = Inr t2" "table_ok t2" "t_array t2 = t_array t"
    "used_nodes t2 = {}" "int (capacity t2) \<ge> nhsize" "t_dummy t2 \<longleftrightarrow> nhsize = 0" "live t2 = {}"
    using setnodevector_ok [OF _ sz(2,3)] by metis
  have len: "int (length (take nasize (t_array t))) \<le> MAXASIZE" using sz(1) by simp
  note B = table_ok_new_array [OF t2(2,4) len]
  show ?thesis
    by (rule exI [of _ "t2\<lparr>t_array := take nasize (t_array t)\<rparr>"])
      (use B t2 True in \<open>simp add: resize_start_def resize_with_def Let_def sizearray_def\<close>)
next
  case False
  let ?t1 = "if nasize > sizearray t then setarrayvector t nasize else t"
  have a1: "t_array ?t1 = take nasize (t_array t) @ replicate (nasize - sizearray t) TNil"
    using False by (auto simp: setarrayvector_def sizearray_def)
  have "int (sizearray ?t1) \<le> MAXASIZE" using False sz(1) by auto
  then obtain t2 where t2: "setnodevector ?t1 nhsize = Inr t2" "table_ok t2" "t_array t2 = t_array ?t1"
    "used_nodes t2 = {}" "int (capacity t2) \<ge> nhsize" "t_dummy t2 \<longleftrightarrow> nhsize = 0" "live t2 = {}"
    using setnodevector_ok [OF _ sz(2,3)] by metis
  have "drop nasize (t_array t) = []" using False by (simp add: sizearray_def)
  then show ?thesis
    using t2 False a1 by (intro exI [of _ t2]) (simp add: resize_start_def resize_with_def Let_def)
qed

text \<open>What the new array part does not hold is spilled or in a node.\<close>

lemma resize_start_lookup:
  assumes ok: "table_ok t" and start: "resize_start t nasize nhsize tb"
    and no: "\<not> (\<exists>(k', v) \<in> set (spilled nasize t). luaO_rawequalObj k k')"
      "\<not> (\<exists>(k', v) \<in> set (node_pairs (t_node t)). luaO_rawequalObj k k')"
  shows "lookup tb k = lookup t k"
proof -
  have tb: "table_ok tb" "live tb = {}" "t_array tb = take nasize (t_array t) @ replicate (nasize - sizearray t) TNil"
    using start by (simp_all add: resize_start_def)
  have sz: "sizearray tb = nasize" using tb(3) by (simp add: sizearray_def)
  note L = lookup_empty_hash [OF tb(1,2), of k]
  show ?thesis
  proof (cases "in_array tb k \<and> in_array t k")
    case True
    then show ?thesis using L sz tb(3) by (auto simp: lookup_array nth_append in_array_def sizearray_def)
  next
    case False
    then have "lookup tb k = TNil" using L sz tb(3) by (auto simp: nth_append in_array_def sizearray_def)
    moreover have "lookup t k = TNil"
      using lookup_covered [OF ok, of k nasize] no False sz by (auto simp: in_array_def)
    ultimately show ?thesis by simp
  qed
qed

text \<open>
  \<open>resize\<close> keeps every binding, whatever insertion does when the table is full (\<open>g\<close>), if the
  hash part asked for has room for every key outside the new array part.
\<close>

lemma resize_with_ok:
  assumes ok: "table_ok t" and sz: "int nasize \<le> MAXASIZE" "0 \<le> nhsize" "nhsize \<le> 2 ^ 26"
    and fits: "int (length (spilled nasize t) + count_outside nasize (node_pairs (t_node t))) \<le> nhsize"
  obtains t' where "resize_with g t nasize nhsize = Inr t'" "table_ok t'" "lookup t' = lookup t"
    "sizearray t' = nasize" "t_dummy t' \<longleftrightarrow> nhsize = 0" "nhsize \<le> int (capacity t')"
    "card (used_nodes t') \<le> length (spilled nasize t) + count_outside nasize (node_pairs (t_node t))"
proof -
  obtain tb where start: "resize_start t nasize nhsize tb" and r: "resize_with g t nasize nhsize =
      bindE (reinsert_array (luaH_setnum_with g) nasize (drop nasize (t_array t)) tb)
        (reinsert_nodes (luaH_set_with g) (rev (t_node t)))"
    using resize_base [OF ok sz] by blast
  then have tb: "table_ok tb" "used_nodes tb = {}" "live tb = {}" "nhsize \<le> int (capacity tb)"
    "t_dummy tb \<longleftrightarrow> nhsize = 0"
    "t_array tb = take nasize (t_array t) @ replicate (nasize - sizearray t) TNil"
    by (simp_all add: resize_start_def)
  have small: "sizearray t \<le> 2 ^ 26" using ok by (rule table_ok_sizearray)
  have szb: "sizearray tb = nasize" using tb(6) by (simp add: sizearray_def)
  have cong: "\<forall>a b. luaO_rawequalObj a b \<longrightarrow> lookup t a = lookup t b"
    using lookup_cong table_ok_nodes [OF ok] by blast
  have h1: "hash_keys tb (spilled nasize t) \<le> length (spilled nasize t)" by (simp add: hash_keys_def)
  have p1: "\<forall>(k, v) \<in> set (spilled nasize t). placer (\<lambda>t k. luaH_setnum_with g t (arrayindex k)) k"
    using small by (auto intro!: placer_num simp: INT_MAX_def dest!: spilled_lookup(2) [OF small])
  have p1': "\<forall>(k, v) \<in> set (spilled nasize t). v = lookup t k"
    using spilled_lookup(1) [OF small] by auto
  have c1: "card (used_nodes tb) + hash_keys tb (spilled nasize t) \<le> capacity tb"
    using fits tb(2,4) h1 by simp
  from puts_ok [OF tb(1) p1 c1 p1' cong] obtain t3 where
    t3: "puts (\<lambda>t k. luaH_setnum_with g t (arrayindex k)) (spilled nasize t) tb = Inr t3" "table_ok t3"
    "same_sizes tb t3" "card (used_nodes t3) \<le> card (used_nodes tb) + hash_keys tb (spilled nasize t)"
    "\<forall>k. lookup t3 k = (if \<exists>(k', v) \<in> set (spilled nasize t). luaO_rawequalObj k k' then lookup t k else lookup tb k)"
    by (elim exE conjE) (rule that; assumption)
  let ?N = "node_pairs (rev (t_node t))"
  have m: "mset ?N = mset (node_pairs (t_node t))" by (simp add: node_pairs_def)
  have N: "set ?N = live t" unfolding mset_eq_setD [OF m] by (rule set_node_pairs_live)
  have h2: "hash_keys t3 ?N = count_outside nasize (node_pairs (t_node t))"
    using count_outside_mset [OF m, of nasize] t3(3) szb by (simp add: hash_keys_outside same_sizes_def)
  have p2: "\<forall>(k, v) \<in> set ?N. placer (luaH_set_with g) k" "\<forall>(k, v) \<in> set ?N. v = lookup t k"
    unfolding N using live_valid [OF table_ok_nodes [OF ok]] placer_key by auto
  have c2: "card (used_nodes t3) + hash_keys t3 ?N \<le> capacity t3"
    using fits tb(2,4) h1 h2 t3(4) same_sizes_capacity [OF t3(3)] by simp
  from puts_ok [OF t3(2) p2(1) c2 p2(2) cong] obtain t' where
    t': "puts (luaH_set_with g) ?N t3 = Inr t'" "table_ok t'" "same_sizes t3 t'"
    "card (used_nodes t') \<le> card (used_nodes t3) + hash_keys t3 ?N"
    "\<forall>k. lookup t' k = (if \<exists>(k', v) \<in> set ?N. luaO_rawequalObj k k' then lookup t k else lookup t3 k)"
    by (elim exE conjE) (rule that; assumption)
  have "lookup t' k = lookup t k" for k
    using t'(5) t3(5) resize_start_lookup [OF ok start, of k] N by (auto simp: set_node_pairs_live)
  moreover have "resize_with g t nasize nhsize = Inr t'"
  proof -
    have "int (nasize + length (drop nasize (t_array t))) \<le> INT_MAX"
      using sz(1) small by (auto simp: MAXASIZE_def MAXBITS_def INT_MAX_def sizearray_def)
    with r t3(1) t'(1) show ?thesis by (simp add: reinsert_array_puts reinsert_nodes_puts spilled_def)
  qed
  moreover have same: "same_sizes tb t'" using t3(3) t'(3) by (rule same_sizes_trans)
  moreover have "capacity t' = capacity tb" using same by (rule same_sizes_capacity)
  moreover have "card (used_nodes t') \<le> length (spilled nasize t) + count_outside nasize (node_pairs (t_node t))"
    using t'(4) t3(4) h1 h2 tb(2) by simp
  moreover have "sizearray t' = nasize" "t_dummy t' \<longleftrightarrow> nhsize = 0" using same szb tb(5) by (auto simp: same_sizes_def)
  ultimately show thesis
    using that [of t'] t'(2) tb(4) by (simp add: fun_eq_iff)
qed

section \<open>The counters\<close>

text \<open>\<open>nums ! i\<close> counts the keys in \<open>(2^(i-1), 2^i]\<close>.\<close>

definition in_slice :: "nat \<Rightarrow> tvalue \<Rightarrow> bool" where
  "in_slice i k \<longleftrightarrow> 0 < arrayindex k \<and> arrayindex k \<le> MAXASIZE \<and> nat (ceillog2 (arrayindex k)) = i"

definition nums_of :: "tvalue list \<Rightarrow> int list" where
  "nums_of K = map (\<lambda>i. int (length (filter (in_slice i) K))) [0 ..< Suc MAXBITS]"

lemma length_nums_of [simp]: "length (nums_of K) = Suc MAXBITS"
  by (simp add: nums_of_def)

lemma nth_nums_of: "i \<le> MAXBITS \<Longrightarrow> nums_of K ! i = int (length (filter (in_slice i) K))"
  unfolding nums_of_def by (subst nth_map) (auto simp del: upt_Suc)

lemma ceillog2_le:
  assumes "0 < x" "x \<le> MAXASIZE"
  shows "nat (ceillog2 x) \<le> n \<longleftrightarrow> x \<le> 2 ^ n" "nat (ceillog2 x) \<le> MAXBITS"
proof -
  have x: "1 \<le> x" "x \<le> 2 ^ 31" using assms by (auto simp: MAXASIZE_def MAXBITS_def)
  show "nat (ceillog2 x) \<le> n \<longleftrightarrow> x \<le> 2 ^ n" for n
    using ceillog2_spec(3) [OF x, of n] by (simp add: nat_le_iff)
  from this [of MAXBITS] show "nat (ceillog2 x) \<le> MAXBITS" using assms by (simp add: MAXASIZE_def)
qed

lemma nums_of_Cons:
  "nums_of (k # K) = (if 0 < arrayindex k \<and> arrayindex k \<le> MAXASIZE
     then nums_add (nat (ceillog2 (arrayindex k))) 1 (nums_of K) else nums_of K)"
  by (rule nth_equalityI)
    (auto simp: nums_add_def nth_nums_of nth_list_update in_slice_def dest: ceillog2_le(2))

lemma countint_nums:
  "countint k (nums_of K) = (if 0 < arrayindex k \<and> arrayindex k \<le> MAXASIZE then 1 else 0, nums_of (k # K))"
  by (simp add: countint_def Let_def nums_of_Cons)

lemma nums_of_mset: "mset A = mset B \<Longrightarrow> nums_of A = nums_of B"
  unfolding nums_of_def by (metis mset_filter size_mset)

text \<open>The keys that could live in an array part of the largest size.\<close>

definition indexable :: "tvalue list \<Rightarrow> tvalue list" where
  "indexable K = filter (\<lambda>k. 0 < arrayindex k \<and> arrayindex k \<le> MAXASIZE) K"

lemma fold_numusehash:
  "fold numusehash_node ns (tot, ause, nums_of K) =
    (tot + int (length (node_pairs ns)), ause + int (length (indexable (map fst (node_pairs ns)))),
     nums_of (map fst (rev (node_pairs ns)) @ K))"
proof (induction ns arbitrary: tot ause K)
  case (Cons n ns)
  show ?case
  proof (cases "n_val n = TNil")
    case False
    then have "fold numusehash_node (n # ns) (tot, ause, nums_of K) =
      fold numusehash_node ns (tot + 1,
        ause + (if 0 < arrayindex (n_key n) \<and> arrayindex (n_key n) \<le> MAXASIZE then 1 else 0), nums_of (n_key n # K))"
      by (simp add: numusehash_node_def countint_nums)
    with Cons.IH False show ?thesis by (simp add: node_pairs_def indexable_def)
  qed (use Cons.IH in \<open>simp add: node_pairs_def numusehash_node_def\<close>)
qed (simp add: node_pairs_def indexable_def)

lemma numusehash_spec:
  "numusehash t (nums_of K) =
    (int (length (node_pairs (t_node t))), int (length (indexable (map fst (node_pairs (t_node t))))),
     nums_of (map fst (node_pairs (t_node t)) @ K))"
proof -
  have "node_pairs (rev (t_node t)) = rev (node_pairs (t_node t))" by (simp add: node_pairs_def rev_map rev_filter)
  then show ?thesis
    by (simp add: numusehash_def fold_numusehash indexable_def flip: rev_map rev_filter)
qed

text \<open>Array elements \<open>i .. i + length vs - 1\<close> that all belong to one slice.\<close>

lemma array_pairs_slice:
  assumes "\<And>j. i \<le> j \<Longrightarrow> j < i + length vs \<Longrightarrow> in_slice lg (TNumber (cast_num (int j + 1)))" "lg \<le> MAXBITS"
  shows "nums_of (map fst (array_pairs i vs) @ K) = nums_add lg (count_used vs) (nums_of K)"
proof -
  have l: "length (array_pairs i vs) = length (filter (\<lambda>v. v \<noteq> TNil) vs)"
  proof -
    have "map snd (filter (\<lambda>(j, v). v \<noteq> TNil) (enumerate i vs)) = filter (\<lambda>v. v \<noteq> TNil) vs"
      using filter_map [of "\<lambda>v. v \<noteq> TNil" snd "enumerate i vs"] by (simp add: comp_def case_prod_unfold)
    then show ?thesis by (metis array_pairs_def length_map)
  qed
  have "in_slice lg k" if "k \<in> fst ` set (array_pairs i vs)" for k
  proof -
    from that obtain j where "j < length vs" "k = TNumber (cast_num (int (i + j) + 1))"
      by (auto simp: set_array_pairs)
    then show ?thesis using assms(1) [of "i + j"] by simp
  qed
  then have "filter (in_slice j) (map fst (array_pairs i vs)) = (if j = lg then map fst (array_pairs i vs) else [])" for j
    by (auto intro!: filter_True filter_False simp: in_slice_def)
  then show ?thesis
    using assms(2) l by (intro nth_equalityI) (auto simp: nums_add_def nth_nums_of nth_list_update count_used_def)
qed

text \<open>The slice of index \<open>j + 1\<close>, by the bounds of the loop.\<close>

lemma in_slice_index:
  assumes "int j + 1 \<le> 2 ^ lg" "lg = 0 \<or> 2 ^ (lg - 1) \<le> int j" "lg \<le> MAXBITS"
  shows "in_slice lg (TNumber (cast_num (int j + 1)))"
proof -
  have "(2::int) ^ lg \<le> 2 ^ MAXBITS" using assms(3) by (intro power_increasing) auto
  with assms(1) have "int j + 1 \<le> 2 ^ MAXBITS" by (rule order.trans)
  then have m: "0 < int j + 1" "int j + 1 \<le> MAXASIZE" by (simp_all add: MAXASIZE_def)
  then have "arrayindex (TNumber (cast_num (int j + 1))) = int j + 1"
    by (intro arrayindex_num) (auto simp: MAXASIZE_def MAXBITS_def INT_MAX_def)
  moreover have "nat (ceillog2 (int j + 1)) = lg"
  proof (rule antisym)
    show "nat (ceillog2 (int j + 1)) \<le> lg" using ceillog2_le(1) [OF m] assms(1) by simp
    show "lg \<le> nat (ceillog2 (int j + 1))"
    proof (cases lg)
      case (Suc l)
      have "(2::int) ^ l \<le> int j" using assms(2) unfolding Suc diff_Suc_1 by blast
      then have "\<not> int j + 1 \<le> 2 ^ l" by linarith
      then show ?thesis using ceillog2_le(1) [OF m, of l] Suc by simp
    qed simp
  qed
  ultimately show ?thesis using m by (simp add: in_slice_def)
qed

lemma count_used_pairs: "int (length (array_pairs i vs)) = count_used vs"
proof (induction vs arbitrary: i)
  case (Cons v vs)
  then show ?case using Cons.IH [of "Suc i"] by (simp add: array_pairs_def count_used_def)
qed (simp add: array_pairs_def count_used_def)

lemma numusearray_loop_spec:
  assumes "length arr \<le> 2 ^ MAXBITS" "ttlg = 2 ^ lg"
    "i = (if lg = 0 then 1 else min (2 ^ (lg - 1)) (length arr) + 1)" "lg \<le> Suc MAXBITS"
    "ause = count_used (take (i - 1) arr)" "nums = nums_of (map fst (array_pairs 0 (take (i - 1) arr)))"
  shows "numusearray_loop arr lg ttlg i ause nums = (count_used arr, nums_of (map fst (array_pairs 0 arr)))"
  using assms
proof (induction arr lg ttlg i ause nums rule: numusearray_loop.induct)
  case (1 arr lg ttlg i ause nums)
  let ?lim = "min ttlg (length arr)"
  have done_eq: "take (i - 1) arr = arr" if "length arr \<le> i - 1" using that by simp
  show ?case
  proof (cases "lg > MAXBITS \<or> (ttlg > length arr \<and> i > ?lim)")
    case True
    have "length arr \<le> i - 1"
    proof (cases "lg > MAXBITS")
      case True
      then have "lg = Suc MAXBITS" using "1.prems"(4) by simp
      then show ?thesis using "1.prems"(1,3) by simp
    qed (use True in auto)
    with True "1.prems" done_eq show ?thesis by (subst numusearray_loop.simps) auto
  next
    case False
    then have lg: "lg \<le> MAXBITS" by simp
    have i: "i - 1 \<le> ?lim" "1 \<le> i"
      using False "1.prems"(2,3) by (cases lg; auto)+
    let ?vs = "drop (i - 1) (take ?lim arr)"
    have split: "take ?lim arr = take (i - 1) arr @ ?vs"
      using i by (metis append_take_drop_id min.absorb1 take_take)
    have li: "length (take (i - 1) arr) = i - 1" using i by simp
    have sl: "in_slice lg (TNumber (cast_num (int j + 1)))" if "i - 1 \<le> j" "j < i - 1 + length ?vs" for j
    proof (rule in_slice_index)
      have "j < ?lim" using that i by simp
      then have "int j + 1 \<le> int ?lim" by linarith
      also have "int ?lim \<le> int ttlg" by simp
      finally show "int j + 1 \<le> 2 ^ lg" using "1.prems"(2) by simp
      have "2 ^ (lg - 1) \<le> int j" if "lg \<noteq> 0"
      proof -
        have "length arr > j" using \<open>j < ?lim\<close> by simp
        then have "2 ^ (lg - 1) \<le> j" using \<open>i - 1 \<le> j\<close> "1.prems"(3) that by (auto simp: min_def split: if_splits)
        then show ?thesis by (simp add: numeral_power_le_of_nat_cancel_iff)
      qed
      then show "lg = 0 \<or> 2 ^ (lg - 1) \<le> int j" by blast
    qed (rule lg)
    have n: "nums_of (map fst (array_pairs 0 (take ?lim arr))) = nums_add lg (count_used ?vs) nums"
    proof -
      have "mset (map fst (array_pairs 0 (take ?lim arr))) =
        mset (map fst (array_pairs (i - 1) ?vs) @ map fst (array_pairs 0 (take (i - 1) arr)))"
        by (subst split) (simp only: array_pairs_append li map_append mset_append add.commute add_0_left add_0_right)
      from nums_of_mset [OF this] show ?thesis
        unfolding "1.prems"(6) using array_pairs_slice [OF sl lg] by (rule trans)
    qed
    have c: "count_used (take ?lim arr) = ause + count_used ?vs"
      by (subst split) (simp add: count_used_def "1.prems"(5))
    have m: "max i (?lim + 1) = ?lim + 1" using i by (auto simp: max_def)
    have f: "\<not> lg > MAXBITS" "\<not> (ttlg > length arr \<and> i > ?lim)" using False by auto
    have step: "numusearray_loop arr lg ttlg i ause nums = numusearray_loop arr (lg + 1) (ttlg * 2)
        (max i (?lim + 1)) (ause + count_used ?vs) (nums_add lg (count_used ?vs) nums)"
      by (subst numusearray_loop.simps) (simp only: Let_def f if_False)
    show ?thesis
      unfolding step by (rule "1.IH" [OF f(1) refl f(2) refl]) (use n c m lg "1.prems"(1,2) in auto)
  qed
qed

lemma numusearray_spec:
  assumes "sizearray t \<le> 2 ^ 26"
  shows "numusearray t (nums_of []) =
    (count_used (t_array t), nums_of (map fst (array_pairs 0 (t_array t))))"
  unfolding numusearray_def
  using assms by (intro numusearray_loop_spec) (auto simp: sizearray_def MAXBITS_def count_used_def array_pairs_def)

section \<open>The size of the array part\<close>

text \<open>\<open>computesizes\<close> on counters whose sum is \<open>narray\<close>.\<close>

definition below :: "int list \<Rightarrow> nat \<Rightarrow> int" where
  "below nums i = sum_list (take i nums)"

lemma below_Suc: "i < length nums \<Longrightarrow> below nums (Suc i) = below nums i + nums ! i"
  by (simp add: below_def take_Suc_conv_app_nth)

lemma below_mono:
  assumes "\<forall>c \<in> set nums. 0 \<le> c" "i \<le> j"
  shows "below nums i \<le> below nums j"
proof -
  have "take j nums = take i nums @ take (j - i) (drop i nums)"
    using assms(2) by (metis le_add_diff_inverse take_add)
  moreover have "0 \<le> sum_list (take (j - i) (drop i nums))"
    using assms(1) by (intro sum_list_nonneg) (auto dest!: in_set_takeD in_set_dropD)
  ultimately show ?thesis by (simp add: below_def)
qed

definition good_size :: "int list \<Rightarrow> int \<Rightarrow> int \<Rightarrow> bool" where
  "good_size nums n na \<longleftrightarrow> n = 0 \<and> na = 0 \<or>
     (\<exists>j < length nums. n = 2 ^ j \<and> na = below nums (Suc j) \<and> 2 ^ j div 2 < na)"

text \<open>No larger power of two, up to \<open>2^(i-1)\<close>, is more than half used.\<close>

definition best_size :: "int list \<Rightarrow> nat \<Rightarrow> int \<Rightarrow> bool" where
  "best_size nums i n \<longleftrightarrow> (\<forall>j < i. 2 ^ j div 2 < below nums (Suc j) \<longrightarrow> 2 ^ j \<le> n)"

text \<open>The counters of distinct keys: \<open>1 .. 2^j\<close> holds at most \<open>2^j\<close> of them.\<close>

definition distinct_counts :: "int list \<Rightarrow> bool" where
  "distinct_counts nums \<longleftrightarrow> (\<forall>j < length nums. below nums (Suc j) \<le> 2 ^ j)"

lemma best_size_rest:
  assumes "best_size nums i n" "\<forall>c \<in> set nums. 0 \<le> c" "sum_list nums \<le> 2 ^ i div 2" "i \<le> length nums"
  shows "best_size nums (length nums) n"
  unfolding best_size_def
proof (intro allI impI)
  fix j assume j: "j < length nums" "2 ^ j div 2 < below nums (Suc j)"
  have "below nums (Suc j) \<le> below nums (length nums)" using assms(2) j(1) by (intro below_mono) auto
  then have "2 ^ j div 2 < (2::int) ^ i div 2" using j(2) assms(3) by (simp add: below_def)
  then have "j < i" by (metis (no_types) linorder_not_less one_le_numeral power_increasing zdiv_mono1 zero_less_numeral order.strict_iff_not)
  then show "2 ^ j \<le> n" using assms(1) j(2) by (simp add: best_size_def)
qed

lemma computesizes_loop_spec:
  assumes "\<forall>c \<in> set nums. 0 \<le> c" "narray = sum_list nums" "twotoi = 2 ^ i" "a = below nums i"
    "i \<le> length nums" "good_size nums n na" "n \<le> 2 ^ i" "a < narray \<or> narray = 0"
  shows "\<exists>n' na'. computesizes_loop nums narray i twotoi a na n = Inr (n', na') \<and> good_size nums n' na'
    \<and> (distinct_counts nums \<longrightarrow> best_size nums i n \<longrightarrow> best_size nums (length nums) n')"
  using assms
proof (induction nums narray i twotoi a na n rule: computesizes_loop.induct)
  case (1 nums narray i twotoi a na n)
  have tot: "below nums (length nums) = narray" using "1.prems"(2) by (simp add: below_def)
  show ?case
  proof (cases "twotoi div 2 < narray")
    case False
    then show ?thesis
      using "1.prems" best_size_rest [of nums i n] by (subst computesizes_loop.simps) auto
  next
    case True
    then have "narray \<noteq> 0" using "1.prems"(3) by auto
    then have i: "i < length nums" using "1.prems"(4,5,8) tot by (cases "i = length nums") auto
    let ?c = "nums ! i"
    have c: "0 \<le> ?c" using "1.prems"(1) i by simp
    have a': "(if ?c > 0 then a + ?c else a) = below nums (Suc i)"
      using c "1.prems"(4) below_Suc [OF i] by auto
    have a'': "0 < ?c \<Longrightarrow> a + ?c = below nums (Suc i)" using a' by simp
    define big where "big \<longleftrightarrow> ?c > 0 \<and> below nums (Suc i) > twotoi div 2"
    define n1 where "n1 = (if big then twotoi else n)"
    define na1 where "na1 = (if big then below nums (Suc i) else na)"
    have g: "good_size nums n1 na1"
      using "1.prems"(3,6) i by (auto simp: n1_def na1_def big_def good_size_def)
    have n1: "n1 \<le> 2 ^ i" "n \<le> n1" using "1.prems"(3,7) by (auto simp: n1_def)
    moreover have "(0::int) \<le> 2 ^ i" by simp
    ultimately have n2: "n1 \<le> 2 ^ Suc i" unfolding power_Suc by linarith
    have best: "best_size nums (Suc i) n1" if "distinct_counts nums" "best_size nums i n"
      unfolding best_size_def
    proof (intro allI impI)
      fix j assume j: "j < Suc i" "2 ^ j div 2 < below nums (Suc j)"
      show "2 ^ j \<le> n1"
      proof (cases "j = i")
        case False
        then have "2 ^ j \<le> n" using j that(2) by (simp add: best_size_def)
        then show ?thesis using n1(2) by (rule order.trans)
      next
        case j': True
        have "?c \<noteq> 0"
        proof
          assume "?c = 0"
          then have b: "2 ^ i div 2 < below nums i" using j j' below_Suc [OF i] by simp
          then obtain l where l: "i = Suc l" by (cases i) (auto simp: below_def)
          then have "below nums i \<le> 2 ^ l" using that(1) i by (auto simp: distinct_counts_def)
          with b l show False by simp
        qed
        with c j j' "1.prems"(3) have big by (simp add: big_def)
        then show ?thesis using j' "1.prems"(3) by (simp add: n1_def)
      qed
    qed
    have step: "computesizes_loop nums narray i twotoi a na n =
      (if below nums (Suc i) = narray then Inr (n1, na1)
       else computesizes_loop nums narray (Suc i) (twotoi * 2) (below nums (Suc i)) na1 n1)"
      using True i "1.prems"(3)
      by (subst computesizes_loop.simps) (simp add: Let_def a' a'' n1_def na1_def big_def)
    show ?thesis
    proof (cases "below nums (Suc i) = narray")
      case done_now: True
      have "best_size nums (length nums) n1" if d: "distinct_counts nums" "best_size nums i n"
      proof (rule best_size_rest [OF best [OF d]])
        show "sum_list nums \<le> 2 ^ Suc i div 2"
          using d(1) i done_now "1.prems"(2) by (auto simp: distinct_counts_def)
      qed (use "1.prems"(1) i in auto)
      with g step done_now show ?thesis by simp
    next
      case False
      have "below nums (Suc i) \<le> narray" using below_mono [of nums "Suc i" "length nums"] "1.prems"(1) i tot by simp
      with False have "below nums (Suc i) < narray" by simp
      then have "\<exists>n' na'. computesizes_loop nums narray (Suc i) (twotoi * 2) (below nums (Suc i)) na1 n1 = Inr (n', na')
        \<and> good_size nums n' na' \<and> (distinct_counts nums \<longrightarrow> best_size nums (Suc i) n1 \<longrightarrow> best_size nums (length nums) n')"
        using "1.IH" [OF _ _ refl a' [symmetric] refl] True i False g n2 "1.prems"(1,2,3)
        by (simp add: n1_def na1_def big_def a')
      with step False best show ?thesis by auto
    qed
  qed
qed

section \<open>\<open>rehash\<close>\<close>

lemma length_filter_disjoint:
  "(\<And>x. P x \<Longrightarrow> \<not> Q x) \<Longrightarrow> length (filter (\<lambda>x. P x \<or> Q x) xs) = length (filter P xs) + length (filter Q xs)"
  by (induction xs) auto

lemma below_nums:
  assumes "j \<le> MAXBITS"
  shows "below (nums_of K) (Suc j) = int (length (filter (\<lambda>k. 0 < arrayindex k \<and> arrayindex k \<le> 2 ^ j) K))"
  using assms
proof (induction j)
  case 0
  have "in_slice 0 = (\<lambda>k. 0 < arrayindex k \<and> arrayindex k \<le> 2 ^ 0)"
    using ceillog2_le(1) [of _ 0] by (fastforce simp: in_slice_def MAXASIZE_def MAXBITS_def fun_eq_iff)
  then show ?case by (simp add: below_def take_Suc_conv_app_nth nth_nums_of)
next
  case (Suc j)
  have p: "(2::int) ^ j \<le> MAXASIZE" "(2::int) ^ Suc j \<le> MAXASIZE"
    using Suc.prems unfolding MAXASIZE_def by (intro power_increasing; simp)+
  have e: "(\<lambda>k. 0 < arrayindex k \<and> arrayindex k \<le> 2 ^ Suc j) =
    (\<lambda>k. (0 < arrayindex k \<and> arrayindex k \<le> 2 ^ j) \<or> in_slice (Suc j) k)"
  proof
    fix k
    show "(0 < arrayindex k \<and> arrayindex k \<le> 2 ^ Suc j) = ((0 < arrayindex k \<and> arrayindex k \<le> 2 ^ j) \<or> in_slice (Suc j) k)"
    proof (cases "0 < arrayindex k \<and> arrayindex k \<le> MAXASIZE")
      case True
      then have k: "0 < arrayindex k" "arrayindex k \<le> MAXASIZE" by auto
      show ?thesis
        using ceillog2_le(1) [OF k, of j] ceillog2_le(1) [OF k, of "Suc j"] k by (auto simp: in_slice_def)
    qed (use p in \<open>auto simp: in_slice_def\<close>)
  qed
  have "length (filter (\<lambda>k. 0 < arrayindex k \<and> arrayindex k \<le> 2 ^ Suc j) K) =
    length (filter (\<lambda>k. 0 < arrayindex k \<and> arrayindex k \<le> 2 ^ j) K) + length (filter (in_slice (Suc j)) K)"
    unfolding e using p(1) ceillog2_le(1) [of _ j] by (intro length_filter_disjoint) (force simp: in_slice_def)
  then show ?case
    using Suc by (subst below_Suc) (simp_all add: nth_nums_of)
qed

lemma sum_nums: "sum_list (nums_of K) = int (length (indexable K))"
  using below_nums [of MAXBITS K] by (simp add: below_def indexable_def MAXASIZE_def)

lemma nums_of_nonneg: "\<forall>c \<in> set (nums_of K). 0 \<le> c"
  by (auto simp: nums_of_def)

text \<open>\<open>computesizes\<close> on the counters of a list of keys: the new size and how many keys fit it.\<close>

lemma computesizes_keys:
  obtains N where "int N \<le> MAXASIZE"
    "computesizes (nums_of K) (int (length (indexable K))) =
      Inr (int N, int (length (filter (\<lambda>k. \<not> outside N k) K)))"
proof -
  obtain n na where c: "computesizes (nums_of K) (int (length (indexable K))) = Inr (n, na)" "good_size (nums_of K) n na"
    using computesizes_loop_spec [OF nums_of_nonneg sum_nums [of K, symmetric], where i = 0 and twotoi = 1
        and a = 0 and n = 0 and na = 0]
    unfolding computesizes_def by (auto simp: below_def good_size_def [of _ 0])
  have "\<exists>N. n = int N \<and> int N \<le> MAXASIZE \<and> na = int (length (filter (\<lambda>k. \<not> outside N k) K))"
    using c(2) unfolding good_size_def
  proof (elim disjE exE conjE)
    assume "n = 0" "na = 0"
    then show ?thesis by (intro exI [of _ 0]) (simp add: outside_def MAXASIZE_def filter_empty_conv)
  next
    fix j assume j: "j < length (nums_of K)" "n = 2 ^ j" "na = below (nums_of K) (Suc j)"
    then have jm: "j \<le> MAXBITS" by simp
    then have "(2::int) ^ j \<le> MAXASIZE" unfolding MAXASIZE_def by (intro power_increasing) auto
    moreover have "(\<lambda>k. \<not> outside (2 ^ j) k) = (\<lambda>k. 0 < arrayindex k \<and> arrayindex k \<le> 2 ^ j)"
      by (auto simp: outside_def fun_eq_iff)
    ultimately show ?thesis using j(2,3) below_nums [OF jm] by (intro exI [of _ "2 ^ j"]) simp
  qed
  with c(1) that show thesis by auto
qed

lemma count_outside_array:
  assumes "sizearray t \<le> 2 ^ 26"
  shows "count_outside N (array_pairs 0 (t_array t)) = length (spilled N t)"
proof -
  have in_key: "arrayindex k = int j + 1" if "j < sizearray t" "k = TNumber (cast_num (int j + 1))" for j k
    using lookup_nth(3) [OF assms that(1)] that(2) by simp
  have "array_pairs 0 (t_array t) = array_pairs 0 (take N (t_array t)) @ array_pairs (min (length (t_array t)) N) (drop N (t_array t))"
    using array_pairs_append [of 0 "take N (t_array t)" "drop N (t_array t)"] by simp
  also have "array_pairs (min (length (t_array t)) N) (drop N (t_array t)) = spilled N t"
    by (cases "length (t_array t) \<le> N") (simp_all add: spilled_def array_pairs_def)
  finally have split: "array_pairs 0 (t_array t) = array_pairs 0 (take N (t_array t)) @ spilled N t" .
  have "\<not> outside N k" if "(k, v) \<in> set (array_pairs 0 (take N (t_array t)))" for k v
    using that in_key by (auto simp: set_array_pairs outside_def sizearray_def)
  then have "filter (\<lambda>(k, v). outside N k) (array_pairs 0 (take N (t_array t))) = []"
    by (auto simp: filter_empty_conv)
  moreover have "outside N k" if "(k, v) \<in> set (spilled N t)" for k v
    using spilled_lookup(2) [OF assms that] in_key by (auto simp: outside_def)
  then have "filter (\<lambda>(k, v). outside N k) (spilled N t) = spilled N t"
    by (auto simp: filter_id_conv)
  ultimately show ?thesis by (simp add: count_outside_def split)
qed

lemma outside_split: "length (filter (\<lambda>k. \<not> outside N k) K) + length (filter (outside N) K) = length K"
  using sum_length_filter_compl [of "outside N" K] by simp

text \<open>\<open>rehash\<close> asks \<open>resize\<close> for exactly the room that the keys outside the new array part need.\<close>

lemma rehash_with_eq:
  assumes ok: "table_ok t"
  obtains N where "int N \<le> MAXASIZE"
    "rehash_with g t ek = resize_with g t N
      (int (length (spilled N t) + count_outside N (node_pairs (t_node t))) + (if outside N ek then 1 else 0))"
proof -
  have small: "sizearray t \<le> 2 ^ 26" using ok by (rule table_ok_sizearray)
  let ?A = "map fst (array_pairs 0 (t_array t))" and ?H = "map fst (node_pairs (t_node t))"
  let ?K = "ek # ?H @ ?A"
  have rep: "replicate (MAXBITS + 1) 0 = nums_of []" by (simp add: nums_of_def map_replicate_const del: upt_Suc)
  have ia: "indexable ?A = ?A"
  proof -
    have "0 < arrayindex k \<and> arrayindex k \<le> MAXASIZE" if "k \<in> set ?A" for k
      using that lookup_nth(3) [OF small] small
      by (auto simp: set_array_pairs sizearray_def MAXASIZE_def MAXBITS_def)
    then show ?thesis unfolding indexable_def by (intro filter_True) blast
  qed
  obtain N where N: "int N \<le> MAXASIZE" "computesizes (nums_of ?K) (int (length (indexable ?K))) =
      Inr (int N, int (length (filter (\<lambda>k. \<not> outside N k) ?K)))"
    using computesizes_keys by blast
  have len: "count_used (t_array t) = int (length ?A)" using count_used_pairs [of 0 "t_array t"] by simp
  have narray: "count_used (t_array t) + int (length (indexable ?H)) +
      (if 0 < arrayindex ek \<and> arrayindex ek \<le> MAXASIZE then 1 else 0) = int (length (indexable ?K))"
    unfolding len using arg_cong [OF ia, of length] by (simp add: indexable_def)
  have "length (filter (outside N) (map fst L)) = count_outside N L" for L :: "(tvalue \<times> tvalue) list"
    by (simp add: count_outside_def filter_map comp_def case_prod_unfold)
  then have o: "length (filter (outside N) ?K) = (if outside N ek then 1 else 0) +
      count_outside N (node_pairs (t_node t)) + length (spilled N t)"
    using count_outside_array [OF small, of N] by simp
  have "count_used (t_array t) + int (length (node_pairs (t_node t))) + 1 - int (length (filter (\<lambda>k. \<not> outside N k) ?K))
    = int (length (filter (outside N) ?K))"
    unfolding len using outside_split [of N ?K] by simp
  then have "rehash_with g t ek = resize_with g t N (int (length (filter (outside N) ?K)))"
    unfolding rehash_with_def rep numusearray_spec [OF small] case_prod_conv numusehash_spec countint_nums narray N(2) bindE.simps
    by simp
  then show thesis using that [OF N(1)] unfolding o by (simp add: algebra_simps)
qed

lemma count_outside_le: "count_outside N L \<le> length L"
  by (simp add: count_outside_def)

lemma length_spilled_le: "length (spilled N t) \<le> length (array_pairs 0 (t_array t))"
proof -
  have "array_pairs 0 (t_array t) = array_pairs 0 (take N (t_array t)) @ array_pairs (min (length (t_array t)) N) (drop N (t_array t))"
    using array_pairs_append [of 0 "take N (t_array t)" "drop N (t_array t)"] by simp
  moreover have "length (array_pairs i vs) = length (array_pairs j vs)" for i j vs
    using count_used_pairs [of i vs] count_used_pairs [of j vs] by simp
  ultimately show ?thesis unfolding spilled_def by (metis le_add2 length_append)
qed

text \<open>How many bindings a table has.\<close>

definition table_count :: "table \<Rightarrow> nat" where
  "table_count t = length (table_pairs t)"

lemma setnodevector_overflow:
  assumes "2 ^ 26 < n" "n \<le> 2 ^ 31"
  shows "setnodevector t n = Inl (ErrRun ''table overflow'')"
proof -
  have "1 \<le> n" using assms(1) by simp
  then have "\<not> ceillog2 n \<le> int MAXBITS" using ceillog2_spec(3) [of n MAXBITS] assms by (simp add: MAXBITS_def)
  then show ?thesis using assms(1) by (simp add: setnodevector_def Let_def)
qed

lemma table_count_le:
  assumes "table_ok t"
  shows "table_count t \<le> 2 ^ 27"
proof -
  have "length (array_pairs 0 (t_array t)) \<le> 2 ^ 26"
    using count_used_pairs [of 0 "t_array t"] table_ok_sizearray [OF assms]
      le_trans [OF length_filter_le [of "\<lambda>v. v \<noteq> TNil" "t_array t"], of "2 ^ 26"]
    by (simp add: count_used_def sizearray_def)
  moreover have "length (node_pairs (t_node t)) \<le> length (t_node t)" by (simp add: node_pairs_def)
  moreover have "length (t_node t) \<le> 2 ^ 26"
  proof -
    have "length (t_node t) = 2 ^ t_lsizenode t" "t_lsizenode t \<le> 26"
      using assms by (simp_all add: table_ok_def nodes_ok_def sizenode_def MAXBITS_def)
    then show ?thesis by (metis one_le_numeral power_increasing)
  qed
  ultimately show ?thesis by (simp add: table_count_def table_pairs_def)
qed

text \<open>
  After \<open>rehash\<close> the table holds what it held and has room for the key it was grown for.
\<close>

lemma rehash_with_ok:
  assumes ok: "table_ok t" and key: "valid_key ek" and fresh: "lookup t ek = TNil"
  shows "(\<exists>t'. rehash_with g t ek = Inr t' \<and> table_ok t' \<and> lookup t' = lookup t \<and> room t' ek)
    \<or> (rehash_with g t ek = Inl (ErrRun ''table overflow'') \<and> 2 ^ 26 \<le> table_count t)"
proof -
  obtain N where N: "int N \<le> MAXASIZE" and r: "rehash_with g t ek = resize_with g t N
      (int (length (spilled N t) + count_outside N (node_pairs (t_node t))) + (if outside N ek then 1 else 0))"
    using rehash_with_eq [OF ok] by blast
  let ?c = "length (spilled N t) + count_outside N (node_pairs (t_node t))"
  let ?n = "int ?c + (if outside N ek then 1 else 0)"
  have c: "?c \<le> table_count t"
    using length_spilled_le [of N t] count_outside_le [of N "node_pairs (t_node t)"]
    by (simp add: table_count_def table_pairs_def)
  show ?thesis
  proof (cases "?n \<le> 2 ^ 26")
    case True
    obtain t' where t': "resize_with g t N ?n = Inr t'" "table_ok t'" "lookup t' = lookup t"
      "sizearray t' = N" "t_dummy t' \<longleftrightarrow> ?n = 0" "?n \<le> int (capacity t')" "card (used_nodes t') \<le> ?c"
    proof -
      have "0 \<le> ?n" "int ?c \<le> ?n" by (cases "outside N ek"; simp)+
      from resize_with_ok [OF ok N this(1) True this(2), of g thesis] that show thesis by blast
    qed
    have "room t' ek"
    proof (cases "outside N ek")
      case True
      then have "\<not> t_dummy t'" "card (used_nodes t') < length (t_node t')"
        using t'(5-7) by (auto simp: capacity_def split: if_splits)
      then show ?thesis by (simp add: room_def)
    next
      case False
      then have "in_array t' ek" using t'(4) by (simp add: outside_def in_array_def)
      then show ?thesis using in_array_scan by (simp add: room_def)
    qed
    with t' r show ?thesis by auto
  next
    case False
    then have "2 ^ 26 \<le> table_count t" using c by (auto split: if_splits)
    moreover have "setnodevector t1 ?n = Inl (ErrRun ''table overflow'')" for t1
      using False c table_count_le [OF ok] by (intro setnodevector_overflow) auto
    ultimately show ?thesis unfolding r by (simp add: resize_with_def Let_def)
  qed
qed

end
