(* ===== verification/LuaTableMap.thy ===== *)
theory LuaTableMap
  imports LuaTableResize
begin

text \<open>
  Tables as maps: what \<^verbatim>\<open>luaH_get\<close>, \<^verbatim>\<open>luaH_set\<close>, \<^verbatim>\<open>luaH_setnum\<close>, \<^verbatim>\<open>luaH_setstr\<close>, \<^verbatim>\<open>luaH_new\<close>,
  \<^verbatim>\<open>luaH_next\<close> and \<^verbatim>\<open>luaH_getn\<close> (\<^verbatim>\<open>ltable.c\<close>) promise to the rest of the program, stated over
  \<open>lookup\<close>, and the interface \<open>int_table\<close> through which the other components use them.
\<close>

section \<open>Setting a key, with a full hash part too\<close>

text \<open>The outcome of asking for the place of a key: the place, or a table too large to grow.\<close>

definition set_outcome :: "table \<Rightarrow> tvalue \<Rightarrow> lua_error + slot \<times> table \<Rightarrow> bool" where
  "set_outcome t key r \<longleftrightarrow>
     (\<exists>s t'. r = Inr (s, t') \<and> table_ok t' \<and> s = scan t' key \<and> s \<noteq> SNil \<and> lookup t' = lookup t)
     \<or> (r = Inl (ErrRun ''table overflow'') \<and> 2 ^ 26 \<le> table_count t)"

lemma placed_outcome: "placed t key s t' \<Longrightarrow> set_outcome t key (Inr (s, t'))"
  by (auto simp: set_outcome_def placed_def)

lemma table_count_cong:
  "t_node t' = t_node t \<Longrightarrow> t_array t' = t_array t \<Longrightarrow> table_count t' = table_count t"
  by (simp add: table_count_def table_pairs_def)

lemma getfreepos_le: "getfreepos t = (r, t') \<Longrightarrow> t_lastfree t' \<le> t_lastfree t"
proof (induction t rule: getfreepos.induct)
  case (1 t)
  then show ?case by (subst (asm) (2) getfreepos.simps) (fastforce simp: Let_def split: if_splits)
qed

lemma getfreepos_full:
  assumes "table_ok t" "t_dummy t \<or> card (used_nodes t) = length (t_node t)"
  obtains l where "getfreepos t = (None, t\<lparr>t_lastfree := l\<rparr>)" "table_ok (t\<lparr>t_lastfree := l\<rparr>)"
proof (cases "t_dummy t")
  case True
  then have l: "t_lastfree t \<le> 0" "t_node t = [dummynode]" using assms(1) by (auto simp: table_ok_def)
  have "table_ok (t\<lparr>t_lastfree := t_lastfree t - 1\<rparr>)"
    using assms(1) l True nodes_ok_cong(1) [of "t\<lparr>t_lastfree := t_lastfree t - 1\<rparr>" t]
    by (auto simp: table_ok_def sizearray_def)
  with that l show thesis by (simp add: getfreepos.simps [of t])
next
  case False
  have free: "free_ok t" using assms(1) False by (simp add: table_ok_def)
  have full: "used_nodes t = {..< length (t_node t)}"
    using assms(2) False card_subset_eq [of "{..< length (t_node t)}" "used_nodes t"] by (auto simp: used_nodes_def)
  obtain r t' where g: "getfreepos t = (r, t')" by (cases "getfreepos t")
  have "r = None"
  proof (cases r)
    case (Some n)
    with getfreepos_spec [OF free g] have "n < length (t_node t)" "n_key (gnode t n) = TNil" by auto
    with full show ?thesis by (auto simp: used_nodes_def)
  qed
  with getfreepos_spec [OF free g] obtain l where l: "t' = t\<lparr>t_lastfree := l\<rparr>" "r = None" by auto
  then have "table_ok t'"
    using assms(1) full getfreepos_le [OF g] False nodes_ok_cong(1) [of t' t]
    by (auto simp: table_ok_def free_ok_def sizearray_def used_nodes_def)
  with that g l show thesis by simp
qed

lemma grow_outcome:
  assumes ok: "table_ok t" and key: "valid_key key" and fresh: "scan t key = SNil"
  shows "set_outcome t key (grow 1 t key)"
proof -
  have "lookup t key = TNil" using fresh by (simp add: lookup_def slot_read_def)
  from rehash_with_ok [OF ok key this, of "grow 0"] show ?thesis
  proof (elim disjE exE conjE)
    fix t1 assume r: "rehash_with (grow 0) t key = Inr t1" "table_ok t1" "lookup t1 = lookup t" "room t1 key"
    from luaH_set_with_ok [OF r(2) key r(4), of "grow 0"] obtain s t2 where
      "luaH_set_with (grow 0) t1 key = Inr (s, t2)" "placed t1 key s t2" by blast
    with r show ?thesis by (auto simp: set_outcome_def placed_def)
  qed (auto simp: set_outcome_def)
qed

lemma newkey_outcome:
  assumes ok: "table_ok t" and key: "valid_key key" and fresh: "scan t key = SNil"
  shows "set_outcome t key (newkey t key)"
proof (cases "room t key")
  case True
  from newkey_with_placed [OF ok fresh _ _ this, of "grow 1"] key show ?thesis
    by (auto simp: newkey_def valid_key_iff placed_outcome)
next
  case False
  let ?mp = "mainposition t key"
  have mp: "?mp < length (t_node t)" using mp_less table_ok_nodes [OF ok] by blast
  have full: "t_dummy t \<or> (card (used_nodes t) = length (t_node t) \<and> n_val (gnode t ?mp) \<noteq> TNil)"
    using False fresh used_le [of t] by (auto simp: room_def)
  then obtain l where l: "getfreepos t = (None, t\<lparr>t_lastfree := l\<rparr>)" "table_ok (t\<lparr>t_lastfree := l\<rparr>)"
    using getfreepos_full [OF ok] by blast
  let ?t = "t\<lparr>t_lastfree := l\<rparr>"
  have "newkey t key = grow 1 ?t key"
    using full l mp by (auto simp: newkey_def newkey_with_def Let_def)
  moreover have "set_outcome ?t key (grow 1 ?t key)"
    using grow_outcome [OF l(2) key] fresh nodes_ok_cong(4) [of ?t t] by simp
  ultimately show ?thesis
    using nodes_ok_cong(5) [of ?t t] table_count_cong [of ?t t] by (simp add: set_outcome_def)
qed

lemma set_outcome_flags: "set_outcome (t\<lparr>t_flags := f\<rparr>) key r \<Longrightarrow> set_outcome t key r"
  using nodes_ok_cong(5) [of "t\<lparr>t_flags := f\<rparr>" t] table_count_cong [of "t\<lparr>t_flags := f\<rparr>" t]
  by (simp add: set_outcome_def)

lemma present_outcome: "table_ok t \<Longrightarrow> scan t key \<noteq> SNil \<Longrightarrow> set_outcome t key (Inr (scan t key, t))"
  by (auto simp: set_outcome_def)

lemma luaH_set_outcome:
  assumes ok: "table_ok t" and key: "valid_key key"
  shows "set_outcome t key (luaH_set t key)"
proof -
  let ?t = "t\<lparr>t_flags := 0\<rparr>"
  have get: "luaH_get t key = Inr (scan t key)"
    using luaH_get_spec table_ok_nodes table_ok_sizearray ok by blast
  have S: "scan ?t = scan t" using nodes_ok_cong [of ?t t] by simp
  have ok': "table_ok ?t" using ok by (rule table_ok_flags)
  have "set_outcome ?t key (luaH_set t key)"
    using newkey_outcome [OF ok' key] present_outcome [OF ok', of key] get S key
    by (cases "scan t key = SNil") (auto simp: luaH_set_def luaH_set_with_def newkey_def valid_key_def Let_def)
  then show ?thesis by (rule set_outcome_flags)
qed

lemma luaH_setnum_outcome:
  assumes ok: "table_ok t" and k: "INT_MIN \<le> k" "k \<le> INT_MAX"
  shows "set_outcome t (TNumber (cast_num k)) (luaH_setnum t k)"
proof -
  have "luaH_getnum t k = Inr (scan t (TNumber (cast_num k)))"
    using luaH_getnum_spec [of t k] assms table_ok_nodes table_ok_sizearray by blast
  moreover have "valid_key (TNumber (cast_num k))" using k by (simp add: valid_key_iff)
  ultimately show ?thesis
    using newkey_outcome [OF ok] present_outcome [OF ok]
    by (cases "scan t (TNumber (cast_num k)) = SNil") (auto simp: luaH_setnum_def luaH_setnum_with_def newkey_def)
qed

lemma luaH_setstr_outcome:
  assumes ok: "table_ok t"
  shows "set_outcome t (TString k) (luaH_setstr t k)"
proof -
  have "luaH_getstr t k = Inr (scan t (TString k))"
    using luaH_getstr_spec ok table_ok_nodes by blast
  moreover have "valid_key (TString k)" by (simp add: valid_key_iff)
  ultimately show ?thesis
    using newkey_outcome [OF ok] present_outcome [OF ok]
    by (cases "scan t (TString k) = SNil") (auto simp: luaH_setstr_def luaH_setstr_with_def newkey_def)
qed


section \<open>A new table\<close>

lemma luaH_new_ok:
  assumes "narray \<le> 2 ^ 26" "0 \<le> nhash" "nhash \<le> 2 ^ 26"
  shows "\<exists>t. luaH_new narray nhash = Inr t \<and> table_ok t \<and> (\<forall>k. lookup t k = TNil)"
proof -
  let ?e = "\<lparr>t_flags = -1, t_lsizenode = 0, t_metatable = None, t_array = [],
           t_node = [dummynode], t_dummy = True, t_lastfree = 0\<rparr>"
  have "int (sizearray (setarrayvector ?e narray)) \<le> MAXASIZE" using assms(1) by (simp add: MAXASIZE_def MAXBITS_def)
  from setnodevector_ok [OF this assms(2,3)] obtain t where
    t: "setnodevector (setarrayvector ?e narray) nhash = Inr t" "table_ok t"
    "t_array t = t_array (setarrayvector ?e narray)" "live t = {}" by metis
  have "t_array t = replicate narray TNil" using t(3) by (simp add: setarrayvector_def)
  then have "lookup t k = TNil" for k
    using lookup_empty_hash [OF t(2,4), of k] by (auto simp: in_array_def sizearray_def)
  with t show ?thesis by (auto simp: luaH_new_def)
qed

section \<open>The interface of tables\<close>

text \<open>\<^verbatim>\<open>setobj2t(L, luaH_set(L, t, key), val)\<close>, the assignment of \<^verbatim>\<open>lua_rawset\<close>; and of
  \<^verbatim>\<open>lua_rawseti\<close>, with an integer key.\<close>

definition table_put :: "table \<Rightarrow> tvalue \<Rightarrow> tvalue \<Rightarrow> lua_error + table" where
  "table_put t key v = bindE (luaH_set t key) (\<lambda>(s, t1). slot_write t1 s v)"

definition table_puti :: "table \<Rightarrow> int \<Rightarrow> tvalue \<Rightarrow> lua_error + table" where
  "table_puti t n v = bindE (luaH_setnum t n) (\<lambda>(s, t1). slot_write t1 s v)"

definition table_geti :: "table \<Rightarrow> int \<Rightarrow> lua_error + tvalue" where
  "table_geti t n = bindE (luaH_getnum t n) (\<lambda>s. Inr (slot_read t s))"

text \<open>What assigning to a key does, as seen by later reads.\<close>

definition put_outcome :: "table \<Rightarrow> tvalue \<Rightarrow> tvalue \<Rightarrow> lua_error + table \<Rightarrow> bool" where
  "put_outcome t key v r \<longleftrightarrow>
     (\<exists>t'. r = Inr t' \<and> table_ok t' \<and>
        (\<forall>k. lookup t' k = (if luaO_rawequalObj k key then v else lookup t k)))
     \<or> (r = Inl (ErrRun ''table overflow'') \<and> 2 ^ 26 \<le> table_count t)"

lemma set_then_write:
  assumes "set_outcome t key r"
  shows "put_outcome t key v (bindE r (\<lambda>(s, t1). slot_write t1 s v))"
  using assms unfolding set_outcome_def
proof (elim disjE exE conjE)
  fix s t1 assume r: "r = Inr (s, t1)" "table_ok t1" "s = scan t1 key" "s \<noteq> SNil" "lookup t1 = lookup t"
  obtain t' where t': "slot_write t1 (scan t1 key) v = Inr t'" "table_ok t'"
    "\<And>k. lookup t' k = (if luaO_rawequalObj k key then v else lookup t1 k)"
    using slot_write_ok [OF r(2), of key v] r(3,4) by metis
  then show ?thesis using r(1,3,5) by (auto simp: put_outcome_def)
qed (auto simp: put_outcome_def)

lemma table_put_outcome: "table_ok t \<Longrightarrow> valid_key key \<Longrightarrow> put_outcome t key v (table_put t key v)"
  unfolding table_put_def by (intro set_then_write luaH_set_outcome)

lemma table_puti_outcome:
  "table_ok t \<Longrightarrow> INT_MIN \<le> n \<Longrightarrow> n \<le> INT_MAX \<Longrightarrow> put_outcome t (TNumber (cast_num n)) v (table_puti t n v)"
  unfolding table_puti_def by (intro set_then_write luaH_setnum_outcome)

lemma table_geti_lookup:
  "table_ok t \<Longrightarrow> INT_MIN \<le> n \<Longrightarrow> n \<le> INT_MAX \<Longrightarrow> table_geti t n = Inr (lookup t (TNumber (cast_num n)))"
  using luaH_getnum_spec [of t n] table_ok_nodes table_ok_sizearray by (simp add: table_geti_def lookup_def)

text \<open>
  A client sees a table through its integer keys: reading after writing, and the one error
  that growing can raise.
\<close>

locale int_table =
  fixes geti :: "'t \<Rightarrow> int \<Rightarrow> lua_error + tvalue"
    and puti :: "'t \<Rightarrow> int \<Rightarrow> tvalue \<Rightarrow> lua_error + 't"
    and ok :: "'t \<Rightarrow> bool"
    and val :: "'t \<Rightarrow> int \<Rightarrow> tvalue"
  assumes geti_val: "ok t \<Longrightarrow> INT_MIN \<le> n \<Longrightarrow> n \<le> INT_MAX \<Longrightarrow> geti t n = Inr (val t n)"
    and puti_ok: "ok t \<Longrightarrow> INT_MIN \<le> n \<Longrightarrow> n \<le> INT_MAX \<Longrightarrow> puti t n v = Inr t' \<Longrightarrow> ok t'"
    and puti_val: "ok t \<Longrightarrow> INT_MIN \<le> n \<Longrightarrow> n \<le> INT_MAX \<Longrightarrow> puti t n v = Inr t' \<Longrightarrow>
      INT_MIN \<le> m \<Longrightarrow> m \<le> INT_MAX \<Longrightarrow> val t' m = (if m = n then v else val t m)"
    and puti_error: "ok t \<Longrightarrow> INT_MIN \<le> n \<Longrightarrow> n \<le> INT_MAX \<Longrightarrow> puti t n v = Inl e \<Longrightarrow>
      e = ErrRun ''table overflow''"
begin

lemma geti_puti:
  assumes "ok t" "INT_MIN \<le> n" "n \<le> INT_MAX" "puti t n v = Inr t'" "INT_MIN \<le> m" "m \<le> INT_MAX"
  shows "geti t' m = (if m = n then Inr v else geti t m)"
  using assms puti_ok [OF assms(1-4)] by (simp add: geti_val puti_val)

text \<open>Writing the same key twice is writing it once.\<close>

lemma puti_puti:
  assumes "ok t" "INT_MIN \<le> n" "n \<le> INT_MAX" "puti t n v = Inr t1" "puti t1 n w = Inr t2"
    "puti t n w = Inr t3" "INT_MIN \<le> m" "m \<le> INT_MAX"
  shows "val t2 m = val t3 m"
  using assms puti_ok [OF assms(1-4)] by (simp add: puti_val [of t1] puti_val [of t])

lemma puti_safe:
  assumes "ok t" "INT_MIN \<le> n" "n \<le> INT_MAX"
  shows "safe (puti t n v) ok"
  using assms puti_ok puti_error by (cases "puti t n v") fastforce+

end

lemma numeq_cast_num:
  assumes "INT_MIN \<le> m" "m \<le> INT_MAX" "INT_MIN \<le> n" "n \<le> INT_MAX"
  shows "luai_numeq (cast_num m) (cast_num n) \<longleftrightarrow> m = n"
proof
  assume "luai_numeq (cast_num m) (cast_num n)"
  then have "lua_number2int (cast_num m) = lua_number2int (cast_num n)" by (rule numeq_number2int)
  then show "m = n" using assms by simp
qed (use assms in simp)

definition ival :: "table \<Rightarrow> int \<Rightarrow> tvalue" where
  "ival t n = lookup t (TNumber (cast_num n))"

interpretation it: int_table table_geti table_puti table_ok ival
proof
  fix t n v t' m e
  show "table_ok t \<Longrightarrow> INT_MIN \<le> n \<Longrightarrow> n \<le> INT_MAX \<Longrightarrow> table_geti t n = Inr (ival t n)"
    by (simp add: table_geti_lookup ival_def)
  show "table_ok t \<Longrightarrow> INT_MIN \<le> n \<Longrightarrow> n \<le> INT_MAX \<Longrightarrow> table_puti t n v = Inr t' \<Longrightarrow> table_ok t'"
    using table_puti_outcome [of t n v] by (auto simp: put_outcome_def)
  show "table_ok t \<Longrightarrow> INT_MIN \<le> n \<Longrightarrow> n \<le> INT_MAX \<Longrightarrow> table_puti t n v = Inr t' \<Longrightarrow>
      INT_MIN \<le> m \<Longrightarrow> m \<le> INT_MAX \<Longrightarrow> ival t' m = (if m = n then v else ival t m)"
    using table_puti_outcome [of t n v] by (auto simp: put_outcome_def ival_def numeq_cast_num)
  show "table_ok t \<Longrightarrow> INT_MIN \<le> n \<Longrightarrow> n \<le> INT_MAX \<Longrightarrow> table_puti t n v = Inl e \<Longrightarrow> e = ErrRun ''table overflow''"
    using table_puti_outcome [of t n v] by (auto simp: put_outcome_def)
qed

section \<open>Traversal\<close>

text \<open>All places of a table in the order of \<open>luaH_next\<close>.\<close>

definition cells :: "table \<Rightarrow> (tvalue \<times> tvalue) list" where
  "cells t = map (\<lambda>(j, v). (TNumber (cast_num (int j + 1)), v)) (enumerate 0 (t_array t))
     @ map (\<lambda>n. (n_key n, n_val n)) (t_node t)"

abbreviation live_cell :: "tvalue \<times> tvalue \<Rightarrow> bool" where
  "live_cell \<equiv> \<lambda>(k, v). v \<noteq> TNil"

lemma table_pairs_cells: "table_pairs t = filter live_cell (cells t)"
  by (simp add: table_pairs_def cells_def array_pairs_def node_pairs_def filter_map comp_def case_prod_unfold)

lemma find_append: "find P (xs @ ys) = (case find P xs of None \<Rightarrow> find P ys | Some x \<Rightarrow> Some x)"
  by (induction xs) simp_all

lemma drop_enumerate: "drop m (enumerate n xs) = enumerate (n + m) (drop m xs)"
proof (induction xs arbitrary: m n)
  case (Cons x xs)
  then show ?case by (cases m) simp_all
qed simp

lemma next_array_find:
  "next_array i vs = find live_cell (map (\<lambda>(j, v). (TNumber (cast_num (int j + 1)), v)) (enumerate i vs))"
  by (induction vs arbitrary: i) simp_all

lemma next_node_find: "next_node ns = find live_cell (map (\<lambda>n. (n_key n, n_val n)) ns)"
  by (induction ns) simp_all

lemma luaH_next_find:
  assumes "findindex t key = Inr (int i - 1)"
  shows "luaH_next t key = Inr (find live_cell (drop i (cells t)))"
proof -
  have "max i (sizearray t) - sizearray t = i - sizearray t" by simp
  then have "luaH_next t key = Inr (case find live_cell
      (map (\<lambda>(j, v). (TNumber (cast_num (int j + 1)), v)) (enumerate i (drop i (t_array t)))) of
        Some r \<Rightarrow> Some r | None \<Rightarrow> find live_cell (map (\<lambda>n. (n_key n, n_val n)) (drop (i - sizearray t) (t_node t))))"
    using assms by (simp add: luaH_next_def Let_def next_array_find next_node_find split: option.split)
  then show ?thesis
    by (simp add: cells_def drop_map drop_enumerate find_append sizearray_def split: option.split)
qed

lemma findindex_cell:
  assumes ok: "table_ok t" and p: "p < length (cells t)" "cells t ! p = (k, v)" "v \<noteq> TNil"
  shows "findindex t k = Inr (int p)" "lookup t k = v"
    and "scan t k = (if p < sizearray t then SArray p else SNode (p - sizearray t))"
proof -
  have small: "sizearray t \<le> 2 ^ 26" using ok by (rule table_ok_sizearray)
  have nok: "nodes_ok t" using ok by (rule table_ok_nodes)
  have "findindex t k = Inr (int p) \<and> lookup t k = v
    \<and> scan t k = (if p < sizearray t then SArray p else SNode (p - sizearray t))"
  proof (cases "p < sizearray t")
    case True
    then have "k = TNumber (cast_num (int p + 1))" "v = t_array t ! p"
      using p(2) by (simp_all add: cells_def nth_append sizearray_def nth_enumerate_eq)
    then show ?thesis
      using lookup_nth [OF small True] True by (simp add: findindex_def Let_def scan_def)
  next
    case False
    let ?q = "p - sizearray t"
    have q: "?q < length (t_node t)" "k = n_key (gnode t ?q)" "v = n_val (gnode t ?q)"
      using p False by (auto simp: cells_def nth_append sizearray_def)
    then have u: "n_key (gnode t ?q) \<noteq> TNil" using nodes_okD(2) [OF nok q(1)] p(3) by auto
    note K = nodes_okD(3) [OF nok q(1) u]
    then have s: "scan t k = SNode ?q" using scan_SNode [OF nok, of k ?q] q u by simp
    then have "get_generic t k = Inr (SNode ?q)" using get_generic_spec [OF nok, of k] K q u by simp
    then show ?thesis
      using s K q u False by (auto simp: findindex_def Let_def in_array_def lookup_def slot_read_def)
  qed
  then show "findindex t k = Inr (int p)" "lookup t k = v"
    "scan t k = (if p < sizearray t then SArray p else SNode (p - sizearray t))" by auto
qed

text \<open>The loop a program writes with \<^verbatim>\<open>lua_next\<close>: ask for the next pair until there is none.\<close>

fun traverse :: "nat \<Rightarrow> table \<Rightarrow> tvalue \<Rightarrow> lua_error + (tvalue \<times> tvalue) list" where
  "traverse 0 t key = Inl ErrFuel"
| "traverse (Suc n) t key =
     bindE (luaH_next t key) (\<lambda>r. case r of None \<Rightarrow> Inr []
       | Some (k, v) \<Rightarrow> bindE (traverse n t k) (\<lambda>l. Inr ((k, v) # l)))"

lemma find_filter:
  assumes "find P (drop i xs) = Some x"
  obtains p where "i \<le> p" "p < length xs" "xs ! p = x" "P x" "filter P (drop i xs) = x # filter P (drop (Suc p) xs)"
proof -
  obtain q where q: "q < length (drop i xs)" "P (drop i xs ! q)" "x = drop i xs ! q" "\<forall>j < q. \<not> P (drop i xs ! j)"
    using assms unfolding find_Some_iff by blast
  have "drop i xs = take q (drop i xs) @ drop i xs ! q # drop (Suc q) (drop i xs)"
    using q(1) by (rule id_take_nth_drop)
  moreover have "filter P (take q (drop i xs)) = []"
    using q(4) by (auto simp: filter_empty_conv in_set_conv_nth)
  ultimately have "filter P (drop i xs) = x # filter P (drop (Suc (i + q)) xs)"
    using q(2,3) by (metis add.commute add_Suc_right drop_drop filter.simps(2) filter_append self_append_conv2)
  with q that [of "i + q"] show thesis by simp
qed

lemma traverse_from:
  assumes ok: "table_ok t"
  shows "findindex t key = Inr (int i - 1) \<Longrightarrow> length (filter live_cell (drop i (cells t))) < n \<Longrightarrow>
    traverse n t key = Inr (filter live_cell (drop i (cells t)))"
proof (induction n arbitrary: key i)
  case (Suc n)
  show ?case
  proof (cases "find live_cell (drop i (cells t))")
    case None
    then have "filter live_cell (drop i (cells t)) = []" by (auto simp: find_None_iff filter_empty_conv)
    with None Suc.prems show ?thesis by (simp add: luaH_next_find)
  next
    case (Some x)
    obtain k v where x: "x = (k, v)" by (cases x)
    obtain p where p: "p < length (cells t)" "cells t ! p = (k, v)" "v \<noteq> TNil"
      "filter live_cell (drop i (cells t)) = (k, v) # filter live_cell (drop (Suc p) (cells t))"
      using find_filter [OF Some] x by auto
    have "findindex t k = Inr (int (Suc p) - 1)" using findindex_cell [OF ok p(1-3)] by simp
    with Suc.IH [of k "Suc p"] Suc.prems p(4) Some x show ?thesis by (simp add: luaH_next_find)
  qed
qed simp

lemma traverse_spec: "table_ok t \<Longrightarrow> table_count t < n \<Longrightarrow> traverse n t TNil = Inr (table_pairs t)"
  using traverse_from [of t TNil 0 n] by (simp add: findindex_def table_count_def table_pairs_cells)

lemma table_pairs_lookup: "table_ok t \<Longrightarrow> (k, v) \<in> set (table_pairs t) \<Longrightarrow> v \<noteq> TNil \<and> lookup t k = v"
  using findindex_cell(2) [of t _ k v] by (auto simp: table_pairs_cells in_set_conv_nth)

text \<open>Every key with a value is met, once.\<close>

lemma table_pairs_complete:
  assumes "table_ok t" "lookup t k \<noteq> TNil"
  shows "\<exists>(k', v) \<in> set (table_pairs t). luaO_rawequalObj k k'"
proof -
  have "spilled 0 t = array_pairs 0 (t_array t)" by (simp add: spilled_def)
  with lookup_covered [OF assms, of 0] show ?thesis by (auto simp: table_pairs_def)
qed

lemma cells_distinct:
  assumes ok: "table_ok t" and p: "p < length (cells t)" "cells t ! p = (k, v)" "v \<noteq> TNil"
    and q: "q < length (cells t)" "cells t ! q = (k', v')" "v' \<noteq> TNil" and e: "luaO_rawequalObj k k'"
  shows "p = q"
proof -
  have "scan t k = scan t k'" using scan_cong [OF table_ok_nodes [OF ok] e] .
  then show ?thesis
    unfolding findindex_cell(3) [OF ok p] findindex_cell(3) [OF ok q]
    by (simp split: if_splits)
qed

lemma sorted_wrt_filter_index:
  assumes "\<And>i j. i < j \<Longrightarrow> j < length xs \<Longrightarrow> P (xs ! i) \<Longrightarrow> P (xs ! j) \<Longrightarrow> R (xs ! i) (xs ! j)"
  shows "sorted_wrt R (filter P xs)"
  using assms
proof (induction xs)
  case (Cons x xs)
  have "sorted_wrt R (filter P xs)" using Cons.prems [of "Suc _" "Suc _"] by (intro Cons.IH) simp
  moreover have "R x y" if "P x" "y \<in> set xs" "P y" for y
    using that Cons.prems [of 0 "Suc _"] by (auto simp: in_set_conv_nth)
  ultimately show ?case by simp
qed simp

lemma table_pairs_distinct:
  assumes "table_ok t"
  shows "sorted_wrt (\<lambda>p q. \<not> luaO_rawequalObj (fst p) (fst q)) (table_pairs t)"
  unfolding table_pairs_cells
proof (rule sorted_wrt_filter_index)
  fix i j assume ij: "i < j" "j < length (cells t)" "live_cell (cells t ! i)" "live_cell (cells t ! j)"
  obtain k v k' v' where kv: "cells t ! i = (k, v)" "cells t ! j = (k', v')" by (metis surj_pair)
  with ij cells_distinct [OF assms _ kv(1) _ ij(2) kv(2)] have "luaO_rawequalObj k k' \<Longrightarrow> i = j" by simp
  then show "\<not> luaO_rawequalObj (fst (cells t ! i)) (fst (cells t ! j))" using ij(1) kv by auto
qed

section \<open>The border\<close>

text \<open>A border: the last of a run of integer keys with values that starts at 1, or 0.\<close>

definition border :: "(int \<Rightarrow> tvalue) \<Rightarrow> int \<Rightarrow> bool" where
  "border f n \<longleftrightarrow> 0 \<le> n \<and> n < INT_MAX \<and> (n = 0 \<or> f n \<noteq> TNil) \<and> f (n + 1) = TNil"

lemma getnum_value_ival:
  "table_ok t \<Longrightarrow> 0 \<le> n \<Longrightarrow> n \<le> INT_MAX \<Longrightarrow> getnum_value t n = Inr (ival t n)"
  using it.geti_val [of t n] by (simp add: getnum_value_def table_geti_def INT_MIN_def)

lemma border_binary_spec:
  assumes "table_ok t" "0 \<le> i" "i < j" "j \<le> INT_MAX" "i = 0 \<or> ival t i \<noteq> TNil" "ival t j = TNil"
  shows "\<exists>n. border_binary t i j = Inr n \<and> border (ival t) n"
  using assms
proof (induction t i j rule: border_binary.induct)
  case (1 t i j)
  let ?m = "(i + j) div 2"
  show ?case
  proof (cases "j - i > 1")
    case True
    then have m: "i < ?m" "?m < j" by linarith+
    have v: "getnum_value t ?m = Inr (ival t ?m)" using 1(3-6) m by (intro getnum_value_ival) auto
    show ?thesis
    proof (cases "ival t ?m = TNil")
      case True
      then show ?thesis
        using 1(1) [OF \<open>j - i > 1\<close> refl, of "ival t ?m"] 1(3-8) m v \<open>j - i > 1\<close>
        by (simp add: border_binary.simps [of t i j])
    next
      case False
      then show ?thesis
        using 1(2) [OF \<open>j - i > 1\<close> refl, of "ival t ?m"] 1(3-8) m v \<open>j - i > 1\<close>
        by (simp add: border_binary.simps [of t i j])
    qed
  next
    case False
    with 1(5) have "j = i + 1" by linarith
    moreover have "border_binary t i j = Inr i" using False by (simp add: border_binary.simps [of t i j])
    ultimately show ?thesis using 1(3-8) by (simp add: border_def)
  qed
qed

lemma border_linear_spec:
  assumes "table_ok t" "1 \<le> i" "i \<le> m" "m \<le> INT_MAX" "i = 1 \<or> ival t (i - 1) \<noteq> TNil" "ival t m = TNil"
  shows "\<exists>n. border_linear t i = Inr n \<and> border (ival t) n"
  using assms
proof (induction t i rule: border_linear.induct)
  case (1 t i)
  have v: "getnum_value t i = Inr (ival t i)" using 1(2-5) by (intro getnum_value_ival) auto
  show ?case
  proof (cases "ival t i = TNil")
    case True
    with v 1(2-6) show ?thesis by (simp add: border_linear.simps [of t i] border_def)
  next
    case False
    with 1(7) have "i \<noteq> m" by auto
    with 1(1) [of "ival t i"] 1(2-7) v False show ?thesis by (simp add: border_linear.simps [of t i])
  qed
qed

text \<open>A table is too small to hold a value at every positive \<^verbatim>\<open>int\<close>.\<close>

lemma some_int_free:
  assumes "table_ok t"
  obtains m where "1 \<le> m" "m \<le> INT_MAX" "ival t m = TNil"
proof (rule ccontr)
  assume "\<not> thesis"
  with that have full: "\<And>m. 1 \<le> m \<Longrightarrow> m \<le> INT_MAX \<Longrightarrow> ival t m \<noteq> TNil" by blast
  have "m \<in> (arrayindex \<circ> fst) ` set (table_pairs t)" if m: "1 \<le> m" "m \<le> INT_MAX" for m
  proof -
    obtain k' v where k: "(k', v) \<in> set (table_pairs t)" "luaO_rawequalObj (TNumber (cast_num m)) k'"
      using table_pairs_complete [OF assms] full [OF m] unfolding ival_def by blast
    have "arrayindex (TNumber (cast_num m)) = m" using m by (intro arrayindex_num) auto
    then have "m = (arrayindex \<circ> fst) (k', v)" using arrayindex_cong [OF k(2)] by simp
    with k(1) show ?thesis by blast
  qed
  then have "{1..INT_MAX} \<subseteq> (arrayindex \<circ> fst) ` set (table_pairs t)" by auto
  then have "card {1..INT_MAX} \<le> card ((arrayindex \<circ> fst) ` set (table_pairs t))" by (intro card_mono) simp_all
  also have "\<dots> \<le> card (set (table_pairs t))" by (rule card_image_le) simp
  also have "\<dots> \<le> table_count t" unfolding table_count_def by (rule card_length)
  finally have "nat INT_MAX \<le> table_count t" by simp
  then show False using table_count_le [OF assms] by (simp add: INT_MAX_def)
qed

lemma unbound_double_spec:
  assumes "table_ok t" "0 \<le> i" "i < j" "j \<le> INT_MAX" "i = 0 \<or> ival t i \<noteq> TNil"
  shows "\<exists>n. unbound_double t i j = Inr n \<and> border (ival t) n"
  using assms
proof (induction t i j rule: unbound_double.induct)
  case (1 t i j)
  have v: "getnum_value t j = Inr (ival t j)" using 1(2-5) by (intro getnum_value_ival) auto
  show ?case
  proof (cases "ival t j = TNil")
    case True
    with v border_binary_spec [OF 1(2-6)] show ?thesis by (simp add: unbound_double.simps [of t i j])
  next
    case False
    obtain m where m: "1 \<le> m" "m \<le> INT_MAX" "ival t m = TNil" using some_int_free [OF 1(2)] .
    have "\<exists>n. border_linear t 1 = Inr n \<and> border (ival t) n" 
      using border_linear_spec [OF 1(2), of 1 m] m by simp
    with 1(1) [of "ival t j"] 1(2-6) v False show ?thesis
      by (simp add: unbound_double.simps [of t i j] MAX_INT_def INT_MAX_def)
  qed
qed

lemma array_border_spec:
  assumes "i < j" "j \<le> length arr" "i = 0 \<or> arr ! (i - 1) \<noteq> TNil" "arr ! (j - 1) = TNil"
  shows "array_border arr i j < length arr \<and> arr ! array_border arr i j = TNil
    \<and> (array_border arr i j = 0 \<or> arr ! (array_border arr i j - 1) \<noteq> TNil)"
  using assms
proof (induction arr i j rule: array_border.induct)
  case (1 arr i j)
  let ?m = "(i + j) div 2"
  show ?case
  proof (cases "j - i > 1")
    case True
    then have m: "i < ?m" "?m < j" by linarith+
    with 1 True show ?thesis
      by (cases "arr ! (?m - 1) = TNil") (simp_all add: array_border.simps [of arr i j])
  next
    case False
    with 1(3) have "j = Suc i" by simp
    moreover have "array_border arr i j = i" using False by (simp add: array_border.simps [of arr i j])
    ultimately show ?thesis using 1(3-6) by simp
  qed
qed

lemma ival_nth: "table_ok t \<Longrightarrow> j < sizearray t \<Longrightarrow> ival t (int j + 1) = t_array t ! j"
  unfolding ival_def using lookup_nth(1) table_ok_sizearray by blast

lemma ival_dummy:
  assumes ok: "table_ok t" and d: "t_dummy t"
  shows "ival t (int (sizearray t) + 1) = TNil"
proof -
  have l: "live t = {}" using ok d by (auto simp: table_ok_def live_def dummynode_def)
  have "arrayindex (TNumber (cast_num (int (sizearray t) + 1))) = int (sizearray t) + 1"
    using table_ok_sizearray [OF ok] by (intro arrayindex_num) (auto simp: INT_MAX_def)
  then have "\<not> in_array t (TNumber (cast_num (int (sizearray t) + 1)))" by (simp add: in_array_def)
  then show ?thesis using lookup_empty_hash [OF ok l] by (simp add: ival_def)
qed

lemma luaH_getn_spec:
  assumes ok: "table_ok t"
  shows "\<exists>n. luaH_getn t = Inr n \<and> border (ival t) n"
proof -
  let ?j = "sizearray t"
  have small: "int ?j < INT_MAX" using table_ok_sizearray [OF ok] by (simp add: INT_MAX_def)
  have last: "ival t (int k) = t_array t ! (k - 1)" if "0 < k" "k \<le> ?j" for k
    using ival_nth [OF ok, of "k - 1"] that by (simp add: of_nat_diff)
  show ?thesis
  proof (cases "?j > 0 \<and> t_array t ! (?j - 1) = TNil")
    case True
    let ?n = "array_border (t_array t) 0 ?j"
    from True array_border_spec [of 0 ?j "t_array t"] have n: "?n < ?j" "t_array t ! ?n = TNil"
      "?n = 0 \<or> t_array t ! (?n - 1) \<noteq> TNil" by (auto simp: sizearray_def)
    then have "ival t (int ?n + 1) = TNil" "?n = 0 \<or> ival t (int ?n) \<noteq> TNil"
      using ival_nth [OF ok, of ?n] last [of ?n] by auto
    with True n(1) small show ?thesis by (simp add: luaH_getn_def border_def)
  next
    case False
    then have b: "int ?j = 0 \<or> ival t (int ?j) \<noteq> TNil" using last by auto
    have "\<exists>n. unbound_search t (int ?j) = Inr n \<and> border (ival t) n"
      unfolding unbound_search_def using b small by (intro unbound_double_spec [OF ok]) simp_all
    moreover have "luaH_getn t = (if t_dummy t then Inr (int ?j) else unbound_search t (int ?j))"
      by (simp only: luaH_getn_def Let_def if_not_P [OF False])
    ultimately show ?thesis using b small ival_dummy [OF ok] by (simp add: border_def)
  qed
qed

section \<open>The promises of \<^verbatim>\<open>ltable.c\<close>\<close>

text \<open>A table built by the program's own operations, for the witnesses.\<close>

definition sample_table :: table where
  "sample_table = projr (table_puti (projr (luaH_new 2 2)) 1 (TBoolean True))"

lemma sample_table_ok: "table_ok sample_table"
proof -
  have "luaH_new 2 2 = Inr (projr (luaH_new 2 2))" by code_simp
  then have "table_ok (projr (luaH_new 2 2))" using luaH_new_ok [of 2 2] by auto
  moreover have "table_puti (projr (luaH_new 2 2)) 1 (TBoolean True) = Inr sample_table" by code_simp
  ultimately show ?thesis using it.puti_ok [of "projr (luaH_new 2 2)" 1] by (simp add: INT_MIN_def INT_MAX_def)
qed

text \<open>
  C5. Looking a key up through the hash chains, with the special cases for integers and
  strings, is the linear search for the key through the whole table.
\<close>

theorem luaH_get_is_scan:
  assumes "table_ok t"
  shows "luaH_get t key = Inr (scan t key)"
  by (rule luaH_get_spec [OF table_ok_nodes [OF assms] table_ok_sizearray [OF assms]])

lemma luaH_get_is_scan_witness:
  "luaH_get sample_table (TNumber (cast_num 1)) = Inr (scan sample_table (TNumber (cast_num 1)))
   \<and> scan sample_table (TNumber (cast_num 1)) = SArray 0"
  using luaH_get_is_scan [OF sample_table_ok, of "TNumber (cast_num 1)"] by (simp, code_simp)

lemma invalid_key_scan: "table_ok t \<Longrightarrow> \<not> valid_key key \<Longrightarrow> scan t key = SNil"
proof -
  assume ok: "table_ok t" and "\<not> valid_key key"
  then consider "key = TNil" | "key \<noteq> TNil" "\<not> luaO_rawequalObj key key" by (auto simp: valid_key_iff)
  then show ?thesis
  proof cases
    case 2
    then have no: "\<not> luaO_rawequalObj x key" for x using rawequal_sym rawequal_trans by metis
    moreover have "\<not> in_array t key"
      using no arrayindex_iff [of "arrayindex key" key] arrayindex_range(2) [of key] by (auto simp: in_array_def INT_MIN_def)
    ultimately show ?thesis by (simp add: scan_def find_None_iff [THEN iffD2])
  qed (simp add: scan_def)
qed

lemma table_put_invalid:
  assumes "table_ok t" "\<not> valid_key key"
  shows "table_put t key v = Inl (ErrRun (if key = TNil then ''table index is nil'' else ''table index is NaN''))"
proof -
  have "luaH_get t key = Inr SNil"
    using luaH_get_spec [OF table_ok_nodes table_ok_sizearray] assms invalid_key_scan by auto
  moreover have "key \<noteq> TNil \<Longrightarrow> (case key of TNumber n \<Rightarrow> luai_numisnan n | _ \<Rightarrow> False)"
    using assms(2) by (auto simp: valid_key_def split: tvalue.splits)
  ultimately show ?thesis by (auto simp: table_put_def luaH_set_def luaH_set_with_def Let_def)
qed

text \<open>
  C6. Assigning to a key: nil and NaN are rejected with the code's two messages; otherwise
  the table keeps its invariant, the key (and what compares equal to it) reads back the
  value, every other key reads as before -- rehashes included -- or the table was already
  too large to grow and is reported as such.
\<close>

theorem table_put_updates:
  assumes "table_ok t"
  shows "case table_put t key v of
      Inr t' \<Rightarrow> valid_key key \<and> table_ok t' \<and>
        (\<forall>k. lookup t' k = (if luaO_rawequalObj k key then v else lookup t k))
    | Inl e \<Rightarrow>
        (key = TNil \<and> e = ErrRun ''table index is nil'')
        \<or> (key \<noteq> TNil \<and> \<not> luaO_rawequalObj key key \<and> e = ErrRun ''table index is NaN'')
        \<or> (valid_key key \<and> 2 ^ 26 \<le> table_count t \<and> e = ErrRun ''table overflow'')"
proof (cases "valid_key key")
  case True
  then show ?thesis using table_put_outcome [OF assms True, of v] by (auto simp: put_outcome_def)
next
  case False
  then show ?thesis using table_put_invalid [OF assms False] by (auto simp: valid_key_iff)
qed

lemma table_put_updates_witness:
  "\<exists>t'. table_put sample_table (TString ''x'') (TBoolean False) = Inr t'
     \<and> lookup t' (TString ''x'') = TBoolean False
     \<and> lookup t' (TNumber (cast_num 1)) = TBoolean True"
proof -
  define t' where "t' = projr (table_put sample_table (TString ''x'') (TBoolean False))"
  have r: "table_put sample_table (TString ''x'') (TBoolean False) = Inr t'" unfolding t'_def by code_simp
  have "\<forall>k. lookup t' k = (if luaO_rawequalObj k (TString ''x'') then TBoolean False else lookup sample_table k)"
    using table_put_updates [OF sample_table_ok, of "TString ''x''" "TBoolean False"] unfolding r sum.case by blast
  moreover have "lookup sample_table (TNumber (cast_num 1)) = TBoolean True" by code_simp
  ultimately show ?thesis using r by auto
qed

lemma node_pairs_fit:
  assumes "table_ok t"
  shows "count_outside n (node_pairs (t_node t)) \<le> (if t_dummy t then 0 else sizenode t)"
proof -
  have "count_outside n (node_pairs (t_node t)) \<le> length (node_pairs (t_node t))"
    by (simp add: count_outside_def)
  moreover have "length (node_pairs (t_node t)) \<le> length (t_node t)" by (simp add: node_pairs_def)
  moreover have "t_dummy t \<Longrightarrow> node_pairs (t_node t) = []"
    using assms by (simp add: table_ok_def node_pairs_def dummynode_def)
  moreover have "length (t_node t) = sizenode t" using assms by (simp add: table_ok_def nodes_ok_def)
  ultimately show ?thesis by (auto simp: count_outside_def [of _ "[]"])
qed

lemma sizenode_le:
  assumes "table_ok t"
  shows "int (sizenode t) \<le> 2 ^ 26"
proof -
  have "t_lsizenode t \<le> 26" using assms by (simp add: table_ok_def nodes_ok_def MAXBITS_def)
  then have "(2::int) ^ t_lsizenode t \<le> 2 ^ 26" by (intro power_increasing) simp_all
  then show ?thesis by (simp add: sizenode_def)
qed

text \<open>
  C7. Growing the array part of a table loses no binding: whatever moves from the hash part
  into the array part, every key reads the same before and after, and the table keeps its
  invariant.
\<close>

theorem luaH_resizearray_keeps:
  assumes "table_ok t" "sizearray t \<le> nasize" "int nasize \<le> MAXASIZE"
  shows "\<exists>t'. luaH_resizearray t nasize = Inr t' \<and> table_ok t' \<and> sizearray t' = nasize \<and> lookup t' = lookup t"
proof -
  let ?n = "if t_dummy t then 0 else int (sizenode t)"
  have "int (length (spilled nasize t) + count_outside nasize (node_pairs (t_node t))) \<le> ?n"
    using node_pairs_fit [OF assms(1), of nasize] assms(2)
    by (auto simp: spilled_def sizearray_def array_pairs_def split: if_splits)
  moreover have "0 \<le> ?n" "?n \<le> 2 ^ 26" using sizenode_le [OF assms(1)] by auto
  ultimately show ?thesis
    using resize_with_ok [OF assms(1,3), of ?n "grow 0"] unfolding luaH_resizearray_def resize_def by metis
qed

lemma luaH_resizearray_keeps_witness:
  "\<exists>t'. luaH_resizearray sample_table 4 = Inr t' \<and> table_ok t' \<and> sizearray t' = 4 \<and> lookup t' = lookup sample_table"
proof -
  have "sizearray sample_table \<le> 4" by code_simp
  then show ?thesis by (intro luaH_resizearray_keeps [OF sample_table_ok]) (simp_all add: MAXASIZE_def MAXBITS_def)
qed

text \<open>
  C8. The array size chosen by a rehash is right: for counters of distinct keys it is the
  largest power of two more than half of whose slots would be used, and the second result
  is the number of those keys.
\<close>

theorem computesizes_optimal:
  assumes "\<forall>c \<in> set nums. 0 \<le> c" "distinct_counts nums"
  shows "\<exists>n na. computesizes nums (sum_list nums) = Inr (n, na)
    \<and> (n = 0 \<and> na = 0 \<or> (\<exists>j < length nums. n = 2 ^ j \<and> na = below nums (Suc j) \<and> 2 ^ j div 2 < na))
    \<and> (\<forall>j < length nums. 2 ^ j div 2 < below nums (Suc j) \<longrightarrow> 2 ^ j \<le> n)"
proof -
  have "0 < sum_list nums \<or> sum_list nums = 0" using sum_list_nonneg [of nums] assms(1) by force
  then have "\<exists>n na. computesizes_loop nums (sum_list nums) 0 1 0 0 0 = Inr (n, na) \<and> good_size nums n na
    \<and> best_size nums (length nums) n"
    using computesizes_loop_spec [OF assms(1) refl, of 1 0 0 0 0] assms(2)
    by (auto simp: below_def good_size_def [of _ 0] best_size_def [of _ 0])
  then show ?thesis unfolding computesizes_def good_size_def best_size_def by blast
qed

lemma computesizes_optimal_witness:
  "\<exists>n na. computesizes [1, 1, 1, 2, 1] 6 = Inr (n, na) \<and> n = 8 \<and> na = 5
    \<and> (\<forall>j < 5. 2 ^ j div 2 < below [1, 1, 1, 2, 1] (Suc j) \<longrightarrow> 2 ^ j \<le> n)"
proof -
  have "\<forall>c \<in> set [1, 1, 1, 2, 1]. (0::int) \<le> c" "distinct_counts [1, 1, 1, 2, 1]"
    by (simp_all add: distinct_counts_def below_def All_less_Suc numeral_eq_Suc)
  moreover have "computesizes [1, 1, 1, 2, 1] 6 = Inr (8, 5)" by code_simp
  ultimately show ?thesis using computesizes_optimal [of "[1, 1, 1, 2, 1]"] by simp
qed

text \<open>
  C9. A traversal with \<^verbatim>\<open>next\<close> ends and meets exactly the bindings of the table: the pairs it
  returns have different keys, each with its value, and no key with a value is left out.
\<close>

theorem traverse_exactly_once:
  assumes "table_ok t"
  shows "\<exists>ps. traverse (Suc (table_count t)) t TNil = Inr ps
    \<and> (\<forall>(k, v) \<in> set ps. v \<noteq> TNil \<and> lookup t k = v)
    \<and> (\<forall>k. lookup t k \<noteq> TNil \<longrightarrow> (\<exists>(k', v) \<in> set ps. luaO_rawequalObj k k'))
    \<and> sorted_wrt (\<lambda>p q. \<not> luaO_rawequalObj (fst p) (fst q)) ps"
proof (intro exI conjI)
  show "traverse (Suc (table_count t)) t TNil = Inr (table_pairs t)" using assms by (intro traverse_spec) simp_all
  show "\<forall>(k, v) \<in> set (table_pairs t). v \<noteq> TNil \<and> lookup t k = v" using table_pairs_lookup [OF assms] by blast
  show "\<forall>k. lookup t k \<noteq> TNil \<longrightarrow> (\<exists>(k', v) \<in> set (table_pairs t). luaO_rawequalObj k k')"
    using table_pairs_complete [OF assms] by blast
  show "sorted_wrt (\<lambda>p q. \<not> luaO_rawequalObj (fst p) (fst q)) (table_pairs t)" by (rule table_pairs_distinct [OF assms])
qed

lemma traverse_exactly_once_witness:
  "\<exists>ps. traverse (Suc (table_count sample_table)) sample_table TNil = Inr ps
    \<and> (\<forall>(k, v) \<in> set ps. v \<noteq> TNil \<and> lookup sample_table k = v)"
  using traverse_exactly_once [OF sample_table_ok] by blast

text \<open>
  C10. The length operator always returns, and what it returns is a border: 0 or a key with a
  value, with no value at the next one.
\<close>

theorem luaH_getn_border:
  assumes "table_ok t"
  shows "\<exists>n. luaH_getn t = Inr n \<and> 0 \<le> n \<and> (n = 0 \<or> ival t n \<noteq> TNil) \<and> ival t (n + 1) = TNil"
  using luaH_getn_spec [OF assms] unfolding border_def by blast

lemma luaH_getn_border_witness:
  "\<exists>n. luaH_getn sample_table = Inr n \<and> 0 \<le> n \<and> (n = 0 \<or> ival sample_table n \<noteq> TNil) \<and> ival sample_table (n + 1) = TNil"
  by (rule luaH_getn_border [OF sample_table_ok])

end
