(* ===== verification/LuaOpcodes.thy ===== *)
theory LuaOpcodes
  imports LuaPrelude
begin

text \<open>
  \<^verbatim>\<open>lopcodes.h\<close> and \<^verbatim>\<open>lopcodes.c\<close>: the 32-bit instruction format, the opcodes and their
  property masks.  Every macro that reads or writes a field is a definition on \<open>32 word\<close> with
  the shifts and masks of the source; C \<^verbatim>\<open>int\<close> arguments are \<open>int\<close>.
\<close>

section \<open>Fields of an instruction\<close>

type_synonym Instruction = "32 word"

datatype OpMode = iABC | iABx | iAsBx

definition SIZE_C :: nat where "SIZE_C = 9"
definition SIZE_B :: nat where "SIZE_B = 9"
definition SIZE_Bx :: nat where "SIZE_Bx = SIZE_C + SIZE_B"
definition SIZE_A :: nat where "SIZE_A = 8"
definition SIZE_OP :: nat where "SIZE_OP = 6"

definition POS_OP :: nat where "POS_OP = 0"
definition POS_A :: nat where "POS_A = POS_OP + SIZE_OP"
definition POS_C :: nat where "POS_C = POS_A + SIZE_A"
definition POS_B :: nat where "POS_B = POS_C + SIZE_C"
definition POS_Bx :: nat where "POS_Bx = POS_C"

lemmas field_sizes = SIZE_C_def SIZE_B_def SIZE_Bx_def SIZE_A_def SIZE_OP_def
  POS_OP_def POS_A_def POS_C_def POS_B_def POS_Bx_def

definition MAXARG_Bx :: int where "MAXARG_Bx = 2 ^ SIZE_Bx - 1"
definition MAXARG_sBx :: int where "MAXARG_sBx = MAXARG_Bx div 2"
definition MAXARG_A :: int where "MAXARG_A = 2 ^ SIZE_A - 1"
definition MAXARG_B :: int where "MAXARG_B = 2 ^ SIZE_B - 1"
definition MAXARG_C :: int where "MAXARG_C = 2 ^ SIZE_C - 1"

lemma MAXARG_simps [simp]:
  "MAXARG_Bx = 262143" "MAXARG_sBx = 131071" "MAXARG_A = 255" "MAXARG_B = 511" "MAXARG_C = 511"
  by (simp_all add: MAXARG_Bx_def MAXARG_sBx_def MAXARG_A_def MAXARG_B_def MAXARG_C_def field_sizes)

definition MASK1 :: "nat \<Rightarrow> nat \<Rightarrow> Instruction" where
  "MASK1 n p = push_bit p (NOT (push_bit n (NOT 0)))"

definition MASK0 :: "nat \<Rightarrow> nat \<Rightarrow> Instruction" where
  "MASK0 n p = NOT (MASK1 n p)"

definition GET_OPCODE :: "Instruction \<Rightarrow> int" where
  "GET_OPCODE i = uint (drop_bit POS_OP i AND MASK1 SIZE_OP 0)"

definition SET_OPCODE :: "Instruction \<Rightarrow> int \<Rightarrow> Instruction" where
  "SET_OPCODE i opc = (i AND MASK0 SIZE_OP POS_OP) OR (push_bit POS_OP (word_of_int opc) AND MASK1 SIZE_OP POS_OP)"

definition GETARG_A :: "Instruction \<Rightarrow> int" where
  "GETARG_A i = uint (drop_bit POS_A i AND MASK1 SIZE_A 0)"

definition SETARG_A :: "Instruction \<Rightarrow> int \<Rightarrow> Instruction" where
  "SETARG_A i u = (i AND MASK0 SIZE_A POS_A) OR (push_bit POS_A (word_of_int u) AND MASK1 SIZE_A POS_A)"

definition GETARG_B :: "Instruction \<Rightarrow> int" where
  "GETARG_B i = uint (drop_bit POS_B i AND MASK1 SIZE_B 0)"

definition SETARG_B :: "Instruction \<Rightarrow> int \<Rightarrow> Instruction" where
  "SETARG_B i b = (i AND MASK0 SIZE_B POS_B) OR (push_bit POS_B (word_of_int b) AND MASK1 SIZE_B POS_B)"

definition GETARG_C :: "Instruction \<Rightarrow> int" where
  "GETARG_C i = uint (drop_bit POS_C i AND MASK1 SIZE_C 0)"

definition SETARG_C :: "Instruction \<Rightarrow> int \<Rightarrow> Instruction" where
  "SETARG_C i b = (i AND MASK0 SIZE_C POS_C) OR (push_bit POS_C (word_of_int b) AND MASK1 SIZE_C POS_C)"

definition GETARG_Bx :: "Instruction \<Rightarrow> int" where
  "GETARG_Bx i = uint (drop_bit POS_Bx i AND MASK1 SIZE_Bx 0)"

definition SETARG_Bx :: "Instruction \<Rightarrow> int \<Rightarrow> Instruction" where
  "SETARG_Bx i b = (i AND MASK0 SIZE_Bx POS_Bx) OR (push_bit POS_Bx (word_of_int b) AND MASK1 SIZE_Bx POS_Bx)"

definition GETARG_sBx :: "Instruction \<Rightarrow> int" where
  "GETARG_sBx i = GETARG_Bx i - MAXARG_sBx"

definition SETARG_sBx :: "Instruction \<Rightarrow> int \<Rightarrow> Instruction" where
  "SETARG_sBx i b = SETARG_Bx i (b + MAXARG_sBx)"

definition CREATE_ABC :: "int \<Rightarrow> int \<Rightarrow> int \<Rightarrow> int \<Rightarrow> Instruction" where
  "CREATE_ABC opc a b c =
     push_bit POS_OP (word_of_int opc) OR push_bit POS_A (word_of_int a)
     OR push_bit POS_B (word_of_int b) OR push_bit POS_C (word_of_int c)"

definition CREATE_ABx :: "int \<Rightarrow> int \<Rightarrow> int \<Rightarrow> Instruction" where
  "CREATE_ABx opc a bc =
     push_bit POS_OP (word_of_int opc) OR push_bit POS_A (word_of_int a)
     OR push_bit POS_Bx (word_of_int bc)"

section \<open>Register or constant operands\<close>

definition BITRK :: int where "BITRK = 2 ^ (SIZE_B - 1)"

definition ISK :: "int \<Rightarrow> bool" where
  "ISK x \<longleftrightarrow> x AND BITRK \<noteq> 0"

definition INDEXK :: "int \<Rightarrow> int" where
  "INDEXK r = r AND NOT BITRK"

definition MAXINDEXRK :: int where "MAXINDEXRK = BITRK - 1"

definition RKASK :: "int \<Rightarrow> int" where
  "RKASK x = x OR BITRK"

definition NO_REG :: int where "NO_REG = MAXARG_A"

section \<open>Opcodes\<close>

datatype OpCode =
    OP_MOVE | OP_LOADK | OP_LOADBOOL | OP_LOADNIL | OP_GETUPVAL | OP_GETGLOBAL | OP_GETTABLE | OP_SETGLOBAL
  | OP_SETUPVAL | OP_SETTABLE | OP_NEWTABLE | OP_SELF | OP_ADD | OP_SUB | OP_MUL | OP_DIV
  | OP_MOD | OP_POW | OP_UNM | OP_NOT | OP_LEN | OP_CONCAT | OP_JMP | OP_EQ
  | OP_LT | OP_LE | OP_TEST | OP_TESTSET | OP_CALL | OP_TAILCALL | OP_RETURN | OP_FORLOOP
  | OP_FORPREP | OP_TFORLOOP | OP_SETLIST | OP_CLOSE | OP_CLOSURE | OP_VARARG

definition all_opcodes :: "OpCode list" where
  "all_opcodes =
     [OP_MOVE, OP_LOADK, OP_LOADBOOL, OP_LOADNIL, OP_GETUPVAL, OP_GETGLOBAL, OP_GETTABLE, OP_SETGLOBAL,
      OP_SETUPVAL, OP_SETTABLE, OP_NEWTABLE, OP_SELF, OP_ADD, OP_SUB, OP_MUL, OP_DIV,
      OP_MOD, OP_POW, OP_UNM, OP_NOT, OP_LEN, OP_CONCAT, OP_JMP, OP_EQ,
      OP_LT, OP_LE, OP_TEST, OP_TESTSET, OP_CALL, OP_TAILCALL, OP_RETURN, OP_FORLOOP,
      OP_FORPREP, OP_TFORLOOP, OP_SETLIST, OP_CLOSE, OP_CLOSURE, OP_VARARG]"

definition NUM_OPCODES :: int where "NUM_OPCODES = 38"

text \<open>The value of the C enumeration, and the cast from a number back to it.\<close>

fun index_of :: "'a \<Rightarrow> 'a list \<Rightarrow> nat" where
  "index_of x [] = 0"
| "index_of x (y # ys) = (if x = y then 0 else Suc (index_of x ys))"

definition opnum :: "OpCode \<Rightarrow> int" where
  "opnum opc = int (index_of opc all_opcodes)"

definition opcode_of :: "int \<Rightarrow> OpCode option" where
  "opcode_of n = (if 0 \<le> n \<and> n < NUM_OPCODES then Some (all_opcodes ! nat n) else None)"

lemma in_all_opcodes: "opc \<in> set all_opcodes"
  by (cases opc) (simp_all add: all_opcodes_def)

lemma all_opcodes_numbered:
  "list_all (\<lambda>opc. 0 \<le> opnum opc \<and> opnum opc < NUM_OPCODES \<and> opcode_of (opnum opc) = Some opc) all_opcodes"
  by code_simp

lemma opnum_range: "0 \<le> opnum opc" "opnum opc < NUM_OPCODES"
  and opcode_of_opnum [simp]: "opcode_of (opnum opc) = Some opc"
  using all_opcodes_numbered in_all_opcodes [of opc] by (auto simp: list_all_iff)

section \<open>Property masks\<close>

datatype OpArgMask = OpArgN | OpArgU | OpArgR | OpArgK

fun argmask_num :: "OpArgMask \<Rightarrow> int" where
  "argmask_num OpArgN = 0" | "argmask_num OpArgU = 1" | "argmask_num OpArgR = 2" | "argmask_num OpArgK = 3"

fun opmode_num :: "OpMode \<Rightarrow> int" where
  "opmode_num iABC = 0" | "opmode_num iABx = 1" | "opmode_num iAsBx = 2"

definition opmode :: "int \<Rightarrow> int \<Rightarrow> OpArgMask \<Rightarrow> OpArgMask \<Rightarrow> OpMode \<Rightarrow> int" where
  "opmode t a b c m =
     push_bit 7 t OR push_bit 6 a OR push_bit 4 (argmask_num b) OR push_bit 2 (argmask_num c) OR opmode_num m"

definition luaP_opmodes :: "int list" where
  "luaP_opmodes =
     [opmode 0 1 OpArgR OpArgN iABC,
      opmode 0 1 OpArgK OpArgN iABx,
      opmode 0 1 OpArgU OpArgU iABC,
      opmode 0 1 OpArgR OpArgN iABC,
      opmode 0 1 OpArgU OpArgN iABC,
      opmode 0 1 OpArgK OpArgN iABx,
      opmode 0 1 OpArgR OpArgK iABC,
      opmode 0 0 OpArgK OpArgN iABx,
      opmode 0 0 OpArgU OpArgN iABC,
      opmode 0 0 OpArgK OpArgK iABC,
      opmode 0 1 OpArgU OpArgU iABC,
      opmode 0 1 OpArgR OpArgK iABC,
      opmode 0 1 OpArgK OpArgK iABC,
      opmode 0 1 OpArgK OpArgK iABC,
      opmode 0 1 OpArgK OpArgK iABC,
      opmode 0 1 OpArgK OpArgK iABC,
      opmode 0 1 OpArgK OpArgK iABC,
      opmode 0 1 OpArgK OpArgK iABC,
      opmode 0 1 OpArgR OpArgN iABC,
      opmode 0 1 OpArgR OpArgN iABC,
      opmode 0 1 OpArgR OpArgN iABC,
      opmode 0 1 OpArgR OpArgR iABC,
      opmode 0 0 OpArgR OpArgN iAsBx,
      opmode 1 0 OpArgK OpArgK iABC,
      opmode 1 0 OpArgK OpArgK iABC,
      opmode 1 0 OpArgK OpArgK iABC,
      opmode 1 1 OpArgR OpArgU iABC,
      opmode 1 1 OpArgR OpArgU iABC,
      opmode 0 1 OpArgU OpArgU iABC,
      opmode 0 1 OpArgU OpArgU iABC,
      opmode 0 0 OpArgU OpArgN iABC,
      opmode 0 1 OpArgR OpArgN iAsBx,
      opmode 0 1 OpArgR OpArgN iAsBx,
      opmode 1 0 OpArgN OpArgU iABC,
      opmode 0 0 OpArgU OpArgU iABC,
      opmode 0 0 OpArgN OpArgN iABC,
      opmode 0 1 OpArgU OpArgN iABx,
      opmode 0 1 OpArgU OpArgN iABC]"

definition argmask_of :: "int \<Rightarrow> OpArgMask" where
  "argmask_of n = (if n = 0 then OpArgN else if n = 1 then OpArgU else if n = 2 then OpArgR else OpArgK)"

text \<open>\<^verbatim>\<open>enum OpMode\<close> has no name for the value 3, which no mask holds.\<close>

definition getOpMode :: "OpCode \<Rightarrow> OpMode" where
  "getOpMode m = (let n = luaP_opmodes ! nat (opnum m) AND 3 in if n = 0 then iABC else if n = 1 then iABx else iAsBx)"

definition getBMode :: "OpCode \<Rightarrow> OpArgMask" where
  "getBMode m = argmask_of (drop_bit 4 (luaP_opmodes ! nat (opnum m)) AND 3)"

definition getCMode :: "OpCode \<Rightarrow> OpArgMask" where
  "getCMode m = argmask_of (drop_bit 2 (luaP_opmodes ! nat (opnum m)) AND 3)"

definition testAMode :: "OpCode \<Rightarrow> bool" where
  "testAMode m \<longleftrightarrow> luaP_opmodes ! nat (opnum m) AND 2 ^ 6 \<noteq> 0"

definition testTMode :: "OpCode \<Rightarrow> bool" where
  "testTMode m \<longleftrightarrow> luaP_opmodes ! nat (opnum m) AND 2 ^ 7 \<noteq> 0"

definition luaP_opnames :: "string list" where
  "luaP_opnames =
     [''MOVE'', ''LOADK'', ''LOADBOOL'', ''LOADNIL'', ''GETUPVAL'', ''GETGLOBAL'', ''GETTABLE'', ''SETGLOBAL'',
      ''SETUPVAL'', ''SETTABLE'', ''NEWTABLE'', ''SELF'', ''ADD'', ''SUB'', ''MUL'', ''DIV'',
      ''MOD'', ''POW'', ''UNM'', ''NOT'', ''LEN'', ''CONCAT'', ''JMP'', ''EQ'',
      ''LT'', ''LE'', ''TEST'', ''TESTSET'', ''CALL'', ''TAILCALL'', ''RETURN'', ''FORLOOP'',
      ''FORPREP'', ''TFORLOOP'', ''SETLIST'', ''CLOSE'', ''CLOSURE'', ''VARARG'']"

definition LFIELDS_PER_FLUSH :: int where "LFIELDS_PER_FLUSH = 50"

section \<open>Reading back what was written\<close>

text \<open>Both masks in terms of bits, and the two shapes every field macro is an instance of.\<close>

lemma bit_MASK1: "bit (MASK1 n p) k \<longleftrightarrow> p \<le> k \<and> k < p + n \<and> k < 32"
  unfolding MASK1_def by (auto simp: bit_simps)

lemma bit_MASK0: "bit (MASK0 n p) k \<longleftrightarrow> k < 32 \<and> \<not> (p \<le> k \<and> k < p + n)"
  unfolding MASK0_def by (auto simp: bit_simps bit_MASK1)

definition getfield :: "nat \<Rightarrow> nat \<Rightarrow> Instruction \<Rightarrow> int" where
  "getfield p n i = uint (drop_bit p i AND MASK1 n 0)"

definition setfield :: "nat \<Rightarrow> nat \<Rightarrow> Instruction \<Rightarrow> int \<Rightarrow> Instruction" where
  "setfield p n i v = (i AND MASK0 n p) OR (push_bit p (word_of_int v) AND MASK1 n p)"

lemma bit_getfield: "bit (getfield p n i) k \<longleftrightarrow> k < n \<and> p + k < 32 \<and> bit i (p + k)"
  unfolding getfield_def by (auto simp: bit_simps bit_MASK1 dest: bit_imp_le_length)

lemma bit_setfield:
  "bit (setfield p n i v) k \<longleftrightarrow> k < 32 \<and> (if p \<le> k \<and> k < p + n then bit v (k - p) else bit i k)"
  unfolding setfield_def by (auto simp: bit_simps bit_MASK1 bit_MASK0)

lemma getfield_setfield_same:
  assumes "p + n \<le> 32" "0 \<le> v" "v < 2 ^ n"
  shows "getfield p n (setfield p n i v) = v"
proof -
  have v: "v = take_bit n v" using assms by (simp add: take_bit_int_eq_self)
  have "bit (getfield p n (setfield p n i v)) k \<longleftrightarrow> bit (take_bit n v) k" for k
    using assms(1) by (auto simp: bit_getfield bit_setfield bit_take_bit_iff)
  then show ?thesis using v by (metis bit_eqI)
qed

lemma getfield_setfield_other:
  assumes "p + n \<le> q \<or> q + m \<le> p"
  shows "getfield q m (setfield p n i v) = getfield q m i"
  using assms by (intro bit_eqI) (auto simp: bit_getfield bit_setfield)

lemmas field_unfold =
  GET_OPCODE_def [folded getfield_def] GETARG_A_def [folded getfield_def]
  GETARG_B_def [folded getfield_def] GETARG_C_def [folded getfield_def]
  GETARG_Bx_def [folded getfield_def] GETARG_sBx_def
  SET_OPCODE_def [folded setfield_def] SETARG_A_def [folded setfield_def]
  SETARG_B_def [folded setfield_def] SETARG_C_def [folded setfield_def]
  SETARG_Bx_def [folded setfield_def] SETARG_sBx_def

lemma getfield_range: "0 \<le> getfield p n i" "n \<le> 32 \<Longrightarrow> getfield p n i < 2 ^ n"
proof -
  show "0 \<le> getfield p n i" by (simp add: getfield_def)
  have "getfield p n i = take_bit n (getfield p n i)"
    by (rule bit_eqI) (auto simp: bit_getfield bit_take_bit_iff)
  then show "getfield p n i < 2 ^ n" by (metis take_bit_int_less_exp)
qed

lemma GETARG_range:
  "0 \<le> GET_OPCODE i" "GET_OPCODE i < 64" "0 \<le> GETARG_A i" "GETARG_A i \<le> 255"
  "0 \<le> GETARG_B i" "GETARG_B i \<le> 511" "0 \<le> GETARG_C i" "GETARG_C i \<le> 511"
  "0 \<le> GETARG_Bx i" "GETARG_Bx i \<le> 262143"
  "- 131071 \<le> GETARG_sBx i" "GETARG_sBx i \<le> 131072"
  using getfield_range(2) [of 6 POS_OP i] getfield_range(2) [of 8 POS_A i]
    getfield_range(2) [of 9 POS_B i] getfield_range(2) [of 9 POS_C i]
    getfield_range(2) [of 18 POS_Bx i] getfield_range(1) [of POS_Bx 18 i]
  by (simp_all add: field_unfold SIZE_C_def SIZE_B_def SIZE_Bx_def SIZE_A_def SIZE_OP_def getfield_range)

text \<open>The two constructors, as sums of disjoint fields.\<close>

lemma getfield_uint: "p + n \<le> 32 \<Longrightarrow> getfield p n i = uint i div 2 ^ p mod 2 ^ n"
proof -
  assume a: "p + n \<le> 32"
  have "getfield p n i = take_bit n (drop_bit p (uint i))"
    using a by (intro bit_eqI) (auto simp: bit_getfield bit_take_bit_iff bit_drop_bit_eq bit_uint_iff)
  then show ?thesis by (simp add: take_bit_eq_mod drop_bit_eq_div)
qed

lemma bit_push_word: "bit (push_bit p (word_of_int v) :: Instruction) k \<longleftrightarrow> p \<le> k \<and> k < 32 \<and> bit v (k - p)"
  by (auto simp: bit_simps)

lemma bit_less_width: "0 \<le> v \<Longrightarrow> v < 2 ^ n \<Longrightarrow> bit (v::int) k \<Longrightarrow> k < n"
  by (metis bit_take_bit_iff take_bit_int_eq_self)

lemma CREATE_ABC_fields:
  assumes "0 \<le> opc" "opc < 64" "0 \<le> a" "a \<le> MAXARG_A" "0 \<le> b" "b \<le> MAXARG_B" "0 \<le> c" "c \<le> MAXARG_C"
  shows "GET_OPCODE (CREATE_ABC opc a b c) = opc" "GETARG_A (CREATE_ABC opc a b c) = a"
    "GETARG_B (CREATE_ABC opc a b c) = b" "GETARG_C (CREATE_ABC opc a b c) = c"
proof -
  have w: "\<And>k. bit opc k \<Longrightarrow> k < 6" "\<And>k. bit a k \<Longrightarrow> k < 8"
    "\<And>k. bit b k \<Longrightarrow> k < 9" "\<And>k. bit c k \<Longrightarrow> k < 9"
    using assms bit_less_width [of opc 6] bit_less_width [of a 8] bit_less_width [of b 9]
      bit_less_width [of c 9] by auto
  show "GET_OPCODE (CREATE_ABC opc a b c) = opc" "GETARG_A (CREATE_ABC opc a b c) = a"
    "GETARG_B (CREATE_ABC opc a b c) = b" "GETARG_C (CREATE_ABC opc a b c) = c"
    by (rule bit_eqI; force simp: field_unfold bit_getfield CREATE_ABC_def bit_or_iff bit_push_word
        bit_word_of_int_iff field_sizes dest: w)+
qed

lemma CREATE_ABx_fields:
  assumes "0 \<le> opc" "opc < 64" "0 \<le> a" "a \<le> MAXARG_A" "0 \<le> bx" "bx \<le> MAXARG_Bx"
  shows "GET_OPCODE (CREATE_ABx opc a bx) = opc" "GETARG_A (CREATE_ABx opc a bx) = a"
    "GETARG_Bx (CREATE_ABx opc a bx) = bx"
proof -
  have w: "\<And>k. bit opc k \<Longrightarrow> k < 6" "\<And>k. bit a k \<Longrightarrow> k < 8" "\<And>k. bit bx k \<Longrightarrow> k < 18"
    using assms bit_less_width [of opc 6] bit_less_width [of a 8] bit_less_width [of bx 18] by auto
  show "GET_OPCODE (CREATE_ABx opc a bx) = opc" "GETARG_A (CREATE_ABx opc a bx) = a"
    "GETARG_Bx (CREATE_ABx opc a bx) = bx"
    by (rule bit_eqI; force simp: field_unfold bit_getfield CREATE_ABx_def bit_or_iff bit_push_word
        bit_word_of_int_iff field_sizes dest: w)+
qed

text \<open>An instruction of format \<^verbatim>\<open>iABC\<close> is the word its four fields create.\<close>

lemma instruction_eq_iff:
  "i = j \<longleftrightarrow> GET_OPCODE i = GET_OPCODE j \<and> GETARG_A i = GETARG_A j
      \<and> GETARG_B i = GETARG_B j \<and> GETARG_C i = GETARG_C j"
proof
  assume r: "GET_OPCODE i = GET_OPCODE j \<and> GETARG_A i = GETARG_A j
      \<and> GETARG_B i = GETARG_B j \<and> GETARG_C i = GETARG_C j"
  show "i = j"
  proof (rule bit_word_eqI)
    fix n assume n: "n < LENGTH(32)"
    have f: "bit i (p + k) = bit j (p + k)"
      if "getfield p m i = getfield p m j" "k < m" "p + k < 32" for p m k
      using that bit_getfield [of p m i k] bit_getfield [of p m j k] by simp
    consider "n < 6" | "6 \<le> n" "n < 14" | "14 \<le> n" "n < 23" | "23 \<le> n" by linarith
    then show "bit i n = bit j n"
      using r n f [of 0 6 n] f [of 6 8 "n - 6"] f [of 14 9 "n - 14"] f [of 23 9 "n - 23"]
      by cases (auto simp: field_unfold field_sizes)
  qed
qed auto

lemma GETARG_Bx_split: "GETARG_Bx k = GETARG_B k * 512 + GETARG_C k"
proof -
  let ?v = "uint k div 2 ^ 14"
  have "?v mod (2 ^ 9 * 2 ^ 9) = 2 ^ 9 * (?v div 2 ^ 9 mod 2 ^ 9) + ?v mod 2 ^ 9"
    by (rule zmod_zmult2_eq) simp
  moreover have "?v div 2 ^ 9 = uint k div 2 ^ 23" by (simp flip: zdiv_zmult2_eq)
  ultimately show ?thesis by (simp add: field_unfold field_sizes getfield_uint)
qed

lemma GETARG_Bx_eqD:
  assumes "GETARG_Bx i = GETARG_Bx j"
  shows "GETARG_B i = GETARG_B j \<and> GETARG_C i = GETARG_C j"
proof
  show "GETARG_B i = GETARG_B j"
    using assms GETARG_range(5-8) [of i] GETARG_range(5-8) [of j] unfolding GETARG_Bx_split by linarith
  with assms show "GETARG_C i = GETARG_C j" unfolding GETARG_Bx_split by simp
qed

text \<open>
  Every 32-bit word is an instruction that its fields determine: rebuilding it from the
  opcode and the A, B and C fields, or from the opcode, A and Bx, gives the same word back;
  and Bx is B and C side by side, with B in the high bits.
\<close>

theorem instruction_roundtrip:
  "CREATE_ABC (GET_OPCODE i) (GETARG_A i) (GETARG_B i) (GETARG_C i) = i
   \<and> CREATE_ABx (GET_OPCODE i) (GETARG_A i) (GETARG_Bx i) = i
   \<and> GETARG_Bx i = GETARG_B i * 2 ^ SIZE_C + GETARG_C i"
proof -
  note R = GETARG_range [of i]
  have bx: "GETARG_Bx i = GETARG_B i * 2 ^ SIZE_C + GETARG_C i"
    by (simp add: GETARG_Bx_split SIZE_C_def)
  have abc: "CREATE_ABC (GET_OPCODE i) (GETARG_A i) (GETARG_B i) (GETARG_C i) = i"
    using R CREATE_ABC_fields [of "GET_OPCODE i" "GETARG_A i" "GETARG_B i" "GETARG_C i"]
    by (subst instruction_eq_iff) simp
  let ?j = "CREATE_ABx (GET_OPCODE i) (GETARG_A i) (GETARG_Bx i)"
  have j: "GET_OPCODE ?j = GET_OPCODE i" "GETARG_A ?j = GETARG_A i" "GETARG_Bx ?j = GETARG_Bx i"
    using R CREATE_ABx_fields [of "GET_OPCODE i" "GETARG_A i" "GETARG_Bx i"] by simp_all
  have "GETARG_B ?j = GETARG_B i \<and> GETARG_C ?j = GETARG_C i"
    using j(3) by (rule GETARG_Bx_eqD)
  with j have "?j = i" by (subst instruction_eq_iff) simp
  with abc bx show ?thesis by simp
qed

text \<open>
  Writing a field is exact and local: for an argument in the field's range, the field
  reads back the argument (signed offsets included), and every other field keeps its value.
\<close>

theorem SETARG_reads_back:
  assumes "0 \<le> a" "a \<le> MAXARG_A" "0 \<le> b" "b \<le> MAXARG_B" "0 \<le> c" "c \<le> MAXARG_C"
    and "- MAXARG_sBx \<le> s" "s \<le> MAXARG_sBx" "0 \<le> opc" "opc < 64"
  shows "GETARG_A (SETARG_A i a) = a \<and> GETARG_B (SETARG_B i b) = b \<and> GETARG_C (SETARG_C i c) = c
    \<and> GETARG_sBx (SETARG_sBx i s) = s \<and> GET_OPCODE (SET_OPCODE i opc) = opc
    \<and> GET_OPCODE (SETARG_A i a) = GET_OPCODE i \<and> GETARG_Bx (SETARG_A i a) = GETARG_Bx i
    \<and> GETARG_A (SETARG_B i b) = GETARG_A i \<and> GETARG_C (SETARG_B i b) = GETARG_C i
    \<and> GETARG_A (SETARG_C i c) = GETARG_A i \<and> GETARG_B (SETARG_C i c) = GETARG_B i
    \<and> GETARG_A (SETARG_sBx i s) = GETARG_A i \<and> GET_OPCODE (SETARG_sBx i s) = GET_OPCODE i
    \<and> GETARG_A (SET_OPCODE i opc) = GETARG_A i \<and> GETARG_Bx (SET_OPCODE i opc) = GETARG_Bx i"
  using assms
  by (simp add: field_unfold field_sizes getfield_setfield_same getfield_setfield_other)

theorem SETARG_reads_back_witness:
  "GETARG_A (SETARG_A 0xFFFFFFFF 3) = 3 \<and> GETARG_sBx (SETARG_sBx 0xFFFFFFFF (-5)) = -5
   \<and> GETARG_Bx (SETARG_A 0xFFFFFFFF 3) = GETARG_Bx 0xFFFFFFFF"
  using SETARG_reads_back [of 3 0 0 "-5" 0 "0xFFFFFFFF"] by simp

end
