(* ===== verification/LuaProto.thy ===== *)
theory LuaProto
  imports LuaNumber LuaOpcodes
begin

text \<open>
  Function prototypes: \<^verbatim>\<open>Proto\<close> and \<^verbatim>\<open>LocVar\<close> of \<^verbatim>\<open>lobject.h\<close>, with the constructor and the
  name lookup of \<^verbatim>\<open>lfunc.c\<close>.

  A vector and its size are one list.  A \<^verbatim>\<open>TString*\<close> of a prototype is \<open>None\<close> when it is
  \<^verbatim>\<open>NULL\<close>: a stripped binary has no names, and a binary may even hold a \<^verbatim>\<open>NULL\<close> string as a
  constant.
\<close>

section \<open>Data\<close>

text \<open>The constants a prototype can hold.\<close>

datatype kval = KNil | KBoolean bool | KNumber lua_Number | KString "string option"

fun kttype :: "kval \<Rightarrow> int" where
  "kttype KNil = 0"
| "kttype (KBoolean _) = 1"
| "kttype (KNumber _) = 3"
| "kttype (KString _) = 4"

definition kisstring :: "kval \<Rightarrow> bool" where
  "kisstring v \<longleftrightarrow> kttype v = 4"

record locvar =
  varname :: "string option"
  startpc :: int
  endpc :: int

datatype proto = Proto
  (p_k: "kval list") (p_code: "Instruction list") (p_p: "proto list")
  (p_lineinfo: "int list") (p_locvars: "locvar list") (p_upvalues: "string option list")
  (p_source: "string option") (p_linedefined: int) (p_lastlinedefined: int)
  (p_nups: "8 word") (p_numparams: "8 word") (p_is_vararg: "8 word") (p_maxstacksize: "8 word")

definition VARARG_HASARG :: int where "VARARG_HASARG = 1"
definition VARARG_ISVARARG :: int where "VARARG_ISVARARG = 2"
definition VARARG_NEEDSARG :: int where "VARARG_NEEDSARG = 4"

definition sizecode :: "proto \<Rightarrow> int" where "sizecode pt = int (length (p_code pt))"
definition sizek :: "proto \<Rightarrow> int" where "sizek pt = int (length (p_k pt))"
definition sizep :: "proto \<Rightarrow> int" where "sizep pt = int (length (p_p pt))"

definition luaF_newproto :: proto where
  "luaF_newproto = Proto [] [] [] [] [] [] None 0 0 0 0 0 0"

section \<open>Names of local variables\<close>

text \<open>\<^verbatim>\<open>for (i = 0; i < f->sizelocvars && f->locvars[i].startpc <= pc; i++)\<close>; the result is the
  \<^verbatim>\<open>varname\<close> found, if any.\<close>

fun getlocalname_loop :: "locvar list \<Rightarrow> int \<Rightarrow> int \<Rightarrow> string option option" where
  "getlocalname_loop [] n pc = None"
| "getlocalname_loop (v # vs) n pc =
     (if startpc v \<le> pc then
        if pc < endpc v then
          if n - 1 = 0 then Some (varname v) else getlocalname_loop vs (n - 1) pc
        else getlocalname_loop vs n pc
      else None)"

definition luaF_getlocalname :: "proto \<Rightarrow> int \<Rightarrow> int \<Rightarrow> string option option" where
  "luaF_getlocalname f local_number pc = getlocalname_loop (p_locvars f) local_number pc"

text \<open>
  With the variables in order of their first instruction, as the compiler leaves them, the
  loop finds the \<open>n\<close>-th variable active at \<open>pc\<close>.
\<close>

definition active :: "int \<Rightarrow> locvar \<Rightarrow> bool" where
  "active pc v \<longleftrightarrow> startpc v \<le> pc \<and> pc < endpc v"

lemma active_none: "\<forall>v \<in> set vs. pc < startpc v \<Longrightarrow> filter (active pc) vs = []"
  by (auto simp: filter_empty_conv active_def)

lemma getlocalname_loop_spec:
  assumes "sorted (map startpc vs)" "1 \<le> n"
  shows "getlocalname_loop vs n pc =
    (if n \<le> int (length (filter (active pc) vs)) then Some (varname (filter (active pc) vs ! nat (n - 1))) else None)"
  using assms
proof (induction vs n pc rule: getlocalname_loop.induct)
  case (2 v vs n pc)
  show ?case
  proof (cases "startpc v \<le> pc")
    case False
    with "2.prems"(1) have "filter (active pc) (v # vs) = []" by (intro active_none) auto
    with False "2.prems"(2) show ?thesis by simp
  next
    case True
    have nth: "(v # xs) ! nat (n - 1) = xs ! nat (n - 1 - 1)" if "n \<noteq> 1" for xs :: "locvar list"
      using that "2.prems"(2) by (simp add: nth_Cons' nat_diff_distrib numeral_2_eq_2)
    show ?thesis
    proof (cases "pc < endpc v \<and> n \<noteq> 1")
      case True
      with 2 \<open>startpc v \<le> pc\<close> nth show ?thesis by (auto simp: active_def)
    next
      case False
      with 2 \<open>startpc v \<le> pc\<close> show ?thesis by (auto simp: active_def)
    qed
  qed
qed simp

end
