(* ===== verification/LuaVm.thy ===== *)
theory LuaVm
  imports LuaArith LuaTableMap LuaProto
begin

text \<open>
  The object store and the operations on values of \<^verbatim>\<open>ltm.c\<close> and \<^verbatim>\<open>lvm.c\<close>: conversions,
  comparisons, indexing with tag methods, concatenation and arithmetic.

  A reference to a collectable object is a number; the store maps it to the object.  Calling
  a function value is a parameter \<open>call\<close> of the operations that may call one: it maps the
  function, the arguments and the store to an error or to the results and a new store.
  Errors carry the message the code builds for a running C function (no position prefix, no
  variable name); \<^verbatim>\<open>strcoll\<close> is the one of the C locale.
\<close>

section \<open>The store\<close>

record udata =
  u_len :: nat
  u_metatable :: "nat option"
  u_env :: nat

datatype closure =
    CClosure (c_f: nat) (cl_env: nat) (c_upvalue: "tvalue list")
  | LClosure (l_p: proto) (cl_env: nat) (l_upvals: "nat list")

text \<open>
  The \<^verbatim>\<open>CallInfo\<close> of an active function: positions in the stack, and the index of the next
  instruction in \<open>call_pc\<close> (\<^verbatim>\<open>L->savedpc\<close> is the one of the head).
\<close>

record callinfo =
  call_base :: nat
  call_func :: nat
  call_top :: nat
  call_pc :: int
  call_nresults :: int
  call_tailcalls :: int

text \<open>
  With the objects goes the Lua stack, into which open upvalues point: \<open>s_stack\<close> has
  \<^verbatim>\<open>L->stacksize\<close> slots, \<open>s_top\<close> is \<^verbatim>\<open>L->top\<close>, \<open>s_ci\<close> the active functions (\<^verbatim>\<open>L->ci\<close> first), and
  \<open>s_openupval\<close> the list \<^verbatim>\<open>L->openupval\<close> of slots with their upvalues.  \<open>s_upvals\<close> holds the values of the
  closed ones.
\<close>

record store =
  s_tables :: "nat \<Rightarrow> table option"
  s_udatas :: "nat \<Rightarrow> udata option"
  s_closures :: "nat \<Rightarrow> closure option"
  s_upvals :: "nat \<Rightarrow> tvalue"
  s_mt :: "int \<Rightarrow> nat option"
  s_registry :: tvalue
  s_gt :: tvalue
  s_next :: nat
  s_decpoint :: byte
  s_stack :: "tvalue list"
  s_top :: nat
  s_ci :: "callinfo list"
  s_size_ci :: int
  s_openupval :: "(nat \<times> nat) list"
  s_nCcalls :: int

type_synonym host = "tvalue \<Rightarrow> tvalue list \<Rightarrow> store \<Rightarrow> lua_error + tvalue list \<times> store"

definition hvalue :: "store \<Rightarrow> nat \<Rightarrow> lua_error + table" where
  "hvalue S h = (case s_tables S h of None \<Rightarrow> Inl ErrFault | Some t \<Rightarrow> Inr t)"

definition set_table :: "nat \<Rightarrow> table \<Rightarrow> store \<Rightarrow> store" where
  "set_table h t S = S\<lparr>s_tables := (s_tables S)(h \<mapsto> t)\<rparr>"

definition uvalue :: "store \<Rightarrow> nat \<Rightarrow> lua_error + udata" where
  "uvalue S u = (case s_udatas S u of None \<Rightarrow> Inl ErrFault | Some d \<Rightarrow> Inr d)"

section \<open>Tag methods\<close>

datatype TMS = TM_INDEX | TM_NEWINDEX | TM_GC | TM_MODE | TM_EQ | TM_ADD | TM_SUB | TM_MUL | TM_DIV
  | TM_MOD | TM_POW | TM_UNM | TM_LEN | TM_LT | TM_LE | TM_CONCAT | TM_CALL

definition luaT_eventnames :: "(TMS \<times> string) list" where
  "luaT_eventnames =
     [(TM_INDEX, ''__index''), (TM_NEWINDEX, ''__newindex''), (TM_GC, ''__gc''), (TM_MODE, ''__mode''),
      (TM_EQ, ''__eq''), (TM_ADD, ''__add''), (TM_SUB, ''__sub''), (TM_MUL, ''__mul''), (TM_DIV, ''__div''),
      (TM_MOD, ''__mod''), (TM_POW, ''__pow''), (TM_UNM, ''__unm''), (TM_LEN, ''__len''), (TM_LT, ''__lt''),
      (TM_LE, ''__le''), (TM_CONCAT, ''__concat''), (TM_CALL, ''__call'')]"

definition tmname :: "TMS \<Rightarrow> string" where
  "tmname e = the (map_of luaT_eventnames e)"

definition event_number :: "TMS \<Rightarrow> nat" where
  "event_number e = index_of e (map fst luaT_eventnames)"

definition luaT_typenames :: "string list" where
  "luaT_typenames =
     [''nil'', ''boolean'', ''userdata'', ''number'', ''string'', ''table'', ''function'', ''userdata'',
      ''thread'', ''proto'', ''upval'']"

definition type_name :: "tvalue \<Rightarrow> string" where
  "type_name v = luaT_typenames ! nat (ttype v)"

text \<open>\<^verbatim>\<open>luaT_gettm\<close>: an absent method is remembered in the flags of the metatable.\<close>

definition luaT_gettm :: "store \<Rightarrow> nat \<Rightarrow> TMS \<Rightarrow> lua_error + tvalue option \<times> store" where
  "luaT_gettm S mt event =
     bindE (hvalue S mt) (\<lambda>t.
     bindE (luaH_getstr t (tmname event)) (\<lambda>s.
     let tm = slot_read t s in
     if tm = TNil then
       Inr (None, set_table mt (t\<lparr>t_flags := t_flags t OR push_bit (event_number event) 1\<rparr>) S)
     else Inr (Some tm, S)))"

definition fasttm :: "store \<Rightarrow> nat option \<Rightarrow> TMS \<Rightarrow> lua_error + tvalue option \<times> store" where
  "fasttm S et e =
     (case et of None \<Rightarrow> Inr (None, S)
      | Some mt \<Rightarrow> bindE (hvalue S mt) (\<lambda>t.
          if bit (t_flags t) (event_number e) then Inr (None, S) else luaT_gettm S mt e))"

definition metatable_of :: "store \<Rightarrow> tvalue \<Rightarrow> lua_error + nat option" where
  "metatable_of S v =
     (case v of
        TTable h \<Rightarrow> bindE (hvalue S h) (\<lambda>t. Inr (t_metatable t))
      | TUserdata u \<Rightarrow> bindE (uvalue S u) (\<lambda>d. Inr (u_metatable d))
      | _ \<Rightarrow> Inr (s_mt S (ttype v)))"

text \<open>\<^verbatim>\<open>luaT_gettmbyobj\<close>; \<open>TNil\<close> is \<^verbatim>\<open>luaO_nilobject\<close>.\<close>

definition luaT_gettmbyobj :: "store \<Rightarrow> tvalue \<Rightarrow> TMS \<Rightarrow> lua_error + tvalue" where
  "luaT_gettmbyobj S v event =
     bindE (metatable_of S v) (\<lambda>mt.
     case mt of None \<Rightarrow> Inr TNil
     | Some m \<Rightarrow> bindE (hvalue S m) (\<lambda>t. bindE (luaH_getstr t (tmname event)) (\<lambda>s. Inr (slot_read t s))))"

section \<open>Conversions\<close>

fun luaV_tonumber :: "byte \<Rightarrow> tvalue \<Rightarrow> lua_Number option" where
  "luaV_tonumber dp (TNumber n) = Some n"
| "luaV_tonumber dp (TString s) = luaO_str2d dp s"
| "luaV_tonumber dp _ = None"

text \<open>\<^verbatim>\<open>luaV_tostring\<close> converts a number in place; \<open>tostring\<close> is the macro around it.\<close>

definition luaV_tostring :: "tvalue \<Rightarrow> tvalue option" where
  "luaV_tostring v = (case v of TNumber n \<Rightarrow> Some (TString (lua_number2str n)) | _ \<Rightarrow> None)"

definition tostring :: "tvalue \<Rightarrow> string option" where
  "tostring v = (case v of TString s \<Rightarrow> Some s
     | _ \<Rightarrow> (case luaV_tostring v of Some (TString s) \<Rightarrow> Some s | _ \<Rightarrow> None))"

section \<open>Errors of operations\<close>

definition luaG_typeerror :: "tvalue \<Rightarrow> string \<Rightarrow> lua_error" where
  "luaG_typeerror v opname = ErrRun (''attempt to '' @ opname @ '' a '' @ type_name v @ '' value'')"

definition luaG_concaterror :: "tvalue \<Rightarrow> tvalue \<Rightarrow> lua_error" where
  "luaG_concaterror p1 p2 =
     luaG_typeerror (case p1 of TString _ \<Rightarrow> p2 | TNumber _ \<Rightarrow> p2 | _ \<Rightarrow> p1) ''concatenate''"

definition luaG_aritherror :: "byte \<Rightarrow> tvalue \<Rightarrow> tvalue \<Rightarrow> lua_error" where
  "luaG_aritherror dp p1 p2 =
     luaG_typeerror (if luaV_tonumber dp p1 = None then p1 else p2) ''perform arithmetic on''"

text \<open>\<^verbatim>\<open>luaG_ordererror\<close> tells the types apart by the third letter of their names.\<close>

definition luaG_ordererror :: "tvalue \<Rightarrow> tvalue \<Rightarrow> lua_error" where
  "luaG_ordererror p1 p2 =
     (let t1 = type_name p1; t2 = type_name p2 in
      if t1 ! 2 = t2 ! 2 then ErrRun (''attempt to compare two '' @ t1 @ '' values'')
      else ErrRun (''attempt to compare '' @ t1 @ '' with '' @ t2))"

section \<open>Calling tag methods\<close>

definition first_result :: "tvalue list \<Rightarrow> tvalue" where
  "first_result vs = (case vs of [] \<Rightarrow> TNil | v # _ \<Rightarrow> v)"

definition callTMres :: "host \<Rightarrow> store \<Rightarrow> tvalue \<Rightarrow> tvalue \<Rightarrow> tvalue \<Rightarrow> lua_error + tvalue \<times> store" where
  "callTMres call S f p1 p2 = bindE (call f [p1, p2] S) (\<lambda>(vs, S1). Inr (first_result vs, S1))"

definition callTM :: "host \<Rightarrow> store \<Rightarrow> tvalue \<Rightarrow> tvalue \<Rightarrow> tvalue \<Rightarrow> tvalue \<Rightarrow> lua_error + store" where
  "callTM call S f p1 p2 p3 = bindE (call f [p1, p2, p3] S) (\<lambda>(vs, S1). Inr S1)"

definition call_binTM :: "host \<Rightarrow> store \<Rightarrow> tvalue \<Rightarrow> tvalue \<Rightarrow> TMS \<Rightarrow> lua_error + tvalue option \<times> store" where
  "call_binTM call S p1 p2 event =
     bindE (luaT_gettmbyobj S p1 event) (\<lambda>tm1.
     bindE (if tm1 = TNil then luaT_gettmbyobj S p2 event else Inr tm1) (\<lambda>tm.
     if tm = TNil then Inr (None, S)
     else bindE (callTMres call S tm p1 p2) (\<lambda>(v, S1). Inr (Some v, S1))))"

definition get_compTM :: "store \<Rightarrow> nat option \<Rightarrow> nat option \<Rightarrow> TMS \<Rightarrow> lua_error + tvalue option \<times> store" where
  "get_compTM S mt1 mt2 event =
     bindE (fasttm S mt1 event) (\<lambda>(tm1, S1).
     case tm1 of None \<Rightarrow> Inr (None, S1)
     | Some f1 \<Rightarrow>
         if mt1 = mt2 then Inr (tm1, S1)
         else bindE (fasttm S1 mt2 event) (\<lambda>(tm2, S2).
           case tm2 of None \<Rightarrow> Inr (None, S2)
           | Some f2 \<Rightarrow> Inr (if luaO_rawequalObj f1 f2 then tm1 else None, S2)))"

text \<open>\<open>None\<close> is the result \<^verbatim>\<open>-1\<close>: no common method.\<close>

definition call_orderTM :: "host \<Rightarrow> store \<Rightarrow> tvalue \<Rightarrow> tvalue \<Rightarrow> TMS \<Rightarrow> lua_error + bool option \<times> store" where
  "call_orderTM call S p1 p2 event =
     bindE (luaT_gettmbyobj S p1 event) (\<lambda>tm1.
     if tm1 = TNil then Inr (None, S)
     else bindE (luaT_gettmbyobj S p2 event) (\<lambda>tm2.
       if \<not> luaO_rawequalObj tm1 tm2 then Inr (None, S)
       else bindE (callTMres call S tm1 p1 p2) (\<lambda>(v, S1). Inr (Some (\<not> l_isfalse v), S1))))"

section \<open>Indexing\<close>

definition MAXTAGLOOP :: nat where "MAXTAGLOOP = 100"

definition is_function :: "tvalue \<Rightarrow> bool" where
  "is_function v \<longleftrightarrow> ttype v = 6"

text \<open>
  The loops, by the rounds left.  \<open>index_tm\<close> is what both do with a value that is not a table.
\<close>

definition index_tm :: "store \<Rightarrow> tvalue \<Rightarrow> TMS \<Rightarrow> lua_error + tvalue" where
  "index_tm S t event =
     bindE (luaT_gettmbyobj S t event) (\<lambda>tm. if tm = TNil then Inl (luaG_typeerror t ''index'') else Inr tm)"

primrec gettable_loop :: "nat \<Rightarrow> host \<Rightarrow> store \<Rightarrow> tvalue \<Rightarrow> tvalue \<Rightarrow> lua_error + tvalue \<times> store" where
  "gettable_loop 0 call S t key = Inl (ErrRun ''loop in gettable'')"
| "gettable_loop (Suc n) call S t key =
     (let again = (\<lambda>tm S1. if is_function tm then callTMres call S1 tm t key
                           else gettable_loop n call S1 tm key) in
      case t of
        TTable h \<Rightarrow>
          bindE (hvalue S h) (\<lambda>tab. bindE (luaH_get tab key) (\<lambda>s.
          let res = slot_read tab s in
          if res \<noteq> TNil then Inr (res, S)
          else bindE (fasttm S (t_metatable tab) TM_INDEX) (\<lambda>(tm, S1).
            case tm of None \<Rightarrow> Inr (res, S1) | Some f \<Rightarrow> again f S1)))
      | _ \<Rightarrow> bindE (index_tm S t TM_INDEX) (\<lambda>tm. again tm S))"

definition luaV_gettable :: "host \<Rightarrow> store \<Rightarrow> tvalue \<Rightarrow> tvalue \<Rightarrow> lua_error + tvalue \<times> store" where
  "luaV_gettable = gettable_loop MAXTAGLOOP"

text \<open>\<^verbatim>\<open>luaH_set\<close> makes room for the key before the tag method is looked for.\<close>

primrec settable_loop :: "nat \<Rightarrow> host \<Rightarrow> store \<Rightarrow> tvalue \<Rightarrow> tvalue \<Rightarrow> tvalue \<Rightarrow> lua_error + store" where
  "settable_loop 0 call S t key val = Inl (ErrRun ''loop in settable'')"
| "settable_loop (Suc n) call S t key val =
     (let again = (\<lambda>tm S1. if is_function tm then callTM call S1 tm t key val
                           else settable_loop n call S1 tm key val) in
      case t of
        TTable h \<Rightarrow>
          bindE (hvalue S h) (\<lambda>tab0. bindE (luaH_set tab0 key) (\<lambda>(s, tab).
          let S1 = set_table h tab S;
              assign = (\<lambda>S2. bindE (hvalue S2 h) (\<lambda>tab1. bindE (slot_write tab1 s val) (\<lambda>tab2.
                         Inr (set_table h (tab2\<lparr>t_flags := 0\<rparr>) S2)))) in
          if slot_read tab s \<noteq> TNil then assign S1
          else bindE (fasttm S1 (t_metatable tab) TM_NEWINDEX) (\<lambda>(tm, S2).
            case tm of None \<Rightarrow> assign S2 | Some f \<Rightarrow> again f S2)))
      | _ \<Rightarrow> bindE (index_tm S t TM_NEWINDEX) (\<lambda>tm. again tm S))"

definition luaV_settable :: "host \<Rightarrow> store \<Rightarrow> tvalue \<Rightarrow> tvalue \<Rightarrow> tvalue \<Rightarrow> lua_error + store" where
  "luaV_settable = settable_loop MAXTAGLOOP"

section \<open>Comparing\<close>

text \<open>\<^verbatim>\<open>strcoll\<close> in the C locale: the sign of the first difference, as unsigned bytes.\<close>

fun strcmp :: "string \<Rightarrow> string \<Rightarrow> int" where
  "strcmp [] [] = 0"
| "strcmp [] (d # ds) = -1"
| "strcmp (c # cs) [] = 1"
| "strcmp (c # cs) (d # ds) =
     (if char2int c < char2int d then -1 else if char2int d < char2int c then 1 else strcmp cs ds)"

lemma length_cstr_less: "length (cstr l) \<noteq> length l \<Longrightarrow> length (cstr l) < length l"
  using length_cstr_le [of l] by linarith

function l_strcmp :: "string \<Rightarrow> string \<Rightarrow> int" where
  "l_strcmp l r =
     (let temp = strcmp (cstr l) (cstr r) in
      if temp \<noteq> 0 then temp
      else let len = length (cstr l) in
        if len = length r then (if len = length l then 0 else 1)
        else if len = length l then -1
        else l_strcmp (drop (len + 1) l) (drop (len + 1) r))"
  by pat_completeness auto

termination
  by (relation "measure (\<lambda>(l, r). length l)") (auto dest: length_cstr_less)

declare l_strcmp.simps [simp del]

definition luaV_lessthan :: "host \<Rightarrow> store \<Rightarrow> tvalue \<Rightarrow> tvalue \<Rightarrow> lua_error + bool \<times> store" where
  "luaV_lessthan call S l r =
     (if ttype l \<noteq> ttype r then Inl (luaG_ordererror l r)
      else case (l, r) of
        (TNumber a, TNumber b) \<Rightarrow> Inr (luai_numlt a b, S)
      | (TString a, TString b) \<Rightarrow> Inr (l_strcmp a b < 0, S)
      | _ \<Rightarrow> bindE (call_orderTM call S l r TM_LT) (\<lambda>(res, S1).
               case res of Some b \<Rightarrow> Inr (b, S1) | None \<Rightarrow> Inl (luaG_ordererror l r)))"

definition lessequal :: "host \<Rightarrow> store \<Rightarrow> tvalue \<Rightarrow> tvalue \<Rightarrow> lua_error + bool \<times> store" where
  "lessequal call S l r =
     (if ttype l \<noteq> ttype r then Inl (luaG_ordererror l r)
      else case (l, r) of
        (TNumber a, TNumber b) \<Rightarrow> Inr (luai_numle a b, S)
      | (TString a, TString b) \<Rightarrow> Inr (l_strcmp a b \<le> 0, S)
      | _ \<Rightarrow> bindE (call_orderTM call S l r TM_LE) (\<lambda>(res, S1).
               case res of Some b \<Rightarrow> Inr (b, S1)
               | None \<Rightarrow> bindE (call_orderTM call S1 r l TM_LT) (\<lambda>(res, S2).
                   case res of Some b \<Rightarrow> Inr (\<not> b, S2) | None \<Rightarrow> Inl (luaG_ordererror l r))))"

text \<open>\<^verbatim>\<open>luaV_equalval\<close> is called on values of one type; \<open>equalobj\<close> is the macro around it.\<close>

definition luaV_equalval :: "host \<Rightarrow> store \<Rightarrow> tvalue \<Rightarrow> tvalue \<Rightarrow> lua_error + bool \<times> store" where
  "luaV_equalval call S t1 t2 =
     (let try_tm = (\<lambda>mt1 mt2. bindE (get_compTM S mt1 mt2 TM_EQ) (\<lambda>(tm, S1).
            case tm of None \<Rightarrow> Inr (False, S1)
            | Some f \<Rightarrow> bindE (callTMres call S1 f t1 t2) (\<lambda>(v, S2). Inr (\<not> l_isfalse v, S2)))) in
      case (t1, t2) of
        (TNumber a, TNumber b) \<Rightarrow> Inr (luai_numeq a b, S)
      | (TUserdata a, TUserdata b) \<Rightarrow>
          if a = b then Inr (True, S)
          else bindE (uvalue S a) (\<lambda>ua. bindE (uvalue S b) (\<lambda>ub. try_tm (u_metatable ua) (u_metatable ub)))
      | (TTable a, TTable b) \<Rightarrow>
          if a = b then Inr (True, S)
          else bindE (hvalue S a) (\<lambda>ta. bindE (hvalue S b) (\<lambda>tb. try_tm (t_metatable ta) (t_metatable tb)))
      | _ \<Rightarrow> Inr (t1 = t2, S))"

definition equalobj :: "host \<Rightarrow> store \<Rightarrow> tvalue \<Rightarrow> tvalue \<Rightarrow> lua_error + bool \<times> store" where
  "equalobj call S t1 t2 = (if ttype t1 = ttype t2 then luaV_equalval call S t1 t2 else Inr (False, S))"

section \<open>Concatenation\<close>

text \<open>
  The loop that collects as many operands as it can: their total length so far, the strings
  (from the last operand to the first), and the operands left.
\<close>

fun collect_strings :: "tvalue list \<Rightarrow> int \<Rightarrow> string list \<Rightarrow> lua_error + string list \<times> tvalue list" where
  "collect_strings [] tot acc = Inr (acc, [])"
| "collect_strings (v # vs) tot acc =
     (case tostring v of
        None \<Rightarrow> Inr (acc, v # vs)
      | Some s \<Rightarrow>
          if int (length s) \<ge> MAX_SIZET - tot then Inl (ErrRun ''string length overflow'')
          else collect_strings vs (tot + int (length s)) (s # acc))"

lemma collect_strings_length:
  "collect_strings vs tot acc = Inr (ss, rest) \<Longrightarrow> length rest \<le> length vs"
  by (induction vs tot acc rule: collect_strings.induct) (auto split: option.splits if_splits)

text \<open>\<^verbatim>\<open>luaV_concat\<close> on the operands from the top of the stack downwards.\<close>

function concat_loop :: "host \<Rightarrow> store \<Rightarrow> tvalue list \<Rightarrow> lua_error + tvalue \<times> store" where
  "concat_loop call S vs =
     (case vs of
        [] \<Rightarrow> Inl ErrFault
      | [v] \<Rightarrow> Inr (v, S)
      | b # a # rest \<Rightarrow>
          (case (tostring a, tostring b) of
             (Some s, Some t) \<Rightarrow>
               if t = [] then concat_loop call S (TString s # rest)
               else bindE (collect_strings (a # rest) (int (length t)) [t]) (\<lambda>(ss, left).
                    concat_loop call S (TString (concat ss) # left))
           | _ \<Rightarrow>
               bindE (call_binTM call S a b TM_CONCAT) (\<lambda>(res, S1).
               case res of None \<Rightarrow> Inl (luaG_concaterror a b)
               | Some v \<Rightarrow> concat_loop call S1 (v # rest))))"
  by pat_completeness auto
termination
  by (relation "measure (\<lambda>(call, S, vs). length vs)") (auto split: option.splits if_splits dest: collect_strings_length)

declare concat_loop.simps [simp del]

definition luaV_concat :: "host \<Rightarrow> store \<Rightarrow> tvalue list \<Rightarrow> lua_error + tvalue \<times> store" where
  "luaV_concat call S vs = concat_loop call S (rev vs)"

section \<open>Arithmetic\<close>

definition arith_op :: "(lua_Number \<Rightarrow> lua_Number \<Rightarrow> lua_Number) \<Rightarrow> TMS \<Rightarrow> lua_Number \<Rightarrow> lua_Number \<Rightarrow> lua_Number" where
  "arith_op pow event nb nc =
     (case event of
        TM_ADD \<Rightarrow> luai_numadd nb nc | TM_SUB \<Rightarrow> luai_numsub nb nc | TM_MUL \<Rightarrow> luai_nummul nb nc
      | TM_DIV \<Rightarrow> luai_numdiv nb nc | TM_MOD \<Rightarrow> luai_nummod nb nc | TM_POW \<Rightarrow> pow nb nc
      | TM_UNM \<Rightarrow> luai_numunm nb | _ \<Rightarrow> nb)"

definition Arith :: "(lua_Number \<Rightarrow> lua_Number \<Rightarrow> lua_Number) \<Rightarrow> host \<Rightarrow> store \<Rightarrow> tvalue \<Rightarrow> tvalue \<Rightarrow> TMS
    \<Rightarrow> lua_error + tvalue \<times> store" where
  "Arith pow call S rb rc event =
     (case (luaV_tonumber (s_decpoint S) rb, luaV_tonumber (s_decpoint S) rc) of
        (Some nb, Some nc) \<Rightarrow> Inr (TNumber (arith_op pow event nb nc), S)
      | _ \<Rightarrow> bindE (call_binTM call S rb rc event) (\<lambda>(res, S1).
               case res of None \<Rightarrow> Inl (luaG_aritherror (s_decpoint S) rb rc) | Some v \<Rightarrow> Inr (v, S1)))"

section \<open>Strings compare as byte sequences\<close>

lemma char2int_NUL [simp]: "char2int NUL = 0"
  by (simp add: NUL_def char2int_def of_char_of)

lemma NUL_least: "c \<noteq> NUL \<Longrightarrow> 0 < char2int c"
  by (metis char2int_NUL char2int_inject char2int_range(1) order_le_less)

lemma cstr_simps [simp]: "cstr [] = []" "cstr (c # cs) = (if c = NUL then [] else c # cstr cs)"
  by (simp_all add: cstr_def)

lemma strcmp_eq_0: "strcmp l r = 0 \<longleftrightarrow> l = r"
  by (induction l r rule: strcmp.induct) auto

lemma strcmp_cstr: "strcmp (cstr l) (cstr r) \<noteq> 0 \<Longrightarrow> strcmp l r = strcmp (cstr l) (cstr r)"
  by (induction l r rule: strcmp.induct) (auto split: if_splits dest: NUL_least)

lemma strcmp_append: "strcmp (x @ a) (x @ b) = strcmp a b"
  by (induction x) simp_all

lemma cstr_rest: "l = cstr l @ drop (length (cstr l)) l"
  by (simp add: cstr_def flip: dropWhile_eq_drop)

lemma cstr_full: "length (cstr l) = length l \<Longrightarrow> cstr l = l"
  unfolding cstr_def by (induction l) (auto split: if_splits)

lemma cstr_next:
  assumes "length (cstr l) \<noteq> length l"
  shows "l = cstr l @ NUL # drop (length (cstr l) + 1) l"
  using assms
proof (induction l)
  case (Cons c cs)
  then show ?case by (cases "c = NUL") auto
qed simp

lemma l_strcmp_spec: "l_strcmp l r = strcmp l r"
proof (induction l r rule: l_strcmp.induct)
  case (1 l r)
  show ?case
  proof (cases "strcmp (cstr l) (cstr r) = 0")
    case False
    then show ?thesis using strcmp_cstr by (simp add: l_strcmp.simps [of l r])
  next
    case True
    then have eq: "cstr l = cstr r" by (simp add: strcmp_eq_0)
    let ?n = "length (cstr l)"
    consider "?n = length r" "?n = length l" | "?n = length r" "?n \<noteq> length l"
      | "?n \<noteq> length r" "?n = length l" | "?n \<noteq> length r" "?n \<noteq> length l" by blast
    then show ?thesis
    proof cases
      case 1
      then have "strcmp l r = 0" using eq by (metis cstr_full strcmp_eq_0)
      moreover have "l_strcmp l r = 0" using 1 True by (simp add: l_strcmp.simps [of l r])
      ultimately show ?thesis by simp
    next
      case 2
      then have "r = cstr l @ []" using eq by (metis cstr_full append_Nil2)
      with cstr_next [OF 2(2)] have "strcmp l r = strcmp (NUL # drop (?n + 1) l) []" by (metis strcmp_append)
      with 2 True show ?thesis by (simp add: l_strcmp.simps [of l r])
    next
      case 3
      then have "l = cstr l @ []" by (metis cstr_full append_Nil2)
      with cstr_next [of r] 3(1) eq have "strcmp l r = strcmp [] (NUL # drop (?n + 1) r)" by (metis strcmp_append)
      with 3 True show ?thesis by (simp add: l_strcmp.simps [of l r])
    next
      case 4
      then have "strcmp l r = strcmp (NUL # drop (?n + 1) l) (NUL # drop (?n + 1) r)"
        using cstr_next [of l] cstr_next [of r] eq by (metis strcmp_append)
      then have "strcmp l r = strcmp (drop (?n + 1) l) (drop (?n + 1) r)" by simp
      with 4 True 1 [OF refl _ refl] show ?thesis by (simp add: l_strcmp.simps [of l r] Let_def)
    qed
  qed
qed

lemma strcmp_lexord: "strcmp l r < 0 \<longleftrightarrow> ord_class.lexordp (map char2int l) (map char2int r)"
  by (induction l r rule: strcmp.induct) auto

text \<open>
  C19. Strings are ordered as sequences of unsigned bytes, embedded zeros included: the
  comparison that walks over the pieces between zeros is the lexicographic one, and it finds
  two strings equal exactly when they are.
\<close>

theorem l_strcmp_lexicographic:
  "(l_strcmp l r < 0 \<longleftrightarrow> ord_class.lexordp (map char2int l) (map char2int r)) \<and> (l_strcmp l r = 0 \<longleftrightarrow> l = r)
   \<and> (l_strcmp l r > 0 \<longleftrightarrow> ord_class.lexordp (map char2int r) (map char2int l))"
proof -
  have "strcmp l r > 0 \<longleftrightarrow> strcmp r l < 0" by (induction l r rule: strcmp.induct) auto
  then show ?thesis using strcmp_lexord [of l r] strcmp_lexord [of r l] by (simp add: l_strcmp_spec strcmp_eq_0)
qed

text \<open>
  The error message for two values that cannot be ordered tells their types apart by one
  letter: comparing a string with a thread is reported as comparing two strings.
\<close>

theorem ordererror_string_thread:
  "luaG_ordererror (TString s) (TThread n) = ErrRun ''attempt to compare two string values''
   \<and> luaG_ordererror (TThread n) (TString s) = ErrRun ''attempt to compare two thread values''
   \<and> luaG_ordererror (TNumber x) (TString s) = ErrRun ''attempt to compare number with string''"
  by (simp add: luaG_ordererror_def type_name_def luaT_typenames_def)

section \<open>Concatenation of strings and numbers\<close>

lemma collect_strings_all:
  assumes "\<forall>v \<in> set vs. tostring v \<noteq> None" "tot + int (length (concat (map (the \<circ> tostring) vs))) < MAX_SIZET" "0 \<le> tot"
  shows "collect_strings vs tot acc = Inr (rev (map (the \<circ> tostring) vs) @ acc, [])"
  using assms
proof (induction vs arbitrary: tot acc)
  case (Cons v vs)
  then obtain s where "tostring v = Some s" by auto
  with Cons show ?case by auto
qed simp

lemma concat_strings_rev:
  assumes "vs \<noteq> []" "\<forall>v \<in> set vs. tostring v \<noteq> None" "length vs = 1 \<longrightarrow> (\<exists>s. vs = [TString s])"
    "int (length (concat (map (the \<circ> tostring) vs))) < MAX_SIZET"
  shows "concat_loop call S vs = Inr (TString (concat (rev (map (the \<circ> tostring) vs))), S)"
  using assms
proof (induction call S vs rule: concat_loop.induct)
  case (1 call S vs)
  consider s where "vs = [TString s]" | b a rest where "vs = b # a # rest"
    using "1.prems"(1,3) by (cases vs rule: remdups_adj.cases) auto
  then show ?case
  proof cases
    case 1
    then show ?thesis by (simp add: concat_loop.simps tostring_def)
  next
    case 2
    then obtain s t where st: "tostring a = Some s" "tostring b = Some t" using "1.prems"(2) by auto
    show ?thesis
    proof (cases "t = []")
      case True
      have ts: "tostring (TString s) = Some s" by (simp add: tostring_def)
      have "concat_loop call S (TString s # rest) =
          Inr (TString (concat (rev (map (the \<circ> tostring) (TString s # rest)))), S)"
        using True ts "1.prems"(2,4) st 2 by (intro "1.IH"(3) [OF 2 refl]) auto
      then show ?thesis
        unfolding 2 using True st ts by (simp add: concat_loop.simps [of call S "b # a # rest"] comp_def)
    next
      case False
      have "collect_strings (a # rest) (int (length t)) [t] = Inr (rev (map (the \<circ> tostring) (a # rest)) @ [t], [])"
        using "1.prems"(2,4) 2 st by (intro collect_strings_all) (auto simp: comp_def)
      with False st 2 show ?thesis
        by (simp add: concat_loop.simps [of call S vs]) (simp add: concat_loop.simps comp_def)
    qed
  qed
qed

lemma luaV_concat_spec:
  assumes "2 \<le> length vs" "\<forall>v \<in> set vs. tostring v \<noteq> None"
    "int (length (concat (map (the \<circ> tostring) vs))) < MAX_SIZET"
  shows "luaV_concat call S vs = Inr (TString (concat (map (the \<circ> tostring) vs)), S)"
proof -
  have "length (concat (map (the \<circ> tostring) (rev vs))) = length (concat (map (the \<circ> tostring) vs))"
    by (simp add: length_concat flip: rev_map)
  then have "concat_loop call S (rev vs) = Inr (TString (concat (rev (map (the \<circ> tostring) (rev vs)))), S)"
    using assms by (intro concat_strings_rev) auto
  then show ?thesis by (simp add: luaV_concat_def rev_map)
qed

text \<open>
  C20. Concatenating strings and numbers in one go gives their texts in order, calls no tag
  method and changes no object -- empty operands included -- as long as the result fits a
  \<^verbatim>\<open>size_t\<close>.
\<close>

theorem luaV_concat_strings:
  assumes "2 \<le> length vs" "\<forall>v \<in> set vs. tostring v \<noteq> None"
    "int (length (concat (map (the \<circ> tostring) vs))) < MAX_SIZET"
  shows "luaV_concat call S vs = Inr (TString (concat (map (the \<circ> tostring) vs)), S)"
  using assms by (rule luaV_concat_spec)

lemma luaV_concat_strings_witness:
  "\<forall>S. luaV_concat (\<lambda>f args S. Inl ErrFault) S [TString ''a'', TNumber (cast_num 12), TString []]
     = Inr (TString ''a12'', S)"
proof -
  have n: "lua_number2str (cast_num 12) = ''12''" by code_simp
  have t: "tostring (TNumber (cast_num 12)) = Some ''12''" "tostring (TString s) = Some s" for s
    using n by (simp_all add: tostring_def luaV_tostring_def)
  show ?thesis
    using luaV_concat_strings [of "[TString ''a'', TNumber (cast_num 12), TString []]"]
    by (simp add: t MAX_SIZET_def)
qed

section \<open>Indexing without tag methods\<close>

text \<open>A table whose \<^verbatim>\<open>__index\<close> is the table itself: a missing key ends in an error, not in a loop.\<close>

lemma gettable_self_loop:
  assumes "s_tables S h = Some t" "t_metatable t = Some m" "s_tables S m = Some mt"
    "luaH_get t key = Inr SNil" "\<not> bit (t_flags mt) 0"
    "luaH_getstr mt ''__index'' = Inr s" "slot_read mt s = TTable h"
  shows "gettable_loop n call S (TTable h) key = Inl (ErrRun ''loop in gettable'')"
proof (induction n)
  case (Suc n)
  have "tmname TM_INDEX = ''__index''" "event_number TM_INDEX = 0" by code_simp+
  then have "fasttm S (t_metatable t) TM_INDEX = Inr (Some (TTable h), S)"
    using assms(2,3,5-7) by (simp add: fasttm_def hvalue_def luaT_gettm_def Let_def)
  with assms(1,4) Suc show ?case by (simp add: hvalue_def Let_def slot_read_def is_function_def)
qed simp

end
