(* ===== verification/LuaZio.thy ===== *)
theory LuaZio
  imports LuaPrelude
begin

text \<open>
  \<^verbatim>\<open>lzio.h\<close> and \<^verbatim>\<open>lzio.c\<close>: the buffered input stream.

  The reader a client passes to \<^verbatim>\<open>luaZ_init\<close> is the sequence of blocks it will answer with
  (\<open>z_data\<close>; an exhausted sequence is the answer \<^verbatim>\<open>NULL\<close>).  \<open>z_p\<close> holds the bytes of
  the current block from \<^verbatim>\<open>z->p\<close> to its end, and \<open>z_n\<close> is the counter \<^verbatim>\<open>z->n\<close>.  The code
  decrements that \<^verbatim>\<open>size_t\<close> before it looks at it, so at the end of the input the counter
  wraps round: \<open>-1\<close> stands for \<^verbatim>\<open>SIZE_MAX\<close>.  A read that the counter allows but that lies
  outside the block is \<open>ErrFault\<close>.
\<close>

section \<open>State\<close>

record zio =
  z_n :: int
  z_p :: string
  z_data :: "string list"

definition EOZ :: int where "EOZ = -1"

definition luaZ_init :: "string list \<Rightarrow> zio" where
  "luaZ_init data = \<lparr>z_n = 0, z_p = [], z_data = data\<rparr>"

section \<open>Operations\<close>

definition luaZ_fill :: "zio \<Rightarrow> int \<times> zio" where
  "luaZ_fill z =
     (case z_data z of
        [] \<Rightarrow> (EOZ, z)
      | buff # rest \<Rightarrow>
          (case buff of
             [] \<Rightarrow> (EOZ, z\<lparr>z_data := rest\<rparr>)
           | c # cs \<Rightarrow> (char2int c, \<lparr>z_n = int (length cs), z_p = cs, z_data = rest\<rparr>)))"

definition zgetc :: "zio \<Rightarrow> lua_error + int \<times> zio" where
  "zgetc z =
     (let old = z_n z; z1 = z\<lparr>z_n := old - 1\<rparr>
      in if old \<noteq> 0 then
           (case z_p z of
              [] \<Rightarrow> Inl ErrFault
            | c # cs \<Rightarrow> Inr (char2int c, z1\<lparr>z_p := cs\<rparr>))
         else Inr (luaZ_fill z1))"

text \<open>\<^verbatim>\<open>z->n++; z->p--\<close> puts back the byte that \<^verbatim>\<open>luaZ_fill\<close> took.\<close>

definition luaZ_lookahead :: "zio \<Rightarrow> lua_error + int \<times> zio" where
  "luaZ_lookahead z =
     (if z_n z = 0 then
        (case luaZ_fill z of (c, z1) \<Rightarrow>
           if c = EOZ then Inr (EOZ, z1)
           else Inr (c, z1\<lparr>z_n := z_n z1 + 1, z_p := int2char c # z_p z1\<rparr>))
      else (case z_p z of [] \<Rightarrow> Inl ErrFault | c # _ \<Rightarrow> Inr (char2int c, z)))"

definition zio_left :: "zio \<Rightarrow> nat" where
  "zio_left z = length (z_p z) + length (concat (z_data z)) + length (z_data z)"

text \<open>
  \<^verbatim>\<open>luaZ_read\<close>: the bytes copied to \<^verbatim>\<open>b\<close>, the number of missing bytes, and the stream.
  Every round with a byte available empties the request or takes a whole block.
\<close>

function luaZ_read :: "zio \<Rightarrow> int \<Rightarrow> lua_error + string \<times> int \<times> zio" where
  "luaZ_read z n =
     (if n \<le> 0 then Inr ([], 0, z)
      else bindE (luaZ_lookahead z) (\<lambda>(c, z1).
        if c = EOZ then Inr ([], n, z1)
        else let m = (if n \<le> z_n z1 then n else z_n z1)
             in if m \<le> 0 \<or> int (length (z_p z1)) < m then Inl ErrFault
                else bindE (luaZ_read (z1\<lparr>z_n := z_n z1 - m, z_p := drop (nat m) (z_p z1)\<rparr>) (n - m))
                       (\<lambda>(b, missing, z2). Inr (take (nat m) (z_p z1) @ b, missing, z2))))"
  by pat_completeness auto
termination
  by (relation "measure (\<lambda>(z, n). nat n)") (auto split: if_splits)

declare luaZ_read.simps [simp del]

section \<open>The stream a buffer stands for\<close>

text \<open>
  The abstraction: the bytes still to come, in order, up to the reader's first empty answer.
\<close>

fun blocks :: "string list \<Rightarrow> string" where
  "blocks [] = []"
| "blocks (b # bs) = (if b = [] then [] else b @ blocks bs)"

definition zrest :: "zio \<Rightarrow> string" where
  "zrest z = z_p z @ blocks (z_data z)"

definition zio_ok :: "zio \<Rightarrow> bool" where
  "zio_ok z \<longleftrightarrow> z_n z = int (length (z_p z))"

lemma zio_ok_init [simp]: "zio_ok (luaZ_init data)"
  by (simp add: zio_ok_def luaZ_init_def)

lemma zrest_init [simp]: "zrest (luaZ_init data) = blocks data"
  by (simp add: zrest_def luaZ_init_def)

lemma char2int_neq_EOZ [simp]: "char2int c \<noteq> EOZ" "EOZ \<noteq> char2int c"
  using char2int_range(1) [of c] unfolding EOZ_def by linarith+

text \<open>Reading a character takes the first byte of the stream, wherever the blocks end.\<close>

lemma zgetc_Cons:
  assumes "zio_ok z" "zrest z = c # cs"
  obtains z' where "zgetc z = Inr (char2int c, z')" "zio_ok z'" "zrest z' = cs" "zio_left z' < zio_left z"
proof (cases "z_p z")
  case Nil
  with assms obtain bs rest where d: "z_data z = (c # bs) # rest" "cs = bs @ blocks rest"
    by (cases "z_data z"; cases "hd (z_data z)") (auto simp: zrest_def)
  have "z_n z = 0" using assms(1) Nil by (simp add: zio_ok_def)
  with d Nil show thesis
    by (intro that [of "\<lparr>z_n = int (length bs), z_p = bs, z_data = rest\<rparr>"])
      (simp_all add: zgetc_def luaZ_fill_def zio_ok_def zrest_def zio_left_def)
next
  case (Cons d ds)
  with assms have "d = c" "cs = ds @ blocks (z_data z)" "z_n z = int (length ds) + 1"
    by (simp_all add: zrest_def zio_ok_def)
  with Cons show thesis
    by (intro that [of "z\<lparr>z_n := z_n z - 1, z_p := ds\<rparr>"])
      (simp_all add: zgetc_def zio_ok_def zrest_def zio_left_def)
qed

lemma zgetc_Nil:
  assumes "zio_ok z" "zrest z = []"
  obtains z' where "zgetc z = Inr (EOZ, z')"
proof -
  have "z_p z = []" "blocks (z_data z) = []" "z_n z = 0"
    using assms by (simp_all add: zrest_def zio_ok_def)
  then show thesis
    using that by (cases "z_data z"; cases "hd (z_data z)") (auto simp: zgetc_def luaZ_fill_def)
qed

text \<open>
  \<^verbatim>\<open>zgetc\<close> does not depend on how the reader cuts the input into blocks: on a stream
  in order it never faults, returns the next byte of the concatenated input and leaves the
  rest, or \<^verbatim>\<open>EOZ\<close> exactly when the input is exhausted.
\<close>

theorem zgetc_stream:
  assumes "zio_ok z"
  shows "\<exists>z'. zgetc z = Inr ((case zrest z of [] \<Rightarrow> EOZ | c # _ \<Rightarrow> char2int c), z')
    \<and> (zrest z \<noteq> [] \<longrightarrow> zio_ok z' \<and> zrest z' = tl (zrest z))"
proof (cases "zrest z")
  case Nil
  with assms show ?thesis by (auto elim: zgetc_Nil)
next
  case (Cons c cs)
  with assms obtain z' where "zgetc z = Inr (char2int c, z')" "zio_ok z'" "zrest z' = cs"
    by (rule zgetc_Cons)
  with Cons show ?thesis by simp
qed

theorem zgetc_stream_witness:
  "zio_ok (luaZ_init [''ab'', ''c''])
   \<and> (\<exists>z'. zgetc (luaZ_init [''ab'', ''c'']) = Inr (97, z') \<and> zrest z' = ''bc'')"
  using zgetc_stream [of "luaZ_init [''ab'', ''c'']"] by (auto simp: char2int_def)

lemma luaZ_lookahead_Cons:
  assumes "zio_ok z" "zrest z = c # cs"
  obtains z' where "luaZ_lookahead z = Inr (char2int c, z')" "zio_ok z'" "zrest z' = c # cs" "z_p z' \<noteq> []"
proof (cases "z_p z")
  case Nil
  with assms obtain bs rest where d: "z_data z = (c # bs) # rest" "cs = bs @ blocks rest"
    by (cases "z_data z"; cases "hd (z_data z)") (auto simp: zrest_def)
  have "z_n z = 0" using assms(1) Nil by (simp add: zio_ok_def)
  with d Nil show thesis
    by (intro that [of "\<lparr>z_n = int (length bs) + 1, z_p = c # bs, z_data = rest\<rparr>"])
      (simp_all add: luaZ_lookahead_def luaZ_fill_def zio_ok_def zrest_def)
next
  case (Cons d ds)
  with assms have "d = c" "z_n z \<noteq> 0" by (simp_all add: zrest_def zio_ok_def)
  with Cons assms show thesis by (intro that [of z]) (simp_all add: luaZ_lookahead_def)
qed

lemma luaZ_lookahead_Nil:
  assumes "zio_ok z" "zrest z = []"
  obtains z' where "luaZ_lookahead z = Inr (EOZ, z')"
proof -
  have "z_p z = []" "blocks (z_data z) = []" "z_n z = 0"
    using assms by (simp_all add: zrest_def zio_ok_def)
  then show thesis
    using that by (cases "z_data z"; cases "hd (z_data z)") (auto simp: luaZ_lookahead_def luaZ_fill_def)
qed

lemma luaZ_read_spec:
  assumes "zio_ok z" "0 \<le> n"
  shows "\<exists>z'. luaZ_read z n = Inr (take (nat n) (zrest z), n - int (length (take (nat n) (zrest z))), z')
    \<and> (n \<le> int (length (zrest z)) \<longrightarrow> zio_ok z' \<and> zrest z' = drop (nat n) (zrest z))"
  using assms
proof (induction z n rule: luaZ_read.induct)
  case (1 z n)
  show ?case
  proof (cases "n = 0 \<or> zrest z = []")
    case True
    then consider "n = 0" | "n \<noteq> 0" "zrest z = []" by auto
    then show ?thesis
    proof cases
      case 1
      with "1.prems" show ?thesis by (simp add: luaZ_read.simps [of z])
    next
      case 2
      with "1.prems" obtain z' where "luaZ_lookahead z = Inr (EOZ, z')" by (auto elim: luaZ_lookahead_Nil)
      with 2 "1.prems" show ?thesis by (simp add: luaZ_read.simps [of z])
    qed
  next
    case False
    then obtain c cs where r: "zrest z = c # cs" by (cases "zrest z") auto
    obtain z1 where z1: "luaZ_lookahead z = Inr (char2int c, z1)" "zio_ok z1" "zrest z1 = zrest z" "z_p z1 \<noteq> []"
      using luaZ_lookahead_Cons [OF "1.prems"(1) r] r by metis
    define m where "m = (if n \<le> z_n z1 then n else z_n z1)"
    define z2 where "z2 = z1\<lparr>z_n := z_n z1 - m, z_p := drop (nat m) (z_p z1)\<rparr>"
    have zn: "z_n z1 = int (length (z_p z1))" using z1(2) by (simp add: zio_ok_def)
    have m: "0 < m" "m \<le> n" "m \<le> int (length (z_p z1))"
      using z1(4) False "1.prems"(2) zn by (auto simp: m_def)
    have ok: "zio_ok z2" using m zn by (simp add: zio_ok_def z2_def)
    have split: "zrest z = take (nat m) (z_p z1) @ zrest z2"
      using z1(3) [symmetric] by (simp add: zrest_def z2_def)
    have lt: "length (take (nat m) (z_p z1)) = nat m" using m by simp
    have "\<exists>z'. luaZ_read z2 (n - m) = Inr (take (nat (n - m)) (zrest z2),
        (n - m) - int (length (take (nat (n - m)) (zrest z2))), z')
      \<and> (n - m \<le> int (length (zrest z2)) \<longrightarrow> zio_ok z' \<and> zrest z' = drop (nat (n - m)) (zrest z2))"
      using "1.IH" [OF _ z1(1) refl] False "1.prems"(2) m ok by (simp add: m_def z2_def)
    then obtain z' where IH: "luaZ_read z2 (n - m) = Inr (take (nat (n - m)) (zrest z2),
        (n - m) - int (length (take (nat (n - m)) (zrest z2))), z')"
      "n - m \<le> int (length (zrest z2)) \<Longrightarrow> zio_ok z' \<and> zrest z' = drop (nat (n - m)) (zrest z2)" by blast
    have step: "luaZ_read z n = bindE (luaZ_read z2 (n - m))
        (\<lambda>(b, missing, z2). Inr (take (nat m) (z_p z1) @ b, missing, z2))"
      using False "1.prems"(2) z1(1) m
      by (subst luaZ_read.simps) (simp add: m_def [symmetric] z2_def Let_def)
    have tk: "take (nat n) (zrest z) = take (nat m) (z_p z1) @ take (nat (n - m)) (zrest z2)"
      using m lt unfolding split by (simp add: nat_diff_distrib take_append)
    have dr: "drop (nat n) (zrest z) = drop (nat (n - m)) (zrest z2)"
      using m lt unfolding split by (simp add: nat_diff_distrib)
    have len: "length (zrest z) = nat m + length (zrest z2)" using lt unfolding split by simp
    show ?thesis
      using IH m lt by (intro exI [of _ z']) (simp add: step tk dr len)
  qed
qed

text \<open>
  C2.  \<^verbatim>\<open>luaZ_read\<close> copies exactly the next \<^verbatim>\<open>n\<close> bytes of the input across block boundaries,
  or all that are left, and returns the number it could not supply; if it could supply all,
  the stream stands right after them.
\<close>

theorem luaZ_read_stream:
  assumes "zio_ok z" "0 \<le> n"
  shows "\<exists>z'. luaZ_read z n = Inr (take (nat n) (zrest z), n - int (length (take (nat n) (zrest z))), z')
    \<and> (n \<le> int (length (zrest z)) \<longrightarrow> zio_ok z' \<and> zrest z' = drop (nat n) (zrest z))"
  using assms by (rule luaZ_read_spec)

theorem luaZ_read_stream_witness:
  "zio_ok (luaZ_init [''ab'', ''cde'']) \<and> (0::int) \<le> 4
   \<and> (\<exists>z'. luaZ_read (luaZ_init [''ab'', ''cde'']) 4 = Inr (''abcd'', 0, z') \<and> zrest z' = ''e'')"
  using luaZ_read_stream [of "luaZ_init [''ab'', ''cde'']" 4] by auto

end
