(* ===== verification/LuaDebug.thy ===== *)
theory LuaDebug
  imports LuaProto
begin

text \<open>
  \<^verbatim>\<open>ldebug.c\<close>: the code checker.  \<^verbatim>\<open>symbexec\<close> runs over the code of a prototype, checks every
  instruction and, when it traces a register, finds the last instruction that changed it.

  The C macro \<^verbatim>\<open>check(x)\<close> leaves \<^verbatim>\<open>symbexec\<close> with 0; here a step returns \<open>None\<close> then.  Reads
  of the code, the constants and the nested prototypes are checked for bounds and would be
  \<open>ErrFault\<close>.
\<close>

section \<open>Steps that may be rejected\<close>

type_synonym 'a checked = "lua_error + 'a option"

fun bindC :: "'a checked \<Rightarrow> ('a \<Rightarrow> 'b checked) \<Rightarrow> 'b checked" where
  "bindC (Inl e) f = Inl e"
| "bindC (Inr None) f = Inr None"
| "bindC (Inr (Some x)) f = f x"

lemma bindC_cong [fundef_cong]:
  "m = m' \<Longrightarrow> (\<And>x. m' = Inr (Some x) \<Longrightarrow> f x = g x) \<Longrightarrow> bindC m f = bindC m' g"
  by (cases m'; cases "projr m'") auto

lemma bindC_Some_iff: "bindC m f = Inr (Some y) \<longleftrightarrow> (\<exists>x. m = Inr (Some x) \<and> f x = Inr (Some y))"
  by (cases "(m, f)" rule: bindC.cases) auto

lemma bindC_Inl_iff: "bindC m f = Inl e \<longleftrightarrow> m = Inl e \<or> (\<exists>x. m = Inr (Some x) \<and> f x = Inl e)"
  by (cases "(m, f)" rule: bindC.cases) auto

definition check :: "bool \<Rightarrow> 'a checked \<Rightarrow> 'a checked" where
  "check x k = (if x then k else Inr None)"

lemma check_cong [fundef_cong]: "x = x' \<Longrightarrow> (x' \<Longrightarrow> k = k') \<Longrightarrow> check x k = check x' k'"
  by (simp add: check_def)

lemma check_Some_iff: "check x k = Inr (Some y) \<longleftrightarrow> x \<and> k = Inr (Some y)"
  by (simp add: check_def)

lemma check_Inl_iff: "check x k = Inl e \<longleftrightarrow> x \<and> k = Inl e"
  by (simp add: check_def)

lemmas checked_iffs = bindC_Some_iff bindC_Inl_iff check_Some_iff check_Inl_iff

definition liftC :: "lua_error + 'a \<Rightarrow> 'a checked" where
  "liftC m = (case m of Inl e \<Rightarrow> Inl e | Inr x \<Rightarrow> Inr (Some x))"

lemma liftC_iffs: "liftC m = Inr (Some x) \<longleftrightarrow> m = Inr x" "liftC m = Inl e \<longleftrightarrow> m = Inl e"
  by (auto simp: liftC_def split: sum.splits)

section \<open>The checker\<close>

definition LUA_MULTRET :: int where "LUA_MULTRET = -1"
definition MAXSTACK :: int where "MAXSTACK = 250"

definition vec_at :: "'a list \<Rightarrow> int \<Rightarrow> lua_error + 'a" where
  "vec_at xs j = (if 0 \<le> j \<and> j < int (length xs) then Inr (xs ! nat j) else Inl ErrFault)"

definition code_at :: "proto \<Rightarrow> int \<Rightarrow> Instruction checked" where
  "code_at pt pc = liftC (vec_at (p_code pt) pc)"

definition checkreg :: "proto \<Rightarrow> int \<Rightarrow> bool" where
  "checkreg pt reg \<longleftrightarrow> reg < uint (p_maxstacksize pt)"

definition is_op :: "OpCode \<Rightarrow> Instruction \<Rightarrow> bool" where
  "is_op opc i \<longleftrightarrow> GET_OPCODE i = opnum opc"

text \<open>The bits of \<^verbatim>\<open>is_vararg\<close>.\<close>

definition vararg_flag :: "proto \<Rightarrow> int \<Rightarrow> bool" where
  "vararg_flag pt m \<longleftrightarrow> uint (p_is_vararg pt) AND m \<noteq> 0"

definition precheck :: "proto \<Rightarrow> bool" where
  "precheck pt \<longleftrightarrow>
     uint (p_maxstacksize pt) \<le> MAXSTACK
     \<and> uint (p_numparams pt) + (uint (p_is_vararg pt) AND VARARG_HASARG) \<le> uint (p_maxstacksize pt)
     \<and> (\<not> vararg_flag pt VARARG_NEEDSARG \<or> vararg_flag pt VARARG_HASARG)
     \<and> int (length (p_upvalues pt)) \<le> uint (p_nups pt)
     \<and> (int (length (p_lineinfo pt)) = sizecode pt \<or> p_lineinfo pt = [])
     \<and> (sizecode pt > 0 \<and> is_op OP_RETURN (p_code pt ! nat (sizecode pt - 1)))"

definition luaG_checkopenop :: "Instruction \<Rightarrow> bool" where
  "luaG_checkopenop i \<longleftrightarrow>
     (is_op OP_CALL i \<or> is_op OP_TAILCALL i \<or> is_op OP_RETURN i \<or> is_op OP_SETLIST i) \<and> GETARG_B i = 0"

definition checkopenop :: "proto \<Rightarrow> int \<Rightarrow> 'a checked \<Rightarrow> 'a checked" where
  "checkopenop pt pc k = bindC (code_at pt (pc + 1)) (\<lambda>i. check (luaG_checkopenop i) k)"

fun checkArgMode :: "proto \<Rightarrow> int \<Rightarrow> OpArgMask \<Rightarrow> bool" where
  "checkArgMode pt r OpArgN = (r = 0)"
| "checkArgMode pt r OpArgU = True"
| "checkArgMode pt r OpArgR = checkreg pt r"
| "checkArgMode pt r OpArgK = (if ISK r then INDEXK r < sizek pt else r < uint (p_maxstacksize pt))"

text \<open>\<^verbatim>\<open>GET_OPCODE(d) == OP_SETLIST && GETARG_C(d) == 0\<close>: its count is the next word.\<close>

definition is_setlist0 :: "Instruction \<Rightarrow> bool" where
  "is_setlist0 d \<longleftrightarrow> is_op OP_SETLIST d \<and> GETARG_C d = 0"

text \<open>How many words right before \<open>dest\<close> look like such instructions.\<close>

function setlist_run :: "proto \<Rightarrow> int \<Rightarrow> int \<Rightarrow> int checked" where
  "setlist_run pt dest j =
     (if j < dest then
        bindC (code_at pt (dest - 1 - j)) (\<lambda>d.
        if \<not> is_setlist0 d then Inr (Some j) else setlist_run pt dest (j + 1))
      else Inr (Some j))"
  by pat_completeness auto
termination
  by (relation "measure (\<lambda>(pt, dest, j). nat (dest - j))") auto

declare setlist_run.simps [simp del]

definition checkdest :: "proto \<Rightarrow> int \<Rightarrow> 'a checked \<Rightarrow> 'a checked" where
  "checkdest pt dest k =
     check (0 \<le> dest \<and> dest < sizecode pt)
       (if dest > 0 then bindC (setlist_run pt dest 0) (\<lambda>j. check (even j) k) else k)"

text \<open>The operands, by format: \<^verbatim>\<open>b\<close> and \<^verbatim>\<open>c\<close>.\<close>

definition check_operands :: "proto \<Rightarrow> int \<Rightarrow> Instruction \<Rightarrow> OpCode \<Rightarrow> (int \<times> int) checked" where
  "check_operands pt pc i opc =
     (case getOpMode opc of
        iABC \<Rightarrow>
          check (checkArgMode pt (GETARG_B i) (getBMode opc))
          (check (checkArgMode pt (GETARG_C i) (getCMode opc))
             (Inr (Some (GETARG_B i, GETARG_C i))))
      | iABx \<Rightarrow>
          check (getBMode opc = OpArgK \<longrightarrow> GETARG_Bx i < sizek pt) (Inr (Some (GETARG_Bx i, 0)))
      | iAsBx \<Rightarrow>
          if getBMode opc = OpArgR
          then checkdest pt (pc + 1 + GETARG_sBx i) (Inr (Some (GETARG_sBx i, 0)))
          else Inr (Some (GETARG_sBx i, 0)))"

text \<open>\<^verbatim>\<open>for (j = 1; j <= nup; j++)\<close> over the pseudo-instructions after a closure.\<close>

function check_pseudo :: "proto \<Rightarrow> int \<Rightarrow> int \<Rightarrow> int \<Rightarrow> unit checked" where
  "check_pseudo pt pc nup j =
     (if j \<le> nup then
        bindC (code_at pt (pc + j)) (\<lambda>op1.
        check (is_op OP_GETUPVAL op1 \<or> is_op OP_MOVE op1) (check_pseudo pt pc nup (j + 1)))
      else Inr (Some ()))"
  by pat_completeness auto
termination
  by (relation "measure (\<lambda>(pt, pc, nup, j). nat (nup + 1 - j))") auto

declare check_pseudo.simps [simp del]

text \<open>The jump of \<^verbatim>\<open>OP_JMP\<close> and of the loops, when a register is traced.\<close>

definition jump_step :: "int \<Rightarrow> int \<Rightarrow> int \<Rightarrow> int \<Rightarrow> int \<Rightarrow> (int \<times> int) checked" where
  "jump_step lastpc reg pc b lst =
     (let dest = pc + 1 + b in
      Inr (Some (if reg \<noteq> NO_REG \<and> pc < dest \<and> dest \<le> lastpc then (pc + b, lst) else (pc, lst))))"

text \<open>\<^verbatim>\<open>OP_CALL\<close> and \<^verbatim>\<open>OP_TAILCALL\<close>.\<close>

definition check_call :: "proto \<Rightarrow> int \<Rightarrow> int \<Rightarrow> int \<Rightarrow> int \<Rightarrow> int \<Rightarrow> int \<Rightarrow> (int \<times> int) checked" where
  "check_call pt reg pc lst a b c =
     check (b \<noteq> 0 \<longrightarrow> checkreg pt (a + b - 1))
     (let res = Inr (Some (pc, if reg \<ge> a then pc else lst)) in
      if c - 1 = LUA_MULTRET then checkopenop pt pc res
      else if c - 1 \<noteq> 0 then check (checkreg pt (a + (c - 1) - 1)) res
      else res)"

text \<open>The \<^verbatim>\<open>switch (op)\<close>: the values of \<^verbatim>\<open>pc\<close> and \<^verbatim>\<open>last\<close> after it.\<close>

definition check_op :: "proto \<Rightarrow> int \<Rightarrow> int \<Rightarrow> int \<Rightarrow> int \<Rightarrow> OpCode \<Rightarrow> int \<Rightarrow> int \<Rightarrow> int \<Rightarrow> (int \<times> int) checked" where
  "check_op pt lastpc reg pc lst opc a b c =
     (case opc of
        OP_LOADBOOL \<Rightarrow>
          if c = 1 then
            check (pc + 2 < sizecode pt)
            (bindC (code_at pt (pc + 1)) (\<lambda>d. check (\<not> is_op OP_SETLIST d \<or> GETARG_C d \<noteq> 0) (Inr (Some (pc, lst)))))
          else Inr (Some (pc, lst))
      | OP_LOADNIL \<Rightarrow> Inr (Some (pc, if a \<le> reg \<and> reg \<le> b then pc else lst))
      | OP_GETUPVAL \<Rightarrow> check (b < uint (p_nups pt)) (Inr (Some (pc, lst)))
      | OP_SETUPVAL \<Rightarrow> check (b < uint (p_nups pt)) (Inr (Some (pc, lst)))
      | OP_GETGLOBAL \<Rightarrow> bindC (liftC (vec_at (p_k pt) b)) (\<lambda>v. check (kisstring v) (Inr (Some (pc, lst))))
      | OP_SETGLOBAL \<Rightarrow> bindC (liftC (vec_at (p_k pt) b)) (\<lambda>v. check (kisstring v) (Inr (Some (pc, lst))))
      | OP_SELF \<Rightarrow> check (checkreg pt (a + 1)) (Inr (Some (pc, if reg = a + 1 then pc else lst)))
      | OP_CONCAT \<Rightarrow> check (b < c) (Inr (Some (pc, lst)))
      | OP_TFORLOOP \<Rightarrow>
          check (c \<ge> 1) (check (checkreg pt (a + 2 + c)) (Inr (Some (pc, if reg \<ge> a + 2 then pc else lst))))
      | OP_FORLOOP \<Rightarrow> check (checkreg pt (a + 3)) (jump_step lastpc reg pc b lst)
      | OP_FORPREP \<Rightarrow> check (checkreg pt (a + 3)) (jump_step lastpc reg pc b lst)
      | OP_JMP \<Rightarrow> jump_step lastpc reg pc b lst
      | OP_CALL \<Rightarrow> check_call pt reg pc lst a b c
      | OP_TAILCALL \<Rightarrow> check_call pt reg pc lst a b c
      | OP_RETURN \<Rightarrow> check (b - 1 > 0 \<longrightarrow> checkreg pt (a + (b - 1) - 1)) (Inr (Some (pc, lst)))
      | OP_SETLIST \<Rightarrow>
          check (b > 0 \<longrightarrow> checkreg pt (a + b))
          (if c = 0 then check (pc + 1 < sizecode pt - 1) (Inr (Some (pc + 1, lst)))
           else Inr (Some (pc, lst)))
      | OP_CLOSURE \<Rightarrow>
          check (b < sizep pt)
          (bindC (liftC (vec_at (p_p pt) b)) (\<lambda>p.
           check (pc + uint (p_nups p) < sizecode pt)
           (bindC (check_pseudo pt pc (uint (p_nups p)) 1) (\<lambda>_.
            Inr (Some (if reg \<noteq> NO_REG then pc + uint (p_nups p) else pc, lst))))))
      | OP_VARARG \<Rightarrow>
          check (vararg_flag pt VARARG_ISVARARG \<and> \<not> vararg_flag pt VARARG_NEEDSARG)
          (if b - 1 = LUA_MULTRET then checkopenop pt pc (check (checkreg pt (a + (b - 1) - 1)) (Inr (Some (pc, lst))))
           else check (checkreg pt (a + (b - 1) - 1)) (Inr (Some (pc, lst))))
      | _ \<Rightarrow> Inr (Some (pc, lst)))"

text \<open>One round of the loop: the values of \<^verbatim>\<open>pc\<close>, before its increment, and \<^verbatim>\<open>last\<close>.\<close>

definition symbexec_step :: "proto \<Rightarrow> int \<Rightarrow> int \<Rightarrow> int \<Rightarrow> int \<Rightarrow> (int \<times> int) checked" where
  "symbexec_step pt lastpc reg pc lst =
     bindC (code_at pt pc) (\<lambda>i.
     case opcode_of (GET_OPCODE i) of
       None \<Rightarrow> Inr None
     | Some opc \<Rightarrow>
         let a = GETARG_A i in
         check (checkreg pt a)
         (bindC (check_operands pt pc i opc) (\<lambda>(b, c).
          let lst1 = (if testAMode opc \<and> a = reg then pc else lst) in
          check (testTMode opc \<longrightarrow> pc + 2 < sizecode pt)
          (bindC (if testTMode opc then code_at pt (pc + 1) else Inr (Some i)) (\<lambda>i1.
           check (testTMode opc \<longrightarrow> is_op OP_JMP i1)
           (check_op pt lastpc reg pc lst1 opc a b c))))))"

lemma jump_step_pc: "jump_step lastpc reg pc b lst = Inr (Some (pc', lst')) \<Longrightarrow> pc \<le> pc'"
  by (auto simp: jump_step_def Let_def split: if_splits)

lemma check_op_pc:
  assumes "check_op pt lastpc reg pc lst opc a b c = Inr (Some (pc', lst'))"
  shows "pc \<le> pc'"
  using assms
  by (cases opc) (auto simp: check_op_def check_call_def checkopenop_def checked_iffs liftC_iffs vec_at_def Let_def
      split: if_splits dest: jump_step_pc)

lemma symbexec_step_pc: "symbexec_step pt lastpc reg pc lst = Inr (Some (pc', lst')) \<Longrightarrow> pc \<le> pc'"
  by (auto simp: symbexec_step_def checked_iffs Let_def split: option.splits dest!: check_op_pc)

function symbexec_loop :: "proto \<Rightarrow> int \<Rightarrow> int \<Rightarrow> int \<Rightarrow> int \<Rightarrow> int checked" where
  "symbexec_loop pt lastpc reg pc lst =
     (if pc < lastpc then
        bindC (symbexec_step pt lastpc reg pc lst) (\<lambda>(pc1, lst1). symbexec_loop pt lastpc reg (pc1 + 1) lst1)
      else Inr (Some lst))"
  by pat_completeness auto
termination
  by (relation "measure (\<lambda>(pt, lastpc, reg, pc, lst). nat (lastpc - pc))") (auto dest!: symbexec_step_pc)

declare symbexec_loop.simps [simp del]

definition symbexec :: "proto \<Rightarrow> int \<Rightarrow> int \<Rightarrow> lua_error + Instruction" where
  "symbexec pt lastpc reg =
     (if \<not> precheck pt then Inr 0
      else bindE (symbexec_loop pt lastpc reg 0 (sizecode pt - 1)) (\<lambda>r.
           case r of None \<Rightarrow> Inr 0 | Some lst \<Rightarrow> vec_at (p_code pt) lst))"

definition luaG_checkcode :: "proto \<Rightarrow> lua_error + bool" where
  "luaG_checkcode pt = bindE (symbexec pt (sizecode pt) NO_REG) (\<lambda>i. Inr (i \<noteq> 0))"

section \<open>The checker never reads outside the prototype\<close>

text \<open>No fault, and a result in \<open>Q\<close> if the step is not rejected.\<close>

definition safeC :: "'a checked \<Rightarrow> ('a \<Rightarrow> bool) \<Rightarrow> bool" where
  "safeC m Q \<longleftrightarrow> (\<exists>r. m = Inr r \<and> (\<forall>x. r = Some x \<longrightarrow> Q x))"

lemma safeC_simps [simp]: "safeC (Inr None) Q" "safeC (Inr (Some x)) Q \<longleftrightarrow> Q x" "\<not> safeC (Inl e) Q"
  by (auto simp: safeC_def)

lemma safeC_check [intro!]: "(x \<Longrightarrow> safeC k Q) \<Longrightarrow> safeC (check x k) Q"
  by (auto simp: check_def)

lemma safeC_bindC: "safeC m P \<Longrightarrow> (\<And>x. m = Inr (Some x) \<Longrightarrow> P x \<Longrightarrow> safeC (f x) Q) \<Longrightarrow> safeC (bindC m f) Q"
  unfolding safeC_def by (cases m; cases "projr m") (auto simp: safeC_def)

lemma code_at_Inr: "0 \<le> pc \<Longrightarrow> pc < sizecode pt \<Longrightarrow> code_at pt pc = Inr (Some (p_code pt ! nat pc))"
  by (simp add: code_at_def liftC_def vec_at_def sizecode_def)

lemma setlist_run_safe:
  assumes "0 \<le> j" "j \<le> dest" "dest \<le> sizecode pt"
  shows "\<exists>j'. setlist_run pt dest j = Inr (Some j') \<and> j \<le> j' \<and> j' \<le> dest
    \<and> (\<forall>k. j \<le> k \<and> k < j' \<longrightarrow> is_setlist0 (p_code pt ! nat (dest - 1 - k)))
    \<and> (j' < dest \<longrightarrow> \<not> is_setlist0 (p_code pt ! nat (dest - 1 - j')))"
  using assms
proof (induction pt dest j rule: setlist_run.induct)
  case (1 pt dest j)
  show ?case
  proof (cases "j < dest \<and> is_setlist0 (p_code pt ! nat (dest - 1 - j))")
    case True
    have c: "code_at pt (dest - 1 - j) = Inr (Some (p_code pt ! nat (dest - 1 - j)))"
      using True 1(2-4) by (intro code_at_Inr) auto
    from 1(1) [OF _ c] True 1(2-4) obtain j' where j': "setlist_run pt dest (j + 1) = Inr (Some j')" "j + 1 \<le> j'"
      "j' \<le> dest" "\<forall>k. j + 1 \<le> k \<and> k < j' \<longrightarrow> is_setlist0 (p_code pt ! nat (dest - 1 - k))"
      "j' < dest \<longrightarrow> \<not> is_setlist0 (p_code pt ! nat (dest - 1 - j'))" by auto
    then have "\<forall>k. j \<le> k \<and> k < j' \<longrightarrow> is_setlist0 (p_code pt ! nat (dest - 1 - k))"
      using True by (metis zless_imp_add1_zle order_le_less)
    with j' True c show ?thesis by (intro exI [of _ j']) (simp add: setlist_run.simps [of pt dest j])
  next
    case False
    with 1(2-4) show ?thesis
      by (intro exI [of _ j]) (auto simp: setlist_run.simps [of pt dest j] code_at_Inr)
  qed
qed

lemma all_le_step:
  fixes j n :: int
  shows "j \<le> n \<Longrightarrow> (\<forall>k. j \<le> k \<and> k \<le> n \<longrightarrow> P k) \<longleftrightarrow> P j \<and> (\<forall>k. j + 1 \<le> k \<and> k \<le> n \<longrightarrow> P k)"
proof -
  assume "j \<le> n"
  moreover have "j \<le> k \<longleftrightarrow> k = j \<or> j + 1 \<le> k" for k by linarith
  ultimately show ?thesis by auto
qed

lemma check_pseudo_safe:
  assumes "0 \<le> pc + j" "pc + nup < sizecode pt"
  shows "safeC (check_pseudo pt pc nup j) (\<lambda>_. \<forall>k. j \<le> k \<and> k \<le> nup \<longrightarrow>
    is_op OP_GETUPVAL (p_code pt ! nat (pc + k)) \<or> is_op OP_MOVE (p_code pt ! nat (pc + k)))"
  using assms
proof (induction pt pc nup j rule: check_pseudo.induct)
  case (1 pt pc nup j)
  let ?i = "p_code pt ! nat (pc + j)"
  show ?case
  proof (cases "j \<le> nup")
    case True
    then have c: "code_at pt (pc + j) = Inr (Some ?i)" using 1(2,3) by (intro code_at_Inr) auto
    show ?thesis
    proof (cases "is_op OP_GETUPVAL ?i \<or> is_op OP_MOVE ?i")
      case ok: True
      have "safeC (check_pseudo pt pc nup (j + 1)) (\<lambda>_. \<forall>k. j + 1 \<le> k \<and> k \<le> nup \<longrightarrow>
          is_op OP_GETUPVAL (p_code pt ! nat (pc + k)) \<or> is_op OP_MOVE (p_code pt ! nat (pc + k)))"
        using 1(1) [OF True c ok] 1(2,3) by simp
      then show ?thesis
        using True c ok unfolding check_pseudo.simps [of pt pc nup j] all_le_step [OF True]
        by (simp add: check_def)
    next
      case False
      with True c show ?thesis by (simp add: check_pseudo.simps [of pt pc nup j] check_def)
    qed
  qed (auto simp: check_pseudo.simps [of pt pc nup j])
qed

lemma opcodes_by_number: "list_all (\<lambda>n. opnum (all_opcodes ! n) = int n) [0 ..< 38]"
  by code_simp

lemma opcode_of_eq: "opcode_of n = Some opc \<longleftrightarrow> n = opnum opc"
proof
  assume a: "opcode_of n = Some opc"
  then have n: "0 \<le> n" "n < 38" "opc = all_opcodes ! nat n" by (auto simp: opcode_of_def NUM_OPCODES_def split: if_splits)
  then have "nat n \<in> set [0 ..< 38]" by auto
  with opcodes_by_number have "opnum (all_opcodes ! nat n) = int (nat n)" unfolding list_all_iff by blast
  with n show "n = opnum opc" by simp
qed simp

lemma is_op_opcode: "opcode_of (GET_OPCODE i) = Some opc \<Longrightarrow> is_op q i \<longleftrightarrow> q = opc"
  unfolding is_op_def opcode_of_eq by (metis opcode_of_opnum option.inject)

text \<open>The property masks, opcode by opcode.\<close>

definition op_modes :: "OpCode \<Rightarrow> OpMode \<times> OpArgMask \<times> OpArgMask \<times> bool \<times> bool" where
  "op_modes opc =
     (case opc of
        OP_MOVE \<Rightarrow> (iABC, OpArgR, OpArgN, True, False) | OP_LOADK \<Rightarrow> (iABx, OpArgK, OpArgN, True, False)
      | OP_LOADBOOL \<Rightarrow> (iABC, OpArgU, OpArgU, True, False) | OP_LOADNIL \<Rightarrow> (iABC, OpArgR, OpArgN, True, False)
      | OP_GETUPVAL \<Rightarrow> (iABC, OpArgU, OpArgN, True, False) | OP_GETGLOBAL \<Rightarrow> (iABx, OpArgK, OpArgN, True, False)
      | OP_GETTABLE \<Rightarrow> (iABC, OpArgR, OpArgK, True, False) | OP_SETGLOBAL \<Rightarrow> (iABx, OpArgK, OpArgN, False, False)
      | OP_SETUPVAL \<Rightarrow> (iABC, OpArgU, OpArgN, False, False) | OP_SETTABLE \<Rightarrow> (iABC, OpArgK, OpArgK, False, False)
      | OP_NEWTABLE \<Rightarrow> (iABC, OpArgU, OpArgU, True, False) | OP_SELF \<Rightarrow> (iABC, OpArgR, OpArgK, True, False)
      | OP_UNM \<Rightarrow> (iABC, OpArgR, OpArgN, True, False) | OP_NOT \<Rightarrow> (iABC, OpArgR, OpArgN, True, False)
      | OP_LEN \<Rightarrow> (iABC, OpArgR, OpArgN, True, False) | OP_CONCAT \<Rightarrow> (iABC, OpArgR, OpArgR, True, False)
      | OP_JMP \<Rightarrow> (iAsBx, OpArgR, OpArgN, False, False)
      | OP_EQ \<Rightarrow> (iABC, OpArgK, OpArgK, False, True) | OP_LT \<Rightarrow> (iABC, OpArgK, OpArgK, False, True)
      | OP_LE \<Rightarrow> (iABC, OpArgK, OpArgK, False, True)
      | OP_TEST \<Rightarrow> (iABC, OpArgR, OpArgU, True, True) | OP_TESTSET \<Rightarrow> (iABC, OpArgR, OpArgU, True, True)
      | OP_CALL \<Rightarrow> (iABC, OpArgU, OpArgU, True, False) | OP_TAILCALL \<Rightarrow> (iABC, OpArgU, OpArgU, True, False)
      | OP_RETURN \<Rightarrow> (iABC, OpArgU, OpArgN, False, False)
      | OP_FORLOOP \<Rightarrow> (iAsBx, OpArgR, OpArgN, True, False) | OP_FORPREP \<Rightarrow> (iAsBx, OpArgR, OpArgN, True, False)
      | OP_TFORLOOP \<Rightarrow> (iABC, OpArgN, OpArgU, False, True) | OP_SETLIST \<Rightarrow> (iABC, OpArgU, OpArgU, False, False)
      | OP_CLOSE \<Rightarrow> (iABC, OpArgN, OpArgN, False, False) | OP_CLOSURE \<Rightarrow> (iABx, OpArgU, OpArgN, True, False)
      | OP_VARARG \<Rightarrow> (iABC, OpArgU, OpArgN, True, False)
      | _ \<Rightarrow> (iABC, OpArgK, OpArgK, True, False))"

lemma all_op_modes:
  "list_all (\<lambda>opc. op_modes opc = (getOpMode opc, getBMode opc, getCMode opc, testAMode opc, testTMode opc)) all_opcodes"
  by code_simp

lemma op_modes: "op_modes opc = (getOpMode opc, getBMode opc, getCMode opc, testAMode opc, testTMode opc)"
  using all_op_modes in_all_opcodes [of opc] by (simp add: list_all_iff)

lemma getOpMode_eq: "getOpMode opc = fst (op_modes opc)"
  and getBMode_eq: "getBMode opc = fst (snd (op_modes opc))"
  and getCMode_eq: "getCMode opc = fst (snd (snd (op_modes opc)))"
  and testAMode_eq: "testAMode opc = fst (snd (snd (snd (op_modes opc))))"
  and testTMode_eq: "testTMode opc = snd (snd (snd (snd (op_modes opc))))"
  by (simp_all add: op_modes)

lemmas opmodes = getOpMode_eq getBMode_eq getCMode_eq testAMode_eq testTMode_eq op_modes_def

lemma checkdest_safe:
  "dest \<le> sizecode pt \<Longrightarrow> safeC k Q \<Longrightarrow> safeC (checkdest pt dest k) Q"
  using setlist_run_safe [of 0 dest pt] by (auto simp: checkdest_def check_def split: if_splits)

lemma liftC_vec_safe: "0 \<le> b \<Longrightarrow> b < int (length xs) \<Longrightarrow> liftC (vec_at xs b) = Inr (Some (xs ! nat b))"
  by (simp add: liftC_def vec_at_def)

lemma precheck_last: "precheck pt \<Longrightarrow> 0 < sizecode pt \<and> is_op OP_RETURN (p_code pt ! nat (sizecode pt - 1))"
  by (simp add: precheck_def)

text \<open>An accepted or rejected step stays inside the prototype.\<close>

definition operand_ranges :: "proto \<Rightarrow> OpCode \<Rightarrow> int \<times> int \<Rightarrow> bool" where
  "operand_ranges pt opc = (\<lambda>(b, c). (getOpMode opc \<noteq> iAsBx \<longrightarrow> 0 \<le> b) \<and>
     (getOpMode opc = iABx \<and> getBMode opc = OpArgK \<longrightarrow> b < sizek pt))"

lemma check_operands_safe: 
  assumes "0 \<le> pc" "pc < sizecode pt"
  shows "safeC (check_operands pt pc i opc) (operand_ranges pt opc)"
proof -
  have S: "safeC (checkdest pt d k) Q" if "safeC k Q" for d k Q
  proof (cases "d \<le> sizecode pt")
    case False
    then show ?thesis by (simp add: checkdest_def check_def)
  qed (use that checkdest_safe in blast)
  show ?thesis
    using GETARG_range [of i]
    by (auto simp: check_operands_def operand_ranges_def check_def split: OpMode.splits intro!: S)
qed

definition pos_ok :: "proto \<Rightarrow> int \<Rightarrow> int \<times> int \<Rightarrow> bool" where
  "pos_ok pt pc = (\<lambda>(pc', lst'). pc \<le> pc' \<and> 0 \<le> lst' \<and> lst' < sizecode pt)"

lemma jump_step_safe:
  "0 \<le> lst \<Longrightarrow> lst < sizecode pt \<Longrightarrow> safeC (jump_step lastpc reg pc b lst) (pos_ok pt pc)"
  by (simp add: jump_step_def pos_ok_def Let_def)

lemma checkopenop_safe:
  assumes "0 \<le> pc" "pc + 1 < sizecode pt" "safeC k Q"
  shows "safeC (checkopenop pt pc k) Q"
  using assms by (simp add: checkopenop_def code_at_Inr check_def)

lemma check_call_safe:
  "0 \<le> pc \<Longrightarrow> pc + 1 < sizecode pt \<Longrightarrow> 0 \<le> lst \<Longrightarrow> lst < sizecode pt \<Longrightarrow>
    safeC (check_call pt reg pc lst a b c) (pos_ok pt pc)"
  by (auto simp: check_call_def Let_def pos_ok_def check_def intro!: checkopenop_safe)

lemma check_op_safe:
  assumes "0 \<le> pc" "pc < sizecode pt" "0 \<le> lst" "lst < sizecode pt"
    and "opc \<noteq> OP_RETURN \<longrightarrow> pc + 1 < sizecode pt" "operand_ranges pt opc (b, c)"
  shows "safeC (check_op pt lastpc reg pc lst opc a b c) (pos_ok pt pc)"
proof (cases opc)
  case OP_CLOSURE
  with assms(6) have b: "0 \<le> b" by (simp add: operand_ranges_def opmodes)
  show ?thesis
  proof (cases "b < sizep pt \<and> pc + uint (p_nups (p_p pt ! nat b)) < sizecode pt")
    case True
    then have "safeC (check_pseudo pt pc (uint (p_nups (p_p pt ! nat b))) 1) (\<lambda>_. True)"
      using check_pseudo_safe [of pc 1 _ pt] assms(1) unfolding safeC_def by auto
    with True b OP_CLOSURE assms(3,4) show ?thesis
      by (auto simp: check_op_def check_def liftC_vec_safe sizep_def pos_ok_def intro!: safeC_bindC)
  next
    case False
    with b OP_CLOSURE show ?thesis
      by (auto simp: check_op_def check_def liftC_vec_safe sizep_def)
  qed
qed (use assms in \<open>auto simp: check_op_def operand_ranges_def opmodes code_at_Inr pos_ok_def check_def
       liftC_vec_safe sizek_def checkopenop_safe jump_step_safe [unfolded pos_ok_def] check_call_safe [unfolded pos_ok_def]\<close>)

lemma symbexec_step_safe:
  assumes pre: "precheck pt" and "0 \<le> pc" "pc < sizecode pt" "0 \<le> lst" "lst < sizecode pt"
  shows "safeC (symbexec_step pt lastpc reg pc lst) (pos_ok pt pc)"
proof -
  let ?i = "p_code pt ! nat pc"
  note code = code_at_Inr [OF assms(2,3)]
  show ?thesis
  proof (cases "opcode_of (GET_OPCODE ?i)")
    case None
    with code show ?thesis by (simp add: symbexec_step_def)
  next
    case (Some opc)
    have nxt: "opc \<noteq> OP_RETURN \<longrightarrow> pc + 1 < sizecode pt"
    proof
      assume "opc \<noteq> OP_RETURN"
      then have "\<not> is_op OP_RETURN ?i" using is_op_opcode [OF Some] by auto
      with precheck_last [OF pre] have "pc \<noteq> sizecode pt - 1" by auto
      with assms(3) show "pc + 1 < sizecode pt" by linarith
    qed
    have T: "testTMode opc \<Longrightarrow> opc \<noteq> OP_RETURN" by (auto simp: opmodes)
    show ?thesis
      unfolding symbexec_step_def code bindC.simps Some option.case Let_def
      apply (rule safeC_check, rule safeC_bindC [OF check_operands_safe [OF assms(2,3)]])
      apply (auto simp: code_at_Inr assms nxt T split: prod.splits if_splits intro!: check_op_safe)
      done
  qed
qed

lemma symbexec_loop_safe:
  assumes "precheck pt" "lastpc \<le> sizecode pt" "0 \<le> pc" "0 \<le> lst" "lst < sizecode pt"
  shows "safeC (symbexec_loop pt lastpc reg pc lst) (\<lambda>lst'. 0 \<le> lst' \<and> lst' < sizecode pt)"
  using assms
proof (induction pt lastpc reg pc lst rule: symbexec_loop.induct)
  case (1 pt lastpc reg pc lst)
  show ?case
  proof (cases "pc < lastpc")
    case True
    have "safeC (symbexec_step pt lastpc reg pc lst) (pos_ok pt pc)"
      using True 1(2-6) by (intro symbexec_step_safe) auto
    then show ?thesis
      unfolding symbexec_loop.simps [of pt lastpc reg pc lst] if_P [OF True]
      by (rule safeC_bindC) (use 1 True in \<open>auto simp: pos_ok_def\<close>)
  qed (use 1 in \<open>simp add: symbexec_loop.simps [of pt lastpc reg pc lst]\<close>)
qed

lemma symbexec_spec:
  assumes "lastpc \<le> sizecode pt"
  shows "symbexec pt lastpc reg = Inr 0 \<or>
    (\<exists>lst. precheck pt \<and> symbexec_loop pt lastpc reg 0 (sizecode pt - 1) = Inr (Some lst)
      \<and> symbexec pt lastpc reg = Inr (p_code pt ! nat lst))"
proof (cases "precheck pt")
  case True
  have "safeC (symbexec_loop pt lastpc reg 0 (sizecode pt - 1)) (\<lambda>lst'. 0 \<le> lst' \<and> lst' < sizecode pt)"
    using precheck_last [OF True] assms True by (intro symbexec_loop_safe) auto
  with True show ?thesis unfolding safeC_def
    by (auto simp: symbexec_def vec_at_def sizecode_def split: option.splits)
qed (simp add: symbexec_def)

section \<open>Where execution can go\<close>

text \<open>
  The positions the linear scan of the checker takes as instructions: the word after an
  \<^verbatim>\<open>OP_SETLIST\<close> with C = 0 is its count.
\<close>

inductive starts :: "proto \<Rightarrow> int \<Rightarrow> bool" for pt where
  first: "starts pt 0"
| after: "starts pt pc \<Longrightarrow> pc < sizecode pt \<Longrightarrow>
    starts pt (if is_setlist0 (p_code pt ! nat pc) then pc + 2 else pc + 1)"

lemma starts_nonneg: "starts pt pc \<Longrightarrow> 0 \<le> pc"
  by (induction rule: starts.induct) auto

lemma start_or_count:
  assumes "0 \<le> n" "n \<le> sizecode pt"
  shows "starts pt n \<or> (1 \<le> n \<and> starts pt (n - 1) \<and> is_setlist0 (p_code pt ! nat (n - 1)))"
  using assms
proof (induction n rule: int_ge_induct)
  case (step n)
  then consider "starts pt n" | "1 \<le> n" "starts pt (n - 1)" "is_setlist0 (p_code pt ! nat (n - 1))" by auto
  then show ?case
  proof cases
    case 1
    with starts.after [OF 1] step show ?thesis by (cases "is_setlist0 (p_code pt ! nat n)") auto
  next
    case 2
    with starts.after [OF 2(2)] step show ?thesis by (auto simp: algebra_simps)
  qed
qed (simp add: starts.first)

lemma start_after_plain:
  assumes "0 \<le> n" "n \<le> sizecode pt" "n = 0 \<or> \<not> is_setlist0 (p_code pt ! nat (n - 1))"
  shows "starts pt n"
  using start_or_count [OF assms(1,2)] assms(3) starts.first by auto

text \<open>Stepping over pairs: an instruction with its count, again and again.\<close>

lemma start_even_run:
  assumes "starts pt r" "r + 2 * int k \<le> sizecode pt" "\<forall>m. r \<le> m \<and> m < r + 2 * int k \<longrightarrow> is_setlist0 (p_code pt ! nat m)"
  shows "starts pt (r + 2 * int k)"
  using assms
proof (induction k)
  case (Suc k)
  then have "starts pt (r + 2 * int k)" "is_setlist0 (p_code pt ! nat (r + 2 * int k))" by auto
  with starts.after [OF this(1)] Suc.prems(2) show ?case by (simp add: algebra_simps)
qed simp

lemma checkdest_starts:
  assumes "checkdest pt dest k = Inr (Some x)"
  shows "starts pt dest \<and> 0 \<le> dest \<and> dest < sizecode pt \<and> k = Inr (Some x)"
proof -
  have d: "0 \<le> dest" "dest < sizecode pt" using assms by (auto simp: checkdest_def checked_iffs)
  show ?thesis
  proof (cases "dest = 0")
    case True
    with assms d show ?thesis by (simp add: checkdest_def starts.first check_def)
  next
    case False
    obtain j where j: "setlist_run pt dest 0 = Inr (Some j)" "0 \<le> j" "j \<le> dest"
      "\<forall>k. 0 \<le> k \<and> k < j \<longrightarrow> is_setlist0 (p_code pt ! nat (dest - 1 - k))"
      "j < dest \<longrightarrow> \<not> is_setlist0 (p_code pt ! nat (dest - 1 - j))"
      using setlist_run_safe [of 0 dest pt] d by auto
    have ev: "even j" "k = Inr (Some x)" using assms False d j(1) by (auto simp: checkdest_def checked_iffs)
    have r: "starts pt (dest - j)"
      using j(2,3,5) d by (intro start_after_plain) (auto simp: algebra_simps)
    have run: "is_setlist0 (p_code pt ! nat m)" if "dest - j \<le> m" "m < dest" for m
      using j(4) [rule_format, of "dest - 1 - m"] that by simp
    from ev(1) j(2) obtain h where h: "j = 2 * int h" by (metis evenE zero_le_imp_eq_int zero_le_mult_iff zero_less_numeral linorder_not_less order_less_imp_le mult_less_0_iff)
    have "starts pt (dest - j + 2 * int h)"
      using r d run h by (intro start_even_run) auto
    with ev d h show ?thesis by simp
  qed
qed

text \<open>An accepted step, taken apart.\<close>

lemma symbexec_stepE:
  assumes "symbexec_step pt lastpc reg pc lst = Inr (Some r)" "0 \<le> pc" "pc < sizecode pt"
  obtains opc b c where "opcode_of (GET_OPCODE (p_code pt ! nat pc)) = Some opc"
    "checkreg pt (GETARG_A (p_code pt ! nat pc))"
    "check_operands pt pc (p_code pt ! nat pc) opc = Inr (Some (b, c))"
    "testTMode opc \<Longrightarrow> pc + 2 < sizecode pt \<and> is_op OP_JMP (p_code pt ! nat (pc + 1))"
    "check_op pt lastpc reg pc (if testAMode opc \<and> GETARG_A (p_code pt ! nat pc) = reg then pc else lst) opc
       (GETARG_A (p_code pt ! nat pc)) b c = Inr (Some r)"
proof -
  let ?i = "p_code pt ! nat pc"
  have "bindC (code_at pt pc) f = f ?i" for f :: "Instruction \<Rightarrow> (int \<times> int) checked"
    using assms(2,3) by (simp add: code_at_Inr)
  note step = assms(1) [unfolded symbexec_step_def this]
  obtain opc where opc: "opcode_of (GET_OPCODE ?i) = Some opc" using step by (cases "opcode_of (GET_OPCODE ?i)") auto
  note step = step [unfolded opc option.case Let_def]
  from step obtain x where "checkreg pt (GETARG_A ?i)" "check_operands pt pc ?i opc = Inr (Some x)"
    unfolding checked_iffs by blast
  then obtain b c where bc: "checkreg pt (GETARG_A ?i)" "check_operands pt pc ?i opc = Inr (Some (b, c))"
    by (cases x) auto
  note step = step [unfolded bc(2) bindC.simps prod.case]
  have "testTMode opc \<Longrightarrow> pc + 2 < sizecode pt" using step by (simp add: checked_iffs)
  moreover from this have "testTMode opc \<Longrightarrow> is_op OP_JMP (p_code pt ! nat (pc + 1))"
    using step assms(2) by (simp add: checked_iffs code_at_Inr)
  moreover have "check_op pt lastpc reg pc (if testAMode opc \<and> GETARG_A ?i = reg then pc else lst) opc
       (GETARG_A ?i) b c = Inr (Some r)" using step unfolding checked_iffs by blast
  ultimately show thesis using that [OF opc bc] by blast
qed

lemma check_call_fst: "check_call pt reg pc lst a b c = Inr (Some (pc', lst')) \<Longrightarrow> pc' = pc"
  by (auto simp: check_call_def Let_def checkopenop_def checked_iffs split: if_splits)

lemma check_op_next:
  assumes "check_op pt lastpc NO_REG pc lst opc a b c = Inr (Some (pc', lst'))"
  shows "pc' = (if opc = OP_SETLIST \<and> c = 0 then pc + 1 else pc)"
  using assms
  by (cases opc) (auto simp: check_op_def checked_iffs liftC_iffs jump_step_def Let_def checkopenop_def
      split: if_splits dest!: check_call_fst)

lemma check_operands_iABC:
  "getOpMode opc = iABC \<Longrightarrow> check_operands pt pc i opc = Inr (Some (b, c)) \<longleftrightarrow>
    b = GETARG_B i \<and> c = GETARG_C i \<and> checkArgMode pt b (getBMode opc) \<and> checkArgMode pt c (getCMode opc)"
  by (auto simp: check_operands_def checked_iffs)

lemma symbexec_step_next:
  assumes "symbexec_step pt lastpc NO_REG pc lst = Inr (Some (pc', lst'))" "0 \<le> pc" "pc < sizecode pt"
  shows "pc' + 1 = (if is_setlist0 (p_code pt ! nat pc) then pc + 2 else pc + 1)"
proof (rule symbexec_stepE [OF assms])
  fix opc b c
  assume opc: "opcode_of (GET_OPCODE (p_code pt ! nat pc)) = Some opc"
    and ops: "check_operands pt pc (p_code pt ! nat pc) opc = Inr (Some (b, c))"
    and op: "check_op pt lastpc NO_REG pc (if testAMode opc \<and> GETARG_A (p_code pt ! nat pc) = NO_REG then pc else lst) opc
       (GETARG_A (p_code pt ! nat pc)) b c = Inr (Some (pc', lst'))"
  have "c = GETARG_C (p_code pt ! nat pc)" if "opc = OP_SETLIST"
    using ops that by (simp add: check_operands_iABC opmodes)
  then show ?thesis
    using check_op_next [OF op] is_op_opcode [OF opc, of OP_SETLIST] by (auto simp: is_setlist0_def)
qed

definition accepted :: "proto \<Rightarrow> bool" where
  "accepted pt \<longleftrightarrow> precheck pt \<and> (\<exists>r. symbexec_loop pt (sizecode pt) NO_REG 0 (sizecode pt - 1) = Inr (Some r))"

lemma checkcode_accepted: "luaG_checkcode pt = Inr True \<Longrightarrow> accepted pt"
  using symbexec_spec [of "sizecode pt" pt NO_REG] by (auto simp: luaG_checkcode_def accepted_def)

lemma accepted_step:
  assumes "accepted pt" "starts pt pc" "pc < sizecode pt"
  obtains lst r where "symbexec_step pt (sizecode pt) NO_REG pc lst = Inr (Some r)"
proof -
  have "\<exists>lst r. symbexec_loop pt (sizecode pt) NO_REG pc lst = Inr (Some r)"
    using assms(2)
  proof (induction rule: starts.induct)
    case first
    with assms(1) show ?case by (auto simp: accepted_def)
  next
    case (after pc)
    then obtain lst r where "symbexec_loop pt (sizecode pt) NO_REG pc lst = Inr (Some r)" by blast
    then obtain pc' lst' where s: "symbexec_step pt (sizecode pt) NO_REG pc lst = Inr (Some (pc', lst'))"
      "symbexec_loop pt (sizecode pt) NO_REG (pc' + 1) lst' = Inr (Some r)"
      using after.hyps(2) by (subst (asm) symbexec_loop.simps) (auto simp: bindC_Some_iff)
    from symbexec_step_next [OF s(1) starts_nonneg [OF after.hyps(1)] after.hyps(2)] s(2) show ?case by metis
  qed
  then obtain lst r where "symbexec_loop pt (sizecode pt) NO_REG pc lst = Inr (Some r)" by blast
  with assms(3) that show thesis
    by (subst (asm) symbexec_loop.simps) (auto simp: bindC_Some_iff)
qed

text \<open>The values of \<^verbatim>\<open>pc\<close> that \<^verbatim>\<open>luaV_execute\<close> can continue with after the instruction at \<open>pc\<close>.\<close>

definition vm_next :: "proto \<Rightarrow> int \<Rightarrow> int list" where
  "vm_next pt pc =
     (let i = p_code pt ! nat pc; j = p_code pt ! nat (pc + 1) in
      case opcode_of (GET_OPCODE i) of
        None \<Rightarrow> [pc + 1]
      | Some opc \<Rightarrow>
          if opc = OP_RETURN then []
          else if opc = OP_JMP \<or> opc = OP_FORPREP then [pc + 1 + GETARG_sBx i]
          else if opc = OP_FORLOOP then [pc + 1, pc + 1 + GETARG_sBx i]
          else if opc = OP_LOADBOOL then [if GETARG_C i \<noteq> 0 then pc + 2 else pc + 1]
          else if opc \<in> {OP_EQ, OP_LT, OP_LE, OP_TEST, OP_TESTSET, OP_TFORLOOP}
            then [pc + 2, pc + 2 + GETARG_sBx j]
          else if opc = OP_SETLIST then [if GETARG_C i = 0 then pc + 2 else pc + 1]
          else if opc = OP_CLOSURE then [pc + 1 + uint (p_nups (p_p pt ! nat (GETARG_Bx i)))]
          else [pc + 1])"

lemma starts_plain:
  assumes "starts pt pc" "pc < sizecode pt" "\<not> is_setlist0 (p_code pt ! nat pc)"
  shows "starts pt (pc + 1)"
  using starts.after [OF assms(1,2)] assms(3) by simp

lemma jump_checked:
  assumes "check_operands pt pc i opc = Inr (Some (b, c))" "getOpMode opc = iAsBx" "getBMode opc = OpArgR"
  shows "b = GETARG_sBx i" "starts pt (pc + 1 + b)" "pc + 1 + b < sizecode pt"
  using assms checkdest_starts [of pt "pc + 1 + GETARG_sBx i" "Inr (Some (GETARG_sBx i, 0))"]
  by (auto simp: check_operands_def)

lemma accepted_jump:
  assumes "accepted pt" "starts pt pc" "pc < sizecode pt" "is_op OP_JMP (p_code pt ! nat pc)"
  shows "starts pt (pc + 1 + GETARG_sBx (p_code pt ! nat pc)) \<and> pc + 1 + GETARG_sBx (p_code pt ! nat pc) < sizecode pt"
proof -
  obtain lst r where s: "symbexec_step pt (sizecode pt) NO_REG pc lst = Inr (Some r)"
    using accepted_step [OF assms(1-3)] by blast
  show ?thesis
  proof (rule symbexec_stepE [OF s starts_nonneg [OF assms(2)] assms(3)])
    fix opc b c
    assume opc: "opcode_of (GET_OPCODE (p_code pt ! nat pc)) = Some opc"
      and ops: "check_operands pt pc (p_code pt ! nat pc) opc = Inr (Some (b, c))"
    have "opc = OP_JMP" using is_op_opcode [OF opc] assms(4) by simp
    with jump_checked [OF ops] show ?thesis by (simp add: opmodes)
  qed
qed

text \<open>The next word is an instruction unless the code ends or this one takes it as data.\<close>

lemma not_return_next:
  assumes "precheck pt" "pc < sizecode pt" "opcode_of (GET_OPCODE (p_code pt ! nat pc)) = Some opc" "opc \<noteq> OP_RETURN"
  shows "pc + 1 < sizecode pt"
proof -
  have "\<not> is_op OP_RETURN (p_code pt ! nat pc)" using is_op_opcode [OF assms(3)] assms(4) by auto
  with precheck_last [OF assms(1)] have "pc \<noteq> sizecode pt - 1" by auto
  with assms(2) show ?thesis by linarith
qed

lemma pseudo_starts:
  assumes "\<forall>k. 1 \<le> k \<and> k \<le> int n \<longrightarrow>
      is_op OP_GETUPVAL (p_code pt ! nat (pc + k)) \<or> is_op OP_MOVE (p_code pt ! nat (pc + k))"
    and "starts pt (pc + 1)" "pc + int n < sizecode pt"
  shows "starts pt (pc + 1 + int n)"
  using assms
proof (induction n)
  case (Suc n)
  then have s: "starts pt (pc + 1 + int n)" by simp
  have "\<not> is_setlist0 (p_code pt ! nat (pc + 1 + int n))"
    using Suc.prems(1) [rule_format, of "1 + int n"] by (auto simp: is_setlist0_def is_op_def opnum_def all_opcodes_def add.assoc)
  with starts_plain [OF s] Suc.prems(3) show ?case by (simp add: algebra_simps)
qed simp

lemma flow_closure:
  assumes pre: "precheck pt" and pc: "starts pt pc" "pc < sizecode pt"
    and opc: "opcode_of (GET_OPCODE (p_code pt ! nat pc)) = Some OP_CLOSURE"
    and ops: "check_operands pt pc (p_code pt ! nat pc) OP_CLOSURE = Inr (Some (b, c))"
    and op: "check_op pt lastpc reg pc lst OP_CLOSURE a b c = Inr (Some r)"
  shows "let s = pc + 1 + uint (p_nups (p_p pt ! nat b)) in starts pt s \<and> s < sizecode pt"
proof -
  let ?n = "uint (p_nups (p_p pt ! nat b))"
  have b: "0 \<le> b" using ops GETARG_range(9) [of "p_code pt ! nat pc"] by (auto simp: check_operands_def opmodes checked_iffs)
  have o: "pc + ?n < sizecode pt" "check_pseudo pt pc ?n 1 = Inr (Some ())"
    using op b by (auto simp: check_op_def checked_iffs liftC_iffs vec_at_def sizep_def split: if_splits)
  have ps: "\<forall>k. 1 \<le> k \<and> k \<le> ?n \<longrightarrow>
      is_op OP_GETUPVAL (p_code pt ! nat (pc + k)) \<or> is_op OP_MOVE (p_code pt ! nat (pc + k))"
    using check_pseudo_safe [of pc 1 ?n pt] starts_nonneg [OF pc(1)] o by simp
  have "\<not> is_setlist0 (p_code pt ! nat pc)" using is_op_opcode [OF opc] by (simp add: is_setlist0_def)
  then have "starts pt (pc + 1)" by (rule starts_plain [OF pc])
  with ps o(1) have st: "starts pt (pc + 1 + ?n)" using pseudo_starts [of "nat ?n" pt pc] by simp
  have "\<not> is_op OP_RETURN (p_code pt ! nat (pc + ?n))"
  proof (cases "?n = 0")
    case True
    then show ?thesis using is_op_opcode [OF opc] by simp
  next
    case False
    then have "1 \<le> ?n" using uint_ge_0 [of "p_nups (p_p pt ! nat b)"] by linarith
    with ps show ?thesis by (auto simp: is_op_def opnum_def all_opcodes_def)
  qed
  with precheck_last [OF pre] have "pc + ?n \<noteq> sizecode pt - 1" by auto
  with o(1) st show ?thesis by (simp add: Let_def)
qed

text \<open>
  The checker tests the skip of \<^verbatim>\<open>OP_LOADBOOL\<close> only when C is 1, where the virtual machine
  skips for any C but 0; with that one exception every continuation is covered.
\<close>

lemma accepted_flow:
  assumes acc: "accepted pt" and pc: "starts pt pc" "pc < sizecode pt" and s: "s \<in> set (vm_next pt pc)"
    and exc: "\<not> (is_op OP_LOADBOOL (p_code pt ! nat pc) \<and> 1 < GETARG_C (p_code pt ! nat pc))"
  shows "starts pt s \<and> s < sizecode pt"
proof -
  let ?i = "p_code pt ! nat pc"
  have pre: "precheck pt" using acc by (simp add: accepted_def)
  have pc0: "0 \<le> pc" using starts_nonneg [OF pc(1)] .
  obtain lst r where step: "symbexec_step pt (sizecode pt) NO_REG pc lst = Inr (Some r)"
    using accepted_step [OF acc pc] by blast
  from symbexec_stepE [OF step pc0 pc(2)] obtain opc b c lst' where
    opc: "opcode_of (GET_OPCODE ?i) = Some opc" and ops: "check_operands pt pc ?i opc = Inr (Some (b, c))"
    and T: "testTMode opc \<Longrightarrow> pc + 2 < sizecode pt \<and> is_op OP_JMP (p_code pt ! nat (pc + 1))"
    and op: "check_op pt (sizecode pt) NO_REG pc lst' opc (GETARG_A ?i) b c = Inr (Some r)" by metis
  have sl: "is_setlist0 ?i \<longleftrightarrow> opc = OP_SETLIST \<and> GETARG_C ?i = 0"
    using is_op_opcode [OF opc] by (auto simp: is_setlist0_def)
  have next1: "starts pt (pc + 1) \<and> pc + 1 < sizecode pt" if "\<not> is_setlist0 ?i" "opc \<noteq> OP_RETURN"
    using starts_plain [OF pc that(1)] not_return_next [OF pre pc(2) opc that(2)] by simp
  have next2: "starts pt (pc + 2)" if "\<not> is_setlist0 ?i" "\<not> is_setlist0 (p_code pt ! nat (pc + 1))" "opc \<noteq> OP_RETURN"
    using next1 [OF that(1,3)] starts_plain [of pt "pc + 1"] that(2) by (simp add: algebra_simps)
  consider "opc = OP_CLOSURE" | "opc = OP_SETLIST" "GETARG_C ?i = 0" | "testTMode opc" | "opc = OP_LOADBOOL"
    | "opc \<in> {OP_JMP, OP_FORPREP, OP_FORLOOP}"
    | "opc \<notin> {OP_CLOSURE, OP_JMP, OP_FORPREP, OP_FORLOOP, OP_LOADBOOL}" "opc = OP_SETLIST \<longrightarrow> GETARG_C ?i \<noteq> 0" "\<not> testTMode opc"
    by blast
  then show ?thesis
  proof cases
    case 1
    have "b = GETARG_Bx ?i" using ops 1 by (auto simp: check_operands_def opmodes checked_iffs)
    with flow_closure [OF pre pc opc [unfolded 1] ops [unfolded 1] op [unfolded 1]] s opc 1 show ?thesis
      by (simp add: vm_next_def Let_def)
  next
    case 2
    then have "pc + 2 < sizecode pt" using op ops by (auto simp: check_op_def checked_iffs check_operands_iABC opmodes)
    moreover have "starts pt (pc + 2)" using starts.after [OF pc] sl 2 by simp
    ultimately show ?thesis using s opc 2 by (simp add: vm_next_def Let_def)
  next
    case 3
    then have o: "opc \<in> {OP_EQ, OP_LT, OP_LE, OP_TEST, OP_TESTSET, OP_TFORLOOP}" by (cases opc) (simp_all add: opmodes)
    with sl have n: "\<not> is_setlist0 ?i" "opc \<noteq> OP_RETURN" by auto
    have J: "is_op OP_JMP (p_code pt ! nat (pc + 1))" using T [OF 3] by blast
    then have "\<not> is_setlist0 (p_code pt ! nat (pc + 1))" by (auto simp: is_setlist0_def is_op_def opnum_def all_opcodes_def)
    then have n2: "starts pt (pc + 2)" using next2 n by blast
    from next1 [OF n] accepted_jump [OF acc _ _ J] n2 T [OF 3] s opc o show ?thesis
      by (auto simp: vm_next_def Let_def algebra_simps)
  next
    case 4
    then have bc: "c = GETARG_C ?i" using ops by (simp add: check_operands_iABC opmodes)
    have n: "\<not> is_setlist0 ?i" "opc \<noteq> OP_RETURN" using 4 sl by auto
    have "is_op OP_LOADBOOL ?i" using is_op_opcode [OF opc] 4 by blast
    then have "\<not> 1 < GETARG_C ?i" using exc by blast
    with GETARG_range(7) [of ?i] have "GETARG_C ?i = 0 \<or> GETARG_C ?i = 1" by linarith
    then show ?thesis
    proof
      assume "GETARG_C ?i = 1"
      moreover from this have "pc + 2 < sizecode pt" "\<not> is_setlist0 (p_code pt ! nat (pc + 1))"
        using op 4 bc pc0 by (auto simp: check_op_def checked_iffs code_at_Inr is_setlist0_def)
      ultimately show ?thesis using next2 n s opc 4 by (simp add: vm_next_def Let_def)
    qed (use next1 [OF n] s opc 4 in \<open>simp add: vm_next_def Let_def\<close>)
  next
    case 5
    then have m: "getOpMode opc = iAsBx" "getBMode opc = OpArgR" by (auto simp: opmodes)
    have n: "\<not> is_setlist0 ?i" "opc \<noteq> OP_RETURN" using 5 sl by auto
    from jump_checked [OF ops m] next1 [OF n] s opc 5 show ?thesis by (auto simp: vm_next_def Let_def)
  next
    case 6
    then have n: "\<not> is_setlist0 ?i" using sl by auto
    show ?thesis
    proof (cases "opc = OP_RETURN")
      case False
      have "opc \<notin> {OP_EQ, OP_LT, OP_LE, OP_TEST, OP_TESTSET, OP_TFORLOOP}" using 6(3) by (auto simp: opmodes)
      then have "vm_next pt pc = [pc + 1]"
        unfolding vm_next_def Let_def opc option.case using 6(1,2) False by simp
      with next1 [OF n False] s show ?thesis by simp
    qed (use s opc in \<open>simp add: vm_next_def Let_def\<close>)
  qed
qed

section \<open>What execution touches\<close>

text \<open>
  The registers, constants, upvalues and nested prototypes that \<^verbatim>\<open>luaV_execute\<close> addresses
  for an instruction (ends of ranges), relative to the frame.
\<close>

definition rk_regs :: "int \<Rightarrow> int list" where "rk_regs x = (if ISK x then [] else [x])"
definition rk_consts :: "int \<Rightarrow> int list" where "rk_consts x = (if ISK x then [INDEXK x] else [])"

definition vm_regs :: "OpCode \<Rightarrow> Instruction \<Rightarrow> int list" where
  "vm_regs opc i =
     (let a = GETARG_A i; b = GETARG_B i; c = GETARG_C i in
      case opc of
        OP_MOVE \<Rightarrow> [a, b] | OP_LOADNIL \<Rightarrow> [a, b] | OP_UNM \<Rightarrow> [a, b] | OP_NOT \<Rightarrow> [a, b] | OP_LEN \<Rightarrow> [a, b]
      | OP_TESTSET \<Rightarrow> [a, b] | OP_CONCAT \<Rightarrow> [a, b, c]
      | OP_GETTABLE \<Rightarrow> [a, b] @ rk_regs c | OP_SELF \<Rightarrow> [a, a + 1, b] @ rk_regs c
      | OP_SETTABLE \<Rightarrow> [a] @ rk_regs b @ rk_regs c
      | OP_ADD \<Rightarrow> [a] @ rk_regs b @ rk_regs c | OP_SUB \<Rightarrow> [a] @ rk_regs b @ rk_regs c
      | OP_MUL \<Rightarrow> [a] @ rk_regs b @ rk_regs c | OP_DIV \<Rightarrow> [a] @ rk_regs b @ rk_regs c
      | OP_MOD \<Rightarrow> [a] @ rk_regs b @ rk_regs c | OP_POW \<Rightarrow> [a] @ rk_regs b @ rk_regs c
      | OP_EQ \<Rightarrow> rk_regs b @ rk_regs c | OP_LT \<Rightarrow> rk_regs b @ rk_regs c | OP_LE \<Rightarrow> rk_regs b @ rk_regs c
      | OP_JMP \<Rightarrow> []
      | OP_CALL \<Rightarrow> [a] @ (if b \<noteq> 0 then [a + b - 1] else []) @ (if c > 1 then [a + c - 2] else [])
      | OP_TAILCALL \<Rightarrow> [a] @ (if b \<noteq> 0 then [a + b - 1] else [])
      | OP_RETURN \<Rightarrow> [a] @ (if b > 1 then [a + b - 2] else [])
      | OP_FORLOOP \<Rightarrow> [a, a + 1, a + 2, a + 3] | OP_FORPREP \<Rightarrow> [a, a + 1, a + 2]
      | OP_TFORLOOP \<Rightarrow> [a, a + 1, a + 2, a + 2 + c]
      | OP_SETLIST \<Rightarrow> [a] @ (if b \<noteq> 0 then [a + b] else [])
      | OP_VARARG \<Rightarrow> [a] @ (if b > 1 then [a + b - 2] else [])
      | _ \<Rightarrow> [a])"

definition vm_consts :: "OpCode \<Rightarrow> Instruction \<Rightarrow> int list" where
  "vm_consts opc i =
     (let b = GETARG_B i; c = GETARG_C i in
      if opc \<in> {OP_LOADK, OP_GETGLOBAL, OP_SETGLOBAL} then [GETARG_Bx i]
      else if opc \<in> {OP_GETTABLE, OP_SELF} then rk_consts c
      else if opc \<in> {OP_SETTABLE, OP_ADD, OP_SUB, OP_MUL, OP_DIV, OP_MOD, OP_POW, OP_EQ, OP_LT, OP_LE}
        then rk_consts b @ rk_consts c
      else [])"

definition regs_in :: "proto \<Rightarrow> int list \<Rightarrow> bool" where
  "regs_in pt rs \<longleftrightarrow> (\<forall>r \<in> set rs. 0 \<le> r \<and> r < uint (p_maxstacksize pt))"

definition consts_in :: "proto \<Rightarrow> int list \<Rightarrow> bool" where
  "consts_in pt js \<longleftrightarrow> (\<forall>j \<in> set js. 0 \<le> j \<and> j < sizek pt)"

lemma regs_in_simps [simp]:
  "regs_in pt []" "regs_in pt (r # rs) \<longleftrightarrow> (0 \<le> r \<and> r < uint (p_maxstacksize pt)) \<and> regs_in pt rs"
  "regs_in pt (rs @ rs') \<longleftrightarrow> regs_in pt rs \<and> regs_in pt rs'"
  by (auto simp: regs_in_def)

lemma consts_in_simps [simp]:
  "consts_in pt []" "consts_in pt (r # rs) \<longleftrightarrow> (0 \<le> r \<and> r < sizek pt) \<and> consts_in pt rs"
  "consts_in pt (rs @ rs') \<longleftrightarrow> consts_in pt rs \<and> consts_in pt rs'"
  by (auto simp: consts_in_def)

definition operands_inside :: "proto \<Rightarrow> OpCode \<Rightarrow> Instruction \<Rightarrow> bool" where
  "operands_inside pt opc i \<longleftrightarrow>
     regs_in pt (vm_regs opc i) \<and> consts_in pt (vm_consts opc i)
     \<and> (opc \<in> {OP_GETGLOBAL, OP_SETGLOBAL} \<longrightarrow> kisstring (p_k pt ! nat (GETARG_Bx i)))
     \<and> (opc \<in> {OP_GETUPVAL, OP_SETUPVAL} \<longrightarrow> GETARG_B i < uint (p_nups pt))
     \<and> (opc = OP_CLOSURE \<longrightarrow> GETARG_Bx i < sizep pt)"

lemma INDEXK_nonneg: "0 \<le> x \<Longrightarrow> 0 \<le> INDEXK x"
  by (simp add: INDEXK_def)

lemma rk_checked:
  assumes "checkArgMode pt x OpArgK" "0 \<le> x"
  shows "regs_in pt (rk_regs x) \<and> consts_in pt (rk_consts x)"
proof (cases "ISK x")
  case True
  with assms(1) have "INDEXK x < sizek pt" by (simp only: checkArgMode.simps if_True)
  with True INDEXK_nonneg [OF assms(2)] show ?thesis by (simp add: rk_regs_def rk_consts_def)
next
  case False
  with assms(1) have "x < uint (p_maxstacksize pt)" by (simp only: checkArgMode.simps if_False)
  with False assms(2) show ?thesis by (simp add: rk_regs_def rk_consts_def)
qed

definition arg_inside :: "proto \<Rightarrow> OpArgMask \<Rightarrow> int \<Rightarrow> bool" where
  "arg_inside pt m x \<longleftrightarrow> (case m of
     OpArgR \<Rightarrow> x < uint (p_maxstacksize pt)
   | OpArgK \<Rightarrow> regs_in pt (rk_regs x) \<and> consts_in pt (rk_consts x)
   | _ \<Rightarrow> True)"

lemma arg_checked: "checkArgMode pt x m \<Longrightarrow> 0 \<le> x \<Longrightarrow> arg_inside pt m x"
  using rk_checked [of pt x] by (cases m) (simp_all add: arg_inside_def checkreg_def)

lemma checked_operands:
  assumes a: "checkreg pt (GETARG_A i)"
    and ops: "check_operands pt pc i opc = Inr (Some (b, c))"
    and op: "check_op pt lastpc reg pc lst opc (GETARG_A i) b c = Inr (Some r)"
  shows "operands_inside pt opc i"
proof -
  note R = GETARG_range(3,5,7,9) [of i]
  have A: "GETARG_A i < uint (p_maxstacksize pt)" using a by (simp add: checkreg_def)
  have BC: "getOpMode opc = iABC \<Longrightarrow> arg_inside pt (getBMode opc) (GETARG_B i) \<and> arg_inside pt (getCMode opc) (GETARG_C i)
      \<and> b = GETARG_B i \<and> c = GETARG_C i"
    using ops R by (auto simp: check_operands_iABC intro: arg_checked)
  have Bx: "getOpMode opc = iABx \<Longrightarrow> b = GETARG_Bx i \<and> (getBMode opc = OpArgK \<longrightarrow> GETARG_Bx i < sizek pt)"
    using ops by (auto simp: check_operands_def checked_iffs)
  note defs = vm_regs_def vm_consts_def Let_def arg_inside_def opmodes
  show ?thesis
    unfolding operands_inside_def
    using A BC Bx R op
    by (cases opc) (simp_all add: defs, simp_all add: check_op_def check_call_def checked_iffs liftC_iffs vec_at_def checkreg_def Let_def checkopenop_def LUA_MULTRET_def split: if_splits)
qed

section \<open>Names for error messages\<close>

text \<open>Tracing finds an instruction that sets the register: for \<^verbatim>\<open>OP_MOVE\<close>, the one in its A.\<close>

definition sets_reg :: "proto \<Rightarrow> int \<Rightarrow> int \<Rightarrow> bool" where
  "sets_reg pt reg lst \<longleftrightarrow>
     (is_op OP_MOVE (p_code pt ! nat lst) \<longrightarrow> GETARG_A (p_code pt ! nat lst) = reg)"

lemma check_call_snd: "check_call pt reg pc lst a b c = Inr (Some (pc', lst')) \<Longrightarrow> lst' = lst \<or> lst' = pc"
  by (auto simp: check_call_def Let_def checkopenop_def checked_iffs split: if_splits)

lemma check_op_last:
  assumes "check_op pt lastpc reg pc lst opc a b c = Inr (Some (pc', lst'))"
  shows "lst' = lst \<or> (lst' = pc \<and> opc \<noteq> OP_MOVE)"
  using assms
  by (cases opc) (auto simp: check_op_def checked_iffs liftC_iffs jump_step_def Let_def checkopenop_def
      split: if_splits dest!: check_call_snd)

lemma symbexec_step_sets:
  assumes "symbexec_step pt lastpc reg pc lst = Inr (Some (pc', lst'))" "0 \<le> pc" "pc < sizecode pt" "sets_reg pt reg lst"
  shows "sets_reg pt reg lst'"
proof (rule symbexec_stepE [OF assms(1-3)])
  fix opc b c
  let ?i = "p_code pt ! nat pc"
  assume opc: "opcode_of (GET_OPCODE ?i) = Some opc"
    and op: "check_op pt lastpc reg pc (if testAMode opc \<and> GETARG_A ?i = reg then pc else lst) opc (GETARG_A ?i) b c
       = Inr (Some (pc', lst'))"
  have "opc \<noteq> OP_MOVE \<Longrightarrow> sets_reg pt reg pc" using is_op_opcode [OF opc] by (auto simp: sets_reg_def)
  moreover have "GETARG_A ?i = reg \<Longrightarrow> sets_reg pt reg pc" by (simp add: sets_reg_def)
  ultimately show ?thesis using check_op_last [OF op] assms(4) by (auto split: if_splits)
qed

lemma symbexec_loop_sets:
  assumes "lastpc \<le> sizecode pt" "0 \<le> pc" "sets_reg pt reg lst" "symbexec_loop pt lastpc reg pc lst = Inr (Some r)"
  shows "sets_reg pt reg r"
  using assms
proof (induction pt lastpc reg pc lst rule: symbexec_loop.induct)
  case (1 pt lastpc reg pc lst)
  show ?case
  proof (cases "pc < lastpc")
    case True
    then obtain pc' lst' where s: "symbexec_step pt lastpc reg pc lst = Inr (Some (pc', lst'))"
      "symbexec_loop pt lastpc reg (pc' + 1) lst' = Inr (Some r)"
      using "1.prems"(4) by (subst (asm) symbexec_loop.simps) (auto simp: bindC_Some_iff)
    have "sets_reg pt reg lst'" using symbexec_step_sets [OF s(1)] True "1.prems" by simp
    then show ?thesis using "1.IH" [OF True s(1) refl] symbexec_step_pc [OF s(1)] "1.prems" s(2) by simp
  qed (use "1.prems" in \<open>simp add: symbexec_loop.simps [of pt lastpc reg pc lst]\<close>)
qed

lemma GETARG_0 [simp]: "GETARG_A 0 = 0" "GETARG_B 0 = 0" "GET_OPCODE 0 = 0"
  by (simp_all add: GETARG_A_def GETARG_B_def GET_OPCODE_def)

lemma symbexec_move:
  assumes "lastpc \<le> sizecode pt" "symbexec pt lastpc reg = Inr i" "is_op OP_MOVE i" "GETARG_B i < GETARG_A i"
  shows "GETARG_B i < reg"
proof -
  from symbexec_spec [OF assms(1), of reg] consider "i = 0"
    | lst where "precheck pt" "symbexec_loop pt lastpc reg 0 (sizecode pt - 1) = Inr (Some lst)" "i = p_code pt ! nat lst"
    using assms(2) by auto
  then show ?thesis
  proof cases
    case 2
    have "sets_reg pt reg (sizecode pt - 1)"
      using precheck_last [OF 2(1)] by (auto simp: sets_reg_def is_op_def opnum_def all_opcodes_def)
    from symbexec_loop_sets [OF assms(1) _ this 2(2)] assms(3,4) 2(3) show ?thesis by (simp add: sets_reg_def)
  qed (use assms(4) in simp)
qed

text \<open>\<^verbatim>\<open>svalue\<close> of a string constant.\<close>

definition ksvalue :: "kval \<Rightarrow> string option" where
  "ksvalue v = (case v of KString s \<Rightarrow> s | _ \<Rightarrow> None)"

definition kname :: "proto \<Rightarrow> int \<Rightarrow> lua_error + string option" where
  "kname p c =
     (if ISK c then bindE (vec_at (p_k p) (INDEXK c)) (\<lambda>v. Inr (if kisstring v then ksvalue v else Some ''?''))
      else Inr (Some ''?''))"

text \<open>\<^verbatim>\<open>getobjname\<close> at position \<open>pc\<close> of a Lua function: the kind and the name.\<close>

function getobjname :: "proto \<Rightarrow> int \<Rightarrow> int \<Rightarrow> lua_error + (string \<times> string option) option" where
  "getobjname p pc stackpos =
     (case luaF_getlocalname p (stackpos + 1) pc of
        Some name \<Rightarrow> Inr (Some (''local'', name))
      | None \<Rightarrow>
          if pc > sizecode p then Inl ErrFault
          else bindE (symbexec p pc stackpos) (\<lambda>i.
            if is_op OP_GETGLOBAL i then
              bindE (vec_at (p_k p) (GETARG_Bx i)) (\<lambda>v. Inr (Some (''global'', ksvalue v)))
            else if is_op OP_MOVE i then
              (if GETARG_B i < GETARG_A i then getobjname p pc (GETARG_B i) else Inr None)
            else if is_op OP_GETTABLE i then
              bindE (kname p (GETARG_C i)) (\<lambda>name. Inr (Some (''field'', name)))
            else if is_op OP_GETUPVAL i then
              (if p_upvalues p \<noteq> [] then
                 bindE (vec_at (p_upvalues p) (GETARG_B i)) (\<lambda>name. Inr (Some (''upvalue'', name)))
               else Inr (Some (''upvalue'', Some ''?'')))
            else if is_op OP_SELF i then
              bindE (kname p (GETARG_C i)) (\<lambda>name. Inr (Some (''method'', name)))
            else Inr None))"
  by pat_completeness auto
termination
proof (relation "measure (\<lambda>(p, pc, stackpos). nat stackpos)")
  fix p :: proto and pc stackpos x
  assume "\<not> sizecode p < pc" "symbexec p pc stackpos = Inr x" "is_op OP_MOVE x" "GETARG_B x < GETARG_A x"
  then show "((p, pc, GETARG_B x), (p, pc, stackpos)) \<in> measure (\<lambda>(p, pc, stackpos). nat stackpos)"
    using symbexec_move [of pc p stackpos x] GETARG_range(5) [of x] by simp
qed simp

declare getobjname.simps [simp del]

text \<open>\<^verbatim>\<open>getfuncname\<close>: the name of a function from the call instruction of its caller.\<close>

definition getfuncname :: "proto \<Rightarrow> int \<Rightarrow> lua_error + (string \<times> string option) option" where
  "getfuncname p pc =
     bindE (vec_at (p_code p) pc) (\<lambda>i.
     if is_op OP_CALL i \<or> is_op OP_TAILCALL i \<or> is_op OP_TFORLOOP i then getobjname p pc (GETARG_A i)
     else Inr None)"

section \<open>What the checker guarantees\<close>

text \<open>
  C11. The checker is safe on any prototype, however malformed, and with any register to
  trace: it reads no word, constant or nested prototype outside its vectors, always ends,
  and returns 0 or one of the instructions.
\<close>

theorem symbexec_no_fault:
  assumes "lastpc \<le> sizecode pt"
  shows "\<exists>i. symbexec pt lastpc reg = Inr i \<and> (i = 0 \<or> i \<in> set (p_code pt))"
proof -
  have "nat lst < length (p_code pt)" if "precheck pt" "symbexec_loop pt lastpc reg 0 (sizecode pt - 1) = Inr (Some lst)" for lst
    using symbexec_loop_safe [OF that(1) assms, of 0 "sizecode pt - 1" reg] precheck_last [OF that(1)] that(2)
    by (auto simp: sizecode_def)
  with symbexec_spec [OF assms, of reg] show ?thesis by (metis nth_mem)
qed

text \<open>\<^verbatim>\<open>local a = true; while a do end\<close>, more or less, and a chunk the checker should reject.\<close>

definition sample_proto :: proto where
  "sample_proto = Proto []
     [CREATE_ABC (opnum OP_LOADBOOL) 0 1 1, CREATE_ABC (opnum OP_LOADBOOL) 0 0 0,
      CREATE_ABx (opnum OP_JMP) 0 (-3 + MAXARG_sBx), CREATE_ABC (opnum OP_RETURN) 0 1 0]
     [] [] [] [] None 0 0 0 0 2 2"

definition runaway_proto :: proto where
  "runaway_proto = Proto []
     [CREATE_ABC (opnum OP_LOADBOOL) 0 1 2, CREATE_ABC (opnum OP_RETURN) 0 1 0]
     [] [] [] [] None 0 0 0 0 2 2"

lemma sample_accepted: "luaG_checkcode sample_proto = Inr True"
  by code_simp

lemma symbexec_no_fault_witness:
  "sizecode sample_proto = 4 \<and> (\<exists>i. symbexec sample_proto 3 0 = Inr i \<and> (i = 0 \<or> i \<in> set (p_code sample_proto)))"
proof -
  have "sizecode sample_proto = 4" by code_simp
  with symbexec_no_fault [of 3 sample_proto 0] show ?thesis by simp
qed

text \<open>
  C12. Accepted code keeps control inside itself: from a position that is an instruction, every
  position the virtual machine can continue with -- after a jump, a skipped instruction, a
  loop, a list store or a closure with its pseudo-instructions -- is again an instruction of
  the code and not the operand word of an \<^verbatim>\<open>OP_SETLIST\<close>, except after an \<^verbatim>\<open>OP_LOADBOOL\<close>
  with C above 1.
\<close>

theorem checkcode_control_flow:
  assumes "luaG_checkcode pt = Inr True" "starts pt pc" "pc < sizecode pt" "s \<in> set (vm_next pt pc)"
    and "\<not> (is_op OP_LOADBOOL (p_code pt ! nat pc) \<and> 1 < GETARG_C (p_code pt ! nat pc))"
  shows "starts pt s \<and> 0 \<le> s \<and> s < sizecode pt"
  using accepted_flow [OF checkcode_accepted [OF assms(1)] assms(2-5)] starts_nonneg by blast

lemma checkcode_control_flow_witness:
  "vm_next sample_proto 0 = [2] \<and> starts sample_proto 2 \<and> 2 < sizecode sample_proto"
proof -
  have "0 < sizecode sample_proto" "vm_next sample_proto 0 = [2]"
    "\<not> (is_op OP_LOADBOOL (p_code sample_proto ! nat 0) \<and> 1 < GETARG_C (p_code sample_proto ! nat 0))"
    by code_simp+
  with checkcode_control_flow [OF sample_accepted starts.first, of 2] show ?thesis by simp
qed




end
