(* ===== verification/LuaDump.thy ===== *)
theory LuaDump
  imports LuaZio LuaDebug
begin

text \<open>
  Precompiled chunks: \<^verbatim>\<open>ldump.c\<close> writes a prototype, \<^verbatim>\<open>lundump.c\<close> reads it back.

  The build modelled has 4-byte \<^verbatim>\<open>int\<close>s and instructions, 8-byte \<^verbatim>\<open>size_t\<close>s and numbers, and
  stores the low byte first.  The writer of \<^verbatim>\<open>lua_dump\<close> is a parameter: a function from a
  block and the client's data to a status and new data.  The loader reads from a \<open>zio\<close>;
  memory for what it loads is assumed to be there.
\<close>

section \<open>Values as bytes\<close>

fun le_bytes :: "nat \<Rightarrow> int \<Rightarrow> string" where
  "le_bytes 0 i = []"
| "le_bytes (Suc n) i = int2char (i mod 256) # le_bytes n (i div 256)"

fun le_int :: "string \<Rightarrow> int" where
  "le_int [] = 0"
| "le_int (c # cs) = char2int c + 256 * le_int cs"

text \<open>The same bytes read as a signed value.\<close>

definition le_sint :: "string \<Rightarrow> int" where
  "le_sint cs = (let i = le_int cs; m = 256 ^ length cs in if 2 * i \<ge> m then i - m else i)"

lemma length_le_bytes [simp]: "length (le_bytes n i) = n"
  by (induction n i rule: le_bytes.induct) auto

lemma le_int_le_bytes: "le_int (le_bytes n i) = i mod 256 ^ n"
proof (induction n i rule: le_bytes.induct)
  case (2 n i)
  then have "le_int (le_bytes (Suc n) i) = i mod 256 + 256 * (i div 256 mod 256 ^ n)" by simp
  also have "\<dots> = i mod (256 * 256 ^ n)" by (simp add: zmod_zmult2_eq)
  finally show ?case by simp
qed simp

lemma le_sint_le_bytes:
  assumes "- (2 ^ 31) \<le> i" "i < 2 ^ 31"
  shows "le_sint (le_bytes 4 i) = i"
proof (cases "0 \<le> i")
  case True
  then have "i mod 256 ^ 4 = i" using assms by (intro mod_pos_pos_trivial) auto
  with True assms show ?thesis by (simp add: le_sint_def le_int_le_bytes Let_def)
next
  case False
  have "i mod 256 ^ 4 = (i + 256 ^ 4) mod 256 ^ 4" by simp
  also have "\<dots> = i + 256 ^ 4" using False assms by (intro mod_pos_pos_trivial) simp_all
  finally show ?thesis using False assms by (simp add: le_sint_def le_int_le_bytes Let_def)
qed

text \<open>\<^verbatim>\<open>sizeof\<close> of the types in a chunk.\<close>

definition sizeof_int :: nat where "sizeof_int = 4"
definition sizeof_size_t :: nat where "sizeof_size_t = 8"
definition sizeof_Instruction :: nat where "sizeof_Instruction = 4"
definition sizeof_Number :: nat where "sizeof_Number = 8"

lemmas sizeofs = sizeof_int_def sizeof_size_t_def sizeof_Instruction_def sizeof_Number_def

section \<open>The header\<close>

definition LUA_SIGNATURE :: string where "LUA_SIGNATURE = char_of (27::nat) # ''Lua''"
definition LUAC_VERSION :: int where "LUAC_VERSION = 0x51"
definition LUAC_FORMAT :: int where "LUAC_FORMAT = 0"
definition LUAC_HEADERSIZE :: nat where "LUAC_HEADERSIZE = 12"

definition luaU_header :: string where
  "luaU_header = LUA_SIGNATURE @ map int2char
     [LUAC_VERSION, LUAC_FORMAT, char2int (hd (le_bytes sizeof_int 1)), int sizeof_int, int sizeof_size_t,
      int sizeof_Instruction, int sizeof_Number, 0]"

section \<open>Dumping\<close>

record 'd DumpState =
  D_data :: 'd
  D_strip :: bool
  D_status :: int

type_synonym 'd writer = "string \<Rightarrow> 'd \<Rightarrow> int \<times> 'd"

definition DumpBlock :: "'d writer \<Rightarrow> string \<Rightarrow> 'd DumpState \<Rightarrow> 'd DumpState" where
  "DumpBlock w b D =
     (if D_status D = 0 then (case w b (D_data D) of (st, d) \<Rightarrow> D\<lparr>D_status := st, D_data := d\<rparr>) else D)"

definition DumpChar :: "'d writer \<Rightarrow> int \<Rightarrow> 'd DumpState \<Rightarrow> 'd DumpState" where
  "DumpChar w y = DumpBlock w [int2char y]"

definition DumpInt :: "'d writer \<Rightarrow> int \<Rightarrow> 'd DumpState \<Rightarrow> 'd DumpState" where
  "DumpInt w x = DumpBlock w (le_bytes sizeof_int x)"

definition DumpNumber :: "'d writer \<Rightarrow> lua_Number \<Rightarrow> 'd DumpState \<Rightarrow> 'd DumpState" where
  "DumpNumber w x = DumpBlock w (le_bytes sizeof_Number (uint x))"

text \<open>\<open>f\<close> lays out one element in memory.\<close>

definition DumpVector :: "'d writer \<Rightarrow> ('a \<Rightarrow> string) \<Rightarrow> 'a list \<Rightarrow> 'd DumpState \<Rightarrow> 'd DumpState" where
  "DumpVector w f b D = DumpBlock w (concat (map f b)) (DumpInt w (int (length b)) D)"

definition DumpString :: "'d writer \<Rightarrow> string option \<Rightarrow> 'd DumpState \<Rightarrow> 'd DumpState" where
  "DumpString w s D =
     (case s of
        None \<Rightarrow> DumpBlock w (le_bytes sizeof_size_t 0) D
      | Some str \<Rightarrow> DumpBlock w (str @ [NUL]) (DumpBlock w (le_bytes sizeof_size_t (int (length str) + 1)) D))"

definition DumpCode :: "'d writer \<Rightarrow> Instruction list \<Rightarrow> 'd DumpState \<Rightarrow> 'd DumpState" where
  "DumpCode w = DumpVector w (\<lambda>i. le_bytes sizeof_Instruction (uint i))"

definition DumpConstant :: "'d writer \<Rightarrow> kval \<Rightarrow> 'd DumpState \<Rightarrow> 'd DumpState" where
  "DumpConstant w v D =
     (let D1 = DumpChar w (kttype v) D in
      case v of
        KNil \<Rightarrow> D1
      | KBoolean b \<Rightarrow> DumpChar w (if b then 1 else 0) D1
      | KNumber n \<Rightarrow> DumpNumber w n D1
      | KString s \<Rightarrow> DumpString w s D1)"

definition DumpLocVar :: "'d writer \<Rightarrow> locvar \<Rightarrow> 'd DumpState \<Rightarrow> 'd DumpState" where
  "DumpLocVar w v D = DumpInt w (endpc v) (DumpInt w (startpc v) (DumpString w (varname v) D))"

definition DumpDebug :: "'d writer \<Rightarrow> proto \<Rightarrow> 'd DumpState \<Rightarrow> 'd DumpState" where
  "DumpDebug w f D =
     (let D1 = DumpVector w (le_bytes sizeof_int) (if D_strip D then [] else p_lineinfo f) D;
          lv = (if D_strip D then [] else p_locvars f);
          D2 = fold (DumpLocVar w) lv (DumpInt w (int (length lv)) D1);
          uv = (if D_strip D then [] else p_upvalues f)
      in fold (DumpString w) uv (DumpInt w (int (length uv)) D2))"

text \<open>The part of \<^verbatim>\<open>DumpFunction\<close> before the constants.\<close>

definition DumpStart :: "'d writer \<Rightarrow> proto \<Rightarrow> string option \<Rightarrow> 'd DumpState \<Rightarrow> 'd DumpState" where
  "DumpStart w f p D =
     (let D1 = DumpString w (if p_source f = p \<or> D_strip D then None else p_source f) D;
          D2 = DumpInt w (p_lastlinedefined f) (DumpInt w (p_linedefined f) D1);
          D3 = DumpChar w (uint (p_numparams f)) (DumpChar w (uint (p_nups f)) D2);
          D4 = DumpChar w (uint (p_maxstacksize f)) (DumpChar w (uint (p_is_vararg f)) D3)
      in DumpCode w (p_code f) D4)"

lemma nested_smaller: "g \<in> set (p_p f) \<Longrightarrow> size g < size f"
proof (cases f)
  case (Proto k code ps li lv uv src ld lld nups np va ms)
  assume "g \<in> set (p_p f)"
  then have "size g < Suc (size_list size ps)" using Proto by (simp add: size_list_estimation' less_Suc_eq_le)
  then show ?thesis using Proto by simp
qed

text \<open>\<^verbatim>\<open>DumpFunction\<close>; its \<^verbatim>\<open>DumpConstants\<close> dumps the constants and then the nested functions.\<close>

function DumpFunction :: "'d writer \<Rightarrow> proto \<Rightarrow> string option \<Rightarrow> 'd DumpState \<Rightarrow> 'd DumpState" where
  "DumpFunction w f p D =
     (let D1 = DumpStart w f p D;
          D2 = fold (DumpConstant w) (p_k f) (DumpInt w (int (length (p_k f))) D1);
          D3 = fold (\<lambda>g. DumpFunction w g (p_source f)) (p_p f) (DumpInt w (int (length (p_p f))) D2)
      in DumpDebug w f D3)"
  by pat_completeness auto
termination
  by (relation "measure (\<lambda>(w, f, p, D). size f)") (auto intro: nested_smaller)

declare DumpFunction.simps [simp del]

definition DumpHeader :: "'d writer \<Rightarrow> 'd DumpState \<Rightarrow> 'd DumpState" where
  "DumpHeader w = DumpBlock w luaU_header"

definition luaU_dump :: "proto \<Rightarrow> 'd writer \<Rightarrow> 'd \<Rightarrow> bool \<Rightarrow> int \<times> 'd" where
  "luaU_dump f w data strip =
     (let D = DumpFunction w f None (DumpHeader w \<lparr>D_data = data, D_strip = strip, D_status = 0\<rparr>)
      in (D_status D, D_data D))"

section \<open>Loading\<close>

record LoadState =
  S_Z :: zio
  S_name :: string

type_synonym 'a loader = "LoadState \<Rightarrow> lua_error + 'a \<times> LoadState"

definition bindL :: "'a loader \<Rightarrow> ('a \<Rightarrow> 'b loader) \<Rightarrow> 'b loader" where
  "bindL m k S = bindE (m S) (\<lambda>(x, S1). k x S1)"

definition retL :: "'a \<Rightarrow> 'a loader" where
  "retL x S = Inr (x, S)"

text \<open>\<^verbatim>\<open>error(S, why)\<close>\<close>

definition errorL :: "string \<Rightarrow> 'a loader" where
  "errorL why S = Inl (ErrSyntax (S_name S @ '': '' @ why @ '' in precompiled chunk''))"

definition LoadBlock :: "nat \<Rightarrow> string loader" where
  "LoadBlock sz S =
     bindE (luaZ_read (S_Z S) (int sz)) (\<lambda>(b, r, z).
     if r \<noteq> 0 then errorL ''unexpected end'' (S\<lparr>S_Z := z\<rparr>) else Inr (b, S\<lparr>S_Z := z\<rparr>))"

definition LoadChar :: "int loader" where
  "LoadChar = bindL (LoadBlock 1) (\<lambda>b. retL (le_sint b))"

definition LoadByte :: "8 word loader" where
  "LoadByte = bindL LoadChar (\<lambda>x. retL (word_of_int x))"

definition LoadInt :: "int loader" where
  "LoadInt = bindL (LoadBlock sizeof_int) (\<lambda>b. if le_sint b < 0 then errorL ''bad integer'' else retL (le_sint b))"

definition LoadNumber :: "lua_Number loader" where
  "LoadNumber = bindL (LoadBlock sizeof_Number) (\<lambda>b. retL (word_of_int (le_int b)))"

definition LoadString :: "string option loader" where
  "LoadString = bindL (LoadBlock sizeof_size_t) (\<lambda>b.
     let sz = nat (le_int b) in
     if sz = 0 then retL None
     else bindL (LoadBlock sz) (\<lambda>s. retL (Some (take (sz - 1) s))))"

text \<open>The elements of a vector in memory.\<close>

fun elems :: "(string \<Rightarrow> 'a) \<Rightarrow> nat \<Rightarrow> nat \<Rightarrow> string \<Rightarrow> 'a list" where
  "elems f sz 0 bs = []"
| "elems f sz (Suc n) bs = f (take sz bs) # elems f sz n (drop sz bs)"

definition LoadVector :: "(string \<Rightarrow> 'a) \<Rightarrow> nat \<Rightarrow> nat \<Rightarrow> 'a list loader" where
  "LoadVector f n sz = bindL (LoadBlock (n * sz)) (\<lambda>b. retL (elems f sz n b))"

definition LoadCode :: "Instruction list loader" where
  "LoadCode = bindL LoadInt (\<lambda>n. LoadVector (\<lambda>b. word_of_int (le_int b)) (nat n) sizeof_Instruction)"

text \<open>\<^verbatim>\<open>for (i=0; i<n; i++)\<close> with a load in its body.\<close>

primrec load_list :: "'a loader \<Rightarrow> nat \<Rightarrow> 'a list loader" where
  "load_list m 0 = retL []"
| "load_list m (Suc n) = bindL m (\<lambda>x. bindL (load_list m n) (\<lambda>xs. retL (x # xs)))"

definition LoadConstant :: "kval loader" where
  "LoadConstant = bindL LoadChar (\<lambda>t.
     if t = 0 then retL KNil
     else if t = 1 then bindL LoadChar (\<lambda>b. retL (KBoolean (b \<noteq> 0)))
     else if t = 3 then bindL LoadNumber (\<lambda>n. retL (KNumber n))
     else if t = 4 then bindL LoadString (\<lambda>s. retL (KString s))
     else errorL ''bad constant'')"

definition LoadLocVar :: "locvar loader" where
  "LoadLocVar = bindL LoadString (\<lambda>name. bindL LoadInt (\<lambda>spc. bindL LoadInt (\<lambda>epc.
     retL \<lparr>varname = name, startpc = spc, endpc = epc\<rparr>)))"

definition LoadDebug :: "(int list \<times> locvar list \<times> string option list) loader" where
  "LoadDebug =
     bindL (bindL LoadInt (\<lambda>n. LoadVector le_sint (nat n) sizeof_int)) (\<lambda>li.
     bindL (bindL LoadInt (\<lambda>n. load_list LoadLocVar (nat n))) (\<lambda>lv.
     bindL (bindL LoadInt (\<lambda>n. load_list LoadString (nat n))) (\<lambda>uv.
     retL (li, lv, uv))))"

definition LUAI_MAXCCALLS :: nat where "LUAI_MAXCCALLS = 200"

text \<open>\<^verbatim>\<open>IF (!luaG_checkcode(f), "bad code")\<close>\<close>

definition check_loaded :: "proto \<Rightarrow> proto loader" where
  "check_loaded f S =
     bindE (luaG_checkcode f) (\<lambda>good. if good then Inr (f, S) else errorL ''bad code'' S)"

text \<open>
  \<^verbatim>\<open>LoadFunction\<close> at a depth of \<open>n\<close> nested C calls, with the source \<open>p\<close> of its parent; its
  \<^verbatim>\<open>LoadConstants\<close> loads the constants and then the nested functions.
\<close>

function LoadFunction :: "nat \<Rightarrow> string option \<Rightarrow> proto loader" where
  "LoadFunction n p =
     (if n + 1 > LUAI_MAXCCALLS then errorL ''code too deep''
      else
        bindL LoadString (\<lambda>src0. let src = (if src0 = None then p else src0) in
        bindL LoadInt (\<lambda>ld. bindL LoadInt (\<lambda>lld.
        bindL LoadByte (\<lambda>nups. bindL LoadByte (\<lambda>np. bindL LoadByte (\<lambda>va. bindL LoadByte (\<lambda>ms.
        bindL LoadCode (\<lambda>code.
        bindL (bindL LoadInt (\<lambda>m. load_list LoadConstant (nat m))) (\<lambda>k.
        bindL (bindL LoadInt (\<lambda>m. load_list (LoadFunction (n + 1) src) (nat m))) (\<lambda>ps.
        bindL LoadDebug (\<lambda>(li, lv, uv).
        check_loaded (Proto k code ps li lv uv src ld lld nups np va ms)))))))))))))"
  by pat_completeness auto
termination
  by (relation "measure (\<lambda>(n, p). LUAI_MAXCCALLS - n)") auto

declare LoadFunction.simps [simp del]

definition LoadHeader :: "unit loader" where
  "LoadHeader = bindL (LoadBlock LUAC_HEADERSIZE) (\<lambda>s. if s \<noteq> luaU_header then errorL ''bad header'' else retL ())"

definition chunk_name :: "string \<Rightarrow> string" where
  "chunk_name name =
     (case name of
        [] \<Rightarrow> name
      | c # cs \<Rightarrow> if c = CHR ''@'' \<or> c = CHR ''='' then cs
                  else if c = hd LUA_SIGNATURE then ''binary string'' else name)"

definition luaU_undump :: "zio \<Rightarrow> nat \<Rightarrow> string \<Rightarrow> lua_error + proto \<times> zio" where
  "luaU_undump z nCcalls name =
     bindE (bindL LoadHeader (\<lambda>_. LoadFunction nCcalls (Some ''=?'')) \<lparr>S_Z = z, S_name = chunk_name name\<rparr>)
       (\<lambda>(f, S). Inr (f, S_Z S))"

section \<open>The chunk as a sequence of blocks\<close>

text \<open>What is dumped, without the writer: the blocks it is called with, in order.\<close>

definition string_blocks :: "string option \<Rightarrow> string list" where
  "string_blocks s =
     (case s of None \<Rightarrow> [le_bytes sizeof_size_t 0]
      | Some str \<Rightarrow> [le_bytes sizeof_size_t (int (length str) + 1), str @ [NUL]])"

definition int_block :: "int \<Rightarrow> string" where "int_block x = le_bytes sizeof_int x"

definition vector_blocks :: "('a \<Rightarrow> string) \<Rightarrow> 'a list \<Rightarrow> string list" where
  "vector_blocks f b = [int_block (int (length b)), concat (map f b)]"

definition list_blocks :: "('a \<Rightarrow> string list) \<Rightarrow> 'a list \<Rightarrow> string list" where
  "list_blocks f xs = int_block (int (length xs)) # concat (map f xs)"

definition constant_blocks :: "kval \<Rightarrow> string list" where
  "constant_blocks v = [int2char (kttype v)] #
     (case v of KNil \<Rightarrow> [] | KBoolean b \<Rightarrow> [[int2char (if b then 1 else 0)]]
      | KNumber n \<Rightarrow> [le_bytes sizeof_Number (uint n)] | KString s \<Rightarrow> string_blocks s)"

definition locvar_blocks :: "locvar \<Rightarrow> string list" where
  "locvar_blocks v = string_blocks (varname v) @ [int_block (startpc v), int_block (endpc v)]"

definition debug_blocks :: "bool \<Rightarrow> proto \<Rightarrow> string list" where
  "debug_blocks strip f =
     vector_blocks int_block (if strip then [] else p_lineinfo f)
     @ list_blocks locvar_blocks (if strip then [] else p_locvars f)
     @ list_blocks string_blocks (if strip then [] else p_upvalues f)"

definition start_blocks :: "bool \<Rightarrow> proto \<Rightarrow> string option \<Rightarrow> string list" where
  "start_blocks strip f p =
     string_blocks (if p_source f = p \<or> strip then None else p_source f)
     @ [int_block (p_linedefined f), int_block (p_lastlinedefined f),
        [int2char (uint (p_nups f))], [int2char (uint (p_numparams f))],
        [int2char (uint (p_is_vararg f))], [int2char (uint (p_maxstacksize f))]]
     @ vector_blocks (\<lambda>i. le_bytes sizeof_Instruction (uint i)) (p_code f)"

function proto_blocks :: "bool \<Rightarrow> proto \<Rightarrow> string option \<Rightarrow> string list" where
  "proto_blocks strip f p =
     start_blocks strip f p @ list_blocks constant_blocks (p_k f)
     @ int_block (int (length (p_p f))) # concat (map (\<lambda>g. proto_blocks strip g (p_source f)) (p_p f))
     @ debug_blocks strip f"
  by pat_completeness auto
termination
  by (relation "measure (\<lambda>(strip, f, p). size f)") (auto intro: nested_smaller)

declare proto_blocks.simps [simp del]

definition chunk_blocks :: "bool \<Rightarrow> proto \<Rightarrow> string list" where
  "chunk_blocks strip f = luaU_header # proto_blocks strip f None"

text \<open>A writer is called with the blocks until it answers with an error.\<close>

fun run_writer :: "'d writer \<Rightarrow> string list \<Rightarrow> 'd \<Rightarrow> int \<times> 'd" where
  "run_writer w [] d = (0, d)"
| "run_writer w (b # bs) d = (case w b d of (st, d') \<Rightarrow> if st = 0 then run_writer w bs d' else (st, d'))"

lemma fold_concat_map: "fold g (concat (map h xs)) = fold (\<lambda>x. fold g (h x)) xs"
  by (induction xs) (simp_all add: fun_eq_iff)

lemma strip_fold [simp]: "D_strip (fold (DumpBlock w) bs D) = D_strip D"
  by (induction bs arbitrary: D) (auto simp: DumpBlock_def split: prod.splits)

lemma DumpString_blocks: "DumpString w s = fold (DumpBlock w) (string_blocks s)"
  by (auto simp: DumpString_def string_blocks_def fun_eq_iff split: option.splits)

lemma DumpInt_block: "DumpInt w x = DumpBlock w (int_block x)"
  by (simp add: DumpInt_def int_block_def)

lemma DumpVector_blocks: "DumpVector w f b = fold (DumpBlock w) (vector_blocks f b)"
  by (simp add: DumpVector_def vector_blocks_def DumpInt_block fun_eq_iff)

lemma DumpConstant_blocks: "DumpConstant w v = fold (DumpBlock w) (constant_blocks v)"
  by (cases v) (simp_all add: DumpConstant_def constant_blocks_def DumpChar_def DumpNumber_def DumpString_blocks fun_eq_iff)

lemma DumpLocVar_blocks: "DumpLocVar w v = fold (DumpBlock w) (locvar_blocks v)"
  by (simp add: DumpLocVar_def locvar_blocks_def DumpString_blocks DumpInt_block fun_eq_iff)

lemma DumpList_blocks:
  "fold (\<lambda>x. fold (DumpBlock w) (h x)) xs (DumpInt w (int (length xs)) D) = fold (DumpBlock w) (list_blocks h xs) D"
  by (simp add: list_blocks_def fold_concat_map DumpInt_block)

lemma DumpDebug_blocks: "DumpDebug w f D = fold (DumpBlock w) (debug_blocks (D_strip D) f) D"
proof -
  have le: "le_bytes sizeof_int = int_block" by (simp add: int_block_def fun_eq_iff)
  show ?thesis
    by (simp add: DumpDebug_def debug_blocks_def Let_def DumpVector_blocks DumpLocVar_blocks [abs_def] DumpString_blocks [abs_def]
        DumpList_blocks le del: fold_simps)
qed

lemma DumpStart_blocks: "DumpStart w f p D = fold (DumpBlock w) (start_blocks (D_strip D) f p) D"
  by (simp add: DumpStart_def start_blocks_def Let_def DumpCode_def DumpVector_blocks DumpString_blocks DumpInt_block DumpChar_def)

lemma fold_cong_strip:
  fixes D :: "'a DumpState"
  assumes "\<And>x D'. x \<in> set xs \<Longrightarrow> D_strip D' = D_strip D \<Longrightarrow> f x D' = fold (DumpBlock w) (h x) D'"
  shows "fold f xs D = fold (DumpBlock w) (concat (map h xs)) D"
  using assms by (induction xs arbitrary: D) simp_all

lemma DumpFunction_blocks:
  fixes D :: "'a DumpState"
  shows "DumpFunction w f p D = fold (DumpBlock w) (proto_blocks (D_strip D) f p) D"
proof (induction w f p D rule: DumpFunction.induct)
  case (1 w f p D)
  define D2 where "D2 = fold (DumpConstant w) (p_k f) (DumpInt w (int (length (p_k f))) (DumpStart w f p D))"
  have D2: "D2 = fold (DumpBlock w) (start_blocks (D_strip D) f p @ list_blocks constant_blocks (p_k f)) D"
    by (simp add: D2_def DumpStart_blocks DumpConstant_blocks [abs_def] DumpList_blocks)
  then have st: "D_strip D2 = D_strip D" by simp
  define D3 where "D3 = fold (\<lambda>g. DumpFunction w g (p_source f)) (p_p f) (DumpInt w (int (length (p_p f))) D2)"
  have "D3 = fold (DumpBlock w) (concat (map (\<lambda>g. proto_blocks (D_strip D) g (p_source f)) (p_p f)))
      (DumpInt w (int (length (p_p f))) D2)"
    unfolding D3_def
  proof (rule fold_cong_strip)
    fix g and D' :: "'a DumpState"
    assume "g \<in> set (p_p f)" "D_strip D' = D_strip (DumpInt w (int (length (p_p f))) D2)"
    moreover have "D_strip (DumpInt w (int (length (p_p f))) D2) = D_strip D"
      using st strip_fold [of w "[int_block (int (length (p_p f)))]" D2] by (simp add: DumpInt_block)
    ultimately show "DumpFunction w g (p_source f) D' = fold (DumpBlock w) (proto_blocks (D_strip D) g (p_source f)) D'"
      using 1 [OF refl refl] by simp
  qed
  then have D3: "D3 = fold (DumpBlock w) (start_blocks (D_strip D) f p @ list_blocks constant_blocks (p_k f)
      @ int_block (int (length (p_p f))) # concat (map (\<lambda>g. proto_blocks (D_strip D) g (p_source f)) (p_p f))) D"
    by (simp add: D2 DumpInt_block)
  have "D_strip D3 = D_strip D" unfolding D3 by (rule strip_fold)
  then have "DumpFunction w f p D = fold (DumpBlock w) (debug_blocks (D_strip D) f) D3"
    by (simp add: DumpFunction.simps [of w f] DumpDebug_blocks D3_def D2_def Let_def)
  then show ?case by (simp add: D3 proto_blocks.simps [of _ f])
qed

lemma fold_failed: "D_status D \<noteq> 0 \<Longrightarrow> fold (DumpBlock w) bs D = D"
  by (induction bs) (simp_all add: DumpBlock_def)

lemma fold_run_writer:
  "D_status D = 0 \<Longrightarrow>
    (let D' = fold (DumpBlock w) bs D in (D_status D', D_data D')) = run_writer w bs (D_data D)"
proof (induction bs arbitrary: D)
  case (Cons b bs)
  obtain st d where w: "w b (D_data D) = (st, d)" by fastforce
  then have "DumpBlock w b D = D\<lparr>D_status := st, D_data := d\<rparr>" using Cons.prems by (simp add: DumpBlock_def)
  then show ?case
    using Cons.IH [of "D\<lparr>D_status := st, D_data := d\<rparr>"] fold_failed [of "D\<lparr>D_status := st, D_data := d\<rparr>" w bs] w
    by (cases "st = 0") (simp_all add: Let_def)
qed simp

lemma luaU_dump_spec: "luaU_dump f w data strip = run_writer w (chunk_blocks strip f) data"
  using fold_run_writer [of "\<lparr>D_data = data, D_strip = strip, D_status = 0\<rparr>" w "chunk_blocks strip f"]
    strip_fold [of w "[luaU_header]" "\<lparr>D_data = data, D_strip = strip, D_status = 0\<rparr>"]
  by (simp add: luaU_dump_def chunk_blocks_def DumpFunction_blocks DumpHeader_def Let_def)

section \<open>Reading back\<close>

text \<open>\<open>reads m bs x\<close>: on a stream that goes on with \<open>bs\<close>, however it is cut into blocks, the
  loader takes exactly those bytes and returns \<open>x\<close>.\<close>

definition reads :: "'a loader \<Rightarrow> string \<Rightarrow> 'a \<Rightarrow> bool" where
  "reads m bs x \<longleftrightarrow>
     (\<forall>S rest. zio_ok (S_Z S) \<and> zrest (S_Z S) = bs @ rest \<longrightarrow>
       (\<exists>S'. m S = Inr (x, S') \<and> zio_ok (S_Z S') \<and> zrest (S_Z S') = rest \<and> S_name S' = S_name S))"

lemma readsD:
  assumes "reads m bs x" "zio_ok (S_Z S)" "zrest (S_Z S) = bs @ rest"
  obtains S' where "m S = Inr (x, S')" "zio_ok (S_Z S')" "zrest (S_Z S') = rest" "S_name S' = S_name S"
  using assms unfolding reads_def by blast

lemma reads_ret: "reads (retL x) [] x"
  by (simp add: reads_def retL_def)

lemma reads_bind:
  assumes "reads m bs x" "reads (k x) cs y"
  shows "reads (bindL m k) (bs @ cs) y"
  unfolding reads_def
proof (intro allI impI, elim conjE)
  fix S :: LoadState and rest
  assume S: "zio_ok (S_Z S)" "zrest (S_Z S) = (bs @ cs) @ rest"
  from S(2) have "zrest (S_Z S) = bs @ (cs @ rest)" by simp
  from readsD [OF assms(1) S(1) this] obtain S1 where S1: "m S = Inr (x, S1)" "zio_ok (S_Z S1)"
    "zrest (S_Z S1) = cs @ rest" "S_name S1 = S_name S" by metis
  from readsD [OF assms(2) S1(2,3)] S1(1,4)
  show "\<exists>S'. bindL m k S = Inr (y, S') \<and> zio_ok (S_Z S') \<and> zrest (S_Z S') = rest \<and> S_name S' = S_name S"
    unfolding bindL_def by (metis bindE.simps(2) case_prod_conv)
qed

lemma reads_map: "reads m bs x \<Longrightarrow> g x = y \<Longrightarrow> reads (bindL m (\<lambda>x. retL (g x))) bs y"
  using reads_bind [of m bs x "\<lambda>x. retL (g x)" "[]" y] reads_ret [of y] by simp

lemma reads_block:
  assumes "length bs = n"
  shows "reads (LoadBlock n) bs bs"
  unfolding reads_def
proof (intro allI impI, elim conjE)
  fix S :: LoadState and rest assume S: "zio_ok (S_Z S)" "zrest (S_Z S) = bs @ rest"
  then obtain z' where "luaZ_read (S_Z S) (int n) = Inr (bs, 0, z')" "zio_ok z'" "zrest z' = rest"
    using luaZ_read_spec [OF S(1), of "int n"] assms by auto
  then show "\<exists>S'. LoadBlock n S = Inr (bs, S') \<and> zio_ok (S_Z S') \<and> zrest (S_Z S') = rest \<and> S_name S' = S_name S"
    by (simp add: LoadBlock_def)
qed

lemma reads_char: "reads LoadChar [int2char y] y" if "0 \<le> y" "y < 128"
proof -
  have "le_sint [int2char y] = y" using that by (simp add: le_sint_def Let_def)
  then show ?thesis unfolding LoadChar_def by (intro reads_map [OF reads_block]) simp_all
qed

lemma reads_byte: "reads LoadByte [int2char (uint (y :: 8 word))] y"
proof -
  have y: "0 \<le> uint y" "uint y < 256" using uint_lt2p [of y] by simp_all
  have "word_of_int (le_sint [int2char (uint y)]) = y"
  proof (cases "uint y < 128")
    case True
    with y show ?thesis by (simp add: le_sint_def Let_def)
  next
    case False
    with y have "le_sint [int2char (uint y)] = uint y - 2 ^ 8" by (simp add: le_sint_def Let_def)
    moreover have "word_of_int (uint y - 2 ^ 8) = (word_of_int (uint y) - word_of_int (2 ^ 8) :: 8 word)"
      by (rule wi_hom_sub [symmetric])
    ultimately show ?thesis by simp
  qed
  then show ?thesis unfolding LoadByte_def LoadChar_def 
    by (intro reads_map [OF reads_map [OF reads_block]]) simp_all
qed

lemma reads_int: "0 \<le> x \<Longrightarrow> x \<le> INT_MAX \<Longrightarrow> reads LoadInt (int_block x) x"
  unfolding LoadInt_def int_block_def
  using reads_bind [of "LoadBlock sizeof_int" "le_bytes sizeof_int x" "le_bytes sizeof_int x"
      "\<lambda>b. if le_sint b < 0 then errorL ''bad integer'' else retL (le_sint b)" "[]" x] reads_ret [of x]
  by (simp add: reads_block sizeofs le_sint_le_bytes INT_MAX_def)

lemma reads_number: "reads LoadNumber (le_bytes sizeof_Number (uint n)) n"
proof -
  have "word_of_int (uint n mod 256 ^ 8) = n" using uint_lt2p [of n] by simp
  then show ?thesis unfolding LoadNumber_def
    by (intro reads_map [OF reads_block]) (simp_all add: sizeofs le_int_le_bytes)
qed

text \<open>Strings whose size fits a \<^verbatim>\<open>size_t\<close>.\<close>

definition string_fits :: "string option \<Rightarrow> bool" where
  "string_fits s \<longleftrightarrow> (case s of None \<Rightarrow> True | Some str \<Rightarrow> int (length str) + 1 < 2 ^ 64)"

lemma reads_string:
  assumes "string_fits s"
  shows "reads LoadString (concat (string_blocks s)) s"
proof (cases s)
  case None
  have "reads LoadString (le_bytes sizeof_size_t 0 @ []) None"
    unfolding LoadString_def by (rule reads_bind [OF reads_block]) (simp_all add: le_int_le_bytes reads_ret)
  with None show ?thesis by (simp add: string_blocks_def)
next
  case (Some str)
  let ?b = "le_bytes sizeof_size_t (int (length str) + 1)"
  have n: "nat (le_int ?b) = length str + 1" using assms Some by (simp add: le_int_le_bytes sizeofs string_fits_def)
  have "reads LoadString (?b @ (str @ [NUL])) (Some str)"
    unfolding LoadString_def
    by (rule reads_bind [OF reads_block], simp)
      (simp add: n Let_def reads_map [OF reads_block])
  with Some show ?thesis by (simp add: string_blocks_def)
qed

lemma reads_list:
  assumes "\<forall>x \<in> set xs. reads m (concat (g x)) (h x)"
  shows "reads (load_list m (length xs)) (concat (concat (map g xs))) (map h xs)"
  using assms
proof (induction xs)
  case (Cons x xs)
  then have "reads (load_list m (length xs)) (concat (concat (map g xs))) (map h xs)" by simp
  then have "reads (bindL m (\<lambda>x. bindL (load_list m (length xs)) (\<lambda>xs. retL (x # xs))))
      (concat (g x) @ concat (concat (map g xs))) (h x # map h xs)"
    using Cons.prems by (intro reads_bind reads_map) auto
  then show ?case by simp
qed (simp add: reads_ret)

lemma reads_counted:
  assumes "int (length xs) \<le> INT_MAX" "\<forall>x \<in> set xs. reads m (concat (g x)) (h x)"
  shows "reads (bindL LoadInt (\<lambda>n. load_list m (nat n))) (concat (list_blocks g xs)) (map h xs)"
  using reads_bind [OF reads_int [of "int (length xs)"], of "\<lambda>n. load_list m (nat n)"] reads_list [OF assms(2)] assms(1)
  by (simp add: list_blocks_def)

lemma elems_concat:
  assumes "\<forall>x \<in> set xs. length (g x) = sz \<and> f (g x) = x"
  shows "elems f sz (length xs) (concat (map g xs)) = xs"
  using assms by (induction xs) simp_all

lemma reads_vector:
  assumes "int (length xs) \<le> INT_MAX" "\<forall>x \<in> set xs. length (g x) = sz \<and> f (g x) = x"
  shows "reads (bindL LoadInt (\<lambda>n. LoadVector f (nat n) sz)) (concat (vector_blocks g xs)) xs"
proof -
  have "length (concat (map g xs)) = length xs * sz"
    using assms(2) by (induction xs) simp_all
  then have "reads (LoadVector f (length xs) sz) (concat (map g xs)) xs"
    unfolding LoadVector_def by (intro reads_map [OF reads_block]) (simp_all add: elems_concat [OF assms(2)])
  with reads_bind [OF reads_int [of "int (length xs)"], of "\<lambda>n. LoadVector f (nat n) sz"] assms(1)
  show ?thesis by (simp add: vector_blocks_def)
qed

section \<open>Stripping keeps code acceptable\<close>

text \<open>Prototypes that differ only in what the checker does not look at.\<close>

definition same_code :: "proto \<Rightarrow> proto \<Rightarrow> bool" where
  "same_code f g \<longleftrightarrow> p_code f = p_code g \<and> p_k f = p_k g \<and> map p_nups (p_p f) = map p_nups (p_p g)
     \<and> p_nups f = p_nups g \<and> p_numparams f = p_numparams g \<and> p_is_vararg f = p_is_vararg g
     \<and> p_maxstacksize f = p_maxstacksize g"

lemma same_codeD:
  assumes "same_code f g"
  shows "p_code f = p_code g" "p_k f = p_k g" "p_nups f = p_nups g" "p_numparams f = p_numparams g"
    "p_is_vararg f = p_is_vararg g" "p_maxstacksize f = p_maxstacksize g"
    "sizecode f = sizecode g" "sizek f = sizek g" "sizep f = sizep g" "code_at f = code_at g"
  using assms map_eq_imp_length_eq [of p_nups "p_p f" p_nups "p_p g"]
  by (auto simp: same_code_def sizecode_def sizek_def sizep_def code_at_def fun_eq_iff)

lemma same_nested:
  assumes "same_code f g" "\<And>p q. p_nups p = p_nups q \<Longrightarrow> F p = G q"
  shows "bindC (liftC (vec_at (p_p f) b)) F = bindC (liftC (vec_at (p_p g) b)) G"
proof -
  have "map p_nups (p_p f) = map p_nups (p_p g)" using assms(1) by (simp add: same_code_def)
  then have "length (p_p f) = length (p_p g)" "\<And>j. j < length (p_p f) \<Longrightarrow> p_nups (p_p f ! j) = p_nups (p_p g ! j)"
    by (metis length_map) (metis nth_map length_map \<open>map p_nups (p_p f) = map p_nups (p_p g)\<close>)
  then have "F (p_p f ! nat b) = G (p_p g ! nat b)" if "0 \<le> b" "b < int (length (p_p g))"
    using that by (intro assms(2)) auto
  with \<open>length (p_p f) = length (p_p g)\<close> show ?thesis by (simp add: vec_at_def liftC_def)
qed

lemma setlist_run_same: "same_code f g \<Longrightarrow> setlist_run f d j = setlist_run g d j"
proof (induction f d j rule: setlist_run.induct)
  case (1 f d j)
  then show ?case
    unfolding setlist_run.simps [of f d j] setlist_run.simps [of g d j]
    by (auto simp: same_codeD [OF 1(2)] intro!: bindC_cong)
qed

lemma check_pseudo_same: "same_code f g \<Longrightarrow> check_pseudo f pc n j = check_pseudo g pc n j"
proof (induction f pc n j rule: check_pseudo.induct)
  case (1 f pc n j)
  then show ?case
    unfolding check_pseudo.simps [of f pc n j] check_pseudo.simps [of g pc n j]
    by (auto simp: same_codeD [OF 1(2)] intro!: bindC_cong check_cong)
qed

lemma checkArgMode_same: "same_code f g \<Longrightarrow> checkArgMode f = checkArgMode g"
  by (intro ext, rename_tac r m, case_tac m) (simp_all add: checkreg_def same_codeD)

lemma check_op_same:
  assumes "same_code f g"
  shows "check_op f lastpc reg pc lst opc a b c = check_op g lastpc reg pc lst opc a b c"
proof (cases "opc = OP_CLOSURE")
  case True
  show ?thesis
    unfolding True check_op_def OpCode.case same_codeD [OF assms] check_pseudo_same [OF assms]
  proof (rule arg_cong2 [where f = check, OF refl], rule same_nested [OF assms])
    fix p q assume "p_nups p = p_nups q"
    then show "check (pc + uint (p_nups p) < sizecode g)
          (bindC (check_pseudo g pc (uint (p_nups p)) 1)
            (\<lambda>_. Inr (Some (if reg \<noteq> NO_REG then pc + uint (p_nups p) else pc, lst)))) =
        check (pc + uint (p_nups q) < sizecode g)
          (bindC (check_pseudo g pc (uint (p_nups q)) 1)
            (\<lambda>_. Inr (Some (if reg \<noteq> NO_REG then pc + uint (p_nups q) else pc, lst))))"
      by (simp only:)
  qed
next
  case False
  have C: "checkreg f = checkreg g" "vararg_flag f = vararg_flag g"
    by (simp_all add: checkreg_def vararg_flag_def same_codeD [OF assms] fun_eq_iff)
  show ?thesis
    using False unfolding check_op_def check_call_def checkopenop_def same_codeD [OF assms] C
    by (cases opc) simp_all
qed

lemma symbexec_step_same:
  assumes "same_code f g"
  shows "symbexec_step f lastpc reg pc lst = symbexec_step g lastpc reg pc lst"
proof -
  have "check_operands f pc i opc = check_operands g pc i opc" for i opc
    unfolding check_operands_def checkdest_def same_codeD [OF assms] checkArgMode_same [OF assms]
      setlist_run_same [OF assms] by (rule refl)
  moreover have "checkreg f = checkreg g" by (simp add: checkreg_def same_codeD [OF assms] fun_eq_iff)
  ultimately show ?thesis
    unfolding symbexec_step_def same_codeD [OF assms] check_op_same [OF assms] by presburger
qed

lemma symbexec_loop_same: "same_code f g \<Longrightarrow> symbexec_loop f lastpc reg pc lst = symbexec_loop g lastpc reg pc lst"
proof (induction f lastpc reg pc lst rule: symbexec_loop.induct)
  case (1 f lastpc reg pc lst)
  then show ?case
    unfolding symbexec_loop.simps [of f lastpc reg pc lst] symbexec_loop.simps [of g lastpc reg pc lst]
    by (auto simp: symbexec_step_same [OF 1(2)] intro!: bindC_cong)
qed

lemma checkcode_same:
  assumes "same_code f g" "luaG_checkcode f = Inr True" "length (p_upvalues g) \<le> length (p_upvalues f)"
    "length (p_lineinfo g) = length (p_lineinfo f) \<or> p_lineinfo g = []"
  shows "luaG_checkcode g = Inr True"
proof -
  have "precheck f" using checkcode_accepted [OF assms(2)] by (simp add: accepted_def)
  then have "precheck g"
    using assms(3,4) by (auto simp: precheck_def vararg_flag_def same_codeD [OF assms(1)])
  with \<open>precheck f\<close> assms(2) show ?thesis
    by (simp add: luaG_checkcode_def symbexec_def symbexec_loop_same [OF assms(1)] same_codeD [OF assms(1)])
qed

section \<open>The round trip\<close>

text \<open>What comes back: without stripping, the prototype; with stripping, its code without the
  debug information, in a chunk called \<open>parent\<close>.\<close>

function reloaded :: "bool \<Rightarrow> string option \<Rightarrow> proto \<Rightarrow> proto" where
  "reloaded strip parent f =
     (let src = (if strip then parent else p_source f) in
      Proto (p_k f) (p_code f) (map (reloaded strip src) (p_p f))
        (if strip then [] else p_lineinfo f) (if strip then [] else p_locvars f) (if strip then [] else p_upvalues f)
        src (p_linedefined f) (p_lastlinedefined f) (p_nups f) (p_numparams f) (p_is_vararg f) (p_maxstacksize f))"
  by pat_completeness auto
termination
  by (relation "measure (\<lambda>(strip, parent, f). size f)") (auto intro: nested_smaller)

declare reloaded.simps [simp del]

lemma reloaded_all: "reloaded False parent f = f"
proof (induction "False" parent f rule: reloaded.induct)
  case (1 parent f)
  have "map (reloaded False (p_source f)) (p_p f) = p_p f" using 1 by (intro map_idI) simp
  then show ?case by (simp add: reloaded.simps [of False parent f])
qed

definition int_fits :: "int \<Rightarrow> bool" where "int_fits x \<longleftrightarrow> 0 \<le> x \<and> x \<le> INT_MAX"

definition const_fits :: "kval \<Rightarrow> bool" where
  "const_fits v \<longleftrightarrow> (case v of KString s \<Rightarrow> string_fits s | _ \<Rightarrow> True)"

definition locvar_fits :: "locvar \<Rightarrow> bool" where
  "locvar_fits v \<longleftrightarrow> string_fits (varname v) \<and> int_fits (startpc v) \<and> int_fits (endpc v)"

text \<open>A prototype the compiler may hand over: its sizes are \<^verbatim>\<open>int\<close>s, its code passes the
  checker, every function has a source, and the nesting leaves room for the C calls of the loader.\<close>

function dumpable :: "nat \<Rightarrow> proto \<Rightarrow> bool" where
  "dumpable n f \<longleftrightarrow>
     n < LUAI_MAXCCALLS \<and> luaG_checkcode f = Inr True \<and> p_source f \<noteq> None \<and> string_fits (p_source f)
     \<and> int_fits (p_linedefined f) \<and> int_fits (p_lastlinedefined f)
     \<and> int (length (p_code f)) \<le> INT_MAX \<and> int (length (p_k f)) \<le> INT_MAX \<and> int (length (p_p f)) \<le> INT_MAX
     \<and> int (length (p_lineinfo f)) \<le> INT_MAX \<and> int (length (p_locvars f)) \<le> INT_MAX
     \<and> int (length (p_upvalues f)) \<le> INT_MAX
     \<and> list_all const_fits (p_k f) \<and> list_all (\<lambda>x. INT_MIN \<le> x \<and> x \<le> INT_MAX) (p_lineinfo f)
     \<and> list_all locvar_fits (p_locvars f) \<and> list_all string_fits (p_upvalues f)
     \<and> list_all (dumpable (n + 1)) (p_p f)"
  by pat_completeness auto
termination
  by (relation "measure (\<lambda>(n, f). size f)") (auto intro: nested_smaller)

declare dumpable.simps [simp del]

lemma reads_constant:
  assumes "const_fits v"
  shows "reads LoadConstant (concat (constant_blocks v)) v"
proof -
  have t: "0 \<le> kttype v" "kttype v < 128" by (cases v; simp)+
  have "reads LoadConstant ([int2char (kttype v)] @ concat (tl (constant_blocks v))) v"
    unfolding LoadConstant_def
  proof (rule reads_bind [OF reads_char [OF t]])
    show "reads (if kttype v = 0 then retL KNil
       else if kttype v = 1 then bindL LoadChar (\<lambda>b. retL (KBoolean (b \<noteq> 0)))
       else if kttype v = 3 then bindL LoadNumber (\<lambda>n. retL (KNumber n))
       else if kttype v = 4 then bindL LoadString (\<lambda>s. retL (KString s))
       else errorL ''bad constant'') (concat (tl (constant_blocks v))) v"
      using assms reads_char [of 0] reads_char [of 1]
      by (cases v) (auto simp: constant_blocks_def const_fits_def reads_ret intro!: reads_map reads_number reads_string)
  qed
  then show ?thesis by (simp add: constant_blocks_def)
qed

lemma reads_locvar: "locvar_fits v \<Longrightarrow> reads LoadLocVar (concat (locvar_blocks v)) v"
  unfolding LoadLocVar_def locvar_blocks_def concat_append concat.simps append_Nil2
  by (intro reads_bind [OF reads_string] reads_bind [OF reads_int] reads_map [OF reads_int])
    (auto simp: locvar_fits_def int_fits_def)

lemma reloaded_same: "same_code f (reloaded strip parent f)"
proof -
  have "p_nups (reloaded strip src g) = p_nups g" for src g by (simp add: reloaded.simps [of strip src g] Let_def)
  then show ?thesis by (simp add: same_code_def reloaded.simps [of strip parent f] Let_def)
qed

lemma reloaded_checked: "luaG_checkcode f = Inr True \<Longrightarrow> luaG_checkcode (reloaded strip parent f) = Inr True"
  by (erule checkcode_same [OF reloaded_same]) (auto simp: reloaded.simps [of strip parent f] Let_def)

lemma reads_check_loaded: "luaG_checkcode f = Inr True \<Longrightarrow> reads (check_loaded f) [] f"
  by (simp add: reads_def check_loaded_def)

lemma reads_debug:
  assumes "dumpable n f"
  shows "reads LoadDebug (concat (debug_blocks strip f))
    (if strip then [] else p_lineinfo f, if strip then [] else p_locvars f, if strip then [] else p_upvalues f)"
proof -
  have fits: "list_all (\<lambda>x. INT_MIN \<le> x \<and> x \<le> INT_MAX) (p_lineinfo f)" "list_all locvar_fits (p_locvars f)"
    "list_all string_fits (p_upvalues f)" "int (length (p_lineinfo f)) \<le> INT_MAX"
    "int (length (p_locvars f)) \<le> INT_MAX" "int (length (p_upvalues f)) \<le> INT_MAX"
    using assms by (simp_all add: dumpable.simps [of n f])
  have max: "0 \<le> INT_MAX" by (simp add: INT_MAX_def)
  have 1: "reads (bindL LoadInt (\<lambda>n. LoadVector le_sint (nat n) sizeof_int))
      (concat (vector_blocks int_block (if strip then [] else p_lineinfo f))) (if strip then [] else p_lineinfo f)"
    using fits(1,4) max
    by (intro reads_vector) (auto simp: list_all_iff int_block_def sizeofs INT_MIN_def INT_MAX_def intro!: le_sint_le_bytes)
  have 2: "reads (bindL LoadInt (\<lambda>n. load_list LoadLocVar (nat n)))
      (concat (list_blocks locvar_blocks (if strip then [] else p_locvars f))) (map id (if strip then [] else p_locvars f))"
    using fits(2,5) max by (intro reads_counted) (auto simp: list_all_iff intro: reads_locvar)
  have 3: "reads (bindL LoadInt (\<lambda>n. load_list LoadString (nat n)))
      (concat (list_blocks string_blocks (if strip then [] else p_upvalues f))) (map id (if strip then [] else p_upvalues f))"
    using fits(3,6) max by (intro reads_counted) (auto simp: list_all_iff intro: reads_string)
  show ?thesis
    unfolding LoadDebug_def debug_blocks_def concat_append
    using 1 2 3 by (intro reads_bind [OF 1] reads_bind [OF 2] reads_map [OF 3]) simp_all
qed

lemma reads_code:
  "int (length code) \<le> INT_MAX \<Longrightarrow>
    reads LoadCode (concat (vector_blocks (\<lambda>i. le_bytes sizeof_Instruction (uint i)) code)) code"
proof -
  have "word_of_int (uint (i :: Instruction) mod 256 ^ 4) = i" for i using uint_lt2p [of i] by simp
  then show "int (length code) \<le> INT_MAX \<Longrightarrow> ?thesis"
    unfolding LoadCode_def by (intro reads_vector) (simp_all add: sizeofs le_int_le_bytes)
qed

text \<open>The source written for a function and the one its loader ends up with.\<close>

definition dumped_source :: "bool \<Rightarrow> proto \<Rightarrow> string option \<Rightarrow> string option" where
  "dumped_source strip f p = (if p_source f = p \<or> strip then None else p_source f)"

lemma proto_bytes:
  "concat (proto_blocks strip f p) =
     concat (string_blocks (dumped_source strip f p)) @ int_block (p_linedefined f) @ int_block (p_lastlinedefined f)
     @ [int2char (uint (p_nups f))] @ [int2char (uint (p_numparams f))]
     @ [int2char (uint (p_is_vararg f))] @ [int2char (uint (p_maxstacksize f))]
     @ concat (vector_blocks (\<lambda>i. le_bytes sizeof_Instruction (uint i)) (p_code f))
     @ concat (list_blocks constant_blocks (p_k f))
     @ concat (list_blocks (\<lambda>g. proto_blocks strip g (p_source f)) (p_p f))
     @ concat (debug_blocks strip f) @ []"
  by (simp add: proto_blocks.simps [of strip f p] start_blocks_def dumped_source_def list_blocks_def)

lemma reads_function:
  assumes "dumpable n f" "\<not> strip \<longrightarrow> p = None \<or> parent = p"
  shows "reads (LoadFunction n parent) (concat (proto_blocks strip f p)) (reloaded strip parent f)"
  using assms
proof (induction n f arbitrary: p parent rule: dumpable.induct)
  case (1 n f)
  note d = "1.prems"(1) [unfolded dumpable.simps [of n f]]
  let ?src0 = "dumped_source strip f p"
  define src where "src = (if strip then parent else p_source f)"
  have src: "(if ?src0 = None then parent else ?src0) = src"
    using "1.prems"(2) d by (auto simp: dumped_source_def src_def)
  have "string_fits ?src0" using d by (simp add: dumped_source_def string_fits_def)
  note r0 = reads_string [OF this]
  have k: "reads (bindL LoadInt (\<lambda>m. load_list LoadConstant (nat m))) (concat (list_blocks constant_blocks (p_k f))) (map id (p_k f))"
    using d by (intro reads_counted) (auto simp: list_all_iff intro: reads_constant)
  have ps: "reads (bindL LoadInt (\<lambda>m. load_list (LoadFunction (n + 1) src) (nat m)))
      (concat (list_blocks (\<lambda>g. proto_blocks strip g (p_source f)) (p_p f))) (map (reloaded strip src) (p_p f))"
  proof (rule reads_counted)
    show "\<forall>g \<in> set (p_p f). reads (LoadFunction (n + 1) src) (concat (proto_blocks strip g (p_source f))) (reloaded strip src g)"
      using d "1.IH" by (auto simp: list_all_iff src_def)
  qed (use d in simp)
  have c: "reads (check_loaded (reloaded strip parent f)) [] (reloaded strip parent f)"
    using d by (intro reads_check_loaded reloaded_checked) simp
  have R: "reloaded strip parent f = Proto (p_k f) (p_code f) (map (reloaded strip src) (p_p f))
        (if strip then [] else p_lineinfo f) (if strip then [] else p_locvars f) (if strip then [] else p_upvalues f)
        src (p_linedefined f) (p_lastlinedefined f) (p_nups f) (p_numparams f) (p_is_vararg f) (p_maxstacksize f)"
    by (simp add: reloaded.simps [of strip parent f] src_def Let_def)
  have i: "reads LoadInt (int_block (p_linedefined f)) (p_linedefined f)"
    "reads LoadInt (int_block (p_lastlinedefined f)) (p_lastlinedefined f)"
    using d by (auto simp: int_fits_def intro: reads_int)
  have code: "reads LoadCode (concat (vector_blocks (\<lambda>i. le_bytes sizeof_Instruction (uint i)) (p_code f))) (p_code f)"
    using d by (intro reads_code) simp
  have depth: "\<not> n + 1 > LUAI_MAXCCALLS" using d by simp
  show ?case
    unfolding LoadFunction.simps [of n parent] proto_bytes if_not_P [OF depth] Let_def
    apply (rule reads_bind [OF r0])
    unfolding src
    apply (rule reads_bind [OF i(1)] reads_bind [OF i(2)] reads_bind [OF reads_byte] reads_bind [OF code]
        reads_bind [OF k [unfolded map_ident id_def]] reads_bind [OF ps] reads_bind [OF reads_debug [OF "1.prems"(1)]])+
    using c unfolding R by simp
qed

section \<open>Loading anything\<close>

text \<open>On any input a loader ends with an error of the code or with a value in \<open>Q\<close>.\<close>

definition loads :: "'a loader \<Rightarrow> ('a \<Rightarrow> bool) \<Rightarrow> bool" where
  "loads m Q \<longleftrightarrow> (\<forall>S. zio_ok (S_Z S) \<longrightarrow> safe (m S) (\<lambda>(x, S'). Q x \<and> zio_ok (S_Z S')))"

lemma loads_ret [intro]: "Q x \<Longrightarrow> loads (retL x) Q"
  by (simp add: loads_def retL_def)

lemma loads_error [intro]: "loads (errorL why) Q"
  by (simp add: loads_def errorL_def)

lemma loads_bind:
  assumes "loads m P" "\<And>x. P x \<Longrightarrow> loads (k x) Q"
  shows "loads (bindL m k) Q"
  unfolding loads_def bindL_def
proof (intro allI impI)
  fix S :: LoadState assume "zio_ok (S_Z S)"
  then have "safe (m S) (\<lambda>(x, S'). P x \<and> zio_ok (S_Z S'))" using assms(1) by (simp add: loads_def)
  then show "safe (bindE (m S) (\<lambda>(x, S1). k x S1)) (\<lambda>(x, S'). Q x \<and> zio_ok (S_Z S'))"
    by (rule safe_bindE) (use assms(2) in \<open>auto simp: loads_def\<close>)
qed

lemma loads_any: "loads m P \<Longrightarrow> (\<And>x. loads (k x) Q) \<Longrightarrow> loads (bindL m k) Q"
  by (rule loads_bind)

lemma loads_block: "loads (LoadBlock n) (\<lambda>_. True)"
  unfolding loads_def
proof (intro allI impI)
  fix S :: LoadState assume "zio_ok (S_Z S)"
  from luaZ_read_spec [OF this, of "int n"] obtain z' where
    z': "luaZ_read (S_Z S) (int n) = Inr (take n (zrest (S_Z S)), int n - int (length (take n (zrest (S_Z S)))), z')"
    "int n \<le> int (length (zrest (S_Z S))) \<longrightarrow> zio_ok z'" by auto
  then show "safe (LoadBlock n S) (\<lambda>(x, S'). True \<and> zio_ok (S_Z S'))"
    by (cases "n \<le> length (zrest (S_Z S))") (auto simp: LoadBlock_def errorL_def)
qed

lemmas loads_intros = loads_any [OF loads_block] loads_ret loads_error

lemma loads_int: "loads LoadInt (\<lambda>_. True)"
  unfolding LoadInt_def by (intro loads_intros) (auto intro: loads_intros)

lemma loads_char: "loads LoadChar (\<lambda>_. True)"
  unfolding LoadChar_def by (intro loads_intros) simp

lemma loads_byte: "loads LoadByte (\<lambda>_. True)"
  unfolding LoadByte_def by (intro loads_any [OF loads_char] loads_ret) simp

lemma loads_string: "loads LoadString (\<lambda>_. True)"
  unfolding LoadString_def Let_def by (intro loads_intros) (auto intro!: loads_intros)

lemma loads_vector: "loads (LoadVector f n sz) (\<lambda>_. True)"
  unfolding LoadVector_def by (intro loads_intros) simp

lemma loads_list: "loads m Q \<Longrightarrow> loads (load_list m n) (list_all Q)"
proof (induction n)
  case (Suc n)
  then show ?case by (auto intro!: loads_bind [of m Q] loads_bind [of "load_list m n" "list_all Q"])
qed auto

lemma loads_counted: "loads m Q \<Longrightarrow> loads (bindL LoadInt (\<lambda>n. load_list m (nat n))) (list_all Q)"
  by (intro loads_any [OF loads_int] loads_list)

lemma loads_True: "loads m Q \<Longrightarrow> loads m (\<lambda>_. True)"
  by (auto simp: loads_def intro: safe_mono)

lemma loads_constant: "loads LoadConstant (\<lambda>_. True)"
  unfolding LoadConstant_def LoadNumber_def
  by (intro loads_any [OF loads_char])
    (auto intro!: loads_intros loads_any [OF loads_char] loads_any [OF loads_string] loads_any [OF loads_any [OF loads_block]])

lemma loads_code: "loads LoadCode (\<lambda>_. True)"
  unfolding LoadCode_def by (intro loads_any [OF loads_int] loads_vector)

lemma loads_locvar: "loads LoadLocVar (\<lambda>_. True)"
  unfolding LoadLocVar_def
  by (intro loads_any [OF loads_string] loads_any [OF loads_int] loads_ret TrueI)

lemma loads_debug: "loads LoadDebug (\<lambda>_. True)"
  unfolding LoadDebug_def
  by (intro loads_any [OF loads_any [OF loads_int loads_vector]] loads_any [OF loads_counted [OF loads_locvar]]
      loads_any [OF loads_counted [OF loads_string]] loads_ret TrueI)

text \<open>Every function of a prototype, at any depth, has passed the checker.\<close>

function all_checked :: "proto \<Rightarrow> bool" where
  "all_checked f \<longleftrightarrow> luaG_checkcode f = Inr True \<and> list_all all_checked (p_p f)"
  by pat_completeness auto
termination
  by (relation "measure size") (auto intro: nested_smaller)

declare all_checked.simps [simp del]

lemma checkcode_no_fault: "\<exists>b. luaG_checkcode f = Inr b"
  using symbexec_spec [of "sizecode f" f NO_REG] by (auto simp: luaG_checkcode_def)

lemma loads_check: "list_all all_checked (p_p f) \<Longrightarrow> loads (check_loaded f) all_checked"
  using checkcode_no_fault [of f]
  by (auto simp: loads_def check_loaded_def errorL_def all_checked.simps [of f])

lemma loads_function: "loads (LoadFunction n p) all_checked"
proof (induction n p rule: LoadFunction.induct)
  case (1 n p)
  show ?case
  proof (cases "n + 1 > LUAI_MAXCCALLS")
    case True
    then show ?thesis by (auto simp: LoadFunction.simps [of n p])
  next
    case False
    note IH = loads_counted [OF 1 [OF False refl]]
    show ?thesis
      unfolding LoadFunction.simps [of n p] if_not_P [OF False] Let_def
      by (intro loads_any [OF loads_string] loads_any [OF loads_int] loads_any [OF loads_byte] loads_any [OF loads_code]
          loads_any [OF loads_True [OF loads_counted [OF loads_constant]]] loads_bind [OF IH])
        (auto intro!: loads_any [OF loads_debug] loads_check split: prod.splits)
  qed
qed

lemma loads_header: "loads LoadHeader (\<lambda>_. True)"
  unfolding LoadHeader_def by (intro loads_intros) (auto intro: loads_intros)

section \<open>The promises of \<^verbatim>\<open>ldump.c\<close> and \<^verbatim>\<open>lundump.c\<close>\<close>

text \<open>
  C15. Dumping a prototype calls the client's writer with a sequence of blocks that depends on
  the prototype and the strip flag alone, in order; the first non-zero status stops the
  writing for good and is the result.
\<close>

theorem dump_block_sequence:
  "luaU_dump f w data strip = run_writer w (chunk_blocks strip f) data"
  by (rule luaU_dump_spec)

lemma run_writer_append: "run_writer (\<lambda>b d. (0, d @ b)) bs d = (0, d @ concat bs)"
  by (induction bs arbitrary: d) simp_all

lemma reads_header: "reads LoadHeader luaU_header ()"
proof -
  have "length luaU_header = LUAC_HEADERSIZE" by code_simp
  then show ?thesis
    using reads_bind [OF reads_block [of luaU_header LUAC_HEADERSIZE],
        of "\<lambda>s. if s \<noteq> luaU_header then errorL ''bad header'' else retL ()" "[]" "()"] reads_ret [of "()"]
    by (simp add: LoadHeader_def)
qed

lemma undump_dump_spec:
  assumes "dumpable n f" "zio_ok z" "zrest z = concat (chunk_blocks strip f) @ rest"
  shows "\<exists>z'. luaU_undump z n name = Inr (reloaded strip (Some ''=?'') f, z') \<and> zio_ok z' \<and> zrest z' = rest"
proof -
  let ?S = "\<lparr>S_Z = z, S_name = chunk_name name\<rparr>"
  have "reads (bindL LoadHeader (\<lambda>_. LoadFunction n (Some ''=?''))) (luaU_header @ concat (proto_blocks strip f None))
      (reloaded strip (Some ''=?'') f)"
    by (rule reads_bind [OF reads_header reads_function [OF assms(1)]]) simp
  moreover have "zio_ok (S_Z ?S)" "zrest (S_Z ?S) = (luaU_header @ concat (proto_blocks strip f None)) @ rest"
    using assms(2,3) by (simp_all add: chunk_blocks_def)
  ultimately obtain S' where "bindL LoadHeader (\<lambda>_. LoadFunction n (Some ''=?'')) ?S = Inr (reloaded strip (Some ''=?'') f, S')"
    "zio_ok (S_Z S')" "zrest (S_Z S') = rest" by (rule readsD)
  then show ?thesis by (simp add: luaU_undump_def)
qed

text \<open>
  C16. A dumped function loads back: whatever pieces the reader cuts the bytes into, the loader
  takes exactly the bytes the writer collected, nested functions, constants and debug
  information included, and returns the same prototype -- or, when stripped, the prototype
  without its debug information.
\<close>

theorem dump_undump:
  assumes "dumpable n f" "luaU_dump f (\<lambda>b d. (0, d @ b)) [] strip = (0, bytes)"
    and "zio_ok z" "zrest z = bytes @ rest"
  shows "\<exists>z'. luaU_undump z n name = Inr (if strip then reloaded True (Some ''=?'') f else f, z') \<and> zrest z' = rest"
proof -
  have "bytes = concat (chunk_blocks strip f)" using assms(2) by (simp add: luaU_dump_spec run_writer_append)
  with undump_dump_spec [OF assms(1,3), of strip rest name] assms(4)
  show ?thesis by (cases strip) (auto simp: reloaded_all)
qed

text \<open>The sample function with a source and a nested copy of itself.\<close>

definition sample_chunk :: proto where
  "sample_chunk =
     Proto [KString (Some ''x''), KNumber 0, KNil] (p_code sample_proto)
       [Proto [] (p_code sample_proto) [] [7, 7, 8, 9] [] [] (Some ''@a.lua'') 2 3 0 0 0 2]
       [1, 1, 1, 1] [\<lparr>varname = Some ''v'', startpc = 0, endpc = 2\<rparr>] [] (Some ''@a.lua'') 0 0 0 0 2 2"

lemma sample_dumpable: "dumpable 0 sample_chunk"
  by code_simp

lemma dump_undump_witness:
  "\<exists>bytes z'. luaU_dump sample_chunk (\<lambda>b d. (0, d @ b)) [] False = (0, bytes)
     \<and> luaU_undump (luaZ_init [take 5 bytes, drop 5 bytes]) 0 ''=chunk'' = Inr (sample_chunk, z')"
proof -
  let ?bytes = "concat (chunk_blocks False sample_chunk)"
  have d: "luaU_dump sample_chunk (\<lambda>b d. (0, d @ b)) [] False = (0, ?bytes)"
    by (simp add: luaU_dump_spec run_writer_append)
  have "length luaU_header = 12" by code_simp
  then have "take 5 ?bytes \<noteq> []" "drop 5 ?bytes \<noteq> []" by (auto simp: chunk_blocks_def)
  then have "zrest (luaZ_init [take 5 ?bytes, drop 5 ?bytes]) = ?bytes @ []" by simp
  from dump_undump [OF sample_dumpable d zio_ok_init this] d show ?thesis by auto
qed

text \<open>
  C17. Loading is safe on any input, in any pieces and under any name: the loader ends with a
  syntax error of its own or with a prototype that, like every function nested in it, the
  checker has accepted; it never reads outside the input.
\<close>

theorem undump_any_input:
  assumes "zio_ok z"
  shows "case luaU_undump z n name of
      Inl e \<Rightarrow> code_error e
    | Inr (f, z') \<Rightarrow> all_checked f \<and> zio_ok z'"
proof -
  have "loads (bindL LoadHeader (\<lambda>_. LoadFunction n (Some ''=?''))) all_checked"
    by (intro loads_any [OF loads_header] loads_function)
  then have "safe (bindL LoadHeader (\<lambda>_. LoadFunction n (Some ''=?'')) \<lparr>S_Z = z, S_name = chunk_name name\<rparr>)
      (\<lambda>(f, S). all_checked f \<and> zio_ok (S_Z S))" using assms by (simp add: loads_def)
  then show ?thesis by (auto simp: luaU_undump_def safe_def split: sum.splits prod.splits)
qed

lemma undump_any_input_witness:
  "zio_ok (luaZ_init [''junk'']) \<and>
   luaU_undump (luaZ_init [''junk'']) 0 ''@x'' = Inl (ErrSyntax ''x: unexpected end in precompiled chunk'') \<and>
   code_error (ErrSyntax ''x: unexpected end in precompiled chunk'')"
proof -
  have u: "luaU_undump (luaZ_init [''junk'']) 0 ''@x'' = Inl (ErrSyntax ''x: unexpected end in precompiled chunk'')"
    by code_simp
  have "zio_ok (luaZ_init [''junk''])" by simp
  from undump_any_input [OF this, of 0 "''@x''"] this show ?thesis unfolding u by simp
qed

end
