(* ===== verification/LuaApi.thy ===== *)
theory LuaApi
  imports LuaVm LuaDump
begin

text \<open>
  The C API of \<^verbatim>\<open>lapi.c\<close>, as a running C function sees it.

  \<open>stack\<close> is the frame of the function from \<^verbatim>\<open>L->base\<close> to \<^verbatim>\<open>L->top\<close>, \<open>ci_top\<close> the room
  \<^verbatim>\<open>L->ci->top - L->base\<close> it may use, \<open>ci_func\<close> its closure (\<open>None\<close> at the base level), \<open>ci_levels\<close> what
  \<^verbatim>\<open>lua_getinfo\<close> reports for the active functions, from this one outwards.  The
  conditions of the \<^verbatim>\<open>api_check\<close> macros, which the program is compiled without, are obligations
  of the caller: breaking one is \<open>ErrFault\<close>.
\<close>

section \<open>State and steps\<close>

record lua_Debug =
  ar_name :: "string option"
  ar_namewhat :: string
  ar_currentline :: int
  ar_short_src :: string

record lstate =
  st :: store
  stack :: "tvalue list"
  ci_top :: nat
  ci_func :: "nat option"
  ci_levels :: "lua_Debug list"

type_synonym 'a api = "lstate \<Rightarrow> lua_error + 'a \<times> lstate"

definition bindA :: "'a api \<Rightarrow> ('a \<Rightarrow> 'b api) \<Rightarrow> 'b api" where
  "bindA m k L = bindE (m L) (\<lambda>(x, L1). k x L1)"

definition retA :: "'a \<Rightarrow> 'a api" where
  "retA x L = Inr (x, L)"

definition throwA :: "lua_error \<Rightarrow> 'a api" where
  "throwA e L = Inl e"

definition api_check :: "(lstate \<Rightarrow> bool) \<Rightarrow> 'a api \<Rightarrow> 'a api" where
  "api_check c m L = (if c L then m L else Inl ErrFault)"

text \<open>Reading and changing the store.\<close>

definition readS :: "(store \<Rightarrow> lua_error + 'a) \<Rightarrow> 'a api" where
  "readS f L = bindE (f (st L)) (\<lambda>x. Inr (x, L))"

definition stepS :: "(store \<Rightarrow> lua_error + 'a \<times> store) \<Rightarrow> 'a api" where
  "stepS f L = bindE (f (st L)) (\<lambda>(x, S). Inr (x, L\<lparr>st := S\<rparr>))"

section \<open>Addresses\<close>

datatype adr = AStack nat | ARegistry | AEnviron | AGlobals | AUpvalue nat | ANone

definition LUA_REGISTRYINDEX :: int where "LUA_REGISTRYINDEX = -10000"
definition LUA_ENVIRONINDEX :: int where "LUA_ENVIRONINDEX = -10001"
definition LUA_GLOBALSINDEX :: int where "LUA_GLOBALSINDEX = -10002"

definition curr_func :: "lstate \<Rightarrow> lua_error + nat \<times> closure" where
  "curr_func L =
     (case ci_func L of None \<Rightarrow> Inl ErrFault
      | Some f \<Rightarrow> (case s_closures (st L) f of None \<Rightarrow> Inl ErrFault | Some cl \<Rightarrow> Inr (f, cl)))"

definition upvalues_of :: "closure \<Rightarrow> tvalue list" where
  "upvalues_of cl = (case cl of CClosure f e uv \<Rightarrow> uv | LClosure p e uv \<Rightarrow> [])"

definition index2adr :: "int \<Rightarrow> lstate \<Rightarrow> lua_error + adr" where
  "index2adr idx L =
     (if idx > 0 then
        (if idx \<le> int (ci_top L) then
           Inr (if idx - 1 \<ge> int (length (stack L)) then ANone else AStack (nat (idx - 1)))
         else Inl ErrFault)
      else if idx > LUA_REGISTRYINDEX then
        (if idx \<noteq> 0 \<and> - idx \<le> int (length (stack L)) then Inr (AStack (nat (int (length (stack L)) + idx)))
         else Inl ErrFault)
      else if idx = LUA_REGISTRYINDEX then Inr ARegistry
      else if idx = LUA_ENVIRONINDEX then bindE (curr_func L) (\<lambda>_. Inr AEnviron)
      else if idx = LUA_GLOBALSINDEX then Inr AGlobals
      else bindE (curr_func L) (\<lambda>(f, cl).
        let i = LUA_GLOBALSINDEX - idx in
        Inr (if i \<le> int (length (upvalues_of cl)) then AUpvalue (nat (i - 1)) else ANone)))"

text \<open>\<open>TNil\<close> for \<^verbatim>\<open>luaO_nilobject\<close>; the pseudo-index of the environment is computed on access.\<close>

definition val_at :: "adr \<Rightarrow> lstate \<Rightarrow> lua_error + tvalue" where
  "val_at p L =
     (case p of
        AStack i \<Rightarrow> if i < length (stack L) then Inr (stack L ! i) else Inl ErrFault
      | ARegistry \<Rightarrow> Inr (s_registry (st L))
      | AEnviron \<Rightarrow> bindE (curr_func L) (\<lambda>(f, cl). Inr (TTable (cl_env cl)))
      | AGlobals \<Rightarrow> Inr (s_gt (st L))
      | AUpvalue i \<Rightarrow> bindE (curr_func L) (\<lambda>(f, cl).
          if i < length (upvalues_of cl) then Inr (upvalues_of cl ! i) else Inl ErrFault)
      | ANone \<Rightarrow> Inr TNil)"

definition adrA :: "int \<Rightarrow> adr api" where
  "adrA idx L = bindE (index2adr idx L) (\<lambda>p. Inr (p, L))"

definition valA :: "int \<Rightarrow> tvalue api" where
  "valA idx L = bindE (index2adr idx L) (\<lambda>p. bindE (val_at p L) (\<lambda>v. Inr (v, L)))"

text \<open>\<^verbatim>\<open>api_checkvalidindex\<close>\<close>

definition valid_adrA :: "int \<Rightarrow> adr api" where
  "valid_adrA idx = bindA (adrA idx) (\<lambda>p. if p = ANone then throwA ErrFault else retA p)"

definition getcurrenv :: "lstate \<Rightarrow> lua_error + nat" where
  "getcurrenv L =
     (if ci_func L = None then (case s_gt (st L) of TTable h \<Rightarrow> Inr h | _ \<Rightarrow> Inl ErrFault)
      else bindE (curr_func L) (\<lambda>(f, cl). Inr (cl_env cl)))"

section \<open>Stack manipulation\<close>

definition LUAI_MAXCSTACK :: int where "LUAI_MAXCSTACK = 8000"

definition pushA :: "tvalue \<Rightarrow> unit api" where
  "pushA v L =
     (if length (stack L) < ci_top L then Inr ((), L\<lparr>stack := stack L @ [v]\<rparr>) else Inl ErrFault)"

definition popA :: "nat \<Rightarrow> unit api" where
  "popA n L =
     (if n \<le> length (stack L) then Inr ((), L\<lparr>stack := take (length (stack L) - n) (stack L)\<rparr>)
      else Inl ErrFault)"

text \<open>\<^verbatim>\<open>L->top - i\<close>, for \<open>i \<ge> 1\<close>.\<close>

definition topA :: "nat \<Rightarrow> tvalue api" where
  "topA i L =
     (if i \<le> length (stack L) then Inr (stack L ! (length (stack L) - i), L) else Inl ErrFault)"

definition set_topA :: "nat \<Rightarrow> tvalue \<Rightarrow> unit api" where
  "set_topA i v L =
     (if i \<le> length (stack L) then Inr ((), L\<lparr>stack := (stack L)[length (stack L) - i := v]\<rparr>)
      else Inl ErrFault)"

definition luaA_pushobject :: "tvalue \<Rightarrow> unit api" where
  "luaA_pushobject = pushA"

definition lua_checkstack :: "int \<Rightarrow> bool api" where
  "lua_checkstack sz L =
     (if sz > LUAI_MAXCSTACK \<or> int (length (stack L)) + sz > LUAI_MAXCSTACK then Inr (False, L)
      else if sz > 0 then Inr (True, L\<lparr>ci_top := max (ci_top L) (length (stack L) + nat sz)\<rparr>)
      else Inr (True, L))"

text \<open>Two threads of one program share the store.\<close>

definition lua_xmove :: "nat \<Rightarrow> lstate \<Rightarrow> lstate \<Rightarrow> lua_error + lstate \<times> lstate" where
  "lua_xmove n fr to =
     (if n \<le> length (stack fr) \<and> n \<le> ci_top to - length (stack to) then
        let k = length (stack fr) - n in
        Inr (fr\<lparr>stack := take k (stack fr)\<rparr>, to\<lparr>stack := stack to @ drop k (stack fr)\<rparr>)
      else Inl ErrFault)"

definition lua_gettop :: "int api" where
  "lua_gettop L = Inr (int (length (stack L)), L)"

definition lua_settop :: "int \<Rightarrow> unit api" where
  "lua_settop idx L =
     (if idx \<ge> 0 then
        (if idx \<le> int (ci_top L) then
           Inr ((), L\<lparr>stack := take (nat idx) (stack L) @ replicate (nat idx - length (stack L)) TNil\<rparr>)
         else Inl ErrFault)
      else if - (idx + 1) \<le> int (length (stack L)) then
        Inr ((), L\<lparr>stack := take (nat (int (length (stack L)) + (idx + 1))) (stack L)\<rparr>)
      else Inl ErrFault)"

text \<open>The loops of \<^verbatim>\<open>lua_remove\<close> and \<^verbatim>\<open>lua_insert\<close> shift the slots above \<open>i\<close> by one.\<close>

definition shift_down :: "nat \<Rightarrow> tvalue list \<Rightarrow> tvalue list" where
  "shift_down i s = butlast (fold (\<lambda>p s. s[p - 1 := s ! p]) [i + 1 ..< length s] s)"

definition shift_up :: "nat \<Rightarrow> tvalue list \<Rightarrow> tvalue list" where
  "shift_up i s =
     (let s1 = s @ [TNil]; s2 = fold (\<lambda>q s. s[q := s ! (q - 1)]) (rev [i + 1 ..< length s + 1]) s1
      in butlast (s2[i := s2 ! length s]))"

definition lua_remove :: "int \<Rightarrow> unit api" where
  "lua_remove idx = bindA (valid_adrA idx) (\<lambda>p.
     case p of AStack i \<Rightarrow> (\<lambda>L. Inr ((), L\<lparr>stack := shift_down i (stack L)\<rparr>)) | _ \<Rightarrow> throwA ErrFault)"

definition lua_insert :: "int \<Rightarrow> unit api" where
  "lua_insert idx = bindA (valid_adrA idx) (\<lambda>p.
     case p of AStack i \<Rightarrow> (\<lambda>L. Inr ((), L\<lparr>stack := shift_up i (stack L)\<rparr>)) | _ \<Rightarrow> throwA ErrFault)"

definition set_closure :: "nat \<Rightarrow> closure \<Rightarrow> lstate \<Rightarrow> lstate" where
  "set_closure f cl L = L\<lparr>st := (st L)\<lparr>s_closures := (s_closures (st L))(f \<mapsto> cl)\<rparr>\<rparr>"

definition set_env :: "nat \<Rightarrow> closure \<Rightarrow> closure" where
  "set_env h cl = (case cl of CClosure f e uv \<Rightarrow> CClosure f h uv | LClosure p e uv \<Rightarrow> LClosure p h uv)"

definition set_upvalue :: "nat \<Rightarrow> tvalue \<Rightarrow> closure \<Rightarrow> closure" where
  "set_upvalue i v cl = (case cl of CClosure f e uv \<Rightarrow> CClosure f e (uv[i := v]) | _ \<Rightarrow> cl)"

definition set_adr :: "adr \<Rightarrow> tvalue \<Rightarrow> unit api" where
  "set_adr p v L =
     (case p of
        AStack i \<Rightarrow> Inr ((), L\<lparr>stack := (stack L)[i := v]\<rparr>)
      | ARegistry \<Rightarrow> Inr ((), L\<lparr>st := (st L)\<lparr>s_registry := v\<rparr>\<rparr>)
      | AGlobals \<Rightarrow> Inr ((), L\<lparr>st := (st L)\<lparr>s_gt := v\<rparr>\<rparr>)
      | AEnviron \<Rightarrow> bindE (curr_func L) (\<lambda>(f, cl).
          case v of TTable h \<Rightarrow> Inr ((), set_closure f (set_env h cl) L) | _ \<Rightarrow> Inl ErrFault)
      | AUpvalue i \<Rightarrow> bindE (curr_func L) (\<lambda>(f, cl). Inr ((), set_closure f (set_upvalue i v cl) L))
      | ANone \<Rightarrow> Inl ErrFault)"

definition lua_replace :: "int \<Rightarrow> unit api" where
  "lua_replace idx L =
     (if idx = LUA_ENVIRONINDEX \<and> ci_func L = None then Inl (ErrRun ''no calling environment'')
      else bindA (topA 1) (\<lambda>v. bindA (valid_adrA idx) (\<lambda>p. bindA (set_adr p v) (\<lambda>_. popA 1))) L)"

definition lua_pushvalue :: "int \<Rightarrow> unit api" where
  "lua_pushvalue idx = bindA (valA idx) pushA"

section \<open>Access functions\<close>

definition LUA_TNONE :: int where "LUA_TNONE = -1"

definition lua_type :: "int \<Rightarrow> int api" where
  "lua_type idx = bindA (adrA idx) (\<lambda>p. if p = ANone then retA LUA_TNONE else bindA (valA idx) (\<lambda>v. retA (ttype v)))"

definition lua_typename :: "int \<Rightarrow> string" where
  "lua_typename t = (if t = LUA_TNONE then ''no value'' else luaT_typenames ! nat t)"

definition closure_at :: "store \<Rightarrow> tvalue \<Rightarrow> closure option" where
  "closure_at S v = (case v of TFunction f \<Rightarrow> s_closures S f | _ \<Rightarrow> None)"

definition is_C :: "closure \<Rightarrow> bool" where
  "is_C cl \<longleftrightarrow> (case cl of CClosure _ _ _ \<Rightarrow> True | _ \<Rightarrow> False)"

definition lua_iscfunction :: "int \<Rightarrow> bool api" where
  "lua_iscfunction idx = bindA (valA idx) (\<lambda>v. \<lambda>L.
     Inr (case closure_at (st L) v of Some cl \<Rightarrow> is_C cl | None \<Rightarrow> False, L))"

definition tonumberA :: "tvalue \<Rightarrow> lua_Number option api" where
  "tonumberA v L = Inr (luaV_tonumber (s_decpoint (st L)) v, L)"

definition lua_isnumber :: "int \<Rightarrow> bool api" where
  "lua_isnumber idx = bindA (valA idx) (\<lambda>v. bindA (tonumberA v) (\<lambda>n. retA (n \<noteq> None)))"

definition lua_isstring :: "int \<Rightarrow> bool api" where
  "lua_isstring idx = bindA (lua_type idx) (\<lambda>t. retA (t = 4 \<or> t = 3))"

definition lua_isuserdata :: "int \<Rightarrow> bool api" where
  "lua_isuserdata idx = bindA (valA idx) (\<lambda>v. retA (ttype v = 7 \<or> ttype v = 2))"

definition two_values :: "int \<Rightarrow> int \<Rightarrow> (tvalue \<Rightarrow> tvalue \<Rightarrow> bool api) \<Rightarrow> bool api" where
  "two_values i j f =
     bindA (adrA i) (\<lambda>p. bindA (adrA j) (\<lambda>q.
     if p = ANone \<or> q = ANone then retA False
     else bindA (valA i) (\<lambda>a. bindA (valA j) (\<lambda>b. f a b))))"

definition lua_rawequal :: "int \<Rightarrow> int \<Rightarrow> bool api" where
  "lua_rawequal index1 index2 = two_values index1 index2 (\<lambda>a b. retA (luaO_rawequalObj a b))"

definition lua_equal :: "host \<Rightarrow> int \<Rightarrow> int \<Rightarrow> bool api" where
  "lua_equal call index1 index2 = two_values index1 index2 (\<lambda>a b. stepS (\<lambda>S. equalobj call S a b))"

definition lua_lessthan :: "host \<Rightarrow> int \<Rightarrow> int \<Rightarrow> bool api" where
  "lua_lessthan call index1 index2 = two_values index1 index2 (\<lambda>a b. stepS (\<lambda>S. luaV_lessthan call S a b))"

definition lua_tonumber :: "int \<Rightarrow> lua_Number api" where
  "lua_tonumber idx = bindA (valA idx) (\<lambda>v. bindA (tonumberA v) (\<lambda>n.
     retA (case n of Some x \<Rightarrow> x | None \<Rightarrow> 0)))"

definition lua_number2integer :: "lua_Number \<Rightarrow> int" where
  "lua_number2integer d =
     (case dbl_trunc d of None \<Rightarrow> - (2 ^ 63)
      | Some i \<Rightarrow> if - (2 ^ 63) \<le> i \<and> i < 2 ^ 63 then i else - (2 ^ 63))"

definition lua_tointeger :: "int \<Rightarrow> int api" where
  "lua_tointeger idx = bindA (valA idx) (\<lambda>v. bindA (tonumberA v) (\<lambda>n.
     retA (case n of Some x \<Rightarrow> lua_number2integer x | None \<Rightarrow> 0)))"

definition lua_toboolean :: "int \<Rightarrow> bool api" where
  "lua_toboolean idx = bindA (valA idx) (\<lambda>v. retA (\<not> l_isfalse v))"

text \<open>A number is converted where it is; \<open>None\<close> is \<^verbatim>\<open>NULL\<close>.\<close>

definition lua_tolstring :: "int \<Rightarrow> string option api" where
  "lua_tolstring idx = bindA (valA idx) (\<lambda>v.
     case v of
       TString s \<Rightarrow> retA (Some s)
     | _ \<Rightarrow> (case luaV_tostring v of
         Some (TString s) \<Rightarrow> bindA (adrA idx) (\<lambda>p. bindA (set_adr p (TString s)) (\<lambda>_. retA (Some s)))
       | _ \<Rightarrow> retA None))"

definition lua_objlen :: "int \<Rightarrow> int api" where
  "lua_objlen idx = bindA (valA idx) (\<lambda>v.
     case v of
       TString s \<Rightarrow> retA (int (length s))
     | TUserdata u \<Rightarrow> readS (\<lambda>S. bindE (uvalue S u) (\<lambda>d. Inr (int (u_len d))))
     | TTable h \<Rightarrow> readS (\<lambda>S. bindE (hvalue S h) luaH_getn)
     | TNumber n \<Rightarrow> bindA (lua_tolstring idx) (\<lambda>s. retA (case s of Some t \<Rightarrow> int (length t) | None \<Rightarrow> 0))
     | _ \<Rightarrow> retA 0)"

definition lua_tocfunction :: "int \<Rightarrow> nat option api" where
  "lua_tocfunction idx = bindA (valA idx) (\<lambda>v. \<lambda>L.
     Inr (case closure_at (st L) v of Some (CClosure f _ _) \<Rightarrow> Some f | _ \<Rightarrow> None, L))"

text \<open>The block of a userdata and a light pointer.\<close>

definition lua_touserdata :: "int \<Rightarrow> (nat + nat) option api" where
  "lua_touserdata idx = bindA (valA idx) (\<lambda>v. retA
     (case v of TUserdata u \<Rightarrow> Some (Inl u) | TLightUserdata p \<Rightarrow> Some (Inr p) | _ \<Rightarrow> None))"

definition lua_tothread :: "int \<Rightarrow> nat option api" where
  "lua_tothread idx = bindA (valA idx) (\<lambda>v. retA (case v of TThread t \<Rightarrow> Some t | _ \<Rightarrow> None))"

section \<open>Push functions\<close>

definition lua_pushnil :: "unit api" where
  "lua_pushnil = pushA TNil"

definition lua_pushnumber :: "lua_Number \<Rightarrow> unit api" where
  "lua_pushnumber n = pushA (TNumber n)"

definition lua_pushinteger :: "int \<Rightarrow> unit api" where
  "lua_pushinteger n = pushA (TNumber (cast_num n))"

definition lua_pushlstring :: "string \<Rightarrow> unit api" where
  "lua_pushlstring s = pushA (TString s)"

definition lua_pushstring :: "string option \<Rightarrow> unit api" where
  "lua_pushstring s = (case s of None \<Rightarrow> lua_pushnil | Some t \<Rightarrow> lua_pushlstring (cstr t))"

definition lua_pushvfstring :: "string \<Rightarrow> fmt_arg list \<Rightarrow> string api" where
  "lua_pushvfstring fmt args L = bindE (luaO_pushvfstring fmt args) (\<lambda>s. bindE (pushA (TString s) L) (\<lambda>(_, L1). Inr (s, L1)))"

text \<open>A new object gets the next number.\<close>

definition newA :: "(nat \<Rightarrow> store \<Rightarrow> store) \<Rightarrow> nat api" where
  "newA f L = Inr (s_next (st L), L\<lparr>st := f (s_next (st L)) ((st L)\<lparr>s_next := s_next (st L) + 1\<rparr>)\<rparr>)"

definition lua_pushcclosure :: "nat \<Rightarrow> nat \<Rightarrow> unit api" where
  "lua_pushcclosure fn n L =
     (if n \<le> length (stack L) then
        bindE (getcurrenv L) (\<lambda>e.
        let uv = drop (length (stack L) - n) (stack L) in
        bindA (popA n) (\<lambda>_.
        bindA (newA (\<lambda>c S. S\<lparr>s_closures := (s_closures S)(c \<mapsto> CClosure fn e uv)\<rparr>)) (\<lambda>c.
        pushA (TFunction c))) L)
      else Inl ErrFault)"

definition lua_pushboolean :: "int \<Rightarrow> unit api" where
  "lua_pushboolean b = pushA (TBoolean (b \<noteq> 0))"

definition lua_pushlightuserdata :: "nat \<Rightarrow> unit api" where
  "lua_pushlightuserdata p = pushA (TLightUserdata p)"

section \<open>Get functions\<close>

definition lua_gettable :: "host \<Rightarrow> int \<Rightarrow> unit api" where
  "lua_gettable call idx = bindA (valid_adrA idx) (\<lambda>_. bindA (valA idx) (\<lambda>t. bindA (topA 1) (\<lambda>key.
     bindA (stepS (\<lambda>S. luaV_gettable call S t key)) (set_topA 1))))"

definition lua_getfield :: "host \<Rightarrow> int \<Rightarrow> string \<Rightarrow> unit api" where
  "lua_getfield call idx k = bindA (valid_adrA idx) (\<lambda>_. bindA (valA idx) (\<lambda>t.
     bindA (stepS (\<lambda>S. luaV_gettable call S t (TString (cstr k)))) pushA))"

definition tableA :: "int \<Rightarrow> nat api" where
  "tableA idx = bindA (valA idx) (\<lambda>v. case v of TTable h \<Rightarrow> retA h | _ \<Rightarrow> throwA ErrFault)"

definition lua_rawget :: "int \<Rightarrow> unit api" where
  "lua_rawget idx = bindA (tableA idx) (\<lambda>h. bindA (topA 1) (\<lambda>key.
     bindA (readS (\<lambda>S. bindE (hvalue S h) (\<lambda>t. bindE (luaH_get t key) (\<lambda>s. Inr (slot_read t s))))) (set_topA 1)))"

definition lua_rawgeti :: "int \<Rightarrow> int \<Rightarrow> unit api" where
  "lua_rawgeti idx n = bindA (tableA idx) (\<lambda>h.
     bindA (readS (\<lambda>S. bindE (hvalue S h) (\<lambda>t. table_geti t n))) pushA)"

definition lua_createtable :: "nat \<Rightarrow> int \<Rightarrow> unit api" where
  "lua_createtable narray nrec L =
     bindE (luaH_new narray nrec) (\<lambda>t. bindA (newA (\<lambda>h. set_table h t)) (\<lambda>h. pushA (TTable h)) L)"

definition lua_getmetatable :: "int \<Rightarrow> bool api" where
  "lua_getmetatable objindex = bindA (valA objindex) (\<lambda>obj. bindA (readS (\<lambda>S. metatable_of S obj)) (\<lambda>mt.
     case mt of None \<Rightarrow> retA False | Some m \<Rightarrow> bindA (pushA (TTable m)) (\<lambda>_. retA True)))"

definition lua_getfenv :: "int \<Rightarrow> unit api" where
  "lua_getfenv idx = bindA (valid_adrA idx) (\<lambda>_. bindA (valA idx) (\<lambda>v.
     case v of
       TFunction f \<Rightarrow> (\<lambda>L. case s_closures (st L) f of Some cl \<Rightarrow> pushA (TTable (cl_env cl)) L | None \<Rightarrow> Inl ErrFault)
     | TUserdata u \<Rightarrow> bindA (readS (\<lambda>S. uvalue S u)) (\<lambda>d. pushA (TTable (u_env d)))
     | TThread _ \<Rightarrow> (\<lambda>L. pushA (s_gt (st L)) L)
     | _ \<Rightarrow> pushA TNil))"

section \<open>Set functions\<close>

definition lua_settable :: "host \<Rightarrow> int \<Rightarrow> unit api" where
  "lua_settable call idx = bindA (topA 2) (\<lambda>key. bindA (topA 1) (\<lambda>v. bindA (valid_adrA idx) (\<lambda>_. bindA (valA idx) (\<lambda>t.
     bindA (stepS (\<lambda>S. bindE (luaV_settable call S t key v) (\<lambda>S1. Inr ((), S1)))) (\<lambda>_. popA 2)))))"

definition lua_setfield :: "host \<Rightarrow> int \<Rightarrow> string \<Rightarrow> unit api" where
  "lua_setfield call idx k = bindA (topA 1) (\<lambda>v. bindA (valid_adrA idx) (\<lambda>_. bindA (valA idx) (\<lambda>t.
     bindA (stepS (\<lambda>S. bindE (luaV_settable call S t (TString (cstr k)) v) (\<lambda>S1. Inr ((), S1)))) (\<lambda>_. popA 1))))"

definition updateS :: "nat \<Rightarrow> (table \<Rightarrow> lua_error + table) \<Rightarrow> store \<Rightarrow> lua_error + unit \<times> store" where
  "updateS h f S = bindE (hvalue S h) (\<lambda>t. bindE (f t) (\<lambda>t1. Inr ((), set_table h t1 S)))"

definition lua_rawset :: "int \<Rightarrow> unit api" where
  "lua_rawset idx = bindA (topA 2) (\<lambda>key. bindA (topA 1) (\<lambda>v. bindA (tableA idx) (\<lambda>h.
     bindA (stepS (updateS h (\<lambda>t. table_put t key v))) (\<lambda>_. popA 2))))"

definition lua_rawseti :: "int \<Rightarrow> int \<Rightarrow> unit api" where
  "lua_rawseti idx n = bindA (topA 1) (\<lambda>v. bindA (tableA idx) (\<lambda>h.
     bindA (stepS (updateS h (\<lambda>t. table_puti t n v))) (\<lambda>_. popA 1)))"

text \<open>Only the thread's own globals are in the state, so the thread of \<^verbatim>\<open>lua_setfenv\<close> is this one.\<close>

definition lua_setmetatable :: "int \<Rightarrow> unit api" where
  "lua_setmetatable objindex = bindA (topA 1) (\<lambda>m. bindA (valid_adrA objindex) (\<lambda>_. bindA (valA objindex) (\<lambda>obj.
     bindA (case m of TNil \<Rightarrow> retA None | TTable h \<Rightarrow> retA (Some h) | _ \<Rightarrow> throwA ErrFault) (\<lambda>mt.
     bindA (stepS (\<lambda>S. case obj of
         TTable h \<Rightarrow> updateS h (\<lambda>t. Inr (t\<lparr>t_metatable := mt\<rparr>)) S
       | TUserdata u \<Rightarrow> bindE (uvalue S u) (\<lambda>d. Inr ((), S\<lparr>s_udatas := (s_udatas S)(u \<mapsto> d\<lparr>u_metatable := mt\<rparr>)\<rparr>))
       | _ \<Rightarrow> Inr ((), S\<lparr>s_mt := (s_mt S)(ttype obj := mt)\<rparr>))) (\<lambda>_. popA 1)))))"

definition lua_setfenv :: "int \<Rightarrow> bool api" where
  "lua_setfenv idx = bindA (topA 1) (\<lambda>e. bindA (valid_adrA idx) (\<lambda>_. bindA (valA idx) (\<lambda>v.
     case e of
       TTable h \<Rightarrow>
         bindA (case v of
             TFunction f \<Rightarrow> (\<lambda>L. case s_closures (st L) f of
                 Some cl \<Rightarrow> Inr (True, set_closure f (set_env h cl) L) | None \<Rightarrow> Inl ErrFault)
           | TUserdata u \<Rightarrow> stepS (\<lambda>S. bindE (uvalue S u) (\<lambda>d. Inr (True, S\<lparr>s_udatas := (s_udatas S)(u \<mapsto> d\<lparr>u_env := h\<rparr>)\<rparr>)))
           | TThread _ \<Rightarrow> stepS (\<lambda>S. Inr (True, S\<lparr>s_gt := e\<rparr>))
           | _ \<Rightarrow> retA False) (\<lambda>res. bindA (popA 1) (\<lambda>_. retA res))
     | _ \<Rightarrow> throwA ErrFault)))"

section \<open>Calls\<close>

text \<open>
  \<^verbatim>\<open>luaD_call\<close> of the host on the function \<open>nargs + 1\<close> below the top; the results replace it, adjusted
  to \<^verbatim>\<open>nresults\<close>.  A multiple result may need more room than the frame had.
\<close>

definition adjust :: "int \<Rightarrow> tvalue list \<Rightarrow> tvalue list" where
  "adjust nresults vs =
     (if nresults = LUA_MULTRET then vs
      else take (nat nresults) vs @ replicate (nat nresults - length vs) TNil)"

definition results :: "int \<Rightarrow> tvalue list \<Rightarrow> lstate \<Rightarrow> lstate" where
  "results nresults vs L =
     (let s = stack L @ adjust nresults vs in
      L\<lparr>stack := s, ci_top := (if nresults = LUA_MULTRET then max (ci_top L) (length s) else ci_top L)\<rparr>)"

definition checkresults :: "nat \<Rightarrow> int \<Rightarrow> lstate \<Rightarrow> bool" where
  "checkresults na nr L \<longleftrightarrow> nr = LUA_MULTRET \<or> int (ci_top L) - int (length (stack L)) \<ge> nr - int na"

definition lua_call :: "host \<Rightarrow> nat \<Rightarrow> int \<Rightarrow> unit api" where
  "lua_call call nargs nresults L =
     (if nargs + 1 \<le> length (stack L) \<and> checkresults nargs nresults L then
        let base = length (stack L) - (nargs + 1) in
        bindE (call (stack L ! base) (drop (base + 1) (stack L)) (st L)) (\<lambda>(vs, S).
        Inr ((), results nresults vs (L\<lparr>st := S, stack := take base (stack L)\<rparr>)))
      else Inl ErrFault)"

text \<open>
  \<^verbatim>\<open>lua_pcall\<close> with a host that reports an error as a status, a message value and the store it
  leaves; the function and its arguments are replaced by the message.
\<close>

type_synonym pcall_host = "tvalue \<Rightarrow> tvalue list \<Rightarrow> tvalue option \<Rightarrow> store \<Rightarrow> (int \<times> tvalue + tvalue list) \<times> store"

definition lua_pcall :: "pcall_host \<Rightarrow> nat \<Rightarrow> int \<Rightarrow> int \<Rightarrow> int api" where
  "lua_pcall pcall nargs nresults errfunc L =
     (if nargs + 1 \<le> length (stack L) \<and> checkresults nargs nresults L then
        let base = length (stack L) - (nargs + 1) in
        bindE (if errfunc = 0 then Inr None
               else bindE (bindA (valid_adrA errfunc) (\<lambda>_. valA errfunc) L) (\<lambda>(v, _). Inr (Some v))) (\<lambda>handler.
        case pcall (stack L ! base) (drop (base + 1) (stack L)) handler (st L) of
          (Inr vs, S) \<Rightarrow> Inr (0, results nresults vs (L\<lparr>st := S, stack := take base (stack L)\<rparr>))
        | (Inl (status, msg), S) \<Rightarrow>
            let L1 = L\<lparr>st := S, stack := take base (stack L) @ [msg]\<rparr> in
            Inr (status, L1\<lparr>ci_top := (if nresults = LUA_MULTRET then max (ci_top L) (base + 1) else ci_top L)\<rparr>))
      else Inl ErrFault)"

definition lua_dump :: "'d writer \<Rightarrow> 'd \<Rightarrow> (int \<times> 'd) api" where
  "lua_dump w data = bindA (topA 1) (\<lambda>v. \<lambda>L.
     Inr (case closure_at (st L) v of Some (LClosure p e uv) \<Rightarrow> luaU_dump p w data False | _ \<Rightarrow> (1, data), L))"

section \<open>Miscellaneous\<close>

definition lua_next :: "int \<Rightarrow> bool api" where
  "lua_next idx = bindA (tableA idx) (\<lambda>h. bindA (topA 1) (\<lambda>key.
     bindA (readS (\<lambda>S. bindE (hvalue S h) (\<lambda>t. luaH_next t key))) (\<lambda>r.
     case r of
       Some (k, v) \<Rightarrow> bindA (set_topA 1 k) (\<lambda>_. bindA (pushA v) (\<lambda>_. retA True))
     | None \<Rightarrow> bindA (popA 1) (\<lambda>_. retA False))))"

definition lua_concat :: "host \<Rightarrow> nat \<Rightarrow> unit api" where
  "lua_concat call n L =
     (if n \<le> length (stack L) then
        if n \<ge> 2 then
          bindE (luaV_concat call (st L) (drop (length (stack L) - n) (stack L))) (\<lambda>(v, S).
          Inr ((), L\<lparr>st := S, stack := take (length (stack L) - n) (stack L) @ [v]\<rparr>))
        else if n = 0 then pushA (TString []) L
        else Inr ((), L)
      else Inl ErrFault)"

definition lua_newuserdata :: "nat \<Rightarrow> nat api" where
  "lua_newuserdata sz L =
     bindE (getcurrenv L) (\<lambda>e.
     bindA (newA (\<lambda>u S. S\<lparr>s_udatas := (s_udatas S)(u \<mapsto> \<lparr>u_len = sz, u_metatable = None, u_env = e\<rparr>)\<rparr>)) (\<lambda>u.
     bindA (pushA (TUserdata u)) (\<lambda>_. retA u)) L)"

text \<open>\<^verbatim>\<open>aux_upvalue\<close>: the name and where the value is.\<close>

definition aux_upvalue :: "store \<Rightarrow> tvalue \<Rightarrow> int \<Rightarrow> (string option \<times> (nat \<times> nat + nat)) option" where
  "aux_upvalue S fi n =
     (case fi of
        TFunction f \<Rightarrow>
          (case s_closures S f of
             None \<Rightarrow> None
           | Some (CClosure g e uv) \<Rightarrow>
               if 1 \<le> n \<and> n \<le> int (length uv) then Some (Some [], Inl (f, nat (n - 1))) else None
           | Some (LClosure p e uv) \<Rightarrow>
               if 1 \<le> n \<and> n \<le> int (length (p_upvalues p)) \<and> nat (n - 1) < length uv
               then Some (p_upvalues p ! nat (n - 1), Inr (uv ! nat (n - 1))) else None)
      | _ \<Rightarrow> None)"

definition lua_getupvalue :: "int \<Rightarrow> int \<Rightarrow> string option option api" where
  "lua_getupvalue funcindex n = bindA (valA funcindex) (\<lambda>fi. \<lambda>L.
     case aux_upvalue (st L) fi n of
       None \<Rightarrow> Inr (None, L)
     | Some (name, Inr u) \<Rightarrow> bindA (pushA (s_upvals (st L) u)) (\<lambda>_. retA (Some name)) L
     | Some (name, Inl (f, i)) \<Rightarrow>
         (case s_closures (st L) f of Some (CClosure _ _ uv) \<Rightarrow> bindA (pushA (uv ! i)) (\<lambda>_. retA (Some name)) L
          | _ \<Rightarrow> Inl ErrFault))"

definition lua_setupvalue :: "int \<Rightarrow> int \<Rightarrow> string option option api" where
  "lua_setupvalue funcindex n = bindA (valA funcindex) (\<lambda>fi. bindA (topA 1) (\<lambda>v. \<lambda>L.
     case aux_upvalue (st L) fi n of
       None \<Rightarrow> Inr (None, L)
     | Some (name, Inr u) \<Rightarrow>
         bindA (popA 1) (\<lambda>_. retA (Some name)) (L\<lparr>st := (st L)\<lparr>s_upvals := (s_upvals (st L))(u := v)\<rparr>\<rparr>)
     | Some (name, Inl (f, i)) \<Rightarrow>
         (case s_closures (st L) f of Some cl \<Rightarrow> bindA (popA 1) (\<lambda>_. retA (Some name)) (set_closure f (set_upvalue i v cl) L)
          | _ \<Rightarrow> Inl ErrFault)))"

section \<open>The stack operations as list operations\<close>

lemma two_update:
  "length X = k \<Longrightarrow> (X @ a # b # Y)[k := (X @ a # b # Y) ! Suc k] = X @ b # b # Y"
  by (simp add: nth_append list_update_append)

lemma shift_down_loop:
  assumes "i < length s" "i + 1 \<le> m" "m \<le> length s"
  shows "fold (\<lambda>p s. s[p - 1 := s ! p]) [i + 1 ..< m] s = take i s @ take (m - i - 1) (drop (i + 1) s) @ drop (m - 1) s"
  using assms(2,3)
proof (induction m rule: nat_induct_at_least)
  case base
  then show ?case by (simp add: append_take_drop_id)
next
  case (Suc m)
  let ?X = "take i s @ take (m - i - 1) (drop (i + 1) s)"
  have len: "length ?X = m - 1" using Suc by simp
  have m: "m = Suc (m - 1)" "m < length s" using Suc by simp_all
  then have d: "drop (m - 1) s = s ! (m - 1) # s ! m # drop (Suc m) s"
    by (metis Cons_nth_drop_Suc Suc_lessD)
  have e: "Suc m - i - 1 = Suc (m - i - 1)" using Suc by simp
  have "m - i - 1 < length (drop (i + 1) s)" using Suc by simp
  moreover have "drop (i + 1) s ! (m - i - 1) = s ! m" using Suc by simp
  ultimately have t: "take (Suc m - i - 1) (drop (i + 1) s) = take (m - i - 1) (drop (i + 1) s) @ [s ! m]"
    unfolding e by (metis take_Suc_conv_app_nth)
  have "fold (\<lambda>p s. s[p - 1 := s ! p]) [i + 1 ..< Suc m] s
      = (\<lambda>s. s[m - 1 := s ! m]) (?X @ s ! (m - 1) # s ! m # drop (Suc m) s)"
    using Suc d by simp
  also have "\<dots> = ?X @ s ! m # s ! m # drop (Suc m) s"
    using two_update [OF len, of "s ! (m - 1)" "s ! m" "drop (Suc m) s"] m(1) by simp
  also have "\<dots> = take i s @ take (Suc m - i - 1) (drop (i + 1) s) @ drop (Suc m - 1) s"
    using t m Cons_nth_drop_Suc [of m s] by simp
  finally show ?case .
qed

lemma shift_down_spec: "i < length s \<Longrightarrow> shift_down i s = take i s @ drop (i + 1) s"
proof -
  assume i: "i < length s"
  have "drop (length s - 1) s = [List.last s]" using i
    by (metis append_butlast_last_id append_eq_conv_conj length_butlast list.size(3) not_less_zero)
  then show ?thesis unfolding shift_down_def using shift_down_loop [OF i, of "length s"] i
    by (simp add: butlast_append)
qed

lemma shift_up_loop:
  assumes "i \<le> m" "m < length s"
  shows "fold (\<lambda>q s. s[q := s ! (q - 1)]) (rev [i + 1 ..< m + 1]) s
       = take (i + 1) s @ take (m - i) (drop i s) @ drop (m + 1) s"
  using assms
proof (induction m arbitrary: s)
  case 0
  then show ?case by simp
next
  case (Suc m)
  show ?case
  proof (cases "i = Suc m")
    case True
    then show ?thesis using Suc.prems by simp
  next
    case False
    let ?t = "s[Suc m := s ! m]"
    have i: "i \<le> m" using False Suc.prems by simp
    have "fold (\<lambda>q s. s[q := s ! (q - 1)]) (rev [i + 1 ..< Suc m + 1]) s
        = fold (\<lambda>q s. s[q := s ! (q - 1)]) (rev [i + 1 ..< m + 1]) ?t" using i by simp
    also have "\<dots> = take (i + 1) ?t @ take (m - i) (drop i ?t) @ drop (m + 1) ?t"
      using Suc.IH [of ?t] i Suc.prems by simp
    also have "take (i + 1) ?t = take (i + 1) s" using i by simp
    also have "take (m - i) (drop i ?t) = take (m - i) (drop i s)"
      using i by (simp add: drop_update_swap)
    also have "drop (m + 1) ?t = s ! m # drop (Suc m + 1) s"
      using Suc.prems by (simp add: Cons_nth_drop_Suc [symmetric] drop_update_swap)
    also have "take (m - i) (drop i s) @ s ! m # drop (Suc m + 1) s = take (Suc m - i) (drop i s) @ drop (Suc m + 1) s"
      using i Suc.prems by (simp add: Suc_diff_le take_Suc_conv_app_nth)
    finally show ?thesis by simp
  qed
qed

lemma shift_up_spec: "i < length s \<Longrightarrow> shift_up i s = take i s @ List.last s # butlast (drop i s)"
proof -
  assume i: "i < length s"
  let ?s = "s @ [TNil]"
  let ?t = "take (i + 1) ?s @ take (length s - i) (drop i ?s) @ drop (length s + 1) ?s"
  have f: "fold (\<lambda>q s. s[q := s ! (q - 1)]) (rev [i + 1 ..< length s + 1]) ?s = ?t"
    using shift_up_loop [of i "length s" ?s] i by simp
  have t: "?t = take i s @ s ! i # drop i s" using i by (simp add: take_Suc_conv_app_nth)
  obtain b l where s: "s = b @ [l]" using i by (metis list.size(3) not_less_zero rev_exhaust)
  have n: "?t ! length s = l" unfolding t using i s by (auto simp: nth_append nth_Cons' split: if_splits)
  have u: "(take i s @ s ! i # drop i s)[i := l] = take i s @ l # drop i s" using i by (simp add: list_update_append)
  have "drop i s \<noteq> []" using i by simp
  then show ?thesis unfolding shift_up_def Let_def f n unfolding t u using s by (simp add: butlast_append)
qed


section \<open>Results of steps that return\<close>

definition gives :: "'e + 'a \<Rightarrow> ('a \<Rightarrow> bool) \<Rightarrow> bool" where
  "gives m Q \<longleftrightarrow> (\<forall>x. m = Inr x \<longrightarrow> Q x)"

lemma gives_simps [simp]: "gives (Inl e) Q" "gives (Inr x) Q \<longleftrightarrow> Q x"
  by (simp_all add: gives_def)

lemma gives_bindE: "gives m P \<Longrightarrow> (\<And>x. P x \<Longrightarrow> gives (f x) Q) \<Longrightarrow> gives (bindE m f) Q"
  by (auto simp: gives_def bindE_simps)

lemma gives_any [simp]: "gives m (\<lambda>_. True)"
  by (simp add: gives_def)

lemma gives_eq: "gives m (\<lambda>x. m = Inr x)"
  by (simp add: gives_def)

lemma gives_mono: "gives m P \<Longrightarrow> (\<And>x. P x \<Longrightarrow> Q x) \<Longrightarrow> gives m Q"
  by (simp add: gives_def)

section \<open>The invariant of the store\<close>

text \<open>Every table of the store is in order.\<close>

definition tables_ok :: "store \<Rightarrow> bool" where
  "tables_ok S \<longleftrightarrow> (\<forall>h t. s_tables S h = Some t \<longrightarrow> table_ok t)"

lemma hvalue_ok: "tables_ok S \<Longrightarrow> gives (hvalue S h) table_ok"
  by (auto simp: tables_ok_def hvalue_def gives_def split: option.splits)

lemma set_table_ok [intro]: "tables_ok S \<Longrightarrow> table_ok t \<Longrightarrow> tables_ok (set_table h t S)"
  by (simp add: tables_ok_def set_table_def)

lemma tables_ok_cong: "s_tables S' = s_tables S \<Longrightarrow> tables_ok S' = tables_ok S"
  by (simp add: tables_ok_def)

text \<open>What is asked of the host that runs functions.\<close>

definition host_ok :: "host \<Rightarrow> bool" where
  "host_ok call \<longleftrightarrow> (\<forall>f args S. tables_ok S \<longrightarrow> gives (call f args S) (\<lambda>(vs, S1). tables_ok S1))"

lemma host_okD: "host_ok call \<Longrightarrow> tables_ok S \<Longrightarrow> gives (call f args S) (\<lambda>(vs, S1). tables_ok S1)"
  by (simp add: host_ok_def)

lemma callTMres_ok: "host_ok call \<Longrightarrow> tables_ok S \<Longrightarrow> gives (callTMres call S f a b) (\<lambda>(v, S1). tables_ok S1)"
  unfolding callTMres_def by (rule gives_bindE [OF host_okD]) auto

lemma callTM_ok: "host_ok call \<Longrightarrow> tables_ok S \<Longrightarrow> gives (callTM call S f a b c) tables_ok"
  unfolding callTM_def by (rule gives_bindE [OF host_okD]) auto

text \<open>Looking for a tag method changes nothing but flags.\<close>

definition but_flags :: "store \<Rightarrow> store \<Rightarrow> bool" where
  "but_flags S S1 \<longleftrightarrow>
     (\<forall>h. map_option (t_flags_update (\<lambda>_. 0)) (s_tables S1 h) = map_option (t_flags_update (\<lambda>_. 0)) (s_tables S h))"

lemma but_flags_refl [simp]: "but_flags S S"
  by (simp add: but_flags_def)

lemma but_flags_step: "s_tables S h = Some t \<Longrightarrow> but_flags S (set_table h (t\<lparr>t_flags := f\<rparr>) S)"
  by (simp add: but_flags_def set_table_def)

lemma but_flagsD:
  assumes "but_flags S S1" "s_tables S1 h = Some t1"
  shows "\<exists>t f. s_tables S h = Some t \<and> t1 = t\<lparr>t_flags := f\<rparr>"
proof -
  from assms obtain t where t: "s_tables S h = Some t" "t\<lparr>t_flags := 0\<rparr> = t1\<lparr>t_flags := 0\<rparr>"
    by (metis (no_types, lifting) but_flags_def map_option_eq_Some option.simps(9))
  then have "t1 = (t1\<lparr>t_flags := 0\<rparr>)\<lparr>t_flags := t_flags t1\<rparr>" by simp
  also have "\<dots> = (t\<lparr>t_flags := 0\<rparr>)\<lparr>t_flags := t_flags t1\<rparr>" using t(2) by simp
  finally have "t1 = t\<lparr>t_flags := t_flags t1\<rparr>" by simp
  with t(1) show ?thesis by blast
qed

lemma but_flags_ok: "but_flags S S1 \<Longrightarrow> tables_ok S \<Longrightarrow> tables_ok S1"
  unfolding tables_ok_def using but_flagsD table_ok_flags by metis

lemma luaT_gettm_flags: "gives (luaT_gettm S mt e) (\<lambda>(tm, S1). but_flags S S1)"
  unfolding luaT_gettm_def hvalue_def
  by (cases "s_tables S mt") (auto simp: Let_def gives_def bindE_simps intro: but_flags_step)

lemma fasttm_flags: "gives (fasttm S et e) (\<lambda>(tm, S1). but_flags S S1)"
  unfolding fasttm_def
  by (cases et) (auto intro!: gives_bindE [OF gives_any] luaT_gettm_flags)

lemma luaH_set_gives:
  assumes "table_ok t"
  shows "gives (luaH_set t key) (\<lambda>(s, t1). table_ok t1 \<and> s = scan t1 key \<and> s \<noteq> SNil)"
proof (cases "valid_key key")
  case True
  with luaH_set_outcome [OF assms True] show ?thesis by (auto simp: set_outcome_def)
next
  case False
  have "luaH_get t key = Inr SNil"
    using luaH_get_spec [OF table_ok_nodes table_ok_sizearray] assms False invalid_key_scan by auto
  moreover have "key \<noteq> TNil \<Longrightarrow> (case key of TNumber n \<Rightarrow> luai_numisnan n | _ \<Rightarrow> False)"
    using False by (auto simp: valid_key_def split: tvalue.splits)
  ultimately show ?thesis by (auto simp: luaH_set_def luaH_set_with_def Let_def)
qed

lemma slot_write_gives: "table_ok t \<Longrightarrow> s = scan t key \<Longrightarrow> s \<noteq> SNil \<Longrightarrow> gives (slot_write t s v) table_ok"
  using slot_write_ok [of t key v] by (metis gives_simps(2))

lemma table_put_gives: "table_ok t \<Longrightarrow> gives (table_put t key v) table_ok"
  unfolding table_put_def by (rule gives_bindE [OF luaH_set_gives]) (auto intro: slot_write_gives)

lemma gettable_loop_ok:
  "host_ok call \<Longrightarrow> tables_ok S \<Longrightarrow> gives (gettable_loop n call S t key) (\<lambda>(v, S1). tables_ok S1)"
proof (induction n arbitrary: S t)
  case (Suc n)
  have tm: "gives (fasttm S mt TM_INDEX) (\<lambda>(tm, S1). tables_ok S1)" for mt
    by (rule gives_mono [OF fasttm_flags]) (use but_flags_ok Suc.prems in auto)
  show ?case
    by (cases t) (auto simp: Let_def Suc.prems Suc.IH callTMres_ok intro!: gives_bindE [OF gives_any] gives_bindE [OF tm] split: option.split)
qed simp

lemma settable_loop_ok:
  "host_ok call \<Longrightarrow> tables_ok S \<Longrightarrow> gives (settable_loop n call S t key val) tables_ok"
proof (induction n arbitrary: S t)
  case (Suc n)
  have again: "tables_ok S1 \<Longrightarrow> gives (if is_function tm then callTM call S1 tm t key val else settable_loop n call S1 tm key val)
      tables_ok" for tm S1
    using callTM_ok Suc by simp
  show ?case
  proof (cases "\<exists>h. t = TTable h")
    case False
    then show ?thesis
      by (cases t) (auto simp: Let_def Suc.prems Suc.IH callTM_ok intro!: gives_bindE [OF gives_any])
  next
    case True
    then obtain h where t: "t = TTable h" by blast
    have assign: "gives (bindE (hvalue S2 h) (\<lambda>tab1. bindE (slot_write tab1 s val) (\<lambda>tab2.
        Inr (set_table h (tab2\<lparr>t_flags := 0\<rparr>) S2)))) tables_ok"
      if "table_ok tab" "s = scan tab key" "s \<noteq> SNil" "but_flags (set_table h tab S) S2" for S2 s tab
    proof -
      have "tables_ok S2" using that but_flags_ok Suc.prems by blast
      moreover have "gives (hvalue S2 h) (\<lambda>tab1. table_ok tab1 \<and> s = scan tab1 key)"
      proof -
        have "table_ok tab1 \<and> s = scan tab1 key" if tab1: "s_tables S2 h = Some tab1" for tab1
        proof -
          obtain f where "tab1 = tab\<lparr>t_flags := f\<rparr>"
            using but_flagsD [OF \<open>but_flags (set_table h tab S) S2\<close> tab1] by (auto simp: set_table_def)
          then show ?thesis using \<open>table_ok tab\<close> \<open>s = scan tab key\<close> table_ok_flags nodes_ok_cong [of tab1 tab] by simp
        qed
        then show ?thesis by (auto simp: hvalue_def split: option.splits)
      qed
      moreover have "gives (bindE (slot_write tab1 s val) (\<lambda>tab2. Inr (set_table h (tab2\<lparr>t_flags := 0\<rparr>) S2))) tables_ok"
        if "tables_ok S2" "table_ok tab1" "s = scan tab1 key" for tab1
        by (rule gives_bindE [OF slot_write_gives [OF that(2,3) \<open>s \<noteq> SNil\<close>]]) (auto intro: table_ok_flags that(1))
      ultimately show ?thesis by - (erule gives_bindE, blast)
    qed
    show ?thesis unfolding t settable_loop.simps Let_def tvalue.case
    proof (rule gives_bindE [OF hvalue_ok [OF Suc.prems(2)]], rule gives_bindE [OF luaH_set_gives], assumption, clarify)
      fix tab0 tab
      assume tab: "table_ok tab" "scan tab key \<noteq> SNil"
      let ?s = "scan tab key"
      let ?a = "\<lambda>S2. bindE (hvalue S2 h) (\<lambda>tab1. bindE (slot_write tab1 ?s val) (\<lambda>tab2.
          Inr (set_table h (tab2\<lparr>t_flags := 0\<rparr>) S2)))"
      have set_assign: "but_flags (set_table h tab S) S2 \<Longrightarrow> gives (?a S2) tables_ok" for S2
        using assign [OF tab(1) refl tab(2)] .
      have tm: "gives (case tm of None \<Rightarrow> ?a S2
          | Some f \<Rightarrow> if is_function f then callTM call S2 f (TTable h) key val else settable_loop n call S2 f key val) tables_ok"
        if "but_flags (set_table h tab S) S2" for tm S2
        using that set_assign Suc callTM_ok but_flags_ok [OF that] set_table_ok [OF Suc.prems(2) tab(1), of h] by (auto split: option.split)
      have "gives (bindE (fasttm (set_table h tab S) (t_metatable tab) TM_NEWINDEX) (\<lambda>(tm, S2).
          case tm of None \<Rightarrow> ?a S2
          | Some f \<Rightarrow> if is_function f then callTM call S2 f (TTable h) key val else settable_loop n call S2 f key val)) tables_ok"
        by (rule gives_bindE [OF fasttm_flags], unfold case_prod_beta, rule tm)
      then show "gives (if slot_read tab ?s \<noteq> TNil then ?a (set_table h tab S)
          else bindE (fasttm (set_table h tab S) (t_metatable tab) TM_NEWINDEX) (\<lambda>(tm, S2).
            case tm of None \<Rightarrow> ?a S2
            | Some f \<Rightarrow> if is_function f then callTM call S2 f (TTable h) key val else settable_loop n call S2 f key val)) tables_ok"
        using set_assign [OF but_flags_refl] by simp
    qed
  qed
qed simp


lemma luaV_ok:
  assumes "host_ok call" "tables_ok S"
  shows "gives (luaV_gettable call S t key) (\<lambda>(v, S1). tables_ok S1)" "gives (luaV_settable call S t key v) tables_ok"
  using gettable_loop_ok settable_loop_ok assms by (simp_all add: luaV_gettable_def luaV_settable_def)

section \<open>Operations that keep the store in order\<close>

named_theorems keepsA_intros "operations of the API keep the tables in order"

definition keepsA :: "'a api \<Rightarrow> bool" where
  "keepsA m \<longleftrightarrow> (\<forall>L. tables_ok (st L) \<longrightarrow> gives (m L) (\<lambda>(x, L1). tables_ok (st L1)))"

lemma keepsA_bind [keepsA_intros]: "keepsA m \<Longrightarrow> (\<And>x. keepsA (k x)) \<Longrightarrow> keepsA (bindA m k)"
  unfolding keepsA_def bindA_def by (auto intro!: gives_bindE)

lemma keepsA_pure [keepsA_intros]: "keepsA (retA x)" "keepsA (throwA e)"
  by (simp_all add: keepsA_def retA_def throwA_def)

text \<open>A step that changes the frame and not the tables.\<close>

lemma keepsA_frame: "(\<And>L. gives (m L) (\<lambda>(x, L1). s_tables (st L1) = s_tables (st L))) \<Longrightarrow> keepsA m"
  unfolding keepsA_def gives_def by (auto simp: tables_ok_def)

lemma frame_steps [keepsA_intros]:
  "keepsA (adrA i)" "keepsA (valA i)" "keepsA (pushA v)" "keepsA (popA n)" "keepsA (topA n)" "keepsA (set_topA n v)"
  "keepsA (set_adr p v)" "keepsA (readS f)"
  by (rule keepsA_frame;
      auto simp: adrA_def valA_def pushA_def popA_def topA_def set_topA_def set_adr_def readS_def set_closure_def
        intro!: gives_bindE [OF gives_any] split: adr.split tvalue.split)+

lemma keepsA_valid_adr [keepsA_intros]: "keepsA (valid_adrA i)" "keepsA (tableA i)"
  unfolding valid_adrA_def tableA_def by (auto intro!: keepsA_intros split: tvalue.split)

lemma keepsA_stepS: "(\<And>S. tables_ok S \<Longrightarrow> gives (f S) (\<lambda>(x, S1). tables_ok S1)) \<Longrightarrow> keepsA (stepS f)"
  unfolding keepsA_def stepS_def by (fastforce intro!: gives_bindE)

lemma updateS_ok:
  "tables_ok S \<Longrightarrow> (\<And>t. table_ok t \<Longrightarrow> gives (f t) table_ok) \<Longrightarrow> gives (updateS h f S) (\<lambda>(x, S1). tables_ok S1)"
  unfolding updateS_def
  by (rule gives_bindE [OF hvalue_ok], assumption, rule gives_bindE [where P = table_ok]) auto

lemma table_puti_gives: "table_ok t \<Longrightarrow> INT_MIN \<le> n \<Longrightarrow> n \<le> INT_MAX \<Longrightarrow> gives (table_puti t n v) table_ok"
  using it.puti_ok by (simp add: gives_def)

lemma table_ok_metatable: "table_ok t \<Longrightarrow> table_ok (t\<lparr>t_metatable := m\<rparr>)"
  using nodes_ok_cong [of "t\<lparr>t_metatable := m\<rparr>" t] by (auto simp: table_ok_def free_ok_def sizearray_def split: if_splits)


lemma keepsA_updateS:
  "(\<And>t. table_ok t \<Longrightarrow> gives (f t) table_ok) \<Longrightarrow> keepsA (stepS (updateS h f))"
  by (rule keepsA_stepS) (rule updateS_ok)

lemma keepsA_gettable: "host_ok call \<Longrightarrow> keepsA (lua_gettable call i)"
  unfolding lua_gettable_def by (intro keepsA_intros keepsA_stepS luaV_ok)

lemma keepsA_getfield: "host_ok call \<Longrightarrow> keepsA (lua_getfield call i k)"
  unfolding lua_getfield_def by (intro keepsA_intros keepsA_stepS luaV_ok)

lemma luaV_settable_step:
  "host_ok call \<Longrightarrow> tables_ok S \<Longrightarrow> gives (bindE (luaV_settable call S t key v) (\<lambda>S1. Inr ((), S1))) (\<lambda>(x, S1). tables_ok S1)"
  by (rule gives_bindE [OF luaV_ok(2)]) simp_all

lemma keepsA_settable: "host_ok call \<Longrightarrow> keepsA (lua_settable call i)"
  unfolding lua_settable_def by (intro keepsA_intros keepsA_stepS luaV_settable_step)

lemma keepsA_setfield: "host_ok call \<Longrightarrow> keepsA (lua_setfield call i k)"
  unfolding lua_setfield_def by (intro keepsA_intros keepsA_stepS luaV_settable_step)

lemma keepsA_rawset: "keepsA (lua_rawset i)"
  unfolding lua_rawset_def by (intro keepsA_intros keepsA_updateS table_put_gives)

lemma keepsA_rawseti: "INT_MIN \<le> n \<Longrightarrow> n \<le> INT_MAX \<Longrightarrow> keepsA (lua_rawseti i n)"
  unfolding lua_rawseti_def by (intro keepsA_intros keepsA_updateS table_puti_gives)

lemma keepsA_setmetatable: "keepsA (lua_setmetatable i)"
proof -
  have "gives (case obj of
         TTable h \<Rightarrow> updateS h (\<lambda>t. Inr (t\<lparr>t_metatable := mt\<rparr>)) S
       | TUserdata u \<Rightarrow> bindE (uvalue S u) (\<lambda>d. Inr ((), S\<lparr>s_udatas := (s_udatas S)(u \<mapsto> d\<lparr>u_metatable := mt\<rparr>)\<rparr>))
       | _ \<Rightarrow> Inr ((), S\<lparr>s_mt := (s_mt S)(ttype obj := mt)\<rparr>)) (\<lambda>(x, S1). tables_ok S1)"
    if "tables_ok S" for obj mt S
  proof (cases obj)
    case (TUserdata u)
    show ?thesis unfolding TUserdata tvalue.case
      by (rule gives_bindE [OF gives_any]) (use that in \<open>simp add: tables_ok_def\<close>)
  next
    case (TTable h)
    show ?thesis unfolding TTable tvalue.case
      by (rule updateS_ok) (simp_all add: that table_ok_metatable)
  qed (use that in \<open>simp_all add: tables_ok_def\<close>)
  moreover have "keepsA (case m of TNil \<Rightarrow> retA None | TTable h \<Rightarrow> retA (Some h) | _ \<Rightarrow> throwA ErrFault)" for m
    by (cases m) (auto intro: keepsA_intros)
  ultimately show ?thesis unfolding lua_setmetatable_def by (intro keepsA_intros keepsA_stepS)
qed

text \<open>
  C21. Whatever a C function does to tables through the interface, with or without tag
  methods, every table of the state stays in order, provided the functions the host runs
  keep it: the get and set operations, the raw ones, and changing a metatable.
\<close>

theorem api_keeps_tables:
  assumes "host_ok call" "tables_ok (st L)" "INT_MIN \<le> n" "n \<le> INT_MAX"
    and "m \<in> {lua_gettable call i, lua_getfield call i k, lua_settable call i, lua_setfield call i k,
      lua_rawset i, lua_rawseti i n, lua_setmetatable i}"
    and "m L = Inr ((), L')"
  shows "tables_ok (st L')"
proof -
  have "keepsA m"
    using assms(1,3-5) keepsA_gettable keepsA_getfield keepsA_settable keepsA_setfield keepsA_rawset keepsA_rawseti
      keepsA_setmetatable by auto
  with assms(2,6) show ?thesis by (auto simp: keepsA_def gives_def)
qed

text \<open>A state with one table, at index 1.\<close>

definition sample_state :: lstate where
  "sample_state =
     \<lparr>st = \<lparr>s_tables = [0 \<mapsto> sample_table], s_udatas = Map.empty, s_closures = Map.empty, s_upvals = (\<lambda>_. TNil),
            s_mt = (\<lambda>_. None), s_registry = TNil, s_gt = TNil, s_next = 1, s_decpoint = CHR ''.'', s_stack = [],
            s_top = 0, s_ci = [], s_size_ci = 8, s_openupval = [], s_nCcalls = 0\<rparr>,
      stack = [TTable 0, TString ''k'', TBoolean True], ci_top = 20, ci_func = None, ci_levels = []\<rparr>"

definition no_host :: host where
  "no_host f args S = Inl (ErrRun ''no function'')"

lemma sample_state_ok: "tables_ok (st sample_state)"
  by (simp add: sample_state_def tables_ok_def sample_table_ok)

lemma api_keeps_tables_witness:
  "\<exists>L'. lua_settable no_host 1 sample_state = Inr ((), L') \<and> tables_ok (st L') \<and> length (stack L') = 1"
proof -
  have "case lua_settable no_host 1 sample_state of Inr (u, L') \<Rightarrow> length (stack L') = 1 | _ \<Rightarrow> False" by code_simp
  then obtain L' where r: "lua_settable no_host 1 sample_state = Inr ((), L')" and l: "length (stack L') = 1"
    by (auto split: sum.splits)
  have "host_ok no_host" by (simp add: host_ok_def no_host_def)
  from api_keeps_tables [OF this sample_state_ok, of 1 "lua_settable no_host 1" 1 "[]" L'] r l
  show ?thesis by (auto simp: INT_MIN_def INT_MAX_def)
qed

section \<open>Raw access\<close>

lemma positive_index:
  assumes "0 < idx" "nat idx \<le> length (stack L)" "idx \<le> int (ci_top L)"
  shows "index2adr idx L = Inr (AStack (nat (idx - 1)))" "valA idx L = Inr (stack L ! nat (idx - 1), L)"
  using assms by (auto simp: index2adr_def valA_def val_at_def)

lemma tableA_index:
  assumes "0 < idx" "nat idx \<le> length (stack L)" "idx \<le> int (ci_top L)"
  shows "tableA idx L = (case stack L ! nat (idx - 1) of TTable h \<Rightarrow> Inr (h, L) | _ \<Rightarrow> Inl ErrFault)"
  using positive_index [OF assms] by (simp add: tableA_def bindA_def retA_def throwA_def split: tvalue.split)

lemma rawget_eval:
  assumes "tables_ok (st L)" "0 < idx" "nat idx \<le> length (stack L)" "length (stack L) < ci_top L"
    and "stack L ! nat (idx - 1) = TTable h" "s_tables (st L) h = Some t"
  shows "bindA (pushA k) (\<lambda>_. lua_rawget idx) L = Inr ((), L\<lparr>stack := stack L @ [lookup t k]\<rparr>)"
proof -
  let ?L = "L\<lparr>stack := stack L @ [k]\<rparr>"
  have "tableA idx ?L = Inr (h, ?L)"
    using tableA_index [of idx ?L] assms by (simp add: nth_append_left)
  moreover have "luaH_get t k = Inr (scan t k)"
    using luaH_get_spec [OF table_ok_nodes table_ok_sizearray] assms by (auto simp: tables_ok_def)
  ultimately show ?thesis
    using assms(4,6) by (simp add: bindA_def pushA_def lua_rawget_def topA_def readS_def hvalue_def set_topA_def lookup_def)
qed

lemma rawset_eval:
  assumes "stack L = s @ [k, v]" "0 < idx" "nat idx \<le> length s" "length s < ci_top L" "lua_rawset idx L = Inr ((), L1)"
  obtains h t t1 where "s ! nat (idx - 1) = TTable h" "s_tables (st L) h = Some t" "table_put t k v = Inr t1"
    "L1 = L\<lparr>st := set_table h t1 (st L), stack := s\<rparr>"
proof -
  have i: "idx \<le> int (ci_top L)" "nat idx \<le> length (stack L)" "nat (idx - 1) < length s" using assms by simp_all
  have t: "topA 2 L = Inr (k, L)" "topA 1 L = Inr (v, L)" using assms(1) by (simp_all add: topA_def nth_append)
  have "tableA idx L = (case s ! nat (idx - 1) of TTable h \<Rightarrow> Inr (h, L) | _ \<Rightarrow> Inl ErrFault)"
    using tableA_index [OF assms(2) i(2,1)] i(3) assms(1) by (simp add: nth_append)
  then show ?thesis
    using that assms(5) t
    by (auto simp: lua_rawset_def bindA_def stepS_def updateS_def hvalue_def popA_def assms(1) bindE_simps
        split: tvalue.splits option.splits)
qed

text \<open>
  After \<^verbatim>\<open>lua_rawset\<close> on the table at an index, \<^verbatim>\<open>lua_rawget\<close> there reads the new value for the
  key, and for every key that is not equal to it what it read before.
\<close>

theorem rawset_then_rawget:
  assumes "tables_ok (st L)" "stack L = s @ [k, v]" "0 < idx" "nat idx \<le> length s" "length s < ci_top L"
    and "lua_rawset idx L = Inr ((), L1)"
  shows "bindA (pushA k) (\<lambda>_. lua_rawget idx) L1 = Inr ((), L1\<lparr>stack := s @ [v]\<rparr>)
    \<and> (\<forall>k'. \<not> luaO_rawequalObj k' k \<longrightarrow> (\<exists>x.
        bindA (pushA k') (\<lambda>_. lua_rawget idx) (L\<lparr>stack := s\<rparr>) = Inr ((), L\<lparr>stack := s @ [x]\<rparr>)
        \<and> bindA (pushA k') (\<lambda>_. lua_rawget idx) L1 = Inr ((), L1\<lparr>stack := s @ [x]\<rparr>)))"
proof -
  from rawset_eval [OF assms(2-6)] obtain h t t1 where
    h: "s ! nat (idx - 1) = TTable h" and t: "s_tables (st L) h = Some t" and put: "table_put t k v = Inr t1"
    and L1: "L1 = L\<lparr>st := set_table h t1 (st L), stack := s\<rparr>" by metis
  have ok: "table_ok t" using assms(1) t by (simp add: tables_ok_def)
  have key: "valid_key k" using table_put_invalid [OF ok, of k v] put by fastforce
  then have t1: "table_ok t1" "\<And>x. lookup t1 x = (if luaO_rawequalObj x k then v else lookup t x)"
    using table_put_outcome [OF ok key, of v] put unfolding put_outcome_def by simp_all
  have "bindA (pushA x) (\<lambda>_. lua_rawget idx) L1 = Inr ((), L1\<lparr>stack := s @ [lookup t1 x]\<rparr>)" for x
  proof -
    have "tables_ok (st L1)" using assms(1) t1(1) by (simp add: L1 set_table_ok)
    moreover have "s_tables (st L1) h = Some t1" by (simp add: L1 set_table_def)
    ultimately show ?thesis using rawget_eval [of L1 idx h t1 x] assms(3-5) h L1 by simp
  qed
  moreover have "bindA (pushA x) (\<lambda>_. lua_rawget idx) (L\<lparr>stack := s\<rparr>) = Inr ((), L\<lparr>stack := s @ [lookup t x]\<rparr>)" for x
    using rawget_eval [of "L\<lparr>stack := s\<rparr>" idx h t x] assms(1,3-5) h t by simp
  moreover have "luaO_rawequalObj k k" using key by (simp add: valid_key_iff)
  ultimately show ?thesis using t1(2) by metis
qed

lemma rawset_then_rawget_witness:
  "\<exists>L1. lua_rawset 1 sample_state = Inr ((), L1)
     \<and> bindA (pushA (TString ''k'')) (\<lambda>_. lua_rawget 1) L1 = Inr ((), L1\<lparr>stack := [TTable 0, TBoolean True]\<rparr>)"
proof -
  have "case lua_rawset 1 sample_state of Inr (u, L') \<Rightarrow> True | _ \<Rightarrow> False" by code_simp
  then obtain L1 where r: "lua_rawset 1 sample_state = Inr ((), L1)" by (auto split: sum.splits)
  have "stack sample_state = [TTable 0] @ [TString ''k'', TBoolean True]" "length [TTable 0] < ci_top sample_state"
    by (simp_all add: sample_state_def)
  from rawset_then_rawget [OF sample_state_ok this(1) _ _ this(2) r] r show ?thesis by auto
qed

section \<open>Moving values on the stack\<close>

lemma lua_insert_eval:
  assumes "0 < idx" "nat idx \<le> length (stack L)" "idx \<le> int (ci_top L)"
  shows "lua_insert idx L = Inr ((), L\<lparr>stack := shift_up (nat (idx - 1)) (stack L)\<rparr>)"
    "lua_remove idx L = Inr ((), L\<lparr>stack := shift_down (nat (idx - 1)) (stack L)\<rparr>)"
  using positive_index [OF assms]
  by (simp_all add: lua_insert_def lua_remove_def valid_adrA_def adrA_def bindA_def retA_def)

lemma shift_roundtrip:
  assumes "i < length s"
  shows "shift_down i (shift_up i s) = butlast s" "length (shift_up i s) = length s"
proof -
  have d: "butlast (drop i s) = drop i (butlast s)" by (simp add: butlast_drop)
  have t: "take i s = take i (butlast s)" using assms by (simp add: take_butlast)
  show len: "length (shift_up i s) = length s" using assms by (simp add: shift_up_spec)
  have "shift_down i (shift_up i s) = take i s @ butlast (drop i s)"
    using shift_down_spec [of i "shift_up i s"] len assms by (simp add: shift_up_spec)
  then show "shift_down i (shift_up i s) = butlast s" unfolding d t by simp
qed

text \<open>
  \<^verbatim>\<open>lua_insert\<close> moves the top value down to an index and keeps the order of the others;
  \<^verbatim>\<open>lua_remove\<close> takes it out there again, which leaves what popping it would have left.
\<close>

theorem insert_then_remove:
  assumes "0 < idx" "nat idx \<le> length (stack L)" "length (stack L) \<le> ci_top L"
  shows "lua_insert idx L = Inr ((), L\<lparr>stack := take (nat (idx - 1)) (stack L) @ List.last (stack L)
      # butlast (drop (nat (idx - 1)) (stack L))\<rparr>)
    \<and> bindA (lua_insert idx) (\<lambda>_. lua_remove idx) L = lua_settop (-2) L"
proof
  let ?i = "nat (idx - 1)"
  have i: "?i < length (stack L)" "idx \<le> int (ci_top L)" using assms by simp_all
  note ins = lua_insert_eval(1) [OF assms(1,2) i(2)]
  show "lua_insert idx L = Inr ((), L\<lparr>stack := take ?i (stack L) @ List.last (stack L) # butlast (drop ?i (stack L))\<rparr>)"
    using ins shift_up_spec [OF i(1)] by simp
  let ?L = "L\<lparr>stack := shift_up ?i (stack L)\<rparr>"
  have "lua_remove idx ?L = Inr ((), ?L\<lparr>stack := shift_down ?i (stack ?L)\<rparr>)"
    using lua_insert_eval(2) [of idx ?L] assms i shift_roundtrip(2) [OF i(1)] by simp
  moreover have "lua_settop (-2) L = Inr ((), L\<lparr>stack := butlast (stack L)\<rparr>)"
    using i(1) by (simp add: lua_settop_def butlast_conv_take nat_diff_distrib')
  ultimately show "bindA (lua_insert idx) (\<lambda>_. lua_remove idx) L = lua_settop (-2) L"
    using ins shift_roundtrip(1) [OF i(1)] by (simp add: bindA_def)
qed

lemma insert_then_remove_witness:
  "lua_insert 1 sample_state = Inr ((), sample_state\<lparr>stack := [TBoolean True, TTable 0, TString ''k'']\<rparr>)"
  using insert_then_remove [of 1 sample_state] by (simp add: sample_state_def)

end
