(* ===== verification/LuaAux.thy ===== *)
theory LuaAux
  imports LuaApi
begin

text \<open>
  The auxiliary library of \<^verbatim>\<open>lauxlib.c\<close>, written with the operations of the C interface: error
  messages, argument checks, metatables of userdata, libraries, string buffers and references.

  The text of an error is the value that \<^verbatim>\<open>lua_error\<close> raises; the pieces that \<^verbatim>\<open>luaL_error\<close> pushes
  and concatenates to make it are not kept on the stack, which the error discards.
\<close>

section \<open>Errors\<close>

definition abs_index :: "int \<Rightarrow> int api" where
  "abs_index i = (if i > 0 \<or> i \<le> LUA_REGISTRYINDEX then retA i else bindA lua_gettop (\<lambda>t. retA (t + i + 1)))"

definition lua_pop :: "nat \<Rightarrow> unit api" where
  "lua_pop n = lua_settop (- int n - 1)"

definition lua_isnil :: "int \<Rightarrow> bool api" where
  "lua_isnil idx = bindA (lua_type idx) (\<lambda>t. retA (t = 0))"

definition lua_istable :: "int \<Rightarrow> bool api" where
  "lua_istable idx = bindA (lua_type idx) (\<lambda>t. retA (t = 5))"

definition lua_isnoneornil :: "int \<Rightarrow> bool api" where
  "lua_isnoneornil idx = bindA (lua_type idx) (\<lambda>t. retA (t \<le> 0))"

definition formatA :: "string \<Rightarrow> fmt_arg list \<Rightarrow> string api" where
  "formatA fmt args L = bindE (luaO_pushvfstring fmt args) (\<lambda>s. Inr (s, L))"

definition where_text :: "nat \<Rightarrow> string api" where
  "where_text level = (\<lambda>L.
     if level < length (ci_levels L) \<and> ar_currentline (ci_levels L ! level) > 0 then
       formatA ''%s:%d: '' [FStr (Some (ar_short_src (ci_levels L ! level))), FInt (ar_currentline (ci_levels L ! level))] L
     else Inr ([], L))"

definition luaL_where :: "nat \<Rightarrow> unit api" where
  "luaL_where level = bindA (where_text level) lua_pushlstring"

definition luaL_error :: "string \<Rightarrow> fmt_arg list \<Rightarrow> 'a api" where
  "luaL_error fmt args = bindA (where_text 1) (\<lambda>w. bindA (formatA fmt args) (\<lambda>m. throwA (ErrRun (w @ m))))"

definition luaL_argerror :: "int \<Rightarrow> string \<Rightarrow> 'a api" where
  "luaL_argerror narg extramsg = (\<lambda>L.
     case ci_levels L of
       [] \<Rightarrow> luaL_error ''bad argument #%d (%s)'' [FInt narg, FStr (Some extramsg)] L
     | ar # _ \<Rightarrow>
         let narg1 = (if ar_namewhat ar = ''method'' then narg - 1 else narg);
             name = (case ar_name ar of None \<Rightarrow> ''?'' | Some s \<Rightarrow> s) in
         if ar_namewhat ar = ''method'' \<and> narg1 = 0 then
           luaL_error (''calling '' @ [CHR 0x27] @ ''%s'' @ [CHR 0x27] @ '' on bad self (%s)'') [FStr (ar_name ar), FStr (Some extramsg)] L
         else
           luaL_error (''bad argument #%d to '' @ [CHR 0x27] @ ''%s'' @ [CHR 0x27] @ '' (%s)'') [FInt narg1, FStr (Some name), FStr (Some extramsg)] L)"

definition luaL_typename :: "int \<Rightarrow> string api" where
  "luaL_typename idx = bindA (lua_type idx) (\<lambda>t. retA (lua_typename t))"

definition luaL_typerror :: "int \<Rightarrow> string \<Rightarrow> 'a api" where
  "luaL_typerror narg tname = bindA (luaL_typename narg) (\<lambda>got.
     bindA (formatA ''%s expected, got %s'' [FStr (Some tname), FStr (Some got)]) (luaL_argerror narg))"

definition tag_error :: "int \<Rightarrow> int \<Rightarrow> 'a api" where
  "tag_error narg tag = luaL_typerror narg (lua_typename tag)"

definition luaL_argcheck :: "bool \<Rightarrow> int \<Rightarrow> string \<Rightarrow> unit api" where
  "luaL_argcheck c numarg extramsg = (if c then retA () else luaL_argerror numarg extramsg)"

section \<open>Arguments\<close>

definition luaL_checkstack :: "int \<Rightarrow> string \<Rightarrow> unit api" where
  "luaL_checkstack space mes = bindA (lua_checkstack space) (\<lambda>ok.
     if ok then retA () else luaL_error ''stack overflow (%s)'' [FStr (Some mes)])"

definition luaL_checktype :: "int \<Rightarrow> int \<Rightarrow> unit api" where
  "luaL_checktype narg t = bindA (lua_type narg) (\<lambda>u. if u \<noteq> t then tag_error narg t else retA ())"

definition luaL_checkany :: "int \<Rightarrow> unit api" where
  "luaL_checkany narg = bindA (lua_type narg) (\<lambda>t. if t = LUA_TNONE then luaL_argerror narg ''value expected'' else retA ())"

definition luaL_checklstring :: "int \<Rightarrow> string api" where
  "luaL_checklstring narg = bindA (lua_tolstring narg) (\<lambda>s.
     case s of None \<Rightarrow> tag_error narg 4 | Some t \<Rightarrow> retA t)"

definition luaL_optlstring :: "int \<Rightarrow> string option \<Rightarrow> string option api" where
  "luaL_optlstring narg def = bindA (lua_isnoneornil narg) (\<lambda>b.
     if b then retA def else bindA (luaL_checklstring narg) (\<lambda>s. retA (Some s)))"

text \<open>The zero test of \<^verbatim>\<open>d == 0\<close> is on doubles: a negative zero is a zero too.\<close>

definition luaL_checknumber :: "int \<Rightarrow> lua_Number api" where
  "luaL_checknumber narg = bindA (lua_tonumber narg) (\<lambda>d.
     bindA (if luai_numeq d 0 then lua_isnumber narg else retA True) (\<lambda>ok.
     if ok then retA d else tag_error narg 3))"

definition luaL_optnumber :: "int \<Rightarrow> lua_Number \<Rightarrow> lua_Number api" where
  "luaL_optnumber narg def = bindA (lua_isnoneornil narg) (\<lambda>b. if b then retA def else luaL_checknumber narg)"

definition luaL_checkinteger :: "int \<Rightarrow> int api" where
  "luaL_checkinteger narg = bindA (lua_tointeger narg) (\<lambda>d.
     bindA (if d = 0 then lua_isnumber narg else retA True) (\<lambda>ok.
     if ok then retA d else tag_error narg 3))"

definition luaL_optinteger :: "int \<Rightarrow> int \<Rightarrow> int api" where
  "luaL_optinteger narg def = bindA (lua_isnoneornil narg) (\<lambda>b. if b then retA def else luaL_checkinteger narg)"

text \<open>A \<^verbatim>\<open>lua_Integer\<close> is a \<^verbatim>\<open>ptrdiff_t\<close>; the cast to \<^verbatim>\<open>int\<close> keeps its low 32 bits.\<close>

definition cast_int :: "int \<Rightarrow> int" where
  "cast_int i = (i + 2 ^ 31) mod 2 ^ 32 - 2 ^ 31"

definition luaL_checkint :: "int \<Rightarrow> int api" where
  "luaL_checkint narg = bindA (luaL_checkinteger narg) (\<lambda>d. retA (cast_int d))"

definition luaL_optint :: "int \<Rightarrow> int \<Rightarrow> int api" where
  "luaL_optint narg def = bindA (luaL_optinteger narg def) (\<lambda>d. retA (cast_int d))"

definition luaL_checkoption :: "int \<Rightarrow> string option \<Rightarrow> string list \<Rightarrow> nat api" where
  "luaL_checkoption narg def lst =
     bindA (case def of None \<Rightarrow> luaL_checklstring narg
            | Some d \<Rightarrow> bindA (luaL_optlstring narg (Some d)) (\<lambda>s. retA (the s))) (\<lambda>name.
     case List.find (\<lambda>i. strcmp (lst ! i) (cstr name) = 0) [0 ..< length lst] of
       Some i \<Rightarrow> retA i
     | None \<Rightarrow> bindA (formatA (''invalid option '' @ [CHR 0x27] @ ''%s'' @ [CHR 0x27]) [FStr (Some name)]) (luaL_argerror narg))"

section \<open>Metatables\<close>

definition luaL_newmetatable :: "host \<Rightarrow> string \<Rightarrow> bool api" where
  "luaL_newmetatable call tname =
     bindA (lua_getfield call LUA_REGISTRYINDEX tname) (\<lambda>_.
     bindA (lua_isnil (-1)) (\<lambda>b.
     if \<not> b then retA False
     else bindA (lua_pop 1) (\<lambda>_. bindA (lua_createtable 0 0) (\<lambda>_. bindA (lua_pushvalue (-1)) (\<lambda>_.
          bindA (lua_setfield call LUA_REGISTRYINDEX tname) (\<lambda>_. retA True))))))"

definition luaL_checkudata :: "host \<Rightarrow> int \<Rightarrow> string \<Rightarrow> (nat + nat) api" where
  "luaL_checkudata call ud tname = bindA (lua_touserdata ud) (\<lambda>p.
     case p of
       None \<Rightarrow> luaL_typerror ud tname
     | Some q \<Rightarrow> bindA (lua_getmetatable ud) (\<lambda>has.
         if has then
           bindA (lua_getfield call LUA_REGISTRYINDEX tname) (\<lambda>_.
           bindA (lua_rawequal (-1) (-2)) (\<lambda>eq.
           if eq then bindA (lua_pop 2) (\<lambda>_. retA q) else luaL_typerror ud tname))
         else luaL_typerror ud tname))"

definition luaL_getmetafield :: "int \<Rightarrow> string \<Rightarrow> bool api" where
  "luaL_getmetafield obj event = bindA (lua_getmetatable obj) (\<lambda>has.
     if \<not> has then retA False
     else bindA (lua_pushstring (Some event)) (\<lambda>_. bindA (lua_rawget (-2)) (\<lambda>_. bindA (lua_isnil (-1)) (\<lambda>b.
       if b then bindA (lua_pop 2) (\<lambda>_. retA False) else bindA (lua_remove (-2)) (\<lambda>_. retA True)))))"

definition luaL_callmeta :: "host \<Rightarrow> int \<Rightarrow> string \<Rightarrow> bool api" where
  "luaL_callmeta call obj event = bindA (abs_index obj) (\<lambda>i. bindA (luaL_getmetafield i event) (\<lambda>has.
     if \<not> has then retA False
     else bindA (lua_pushvalue i) (\<lambda>_. bindA (lua_call call 1 1) (\<lambda>_. retA True))))"

section \<open>Libraries\<close>

text \<open>\<^verbatim>\<open>luaL_findtable\<close>: \<open>None\<close> when every table of the path is there, or the rest of the name that is not one.\<close>

function findtable_loop :: "host \<Rightarrow> string \<Rightarrow> int \<Rightarrow> string option api" where
  "findtable_loop call fname szhint =
     (let e = takeWhile (\<lambda>c. c \<noteq> CHR ''.'') fname; rest = drop (length e) fname in
      bindA (lua_pushlstring e) (\<lambda>_. bindA (lua_rawget (-2)) (\<lambda>_. bindA (lua_type (-1)) (\<lambda>t.
      if t \<noteq> 0 \<and> t \<noteq> 5 then bindA (lua_pop 2) (\<lambda>_. retA (Some fname))
      else
        bindA (if t = 0 then
                 bindA (lua_pop 1) (\<lambda>_. bindA (lua_createtable 0 (if rest \<noteq> [] then 1 else szhint)) (\<lambda>_.
                 bindA (lua_pushlstring e) (\<lambda>_. bindA (lua_pushvalue (-2)) (\<lambda>_. lua_settable call (-4)))))
               else retA ()) (\<lambda>_.
        bindA (lua_remove (-2)) (\<lambda>_.
        if rest \<noteq> [] then findtable_loop call (drop 1 rest) szhint else retA None))))))"
  by pat_completeness auto
termination
  by (relation "measure (\<lambda>(call, fname, szhint). length fname)") auto

declare findtable_loop.simps [simp del]

definition luaL_findtable :: "host \<Rightarrow> int \<Rightarrow> string \<Rightarrow> int \<Rightarrow> string option api" where
  "luaL_findtable call idx fname szhint = bindA (lua_pushvalue idx) (\<lambda>_. findtable_loop call (cstr fname) szhint)"

definition forA :: "'b list \<Rightarrow> ('b \<Rightarrow> unit api) \<Rightarrow> unit api" where
  "forA xs f = foldr (\<lambda>x m. bindA (f x) (\<lambda>_. m)) xs (retA ())"

definition libsize :: "(string \<times> nat) list \<Rightarrow> int" where
  "libsize l = int (length l)"

definition luaI_openlib :: "host \<Rightarrow> string option \<Rightarrow> (string \<times> nat) list \<Rightarrow> nat \<Rightarrow> unit api" where
  "luaI_openlib call libname l nup =
     bindA (case libname of
         None \<Rightarrow> retA ()
       | Some name \<Rightarrow>
           bindA (luaL_findtable call LUA_REGISTRYINDEX ''_LOADED'' 1) (\<lambda>_.
           bindA (lua_getfield call (-1) name) (\<lambda>_. bindA (lua_istable (-1)) (\<lambda>b.
           bindA (if b then retA ()
                  else bindA (lua_pop 1) (\<lambda>_. bindA (luaL_findtable call LUA_GLOBALSINDEX name (libsize l)) (\<lambda>r.
                    if r \<noteq> None then luaL_error (''name conflict for module '' @ [CHR 0x27] @ ''%s'' @ [CHR 0x27]) [FStr (Some name)]
                    else bindA (lua_pushvalue (-1)) (\<lambda>_. lua_setfield call (-3) name)))) (\<lambda>_.
           bindA (lua_remove (-2)) (\<lambda>_. lua_insert (- int (nup + 1)))))))) (\<lambda>_.
     bindA (forA l (\<lambda>(name, func).
         bindA (forA [0 ..< nup] (\<lambda>_. lua_pushvalue (- int nup))) (\<lambda>_.
         bindA (lua_pushcclosure func nup) (\<lambda>_. lua_setfield call (- int (nup + 2)) name)))) (\<lambda>_.
     lua_pop nup))"

definition luaL_register :: "host \<Rightarrow> string \<Rightarrow> (string \<times> nat) list \<Rightarrow> unit api" where
  "luaL_register call libname l = luaI_openlib call (Some libname) l 0"

section \<open>String buffers\<close>

text \<open>
  A buffer keeps the last characters in an array of \<open>bsz\<close> bytes (\<^verbatim>\<open>LUAL_BUFFERSIZE\<close>, the
  \<^verbatim>\<open>BUFSIZ\<close> of the platform) and the earlier ones as \<open>b_lvl\<close> strings on top of the stack.
\<close>

record luaL_Buffer =
  b_buffer :: string
  b_lvl :: nat

definition LIMIT :: nat where "LIMIT = 10"

definition luaL_buffinit :: luaL_Buffer where
  "luaL_buffinit = \<lparr>b_buffer = [], b_lvl = 0\<rparr>"

definition emptybuffer :: "luaL_Buffer \<Rightarrow> (bool \<times> luaL_Buffer) api" where
  "emptybuffer B =
     (if b_buffer B = [] then retA (False, B)
      else bindA (lua_pushlstring (b_buffer B)) (\<lambda>_. retA (True, B\<lparr>b_buffer := [], b_lvl := b_lvl B + 1\<rparr>)))"

text \<open>The loop of \<^verbatim>\<open>adjuststack\<close>: how many of the strings to join.\<close>

function toget_loop :: "nat \<Rightarrow> nat \<Rightarrow> int \<Rightarrow> nat api" where
  "toget_loop lvl toget toplen =
     bindA (lua_objlen (- (int toget + 1))) (\<lambda>l.
     if lvl - toget + 1 \<ge> LIMIT \<or> toplen > l then
       (if toget + 1 < lvl then toget_loop lvl (toget + 1) (toplen + l) else retA (toget + 1))
     else retA toget)"
  by pat_completeness auto
termination
  by (relation "measure (\<lambda>(lvl, toget, toplen). lvl - toget)") auto

declare toget_loop.simps [simp del]

definition adjuststack :: "host \<Rightarrow> luaL_Buffer \<Rightarrow> luaL_Buffer api" where
  "adjuststack call B =
     (if b_lvl B > 1 then
        bindA (lua_objlen (-1)) (\<lambda>toplen. bindA (toget_loop (b_lvl B) 1 toplen) (\<lambda>toget.
        bindA (lua_concat call toget) (\<lambda>_. retA (B\<lparr>b_lvl := b_lvl B - toget + 1\<rparr>))))
      else retA B)"

definition luaL_prepbuffer :: "host \<Rightarrow> luaL_Buffer \<Rightarrow> luaL_Buffer api" where
  "luaL_prepbuffer call B = bindA (emptybuffer B) (\<lambda>(e, B1). if e then adjuststack call B1 else retA B1)"

definition luaL_addchar :: "host \<Rightarrow> nat \<Rightarrow> byte \<Rightarrow> luaL_Buffer \<Rightarrow> luaL_Buffer api" where
  "luaL_addchar call bsz c B =
     bindA (if length (b_buffer B) < bsz then retA B else luaL_prepbuffer call B) (\<lambda>B1.
     retA (B1\<lparr>b_buffer := b_buffer B1 @ [c]\<rparr>))"

primrec luaL_addlstring :: "host \<Rightarrow> nat \<Rightarrow> string \<Rightarrow> luaL_Buffer \<Rightarrow> luaL_Buffer api" where
  "luaL_addlstring call bsz [] B = retA B"
| "luaL_addlstring call bsz (c # cs) B = bindA (luaL_addchar call bsz c B) (luaL_addlstring call bsz cs)"

definition luaL_addstring :: "host \<Rightarrow> nat \<Rightarrow> string \<Rightarrow> luaL_Buffer \<Rightarrow> luaL_Buffer api" where
  "luaL_addstring call bsz s = luaL_addlstring call bsz (cstr s)"

definition luaL_pushresult :: "host \<Rightarrow> luaL_Buffer \<Rightarrow> luaL_Buffer api" where
  "luaL_pushresult call B = bindA (emptybuffer B) (\<lambda>(e, B1).
     bindA (lua_concat call (b_lvl B1)) (\<lambda>_. retA (B1\<lparr>b_lvl := 1\<rparr>)))"

definition luaL_addvalue :: "host \<Rightarrow> nat \<Rightarrow> luaL_Buffer \<Rightarrow> luaL_Buffer api" where
  "luaL_addvalue call bsz B = bindA (lua_tolstring (-1)) (\<lambda>so.
     case so of None \<Rightarrow> throwA ErrFault
     | Some s \<Rightarrow>
         if length s \<le> bsz - length (b_buffer B) then
           bindA (lua_pop 1) (\<lambda>_. retA (B\<lparr>b_buffer := b_buffer B @ s\<rparr>))
         else
           bindA (emptybuffer B) (\<lambda>(e, B1).
           bindA (if e then lua_insert (-2) else retA ()) (\<lambda>_.
           adjuststack call (B1\<lparr>b_lvl := b_lvl B1 + 1\<rparr>))))"

section \<open>A buffer holds the characters added\<close>

definition holds :: "nat \<Rightarrow> tvalue list \<Rightarrow> string \<Rightarrow> luaL_Buffer \<Rightarrow> lstate \<Rightarrow> bool" where
  "holds bsz base acc B L \<longleftrightarrow>
     (\<exists>ps. stack L = base @ map TString ps \<and> length ps = b_lvl B \<and> concat ps @ b_buffer B = acc)
     \<and> length (b_buffer B) \<le> bsz \<and> b_lvl B < LIMIT"

text \<open>The step goes through, changes nothing but the stack and leaves a buffer with \<open>acc\<close>.\<close>

definition buffers :: "nat \<Rightarrow> tvalue list \<Rightarrow> string \<Rightarrow> lstate \<Rightarrow> lua_error + luaL_Buffer \<times> lstate \<Rightarrow> bool" where
  "buffers bsz base acc L r \<longleftrightarrow>
     (\<exists>B' s'. r = Inr (B', L\<lparr>stack := s'\<rparr>) \<and> holds bsz base acc B' (L\<lparr>stack := s'\<rparr>))"

lemma negative_index:
  assumes "0 < i" "i \<le> length (stack L)" "i < 10000"
  shows "index2adr (- int i) L = Inr (AStack (length (stack L) - i))"
    "valA (- int i) L = Inr (stack L ! (length (stack L) - i), L)"
  using assms by (auto simp: index2adr_def valA_def val_at_def LUA_REGISTRYINDEX_def nat_diff_distrib')

lemma strlen_from_top:
  assumes "stack L = base @ map TString ps" "0 < i" "i \<le> length ps" "i < 10000"
  shows "lua_objlen (- int i) L = Inr (int (length (ps ! (length ps - i))), L)"
proof -
  have "stack L ! (length (stack L) - i) = TString (ps ! (length ps - i))"
  proof -
    have "length (stack L) - i = length base + (length ps - i)" using assms by simp
    then show ?thesis using assms by (simp add: nth_append_right)
  qed
  then show ?thesis using negative_index [of i L] assms by (simp add: lua_objlen_def bindA_def retA_def)
qed

lemma toget_loop_spec:
  assumes "stack L = base @ map TString ps" "lvl = length ps" "lvl < 100" "0 < toget" "toget < lvl"
  shows "\<exists>n. toget_loop lvl toget toplen L = Inr (n, L) \<and> 0 < n \<and> n \<le> lvl \<and> lvl - n + 1 < LIMIT"
  using assms(2-)
proof (induction lvl toget toplen rule: toget_loop.induct)
  case (1 lvl toget toplen)
  have len: "lua_objlen (- (int toget + 1)) L = Inr (int (length (ps ! (length ps - (toget + 1)))), L)"
    using strlen_from_top [OF assms(1), of "toget + 1"] 1(2-) unfolding of_nat_add of_nat_1 by linarith
  let ?l = "int (length (ps ! (length ps - (toget + 1))))"
  have step: "toget_loop lvl toget toplen L =
      (if lvl - toget + 1 \<ge> LIMIT \<or> toplen > ?l then
         (if toget + 1 < lvl then toget_loop lvl (toget + 1) (toplen + ?l) L else Inr (toget + 1, L))
       else Inr (toget, L))"
    by (subst toget_loop.simps) (simp only: bindA_def len bindE.simps prod.case retA_def if_distribR)
  show ?case unfolding step using 1 by (auto simp: LIMIT_def)
qed

lemma concat_top:
  assumes "stack L = base @ map TString ps" "0 < n" "n \<le> length ps" "int (length (concat ps)) < MAX_SIZET"
  shows "lua_concat call n L = Inr ((), L\<lparr>stack := base @ map TString (take (length ps - n) ps @ [concat (drop (length ps - n) ps)])\<rparr>)"
proof (cases "n = 1")
  case True
  then obtain qs q where ps: "ps = qs @ [q]" using assms(3) by (cases ps rule: rev_cases) auto
  show ?thesis using True assms(1) by (simp add: lua_concat_def ps)
next
  case False
  let ?d = "drop (length ps - n) ps"
  have "concat ps = concat (take (length ps - n) ps) @ concat ?d" by (metis append_take_drop_id concat_append)
  then have "int (length (concat ?d)) < MAX_SIZET" using assms(4) by simp
  moreover have "map (the \<circ> tostring) (map TString ?d) = ?d" by (simp add: tostring_def comp_def)
  ultimately have "luaV_concat call (st L) (map TString ?d) = Inr (TString (concat ?d), st L)"
    using luaV_concat_spec [of "map TString ?d"] False assms(2,3) by (auto simp: tostring_def)
  moreover have "drop (length (stack L) - n) (stack L) = map TString ?d"
    "take (length (stack L) - n) (stack L) = base @ map TString (take (length ps - n) ps)"
    using assms(1,3) by (simp_all add: drop_map take_map)
  ultimately show ?thesis using False assms(1-3) by (simp add: lua_concat_def)
qed

lemma push_room: "length (stack L) < ci_top L \<Longrightarrow> lua_pushlstring s L = Inr ((), L\<lparr>stack := stack L @ [TString s]\<rparr>)"
  by (simp add: lua_pushlstring_def pushA_def)

lemma adjuststack_spec:
  assumes s: "stack L = base @ map TString ps" "length ps = b_lvl B" "concat ps @ b_buffer B = acc"
    and B: "length (b_buffer B) \<le> bsz" "b_lvl B < 100" "b_lvl B > 0" and m: "int (length acc) < MAX_SIZET"
  shows "buffers bsz base acc L (adjuststack call B L)"
proof (cases "b_lvl B > 1")
  case False
  then have "adjuststack call B L = Inr (B, L\<lparr>stack := stack L\<rparr>)" by (simp add: adjuststack_def retA_def)
  moreover have "holds bsz base acc B L" using s B False by (auto simp: holds_def LIMIT_def)
  ultimately show ?thesis by (auto simp: buffers_def intro: exI [of _ "stack L"])
next
  case True
  have l: "lua_objlen (- 1) L = Inr (int (length (ps ! (length ps - 1))), L)"
    using strlen_from_top [OF s(1), of 1] s(2) True by simp
  obtain n where n: "toget_loop (b_lvl B) 1 (int (length (ps ! (length ps - 1)))) L = Inr (n, L)"
    "0 < n" "n \<le> b_lvl B" "b_lvl B - n + 1 < LIMIT"
    using toget_loop_spec [OF s(1) s(2) [symmetric], of 1] B(2) True by auto
  let ?ps = "take (length ps - n) ps @ [concat (drop (length ps - n) ps)]"
  have c: "concat ?ps = concat ps"
    by (metis append_Nil2 append_take_drop_id concat.simps concat_append)
  have "int (length (concat ps)) < MAX_SIZET" using m s(3) by auto
  from concat_top [OF s(1) n(2) _ this] n(3) s(2)
  have "lua_concat call n L = Inr ((), L\<lparr>stack := base @ map TString ?ps\<rparr>)" by simp
  then have "adjuststack call B L = Inr (B\<lparr>b_lvl := b_lvl B - n + 1\<rparr>, L\<lparr>stack := base @ map TString ?ps\<rparr>)"
    using True l n(1) by (simp add: adjuststack_def bindA_def retA_def)
  moreover have "holds bsz base acc (B\<lparr>b_lvl := b_lvl B - n + 1\<rparr>) (L\<lparr>stack := base @ map TString ?ps\<rparr>)"
    unfolding holds_def using B s(2,3) n c by (intro conjI exI [of _ ?ps]) simp_all
  ultimately show ?thesis unfolding buffers_def by blast
qed

lemma luaL_prepbuffer_spec:
  assumes "holds bsz base acc B L" "length base + LIMIT \<le> ci_top L" "int (length acc) < MAX_SIZET"
  shows "\<exists>B' s'. luaL_prepbuffer call B L = Inr (B', L\<lparr>stack := s'\<rparr>) \<and> holds bsz base acc B' (L\<lparr>stack := s'\<rparr>) \<and> b_buffer B' = []"
proof (cases "b_buffer B = []")
  case True
  then have "luaL_prepbuffer call B L = Inr (B, L\<lparr>stack := stack L\<rparr>)"
    by (simp add: luaL_prepbuffer_def emptybuffer_def bindA_def retA_def)
  with True assms(1) show ?thesis by (metis lstate.surjective lstate.update_convs(2))
next
  case False
  from assms(1) obtain ps where ps: "stack L = base @ map TString ps" "length ps = b_lvl B" "concat ps @ b_buffer B = acc"
    and B: "length (b_buffer B) \<le> bsz" "b_lvl B < LIMIT" unfolding holds_def by blast
  let ?B = "B\<lparr>b_buffer := [], b_lvl := b_lvl B + 1\<rparr>"
  let ?L = "L\<lparr>stack := stack L @ [TString (b_buffer B)]\<rparr>"
  have "lua_pushlstring (b_buffer B) L = Inr ((), ?L)" using ps assms(2) B by (intro push_room) simp
  then have "luaL_prepbuffer call B L = adjuststack call ?B ?L"
    using False by (simp add: luaL_prepbuffer_def emptybuffer_def bindA_def retA_def)
  moreover have "buffers bsz base acc ?L (adjuststack call ?B ?L)"
    by (rule adjuststack_spec [of _ _ "ps @ [b_buffer B]"]) (use ps B assms(3) in \<open>simp_all add: LIMIT_def\<close>)
  moreover have "adjuststack call ?B ?L = Inr (B', L') \<Longrightarrow> b_buffer B' = []" for B' L'
    by (auto simp: adjuststack_def bindA_def retA_def bindE_simps split: if_splits)
  ultimately show ?thesis by (auto simp: buffers_def)
qed


lemma luaL_addchar_spec:
  assumes "holds bsz base acc B L" "length base + LIMIT \<le> ci_top L" "int (length acc) < MAX_SIZET" "0 < bsz"
  shows "buffers bsz base (acc @ [c]) L (luaL_addchar call bsz c B L)"
proof -
  have add: "holds bsz base acc B1 L1 \<Longrightarrow> length (b_buffer B1) < bsz \<Longrightarrow> holds bsz base (acc @ [c]) (B1\<lparr>b_buffer := b_buffer B1 @ [c]\<rparr>) L1"
    for B1 L1 by (auto simp: holds_def)
  show ?thesis
  proof (cases "length (b_buffer B) < bsz")
    case True
    then have "luaL_addchar call bsz c B L = Inr (B\<lparr>b_buffer := b_buffer B @ [c]\<rparr>, L\<lparr>stack := stack L\<rparr>)"
      by (simp add: luaL_addchar_def bindA_def retA_def)
    with add [OF assms(1) True] show ?thesis by (auto simp: buffers_def intro: exI [of _ "stack L"])
  next
    case False
    obtain B1 s1 where p: "luaL_prepbuffer call B L = Inr (B1, L\<lparr>stack := s1\<rparr>)" "holds bsz base acc B1 (L\<lparr>stack := s1\<rparr>)"
      "b_buffer B1 = []" using luaL_prepbuffer_spec [OF assms(1-3)] by metis
    then have "luaL_addchar call bsz c B L = Inr (B1\<lparr>b_buffer := b_buffer B1 @ [c]\<rparr>, L\<lparr>stack := s1\<rparr>)"
      using False by (simp add: luaL_addchar_def bindA_def retA_def)
    with add [OF p(2)] p(3) assms(4) show ?thesis by (auto simp: buffers_def)
  qed
qed

lemma luaL_addlstring_spec:
  assumes "holds bsz base acc B L" "length base + LIMIT \<le> ci_top L" "int (length (acc @ s)) < MAX_SIZET" "0 < bsz"
  shows "buffers bsz base (acc @ s) L (luaL_addlstring call bsz s B L)"
  using assms
proof (induction s arbitrary: acc B L)
  case Nil
  then show ?case by (auto simp: buffers_def retA_def intro: exI [of _ "stack L"])
next
  case (Cons c s)
  have "int (length acc) < MAX_SIZET" using Cons.prems(3) by simp
  from luaL_addchar_spec [OF Cons.prems(1,2) this Cons.prems(4), of c call] obtain B1 s1 where
    a: "luaL_addchar call bsz c B L = Inr (B1, L\<lparr>stack := s1\<rparr>)" "holds bsz base (acc @ [c]) B1 (L\<lparr>stack := s1\<rparr>)"
    unfolding buffers_def by blast
  have "buffers bsz base ((acc @ [c]) @ s) (L\<lparr>stack := s1\<rparr>) (luaL_addlstring call bsz s B1 (L\<lparr>stack := s1\<rparr>))"
    using Cons.prems by (intro Cons.IH [OF a(2)]) simp_all
  then show ?case by (simp add: buffers_def bindA_def a(1))
qed

lemma luaL_pushresult_spec:
  assumes "holds bsz base acc B L" "length base + LIMIT \<le> ci_top L" "int (length acc) < MAX_SIZET"
  shows "\<exists>B'. luaL_pushresult call B L = Inr (B', L\<lparr>stack := base @ [TString acc]\<rparr>)"
proof -
  from assms(1) obtain ps where ps: "stack L = base @ map TString ps" "length ps = b_lvl B" "concat ps @ b_buffer B = acc"
    and B: "b_lvl B < LIMIT" unfolding holds_def by blast
  let ?qs = "if b_buffer B = [] then ps else ps @ [b_buffer B]"
  let ?L = "L\<lparr>stack := base @ map TString ?qs\<rparr>"
  let ?B = "B\<lparr>b_buffer := [], b_lvl := length ?qs\<rparr>"
  have "emptybuffer B L = Inr ((b_buffer B \<noteq> [], ?B), ?L)"
    using ps assms(2) B push_room [of L "b_buffer B"]
    by (auto simp: emptybuffer_def bindA_def retA_def intro!: luaL_Buffer.equality lstate.equality)
  then have r: "luaL_pushresult call B L = bindE (lua_concat call (length ?qs) ?L) (\<lambda>(_, L1). Inr (?B\<lparr>b_lvl := 1\<rparr>, L1))"
    by (simp add: luaL_pushresult_def bindA_def retA_def)
  have acc: "concat ?qs = acc" using ps(3) by (cases "b_buffer B = []") simp_all
  have "lua_concat call (length ?qs) ?L = Inr ((), L\<lparr>stack := base @ [TString acc]\<rparr>)"
  proof (cases "?qs = []")
    case True
    then show ?thesis using acc assms(2) by (simp add: lua_concat_def pushA_def LIMIT_def)
  next
    case False
    have "int (length (concat ?qs)) < MAX_SIZET" unfolding acc using assms(3) .
    moreover have "stack ?L = base @ map TString ?qs" by simp
    moreover have "0 < length ?qs" using False by blast
    ultimately have "lua_concat call (length ?qs) ?L
        = Inr ((), ?L\<lparr>stack := base @ map TString (take (length ?qs - length ?qs) ?qs @ [concat (drop (length ?qs - length ?qs) ?qs)])\<rparr>)"
      by (intro concat_top order_refl)
    then show ?thesis unfolding diff_self_eq_0 take0 drop0 acc by simp
  qed
  with r show ?thesis by simp
qed

lemma luaL_addvalue_spec:
  assumes L: "stack L = stack L0 @ [TString s]" and L0: "L = L0\<lparr>stack := stack L\<rparr>" and h: "holds bsz base acc B L0"
    and room: "length base + LIMIT + 1 \<le> ci_top L" and m: "int (length (acc @ s)) < MAX_SIZET"
  shows "buffers bsz base (acc @ s) L (luaL_addvalue call bsz B L)"
proof -
  from h obtain ps where ps: "stack L0 = base @ map TString ps" "length ps = b_lvl B" "concat ps @ b_buffer B = acc"
    and B: "length (b_buffer B) \<le> bsz" "b_lvl B < LIMIT" unfolding holds_def by blast
  have t: "lua_tolstring (- 1) L = Inr (Some s, L)"
    using negative_index(2) [of 1 L] L by (simp add: lua_tolstring_def bindA_def retA_def)
  show ?thesis
  proof (cases "length s \<le> bsz - length (b_buffer B)")
    case True
    have "lua_pop 1 L = Inr ((), L\<lparr>stack := stack L0\<rparr>)"
      using L by (simp add: lua_pop_def lua_settop_def nat_diff_distrib' nat_add_distrib)
    then have "luaL_addvalue call bsz B L = Inr (B\<lparr>b_buffer := b_buffer B @ s\<rparr>, L\<lparr>stack := stack L0\<rparr>)"
      using t True by (simp add: luaL_addvalue_def bindA_def retA_def)
    moreover have "holds bsz base (acc @ s) (B\<lparr>b_buffer := b_buffer B @ s\<rparr>) (L\<lparr>stack := stack L0\<rparr>)"
      unfolding holds_def using ps B True by auto
    ultimately show ?thesis unfolding buffers_def by blast
  next
    case False
    let ?qs = "(if b_buffer B = [] then ps else ps @ [b_buffer B]) @ [s]"
    let ?B = "B\<lparr>b_buffer := [], b_lvl := length ?qs\<rparr>" and ?L = "L\<lparr>stack := base @ map TString ?qs\<rparr>"
    have "luaL_addvalue call bsz B L = adjuststack call ?B ?L"
    proof (cases "b_buffer B = []")
      case True
      have "?L = L" "B\<lparr>b_lvl := b_lvl B + 1\<rparr> = ?B" using L ps True by simp_all
      then show ?thesis using t False True by (simp add: luaL_addvalue_def emptybuffer_def bindA_def retA_def)
    next
      case ne: False
      let ?L1 = "L\<lparr>stack := stack L @ [TString (b_buffer B)]\<rparr>"
      have "lua_pushlstring (b_buffer B) L = Inr ((), ?L1)"
        using L ps B room by (intro push_room) (simp add: LIMIT_def)
      moreover have "lua_insert (- 2) ?L1 = Inr ((), ?L)"
        using L ps ne shift_up_spec [of "length (stack ?L1) - 2" "stack ?L1"] negative_index(1) [of 2 ?L1]
        by (simp add: lua_insert_def valid_adrA_def adrA_def bindA_def retA_def)
      ultimately show ?thesis using t False ne ps(2)
        by (simp add: luaL_addvalue_def emptybuffer_def bindA_def retA_def)
    qed
    moreover have "buffers bsz base (acc @ s) ?L (adjuststack call ?B ?L)"
      by (rule adjuststack_spec [of _ _ ?qs]) (use ps B m in \<open>auto simp: LIMIT_def\<close>)
    ultimately show ?thesis by (simp add: buffers_def)
  qed
qed


text \<open>A sequence of additions, of characters and of values from the stack.\<close>

datatype piece = Chars (text_of: string) | Value (text_of: string)

primrec add_pieces :: "host \<Rightarrow> nat \<Rightarrow> piece list \<Rightarrow> luaL_Buffer \<Rightarrow> luaL_Buffer api" where
  "add_pieces call bsz [] B = retA B"
| "add_pieces call bsz (x # xs) B =
     bindA (case x of Chars s \<Rightarrow> luaL_addlstring call bsz s B
            | Value s \<Rightarrow> bindA (lua_pushlstring s) (\<lambda>_. luaL_addvalue call bsz B))
       (add_pieces call bsz xs)"

lemma add_piece_spec:
  assumes "holds bsz base acc B L" "length base + LIMIT + 1 \<le> ci_top L" "int (length (acc @ text_of x)) < MAX_SIZET" "0 < bsz"
  shows "buffers bsz base (acc @ text_of x) L
    ((case x of Chars s \<Rightarrow> luaL_addlstring call bsz s B
            | Value s \<Rightarrow> bindA (lua_pushlstring s) (\<lambda>_. luaL_addvalue call bsz B)) L)"
proof (cases x)
  case (Chars s)
  then show ?thesis using luaL_addlstring_spec [OF assms(1), of s call] assms(2-4) by simp
next
  case (Value s)
  let ?L = "L\<lparr>stack := stack L @ [TString s]\<rparr>"
  have "length (stack L) < ci_top L" using assms(1,2) by (auto simp: holds_def)
  then have "lua_pushlstring s L = Inr ((), ?L)" by (rule push_room)
  moreover have "buffers bsz base (acc @ s) ?L (luaL_addvalue call bsz B ?L)"
    by (rule luaL_addvalue_spec [OF _ _ assms(1)]) (use Value assms(2,3) in simp_all)
  ultimately show ?thesis by (simp add: Value bindA_def buffers_def)
qed

lemma add_pieces_spec:
  assumes "holds bsz base acc B L" "length base + LIMIT + 1 \<le> ci_top L"
    "int (length (acc @ concat (map text_of xs))) < MAX_SIZET" "0 < bsz"
  shows "buffers bsz base (acc @ concat (map text_of xs)) L (add_pieces call bsz xs B L)"
  using assms
proof (induction xs arbitrary: acc B L)
  case Nil
  then show ?case by (auto simp: buffers_def retA_def intro: exI [of _ "stack L"])
next
  case (Cons x xs)
  have "int (length (acc @ text_of x)) < MAX_SIZET" using Cons.prems(3) by simp
  from add_piece_spec [OF Cons.prems(1,2) this Cons.prems(4), of call] obtain B1 s1 where
    a: "(case x of Chars s \<Rightarrow> luaL_addlstring call bsz s B
        | Value s \<Rightarrow> bindA (lua_pushlstring s) (\<lambda>_. luaL_addvalue call bsz B)) L = Inr (B1, L\<lparr>stack := s1\<rparr>)"
      "holds bsz base (acc @ text_of x) B1 (L\<lparr>stack := s1\<rparr>)" unfolding buffers_def by blast
  have "buffers bsz base ((acc @ text_of x) @ concat (map text_of xs)) (L\<lparr>stack := s1\<rparr>) (add_pieces call bsz xs B1 (L\<lparr>stack := s1\<rparr>))"
    using Cons.prems by (intro Cons.IH [OF a(2)]) simp_all
  then show ?case by (simp only: add_pieces.simps bindA_def a(1) buffers_def bindE.simps prod.case) simp
qed

text \<open>
  C22. A string buffer: whatever characters and values are added, in whatever chunks and for
  every size of the array, the result pushed at the end is their concatenation, on the stack
  as it was; on the way the buffer needs at most \<open>LIMIT + 1\<close> slots.
\<close>

theorem buffer_collects:
  assumes "0 < bsz" "length (stack L) + LIMIT + 1 \<le> ci_top L" "int (length (concat (map text_of xs))) < MAX_SIZET"
  shows "\<exists>B'. bindA (add_pieces call bsz xs luaL_buffinit) (luaL_pushresult call) L
      = Inr (B', L\<lparr>stack := stack L @ [TString (concat (map text_of xs))]\<rparr>)"
proof -
  have "holds bsz (stack L) [] luaL_buffinit L" by (simp add: holds_def luaL_buffinit_def LIMIT_def)
  from add_pieces_spec [OF this assms(2) _ assms(1), of xs call] assms(3) obtain B1 s1 where
    a: "add_pieces call bsz xs luaL_buffinit L = Inr (B1, L\<lparr>stack := s1\<rparr>)"
      "holds bsz (stack L) (concat (map text_of xs)) B1 (L\<lparr>stack := s1\<rparr>)" by (auto simp: buffers_def)
  from luaL_pushresult_spec [OF a(2) _ assms(3), of call] assms(2) show ?thesis
    by (simp add: bindA_def a(1))
qed

lemma buffer_collects_witness:
  "\<exists>B'. bindA (add_pieces no_host 2 [Chars ''abc'', Value ''defg'', Chars ''hijkl''] luaL_buffinit) (luaL_pushresult no_host) sample_state
      = Inr (B', sample_state\<lparr>stack := stack sample_state @ [TString ''abcdefghijkl'']\<rparr>)"
  using buffer_collects [of 2 sample_state "[Chars ''abc'', Value ''defg'', Chars ''hijkl'']" no_host]
  by (simp add: sample_state_def LIMIT_def MAX_SIZET_def)

section \<open>References\<close>

definition LUA_REFNIL :: int where "LUA_REFNIL = -1"
definition FREELIST_REF :: int where "FREELIST_REF = 0"

definition luaL_ref :: "int \<Rightarrow> int api" where
  "luaL_ref idx = bindA (abs_index idx) (\<lambda>t. bindA (lua_isnil (-1)) (\<lambda>n.
     if n then bindA (lua_pop 1) (\<lambda>_. retA LUA_REFNIL)
     else
       bindA (lua_rawgeti t FREELIST_REF) (\<lambda>_. bindA (lua_tointeger (-1)) (\<lambda>r. bindA (lua_pop 1) (\<lambda>_.
       bindA (if cast_int r \<noteq> 0 then
                bindA (lua_rawgeti t (cast_int r)) (\<lambda>_. bindA (lua_rawseti t FREELIST_REF) (\<lambda>_. retA (cast_int r)))
              else bindA (lua_objlen t) (\<lambda>n. retA (n + 1))) (\<lambda>ref.
       bindA (lua_rawseti t ref) (\<lambda>_. retA ref)))))))"

definition luaL_unref :: "int \<Rightarrow> int \<Rightarrow> unit api" where
  "luaL_unref idx ref =
     (if ref \<ge> 0 then
        bindA (abs_index idx) (\<lambda>t. bindA (lua_rawgeti t FREELIST_REF) (\<lambda>_. bindA (lua_rawseti t ref) (\<lambda>_.
        bindA (lua_pushinteger ref) (\<lambda>_. lua_rawseti t FREELIST_REF))))
      else retA ())"


text \<open>What the two do to the table, through its integer keys.\<close>

definition tointeger :: "byte \<Rightarrow> tvalue \<Rightarrow> int" where
  "tointeger dp v = (case luaV_tonumber dp v of Some x \<Rightarrow> lua_number2integer x | None \<Rightarrow> 0)"

definition ref_step ::
    "('t \<Rightarrow> int \<Rightarrow> lua_error + tvalue) \<Rightarrow> ('t \<Rightarrow> int \<Rightarrow> tvalue \<Rightarrow> lua_error + 't) \<Rightarrow> ('t \<Rightarrow> lua_error + int)
     \<Rightarrow> byte \<Rightarrow> 't \<Rightarrow> tvalue \<Rightarrow> lua_error + int \<times> 't" where
  "ref_step geti puti getn dp t v =
     bindE (geti t FREELIST_REF) (\<lambda>x.
     let r = cast_int (tointeger dp x) in
     if r \<noteq> 0 then
       bindE (geti t r) (\<lambda>y. bindE (puti t FREELIST_REF y) (\<lambda>t1. bindE (puti t1 r v) (\<lambda>t2. Inr (r, t2))))
     else bindE (getn t) (\<lambda>n. bindE (puti t (n + 1) v) (\<lambda>t1. Inr (n + 1, t1))))"

definition unref_step ::
    "('t \<Rightarrow> int \<Rightarrow> lua_error + tvalue) \<Rightarrow> ('t \<Rightarrow> int \<Rightarrow> tvalue \<Rightarrow> lua_error + 't) \<Rightarrow> 't \<Rightarrow> int \<Rightarrow> lua_error + 't" where
  "unref_step geti puti t r =
     bindE (geti t FREELIST_REF) (\<lambda>x. bindE (puti t r x) (\<lambda>t1. puti t1 FREELIST_REF (TNumber (cast_num r))))"

text \<open>
  The released references are a list linked through the table from key 0 on; the references in
  use hold their values and are not on it.
\<close>

fun free_chain :: "(int \<Rightarrow> tvalue) \<Rightarrow> int \<Rightarrow> int list \<Rightarrow> bool" where
  "free_chain f r [] \<longleftrightarrow> f r = TNil"
| "free_chain f r (x # xs) \<longleftrightarrow> f r = TNumber (cast_num x) \<and> free_chain f x xs"

definition refs_ok :: "(int \<Rightarrow> tvalue) \<Rightarrow> (int \<Rightarrow> tvalue option) \<Rightarrow> int list \<Rightarrow> bool" where
  "refs_ok f used free \<longleftrightarrow>
     free_chain f FREELIST_REF free \<and> distinct free
     \<and> (\<forall>x \<in> set free. 0 < x \<and> x \<le> INT_MAX \<and> used x = None)
     \<and> (\<forall>r v. used r = Some v \<longrightarrow> 0 < r \<and> r \<le> INT_MAX \<and> v \<noteq> TNil \<and> f r = v)"

lemma free_chain_cong:
  "f' r' = f r \<Longrightarrow> (\<And>x. x \<in> set xs \<Longrightarrow> f' x = f x) \<Longrightarrow> free_chain f' r' xs = free_chain f r xs"
  by (induction xs arbitrary: r r') auto

lemma tointeger_simps: "tointeger dp TNil = 0" "0 < n \<Longrightarrow> n \<le> INT_MAX \<Longrightarrow> tointeger dp (TNumber (cast_num n)) = n"
  using dbl_trunc_cast_num [of n] by (simp_all add: tointeger_def lua_number2integer_def INT_MAX_def)

lemma refs_okI:
  assumes "free_chain f 0 free" "distinct free" "\<And>x. x \<in> set free \<Longrightarrow> 0 < x \<and> x \<le> INT_MAX \<and> used x = None"
    "\<And>r v. used r = Some v \<Longrightarrow> 0 < r \<and> r \<le> INT_MAX \<and> v \<noteq> TNil \<and> f r = v"
  shows "refs_ok f used free"
  using assms by (simp add: refs_ok_def FREELIST_REF_def)

lemma refs_okD:
  assumes "refs_ok f used free"
  shows "free_chain f 0 free" "distinct free" "x \<in> set free \<Longrightarrow> 0 < x \<and> x \<le> INT_MAX \<and> used x = None"
    "used r = Some v \<Longrightarrow> 0 < r \<and> r \<le> INT_MAX \<and> v \<noteq> TNil \<and> f r = v"
  using assms by (simp_all add: refs_ok_def FREELIST_REF_def)

lemma cast_int_id: "INT_MIN \<le> n \<Longrightarrow> n \<le> INT_MAX \<Longrightarrow> cast_int n = n"
  by (simp add: cast_int_def INT_MIN_def INT_MAX_def)

locale ref_table = int_table +
  fixes getn :: "'a \<Rightarrow> lua_error + int"
  assumes getn_border: "ok t \<Longrightarrow> \<exists>n. getn t = Inr n \<and> 0 \<le> n \<and> n < INT_MAX \<and> val t (n + 1) = TNil"
begin

lemma puti_spec:
  assumes "ok t" "0 \<le> n" "n \<le> INT_MAX" "puti t n v = Inr t'"
  shows "ok t'" "0 \<le> m \<Longrightarrow> m \<le> INT_MAX \<Longrightarrow> val t' m = (if m = n then v else val t m)"
  using puti_ok [of t n v t'] puti_val [of t n v t' m] assms by (simp_all add: INT_MIN_def)

text \<open>A reference handed out is not in use, and reads the value it was made for.\<close>

lemma ref_fresh:
  assumes "ok t" "refs_ok (val t) used free" "v \<noteq> TNil" "ref_step geti puti getn dp t v = Inr (r, t')"
  shows "ok t' \<and> 0 < r \<and> r \<le> INT_MAX \<and> used r = None \<and> (\<exists>free'. refs_ok (val t') (used(r \<mapsto> v)) free')"
proof (cases free)
  case Nil
  have "val t 0 = TNil" using assms(2) Nil by (simp add: refs_ok_def FREELIST_REF_def)
  moreover obtain n where n: "getn t = Inr n" "0 \<le> n" "n < INT_MAX" "val t (n + 1) = TNil" using getn_border assms(1) by metis
  ultimately have p: "puti t (n + 1) v = Inr t'" "r = n + 1"
    using assms(4) geti_val [of t 0] assms(1)
    by (auto simp: ref_step_def FREELIST_REF_def tointeger_simps cast_int_id INT_MIN_def INT_MAX_def bindE_simps)
  note t' = puti_spec [OF assms(1) _ _ p(1)]
  note D = refs_okD [OF assms(2)]
  have "used r = None" using D(4) n(4) p(2) by (cases "used r") auto
  moreover have "refs_ok (val t') (used(r \<mapsto> v)) []"
  proof (rule refs_okI)
    show "0 < ra \<and> ra \<le> INT_MAX \<and> w \<noteq> TNil \<and> val t' ra = w" if "(used(r \<mapsto> v)) ra = Some w" for ra w
      using that D(4) [of ra w] t'(2) [of ra] n p(2) assms(3) by (auto split: if_splits)
    show "free_chain (val t') 0 []" using t'(2) [of 0] n p(2) D(1) Nil by simp
  qed simp_all
  ultimately show ?thesis using n p(2) t'(1) by auto
next
  case (Cons x xs)
  have x: "val t 0 = TNumber (cast_num x)" "0 < x" "x \<le> INT_MAX" "used x = None" "x \<notin> set xs"
    using assms(2) Cons by (auto simp: refs_ok_def FREELIST_REF_def)
  then obtain t1 where p: "puti t 0 (val t x) = Inr t1" "puti t1 x v = Inr t'" "r = x"
    using assms(4) geti_val [of t 0] geti_val [of t x] assms(1)
    by (auto simp: ref_step_def FREELIST_REF_def tointeger_simps cast_int_id INT_MIN_def INT_MAX_def bindE_simps)
  have t1: "ok t1" "\<And>m. 0 \<le> m \<Longrightarrow> m \<le> INT_MAX \<Longrightarrow> val t1 m = (if m = 0 then val t x else val t m)"
    using puti_spec [OF assms(1) _ _ p(1)] by (auto simp: INT_MAX_def)
  have t': "ok t'" "\<And>m. 0 \<le> m \<Longrightarrow> m \<le> INT_MAX \<Longrightarrow> val t' m = (if m = x then v else if m = 0 then val t x else val t m)"
    using puti_spec [OF t1(1) _ x(3) p(2)] t1(2) x(2) by auto
  note D = refs_okD [OF assms(2)]
  have "refs_ok (val t') (used(x \<mapsto> v)) xs"
  proof (rule refs_okI)
    show "0 < ra \<and> ra \<le> INT_MAX \<and> w \<noteq> TNil \<and> val t' ra = w" if "(used(x \<mapsto> v)) ra = Some w" for ra w
      using that D(4) [of ra w] t'(2) [of ra] x assms(3) by (auto split: if_splits)
    have "val t' y = val t y" if "y \<in> set xs" for y
      using that D(3) [of y] t'(2) [of y] x Cons by auto
    then have "free_chain (val t') 0 xs = free_chain (val t) x xs"
      using t'(2) [of 0] x by (intro free_chain_cong) (auto simp: INT_MAX_def)
    then show "free_chain (val t') 0 xs" using D(1) Cons by simp
    show "0 < y \<and> y \<le> INT_MAX \<and> (used(x \<mapsto> v)) y = None" if "y \<in> set xs" for y
      using that D(3) [of y] x(5) Cons by auto
  qed (use D(2) Cons in simp)
  then show ?thesis using t'(1) p(3) x by auto
qed

text \<open>A reference released is not in use any more, and the others keep their values.\<close>

lemma unref_frees:
  assumes "ok t" "refs_ok (val t) used free" "used r \<noteq> None" "unref_step geti puti t r = Inr t'"
  shows "ok t' \<and> refs_ok (val t') (used(r := None)) (r # free)"
proof -
  have r: "0 < r" "r \<le> INT_MAX" "r \<notin> set free" using assms(2,3) by (auto simp: refs_ok_def)
  obtain t1 where p: "puti t r (val t 0) = Inr t1" "puti t1 0 (TNumber (cast_num r)) = Inr t'"
    using assms(4) geti_val [of t 0] assms(1)
    by (auto simp: unref_step_def FREELIST_REF_def INT_MIN_def INT_MAX_def bindE_simps)
  have t1: "ok t1" "\<And>m. 0 \<le> m \<Longrightarrow> m \<le> INT_MAX \<Longrightarrow> val t1 m = (if m = r then val t 0 else val t m)"
    using puti_spec [OF assms(1) _ r(2) p(1)] r by auto
  have t': "ok t'" "\<And>m. 0 \<le> m \<Longrightarrow> m \<le> INT_MAX \<Longrightarrow>
      val t' m = (if m = 0 then TNumber (cast_num r) else if m = r then val t 0 else val t m)"
    using puti_spec [OF t1(1) _ _ p(2)] t1(2) by (auto simp: INT_MAX_def)
  note D = refs_okD [OF assms(2)]
  have "refs_ok (val t') (used(r := None)) (r # free)"
  proof (rule refs_okI)
    show "0 < ra \<and> ra \<le> INT_MAX \<and> w \<noteq> TNil \<and> val t' ra = w" if "(used(r := None)) ra = Some w" for ra w
      using that D(4) [of ra w] t'(2) [of ra] by (auto split: if_splits)
    have "val t' y = val t y" if "y \<in> set free" for y
      using that D(3) [of y] t'(2) [of y] r by auto
    then have "free_chain (val t') r free = free_chain (val t) 0 free"
      using t'(2) [of r] r by (intro free_chain_cong) auto
    then show "free_chain (val t') 0 (r # free)" using D(1) t'(2) [of 0] by (simp add: INT_MAX_def)
    show "0 < y \<and> y \<le> INT_MAX \<and> (used(r := None)) y = None" if "y \<in> set (r # free)" for y
      using that D(3) [of y] r by auto
  qed (use D(2) r in simp)
  then show ?thesis using t'(1) by simp
qed

end

interpretation rt: ref_table table_geti table_puti table_ok ival luaH_getn
proof
  show "\<exists>n. luaH_getn t = Inr n \<and> 0 \<le> n \<and> n < INT_MAX \<and> ival t (n + 1) = TNil" if "table_ok t" for t
    using luaH_getn_spec [OF that] by (auto simp: border_def)
qed


text \<open>The table at an absolute index below the top values.\<close>

definition table_at :: "int \<Rightarrow> nat \<Rightarrow> table \<Rightarrow> tvalue list \<Rightarrow> lstate \<Rightarrow> bool" where
  "table_at idx h t s L \<longleftrightarrow>
     0 < idx \<and> nat idx \<le> length s \<and> length s < ci_top L \<and> s ! nat (idx - 1) = TTable h \<and> s_tables (st L) h = Some t"

lemma table_at_tableA:
  assumes "table_at idx h t s L" "stack L = s @ r"
  shows "tableA idx L = Inr (h, L)"
  using tableA_index [of idx L] assms by (auto simp: table_at_def nth_append_left)

lemma rawgeti_eval:
  assumes "table_at idx h t s L" "stack L = s @ r" "length (s @ r) < ci_top L"
  shows "lua_rawgeti idx n L = bindE (table_geti t n) (\<lambda>x. Inr ((), L\<lparr>stack := s @ r @ [x]\<rparr>))"
  using table_at_tableA [OF assms(1,2)] assms
  by (cases "table_geti t n") (simp_all add: lua_rawgeti_def bindA_def readS_def hvalue_def table_at_def pushA_def)

lemma rawseti_eval:
  assumes "table_at idx h t s L" "stack L = s @ r @ [v]"
  shows "lua_rawseti idx n L = bindE (table_puti t n v) (\<lambda>t1. Inr ((), L\<lparr>st := set_table h t1 (st L), stack := s @ r\<rparr>))"
  using table_at_tableA [OF assms] assms
  by (cases "table_puti t n v")
    (simp_all add: lua_rawseti_def bindA_def stepS_def updateS_def hvalue_def table_at_def topA_def popA_def)

lemma table_at_update [simp]:
  "table_at idx h t1 s (L\<lparr>st := set_table h t1 (st L)\<rparr>)" if "table_at idx h t s L"
  using that by (simp add: table_at_def set_table_def)

lemma table_at_stack [simp]: "table_at idx h t s (L\<lparr>stack := x\<rparr>) = table_at idx h t s L"
  by (simp add: table_at_def)

lemma set_table_twice: "set_table h t2 (set_table h t1 S) = set_table h t2 S"
  by (simp add: set_table_def)

lemma top_value: "stack L = s @ [v] \<Longrightarrow> valA (- 1) L = Inr (v, L)"
  using negative_index(2) [of 1 L] by simp

lemma pop_value: "stack L = s @ [v] \<Longrightarrow> lua_pop 1 L = Inr ((), L\<lparr>stack := s\<rparr>)"
  by (simp add: lua_pop_def lua_settop_def nat_diff_distrib' nat_add_distrib)

lemma tointeger_eval: "stack L = s @ [v] \<Longrightarrow> lua_tointeger (- 1) L = Inr (tointeger (s_decpoint (st L)) v, L)"
  using top_value [of L s v] by (simp add: lua_tointeger_def bindA_def tonumberA_def retA_def tointeger_def)

lemma isnil_eval:
  assumes "stack L = s @ [v]"
  shows "lua_isnil (- 1) L = Inr (v = TNil, L)"
  using top_value [OF assms] negative_index(1) [of 1 L] assms
  by (cases v) (simp_all add: lua_isnil_def lua_type_def adrA_def bindA_def retA_def)

lemma objlen_eval:
  assumes "table_at idx h t s L" "stack L = s @ r" "table_ok t"
  shows "lua_objlen idx L = bindE (luaH_getn t) (\<lambda>n. Inr (n, L))"
proof -
  have "valA idx L = Inr (TTable h, L)"
  proof -
    have "nat (idx - 1) < length s" "idx \<le> int (ci_top L)" using assms(1) by (auto simp: table_at_def)
    then show ?thesis using positive_index [of idx L] assms(1,2) by (simp add: table_at_def nth_append_left)
  qed
  then show ?thesis using assms(1) by (simp add: lua_objlen_def bindA_def readS_def hvalue_def table_at_def)
qed

lemma luaL_ref_eval:
  assumes T: "table_at idx h t s L" and v: "stack L = s @ [v]" "v \<noteq> TNil" and ok: "table_ok t" and room: "length s + 1 < ci_top L"
  shows "luaL_ref idx L = bindE (ref_step table_geti table_puti luaH_getn (s_decpoint (st L)) t v) (\<lambda>(r, t1).
    Inr (r, L\<lparr>st := set_table h t1 (st L), stack := s\<rparr>))"
proof -
  let ?L = "\<lambda>x. L\<lparr>stack := s @ [v, x]\<rparr>" and ?dp = "s_decpoint (st L)"
  have abs: "abs_index idx L = Inr (idx, L)" using T by (simp add: abs_index_def retA_def table_at_def)
  have same: "L\<lparr>stack := s @ [v]\<rparr> = L" by (simp flip: v(1))
  have get: "lua_rawgeti idx n L = bindE (table_geti t n) (\<lambda>x. Inr ((), ?L x))" for n
    using rawgeti_eval [OF T v(1)] room by simp
  have "luaL_ref idx L = bindE (table_geti t FREELIST_REF) (\<lambda>x.
      let r = cast_int (tointeger ?dp x) in
      bindA (if r \<noteq> 0 then bindA (lua_rawgeti idx r) (\<lambda>_. bindA (lua_rawseti idx FREELIST_REF) (\<lambda>_. retA r))
             else bindA (lua_objlen idx) (\<lambda>n. retA (n + 1))) (\<lambda>ref. bindA (lua_rawseti idx ref) (\<lambda>_. retA ref)) L)"
    using isnil_eval [OF v(1)] v(2) tointeger_eval [of "?L x" "s @ [v]" x for x] pop_value [of "?L x" "s @ [v]" x for x] v(1)
    by (cases "table_geti t FREELIST_REF") (simp_all add: luaL_ref_def bindA_def abs get Let_def same)
  also have "\<dots> = bindE (ref_step table_geti table_puti luaH_getn ?dp t v) (\<lambda>(r, t1).
      Inr (r, L\<lparr>st := set_table h t1 (st L), stack := s\<rparr>))"
  proof -
    have put: "lua_rawseti idx n (L\<lparr>stack := s @ [v]\<rparr>) = bindE (table_puti t n v) (\<lambda>t1. Inr ((), L\<lparr>st := set_table h t1 (st L), stack := s\<rparr>))" for n
      using rawseti_eval [of idx h t s "L\<lparr>stack := s @ [v]\<rparr>" "[]" v n] T by simp
    have put0: "lua_rawseti idx 0 (?L y) = bindE (table_puti t 0 y) (\<lambda>t1. Inr ((), L\<lparr>st := set_table h t1 (st L), stack := s @ [v]\<rparr>))" for y
      using rawseti_eval [of idx h t s "?L y" "[v]" y 0] T by simp
    have put2: "lua_rawseti idx n (L\<lparr>st := set_table h t1 (st L), stack := s @ [v]\<rparr>)
        = bindE (table_puti t1 n v) (\<lambda>t2. Inr ((), L\<lparr>st := set_table h t2 (st L), stack := s\<rparr>))" for n t1
      using rawseti_eval [of idx h t1 s "L\<lparr>st := set_table h t1 (st L), stack := s @ [v]\<rparr>" "[]" v n] T by (simp add: set_table_twice)
    show ?thesis
      by (auto simp: ref_step_def bindE_assoc Let_def bindA_def get put0 put2 put [unfolded same] FREELIST_REF_def retA_def
          objlen_eval [OF T v(1) ok] intro!: arg_cong [where f = "bindE _"])
  qed
  finally show ?thesis .
qed


lemma luaL_unref_eval:
  assumes T: "table_at idx h t s L" and v: "stack L = s" and ok: "table_ok t" and r: "0 \<le> r"
  shows "luaL_unref idx r L = bindE (unref_step table_geti table_puti t r) (\<lambda>t1. Inr ((), L\<lparr>st := set_table h t1 (st L)\<rparr>))"
proof -
  have abs: "abs_index idx L = Inr (idx, L)" using T by (simp add: abs_index_def retA_def table_at_def)
  have room: "length s < ci_top L" using T by (simp add: table_at_def)
  have get: "lua_rawgeti idx n L = bindE (table_geti t n) (\<lambda>x. Inr ((), L\<lparr>stack := s @ [x]\<rparr>))" for n
    using rawgeti_eval [OF T, of "[]"] v room by simp
  have put: "lua_rawseti idx n (L\<lparr>stack := s @ [x]\<rparr>) = bindE (table_puti t n x) (\<lambda>t1. Inr ((), L\<lparr>st := set_table h t1 (st L), stack := s\<rparr>))" for n x
    using rawseti_eval [of idx h t s "L\<lparr>stack := s @ [x]\<rparr>" "[]" x n] T by simp
  have push: "lua_pushinteger r (L\<lparr>st := S\<rparr>) = Inr ((), L\<lparr>st := S, stack := s @ [TNumber (cast_num r)]\<rparr>)" for S
    using room v by (simp add: lua_pushinteger_def pushA_def)
  have put2: "lua_rawseti idx n (L\<lparr>st := set_table h t1 (st L), stack := s @ [x]\<rparr>)
      = bindE (table_puti t1 n x) (\<lambda>t2. Inr ((), L\<lparr>st := set_table h t2 (st L), stack := s\<rparr>))" for n t1 x
    using rawseti_eval [of idx h t1 s "L\<lparr>st := set_table h t1 (st L), stack := s @ [x]\<rparr>" "[]" x n] T by (simp add: set_table_twice)
  have same: "L\<lparr>st := S, stack := s\<rparr> = L\<lparr>st := S\<rparr>" for S by (simp flip: v)
  show ?thesis using r
    by (simp add: luaL_unref_def bindA_def abs unref_step_def bindE_assoc get put push put2 same)
qed

definition refs_in :: "int \<Rightarrow> (int \<Rightarrow> tvalue option) \<Rightarrow> tvalue list \<Rightarrow> lstate \<Rightarrow> bool" where
  "refs_in idx used s L \<longleftrightarrow> (\<exists>h t free. table_at idx h t s L \<and> table_ok t \<and> refs_ok (ival t) used free)"

lemma refs_in_read:
  assumes "refs_in idx used s L" "stack L = s" "used r = Some v"
  shows "lua_rawgeti idx r L = Inr ((), L\<lparr>stack := s @ [v]\<rparr>)"
proof -
  from assms(1) obtain h t free where t: "table_at idx h t s L" "table_ok t" "refs_ok (ival t) used free"
    unfolding refs_in_def by blast
  have "0 < r \<and> r \<le> INT_MAX \<and> v \<noteq> TNil \<and> ival t r = v" using refs_okD(4) [OF t(3) assms(3)] .
  then have "table_geti t r = Inr v" using it.geti_val [OF t(2), of r] by (simp add: INT_MIN_def)
  then show ?thesis using rawgeti_eval [OF t(1), of "[]" r] t(1) assms(2) by (simp add: table_at_def)
qed

text \<open>
  C23. References: \<^verbatim>\<open>luaL_ref\<close> hands out a positive reference that is not in use, the table holds the
  value there, and every reference in use keeps its value.
\<close>

theorem luaL_ref_fresh:
  assumes "refs_in idx used s L" "stack L = s @ [v]" "v \<noteq> TNil" "length s + 1 < ci_top L"
    and "luaL_ref idx L = Inr (r, L1)"
  shows "0 < r \<and> used r = None \<and> refs_in idx (used(r \<mapsto> v)) s L1 \<and> stack L1 = s
    \<and> (\<forall>q w. (used(r \<mapsto> v)) q = Some w \<longrightarrow> lua_rawgeti idx q L1 = Inr ((), L1\<lparr>stack := s @ [w]\<rparr>))"
proof -
  from assms(1) obtain h t free where t: "table_at idx h t s L" "table_ok t" "refs_ok (ival t) used free"
    unfolding refs_in_def by blast
  from assms(5) obtain t1 where
    r: "ref_step table_geti table_puti luaH_getn (s_decpoint (st L)) t v = Inr (r, t1)"
    and L1: "L1 = L\<lparr>st := set_table h t1 (st L), stack := s\<rparr>"
    unfolding luaL_ref_eval [OF t(1) assms(2,3) t(2) assms(4)] by (auto simp: bindE_simps)
  have t1: "table_ok t1 \<and> 0 < r \<and> r \<le> INT_MAX \<and> used r = None \<and> (\<exists>free'. refs_ok (ival t1) (used(r \<mapsto> v)) free')"
    by (rule rt.ref_fresh [OF t(2,3) assms(3) r])
  then have "refs_in idx (used(r \<mapsto> v)) s L1" using table_at_update [OF t(1)] unfolding refs_in_def L1 by auto
  moreover have "stack L1 = s" by (simp add: L1)
  ultimately show ?thesis using t1 refs_in_read by blast
qed

text \<open>
  \<^verbatim>\<open>luaL_unref\<close> releases a reference and leaves the values of the others.
\<close>

theorem luaL_unref_frees:
  assumes "refs_in idx used s L" "stack L = s" "used r \<noteq> None" "luaL_unref idx r L = Inr ((), L1)"
  shows "refs_in idx (used(r := None)) s L1 \<and> stack L1 = s
    \<and> (\<forall>q w. q \<noteq> r \<and> used q = Some w \<longrightarrow> lua_rawgeti idx q L1 = Inr ((), L1\<lparr>stack := s @ [w]\<rparr>))"
proof -
  from assms(1) obtain h t free where t: "table_at idx h t s L" "table_ok t" "refs_ok (ival t) used free"
    unfolding refs_in_def by blast
  have r0: "0 \<le> r" using refs_okD(4) [OF t(3)] assms(3) by fastforce
  from assms(4) obtain t1 where
    r: "unref_step table_geti table_puti t r = Inr t1" and L1: "L1 = L\<lparr>st := set_table h t1 (st L)\<rparr>"
    unfolding luaL_unref_eval [OF t(1) assms(2) t(2) r0] by (auto simp: bindE_simps)
  have "table_ok t1 \<and> refs_ok (ival t1) (used(r := None)) (r # free)"
    by (rule rt.unref_frees [OF t(2,3) assms(3) r])
  then have "refs_in idx (used(r := None)) s L1" using table_at_update [OF t(1)] unfolding refs_in_def L1 by auto
  moreover have "stack L1 = s" by (simp add: L1 assms(2))
  ultimately show ?thesis using refs_in_read [of idx "used(r := None)" s L1] by simp
qed

text \<open>A reference table with the value of key 1 in use.\<close>

definition ref_state :: lstate where
  "ref_state = sample_state\<lparr>stack := [TTable 0, TString ''v'']\<rparr>"

definition ref_used :: "int \<Rightarrow> tvalue option" where
  "ref_used = [1 \<mapsto> TBoolean True]"

lemma ref_state_refs: "refs_in 1 ref_used [TTable 0] (ref_state\<lparr>stack := x\<rparr>)"
proof -
  have "ival sample_table 0 = TNil" "ival sample_table 1 = TBoolean True" by code_simp+
  then have "refs_ok (ival sample_table) ref_used []"
    by (auto simp: refs_ok_def FREELIST_REF_def ref_used_def INT_MAX_def split: if_splits)
  moreover have "table_at 1 0 sample_table [TTable 0] (ref_state\<lparr>stack := x\<rparr>)"
    by (simp add: table_at_def ref_state_def sample_state_def)
  ultimately show ?thesis using sample_table_ok unfolding refs_in_def by blast
qed

lemma luaL_ref_fresh_witness:
  "\<exists>r L1. luaL_ref 1 ref_state = Inr (r, L1) \<and> 1 < r \<and> lua_rawgeti 1 1 L1 = Inr ((), L1\<lparr>stack := [TTable 0, TBoolean True]\<rparr>)"
proof -
  have "case luaL_ref 1 ref_state of Inr (r, L1) \<Rightarrow> 1 < r | _ \<Rightarrow> False" by code_simp
  then obtain r L1 where r: "luaL_ref 1 ref_state = Inr (r, L1)" "1 < r" by (auto split: sum.splits)
  have s: "stack ref_state = [TTable 0] @ [TString ''v'']" "ref_state\<lparr>stack := stack ref_state\<rparr> = ref_state" by (simp_all add: ref_state_def)
  from luaL_ref_fresh [OF ref_state_refs [of "stack ref_state", unfolded s(2)] s(1) _ _ r(1)] r show ?thesis
    by (auto simp: ref_used_def ref_state_def sample_state_def)
qed

lemma luaL_unref_frees_witness:
  "\<exists>L1. luaL_unref 1 1 (ref_state\<lparr>stack := [TTable 0]\<rparr>) = Inr ((), L1) \<and> stack L1 = [TTable 0]"
proof -
  have "case luaL_unref 1 1 (ref_state\<lparr>stack := [TTable 0]\<rparr>) of Inr (r, L1) \<Rightarrow> True | _ \<Rightarrow> False" by code_simp
  then obtain L1 where r: "luaL_unref 1 1 (ref_state\<lparr>stack := [TTable 0]\<rparr>) = Inr ((), L1)" by (auto split: sum.splits)
  from luaL_unref_frees [OF ref_state_refs _ _ r] r show ?thesis by (simp add: ref_used_def)
qed

end
