(* ===== verification/LuaLex.thy ===== *)
theory LuaLex
  imports LuaObject LuaZio
begin

text \<open>
  \<^verbatim>\<open>llex.h\<close> and \<^verbatim>\<open>llex.c\<close>: the lexical analyser.

  A \<^verbatim>\<open>LexState\<close> is a record; the token buffer is its bytes (\<open>ls_buff\<close>, whose length is
  \<^verbatim>\<open>buff->n\<close>) and its capacity \<open>ls_buffsize\<close>.  \<open>ls_strings\<close> are the keys of \<^verbatim>\<open>fs->h\<close> that
  \<^verbatim>\<open>luaX_newstring\<close> anchors.  \<open>ls_locale\<close> is the decimal point of the current C locale, which
  \<^verbatim>\<open>localeconv\<close> and \<^verbatim>\<open>strtod\<close> consult.  The configuration is the one of \<^verbatim>\<open>luaconf.h\<close>:
  \<^verbatim>\<open>LUA_COMPAT_LSTR\<close> is 1.
\<close>

section \<open>Tokens and state\<close>

definition FIRST_RESERVED :: int where "FIRST_RESERVED = 257"

definition TK_FUNCTION :: int where "TK_FUNCTION = FIRST_RESERVED + 8"
definition TK_WHILE :: int where "TK_WHILE = FIRST_RESERVED + 20"
definition TK_CONCAT :: int where "TK_CONCAT = FIRST_RESERVED + 21"
definition TK_DOTS :: int where "TK_DOTS = FIRST_RESERVED + 22"
definition TK_EQ :: int where "TK_EQ = FIRST_RESERVED + 23"
definition TK_GE :: int where "TK_GE = FIRST_RESERVED + 24"
definition TK_LE :: int where "TK_LE = FIRST_RESERVED + 25"
definition TK_NE :: int where "TK_NE = FIRST_RESERVED + 26"
definition TK_NUMBER :: int where "TK_NUMBER = FIRST_RESERVED + 27"
definition TK_NAME :: int where "TK_NAME = FIRST_RESERVED + 28"
definition TK_STRING :: int where "TK_STRING = FIRST_RESERVED + 29"
definition TK_EOS :: int where "TK_EOS = FIRST_RESERVED + 30"

lemmas TK_defs = FIRST_RESERVED_def TK_FUNCTION_def TK_WHILE_def TK_CONCAT_def TK_DOTS_def TK_EQ_def
  TK_GE_def TK_LE_def TK_NE_def TK_NUMBER_def TK_NAME_def TK_STRING_def TK_EOS_def

definition NUM_RESERVED :: nat where "NUM_RESERVED = 21"

definition luaX_tokens :: "string list" where
  "luaX_tokens =
     [''and'', ''break'', ''do'', ''else'', ''elseif'',
      ''end'', ''false'', ''for'', ''function'', ''if'',
      ''in'', ''local'', ''nil'', ''not'', ''or'', ''repeat'',
      ''return'', ''then'', ''true'', ''until'', ''while'',
      ''..'', ''...'', ''=='', ''>='', ''<='', ''~='',
      ''<number>'', ''<name>'', ''<string>'', ''<eof>'']"

datatype seminfo = SemNone | SemNum lua_Number | SemStr string

record token =
  tok_token :: int
  tok_seminfo :: seminfo

record lexstate =
  ls_current :: int
  ls_linenumber :: int
  ls_lastline :: int
  ls_t :: token
  ls_lookahead :: token
  ls_z :: zio
  ls_buff :: string
  ls_buffsize :: int
  ls_source :: string
  ls_decpoint :: byte
  ls_strings :: "string list"
  ls_locale :: byte

text \<open>\<^verbatim>\<open>luaX_init\<close> marks the reserved words: the byte \<^verbatim>\<open>tsv.reserved\<close> of a string.\<close>

fun reserved_from :: "nat \<Rightarrow> string list \<Rightarrow> string \<Rightarrow> int" where
  "reserved_from i [] s = 0"
| "reserved_from i (w # ws) s = (if s = w then int i + 1 else reserved_from (Suc i) ws s)"

definition reserved :: "string \<Rightarrow> int" where
  "reserved s = reserved_from 0 (take NUM_RESERVED luaX_tokens) s"

definition MAXSRC :: int where "MAXSRC = 80"
definition LUA_MINBUFFER :: int where "LUA_MINBUFFER = 32"

section \<open>Reading and saving characters\<close>

definition lex_next :: "lexstate \<Rightarrow> lua_error + lexstate" where
  "lex_next ls = bindE (zgetc (ls_z ls)) (\<lambda>(c, z). Inr (ls\<lparr>ls_current := c, ls_z := z\<rparr>))"

definition currIsNewline :: "lexstate \<Rightarrow> bool" where
  "currIsNewline ls \<longleftrightarrow> ls_current ls = 10 \<or> ls_current ls = 13"

text \<open>
  \<^verbatim>\<open>luaX_lexerror\<close> without a token to show, as \<^verbatim>\<open>save\<close> calls it (the general one below
  calls \<^verbatim>\<open>save\<close>).
\<close>

definition lexerror_msg :: "lexstate \<Rightarrow> string \<Rightarrow> lua_error + string" where
  "lexerror_msg ls msg =
     luaO_pushvfstring ''%s:%d: %s''
       [FStr (Some (luaO_chunkid (ls_source ls) MAXSRC)), FInt (ls_linenumber ls), FStr (Some msg)]"

definition throw_syntax :: "lua_error + string \<Rightarrow> lua_error" where
  "throw_syntax r = (case r of Inl e \<Rightarrow> e | Inr m \<Rightarrow> ErrSyntax m)"

definition save :: "lexstate \<Rightarrow> int \<Rightarrow> lua_error + lexstate" where
  "save ls c =
     (let n = int (length (ls_buff ls)) in
      if n + 1 > ls_buffsize ls then
        (if ls_buffsize ls \<ge> MAX_SIZET div 2 then
           Inl (throw_syntax (lexerror_msg ls ''lexical element too long''))
         else
           let newsize = ls_buffsize ls * 2 in
           if n + 1 > newsize then Inl ErrFault
           else Inr (ls\<lparr>ls_buff := ls_buff ls @ [int2char c], ls_buffsize := newsize\<rparr>))
      else Inr (ls\<lparr>ls_buff := ls_buff ls @ [int2char c]\<rparr>))"

definition save_and_next :: "lexstate \<Rightarrow> lua_error + lexstate" where
  "save_and_next ls = bindE (save ls (ls_current ls)) lex_next"

definition resetbuffer :: "lexstate \<Rightarrow> lexstate" where
  "resetbuffer ls = ls\<lparr>ls_buff := []\<rparr>"

section \<open>Error messages\<close>

definition LUA_QS :: string where "LUA_QS = [CHR 0x27, CHR ''%'', CHR ''s'', CHR 0x27]"

definition luaX_token2str :: "int \<Rightarrow> lua_error + string" where
  "luaX_token2str token =
     (if token < FIRST_RESERVED then
        (if iscntrl token then luaO_pushvfstring ''char(%d)'' [FInt token]
         else luaO_pushvfstring ''%c'' [FInt token])
      else if nat (token - FIRST_RESERVED) < length luaX_tokens
      then Inr (luaX_tokens ! nat (token - FIRST_RESERVED)) else Inl ErrFault)"

definition txtToken :: "lexstate \<Rightarrow> int \<Rightarrow> lua_error + string" where
  "txtToken ls token =
     (if token = TK_NAME \<or> token = TK_STRING \<or> token = TK_NUMBER
      then bindE (save ls 0) (\<lambda>ls'. Inr (cstr (ls_buff ls')))
      else luaX_token2str token)"

definition luaX_lexerror :: "lexstate \<Rightarrow> string \<Rightarrow> int \<Rightarrow> lua_error" where
  "luaX_lexerror ls msg token =
     throw_syntax
       (bindE (lexerror_msg ls msg) (\<lambda>m.
        if token \<noteq> 0 then
          bindE (txtToken ls token) (\<lambda>t.
          luaO_pushvfstring (''%s near '' @ LUA_QS) [FStr (Some m), FStr (Some t)])
        else Inr m))"

definition luaX_syntaxerror :: "lexstate \<Rightarrow> string \<Rightarrow> lua_error" where
  "luaX_syntaxerror ls msg = luaX_lexerror ls msg (tok_token (ls_t ls))"

section \<open>Strings and lines\<close>

definition luaX_newstring :: "lexstate \<Rightarrow> string \<Rightarrow> lexstate" where
  "luaX_newstring ls s = ls\<lparr>ls_strings := List.insert s (ls_strings ls)\<rparr>"

definition inclinenumber :: "lexstate \<Rightarrow> lua_error + lexstate" where
  "inclinenumber ls =
     bindE (lex_next ls) (\<lambda>ls1.
     bindE (if currIsNewline ls1 \<and> ls_current ls1 \<noteq> ls_current ls then lex_next ls1 else Inr ls1) (\<lambda>ls2.
     let ls3 = ls2\<lparr>ls_linenumber := ls_linenumber ls2 + 1\<rparr>
     in if ls_linenumber ls3 \<ge> MAX_INT then Inl (luaX_syntaxerror ls3 ''chunk has too many lines'')
        else Inr ls3))"

text \<open>\<^verbatim>\<open>luaX_setinput\<close> on the state and input its caller \<^verbatim>\<open>luaY_parser\<close> provides.\<close>

definition luaX_setinput :: "byte \<Rightarrow> token \<Rightarrow> zio \<Rightarrow> string \<Rightarrow> lua_error + lexstate" where
  "luaX_setinput locale t z source =
     lex_next
       \<lparr>ls_current = 0, ls_linenumber = 1, ls_lastline = 1, ls_t = t,
        ls_lookahead = \<lparr>tok_token = TK_EOS, tok_seminfo = SemNone\<rparr>, ls_z = z,
        ls_buff = [], ls_buffsize = LUA_MINBUFFER, ls_source = source,
        ls_decpoint = CHR ''.'', ls_strings = [], ls_locale = locale\<rparr>"

text \<open>\<^verbatim>\<open>strchr(set, c)\<close> finds the terminating \<^verbatim>\<open>'\0'\<close> too.\<close>

definition strchr :: "string \<Rightarrow> int \<Rightarrow> bool" where
  "strchr cs c \<longleftrightarrow> int2char c = NUL \<or> int2char c \<in> set cs"

definition check_next :: "lexstate \<Rightarrow> string \<Rightarrow> lua_error + bool \<times> lexstate" where
  "check_next ls cs =
     (if \<not> strchr cs (ls_current ls) then Inr (False, ls)
      else bindE (save_and_next ls) (\<lambda>ls'. Inr (True, ls')))"

definition buffreplace :: "lexstate \<Rightarrow> byte \<Rightarrow> byte \<Rightarrow> lexstate" where
  "buffreplace ls from to = ls\<lparr>ls_buff := map (\<lambda>c. if c = from then to else c) (ls_buff ls)\<rparr>"

definition trydecpoint :: "lexstate \<Rightarrow> lua_error + lua_Number \<times> lexstate" where
  "trydecpoint ls =
     (let old = ls_decpoint ls;
          ls1 = ls\<lparr>ls_decpoint := ls_locale ls\<rparr>;
          ls2 = buffreplace ls1 old (ls_decpoint ls1)
      in case luaO_str2d (ls_locale ls2) (ls_buff ls2) of
           Some r \<Rightarrow> Inr (r, ls2)
         | None \<Rightarrow>
             let ls3 = buffreplace ls2 (ls_decpoint ls2) CHR ''.''
             in Inl (luaX_lexerror ls3 ''malformed number'' TK_NUMBER))"

section \<open>Progress\<close>

text \<open>
  What is left to read: every \<open>lex_next\<close> on a character that is not \<^verbatim>\<open>EOZ\<close> lowers it, so
  every loop of the analyser ends.
\<close>

definition lex_left :: "lexstate \<Rightarrow> nat" where
  "lex_left ls = zio_left (ls_z ls) + (if ls_current ls = EOZ then 0 else 1)"

named_theorems lex_decr "how far the operations of the analyser move"

lemma zgetc_left: "zgetc z = Inr (c, z') \<Longrightarrow> zio_left z' + (if c = EOZ then 0 else 1) \<le> zio_left z"
  by (auto simp: zgetc_def luaZ_fill_def zio_left_def Let_def split: list.splits if_splits)

lemma lex_next_less [lex_decr]:
  "lex_next ls = Inr ls' \<Longrightarrow> ls_current ls \<noteq> EOZ \<Longrightarrow> lex_left ls' < lex_left ls"
  by (auto simp: lex_next_def lex_left_def bindE_simps dest!: zgetc_left)

lemma lex_next_le [lex_decr]: "lex_next ls = Inr ls' \<Longrightarrow> lex_left ls' \<le> lex_left ls"
  by (auto simp: lex_next_def lex_left_def bindE_simps dest!: zgetc_left)

lemma save_fields:
  assumes "save ls c = Inr ls'"
  shows "ls_current ls' = ls_current ls" "ls_z ls' = ls_z ls" "ls_buff ls' = ls_buff ls @ [int2char c]"
    "ls_linenumber ls' = ls_linenumber ls" "ls_t ls' = ls_t ls" "ls_lookahead ls' = ls_lookahead ls"
    "ls_decpoint ls' = ls_decpoint ls" "ls_locale ls' = ls_locale ls"
    "ls_source ls' = ls_source ls" "ls_strings ls' = ls_strings ls" "ls_lastline ls' = ls_lastline ls"
  using assms by (auto simp: save_def Let_def split: if_splits)

lemma save_left [lex_decr]: "save ls c = Inr ls' \<Longrightarrow> lex_left ls' = lex_left ls"
  by (simp add: lex_left_def save_fields)

lemma save_and_next_less [lex_decr]:
  "save_and_next ls = Inr ls' \<Longrightarrow> ls_current ls \<noteq> EOZ \<Longrightarrow> lex_left ls' < lex_left ls"
  using save_left [of ls] save_fields(1) [of ls] lex_next_less
  by (fastforce simp: save_and_next_def bindE_simps)

lemma save_and_next_le [lex_decr]: "save_and_next ls = Inr ls' \<Longrightarrow> lex_left ls' \<le> lex_left ls"
  by (auto simp: save_and_next_def bindE_simps dest!: save_left lex_next_le)

lemma inclinenumber_less [lex_decr]:
  assumes "inclinenumber ls = Inr ls'" "ls_current ls \<noteq> EOZ"
  shows "lex_left ls' < lex_left ls"
proof -
  obtain ls1 ls2 where n: "lex_next ls = Inr ls1" "ls' = ls2\<lparr>ls_linenumber := ls_linenumber ls2 + 1\<rparr>"
    "ls2 = ls1 \<or> lex_next ls1 = Inr ls2"
    using assms(1) by (auto simp: inclinenumber_def bindE_simps Let_def split: if_splits)
  then have "lex_left ls2 \<le> lex_left ls1" by (auto dest: lex_next_le)
  with n(1,2) assms(2) show ?thesis using lex_next_less [of ls ls1] by (simp add: lex_left_def)
qed

lemma currIsNewline_not_EOZ: "currIsNewline ls \<Longrightarrow> ls_current ls \<noteq> EOZ"
  by (auto simp: currIsNewline_def EOZ_def)

section \<open>Numerals\<close>

text \<open>\<^verbatim>\<open>while (P(ls->current)) save_and_next(ls)\<close>, for a \<open>P\<close> that \<^verbatim>\<open>EOZ\<close> does not satisfy.\<close>

function save_while :: "(int \<Rightarrow> bool) \<Rightarrow> lexstate \<Rightarrow> lua_error + lexstate" where
  "save_while P ls =
     (if ls_current ls \<noteq> EOZ \<and> P (ls_current ls) then bindE (save_and_next ls) (save_while P)
      else Inr ls)"
  by pat_completeness auto
termination
  by (relation "measure (\<lambda>(P, ls). lex_left ls)") (auto intro: save_and_next_less)

declare save_while.simps [simp del]

definition read_numeral :: "lexstate \<Rightarrow> lua_error + lua_Number \<times> lexstate" where
  "read_numeral ls =
     bindE (save_and_next ls) (\<lambda>ls.
     bindE (save_while (\<lambda>c. isdigit c \<or> c = 46) ls) (\<lambda>ls.
     bindE (check_next ls ''Ee'') (\<lambda>(e, ls).
     bindE (if e then check_next ls ''+-'' else Inr (False, ls)) (\<lambda>(_, ls).
     bindE (save_while (\<lambda>c. isalnum c \<or> c = 95) ls) (\<lambda>ls.
     bindE (save ls 0) (\<lambda>ls.
     let ls = buffreplace ls CHR ''.'' (ls_decpoint ls)
     in case luaO_str2d (ls_locale ls) (ls_buff ls) of
          Some r \<Rightarrow> Inr (r, ls)
        | None \<Rightarrow> trydecpoint ls))))))"

section \<open>Long brackets\<close>

function skip_equals :: "lexstate \<Rightarrow> int \<Rightarrow> lua_error + int \<times> lexstate" where
  "skip_equals ls count =
     (if ls_current ls = 61 then bindE (save_and_next ls) (\<lambda>ls'. skip_equals ls' (count + 1))
      else Inr (count, ls))"
  by pat_completeness auto
termination
  by (relation "measure (\<lambda>(ls, count). lex_left ls)") (auto intro: save_and_next_less simp: EOZ_def)

declare skip_equals.simps [simp del]

definition skip_sep :: "lexstate \<Rightarrow> lua_error + int \<times> lexstate" where
  "skip_sep ls =
     (let s = ls_current ls in
      bindE (save_and_next ls) (\<lambda>ls1.
      bindE (skip_equals ls1 0) (\<lambda>(count, ls2).
      Inr (if ls_current ls2 = s then count else - count - 1, ls2))))"

lemma skip_equals_le [lex_decr]: "skip_equals ls n = Inr (k, ls') \<Longrightarrow> lex_left ls' \<le> lex_left ls"
proof (induction ls n arbitrary: k ls' rule: skip_equals.induct)
  case (1 ls count)
  then show ?case
    by (subst (asm) skip_equals.simps) (fastforce simp: bindE_simps split: if_splits dest: save_and_next_le)
qed

lemma skip_sep_less [lex_decr]:
  "skip_sep ls = Inr (k, ls') \<Longrightarrow> ls_current ls \<noteq> EOZ \<Longrightarrow> lex_left ls' < lex_left ls"
  by (auto simp: skip_sep_def bindE_simps Let_def dest!: save_and_next_less skip_equals_le)

text \<open>The \<^verbatim>\<open>for (;;)\<close> of \<^verbatim>\<open>read_long_string\<close>; \<open>keep\<close> is \<^verbatim>\<open>seminfo != NULL\<close>.\<close>

function long_string_loop :: "lexstate \<Rightarrow> bool \<Rightarrow> int \<Rightarrow> lua_error + lexstate" where
  "long_string_loop ls keep sep =
     (if ls_current ls = EOZ then
        Inl (luaX_lexerror ls (if keep then ''unfinished long string'' else ''unfinished long comment'') TK_EOS)
      else if ls_current ls = 91 then
        bindE (skip_sep ls) (\<lambda>(k, ls1).
        if k = sep then
          bindE (save_and_next ls1) (\<lambda>ls2.
          if sep = 0 then Inl (luaX_lexerror ls2 ''nesting of [[...]] is deprecated'' 91)
          else long_string_loop ls2 keep sep)
        else long_string_loop ls1 keep sep)
      else if ls_current ls = 93 then
        bindE (skip_sep ls) (\<lambda>(k, ls1).
        if k = sep then save_and_next ls1 else long_string_loop ls1 keep sep)
      else if currIsNewline ls then
        bindE (save ls 10) (\<lambda>ls1.
        bindE (inclinenumber ls1) (\<lambda>ls2.
        long_string_loop (if keep then ls2 else resetbuffer ls2) keep sep))
      else if keep then bindE (save_and_next ls) (\<lambda>ls1. long_string_loop ls1 keep sep)
      else bindE (lex_next ls) (\<lambda>ls1. long_string_loop ls1 keep sep))"
  by pat_completeness auto
termination
proof (relation "measure (\<lambda>(ls, keep, sep). lex_left ls)", goal_cases)
  case (2 ls keep sep x k ls1 ls2)
  then show ?case using skip_sep_less [of ls k ls1] save_and_next_le [of ls1 ls2] by simp
next
  case (5 ls keep sep ls1 ls2)
  then show ?case
    using save_left [of ls 10 ls1] save_fields(1) [of ls 10 ls1] inclinenumber_less [of ls1 ls2]
    by (simp add: resetbuffer_def lex_left_def split: if_splits)
qed (auto dest: skip_sep_less save_and_next_less lex_next_less)

declare long_string_loop.simps [simp del]

definition read_long_string :: "lexstate \<Rightarrow> bool \<Rightarrow> int \<Rightarrow> lua_error + seminfo \<times> lexstate" where
  "read_long_string ls keep sep =
     bindE (save_and_next ls) (\<lambda>ls1.
     bindE (if currIsNewline ls1 then inclinenumber ls1 else Inr ls1) (\<lambda>ls2.
     bindE (long_string_loop ls2 keep sep) (\<lambda>ls3.
     if keep then
       let b = ls_buff ls3;
           s = take (length b - nat (2 * (2 + sep))) (drop (nat (2 + sep)) b)
       in Inr (SemStr s, luaX_newstring ls3 s)
     else Inr (SemNone, ls3))))"

section \<open>Quoted strings\<close>

text \<open>The decimal escape: at most three digits.\<close>

fun read_decesc :: "nat \<Rightarrow> lexstate \<Rightarrow> int \<Rightarrow> lua_error + int \<times> lexstate" where
  "read_decesc 0 ls c = Inr (c, ls)"
| "read_decesc (Suc i) ls c =
     (if isdigit (ls_current ls) then
        bindE (lex_next ls) (\<lambda>ls'. read_decesc i ls' (10 * c + (ls_current ls - 48)))
      else Inr (c, ls))"

definition simple_escape :: "int \<Rightarrow> int option" where
  "simple_escape c =
     (if c = 97 then Some 7 else if c = 98 then Some 8 else if c = 102 then Some 12
      else if c = 110 then Some 10 else if c = 114 then Some 13 else if c = 116 then Some 9
      else if c = 118 then Some 11 else None)"

text \<open>What follows a backslash, with \<^verbatim>\<open>ls->current\<close> the character after it.\<close>

definition read_escape :: "lexstate \<Rightarrow> lua_error + lexstate" where
  "read_escape ls =
     (case simple_escape (ls_current ls) of
        Some c \<Rightarrow> bindE (save ls c) lex_next
      | None \<Rightarrow>
          if currIsNewline ls then bindE (save ls 10) inclinenumber
          else if ls_current ls = EOZ then Inr ls
          else if \<not> isdigit (ls_current ls) then save_and_next ls
          else bindE (read_decesc 3 ls 0) (\<lambda>(c, ls1).
               if c > 255 then Inl (luaX_lexerror ls1 ''escape sequence too large'' TK_STRING)
               else save ls1 c))"

lemma read_decesc_le [lex_decr]: "read_decesc i ls c = Inr (d, ls') \<Longrightarrow> lex_left ls' \<le> lex_left ls"
  by (induction i arbitrary: ls c)
    (fastforce simp: bindE_simps split: if_splits dest: lex_next_le)+

text \<open>A backslash and what it escapes consume at least the backslash.\<close>

lemma read_escape_le [lex_decr]: "read_escape ls = Inr ls' \<Longrightarrow> lex_left ls' \<le> lex_left ls"
proof -
  assume a: "read_escape ls = Inr ls'"
  have inc: "inclinenumber x = Inr ls' \<Longrightarrow> save ls 10 = Inr x \<Longrightarrow> currIsNewline ls \<Longrightarrow> lex_left ls' \<le> lex_left ls" for x
    using inclinenumber_less [of x ls'] save_left [of ls 10 x] save_fields(1) [of ls 10 x] currIsNewline_not_EOZ [of ls]
    by simp
  show ?thesis
    using a unfolding read_escape_def
    by (fastforce simp: bindE_simps split: option.splits if_splits prod.splits
        dest: save_left lex_next_le save_and_next_le read_decesc_le intro: inc)
qed

function read_string_loop :: "lexstate \<Rightarrow> int \<Rightarrow> lua_error + lexstate" where
  "read_string_loop ls del =
     (if ls_current ls = del then Inr ls
      else if ls_current ls = EOZ then Inl (luaX_lexerror ls ''unfinished string'' TK_EOS)
      else if currIsNewline ls then Inl (luaX_lexerror ls ''unfinished string'' TK_STRING)
      else if ls_current ls = 92 then
        bindE (lex_next ls) (\<lambda>ls1. bindE (read_escape ls1) (\<lambda>ls2. read_string_loop ls2 del))
      else bindE (save_and_next ls) (\<lambda>ls1. read_string_loop ls1 del))"
  by pat_completeness auto
termination
proof (relation "measure (\<lambda>(ls, del). lex_left ls)", goal_cases)
  case (2 ls del ls1 ls2)
  then show ?case using lex_next_less [of ls ls1] read_escape_le [of ls1 ls2] by simp
qed (auto dest: save_and_next_less)

declare read_string_loop.simps [simp del]

definition read_string :: "lexstate \<Rightarrow> int \<Rightarrow> lua_error + seminfo \<times> lexstate" where
  "read_string ls del =
     bindE (save_and_next ls) (\<lambda>ls1.
     bindE (read_string_loop ls1 del) (\<lambda>ls2.
     bindE (save_and_next ls2) (\<lambda>ls3.
     let b = ls_buff ls3; s = take (length b - 2) (drop 1 b)
     in Inr (SemStr s, luaX_newstring ls3 s))))"

section \<open>The analyser\<close>

text \<open>\<^verbatim>\<open>while (!currIsNewline(ls) && ls->current != EOZ) next(ls)\<close>\<close>

function skip_line :: "lexstate \<Rightarrow> lua_error + lexstate" where
  "skip_line ls =
     (if \<not> currIsNewline ls \<and> ls_current ls \<noteq> EOZ then bindE (lex_next ls) skip_line else Inr ls)"
  by pat_completeness auto
termination
  by (relation "measure lex_left") (auto intro: lex_next_less)

declare skip_line.simps [simp del]

lemma skip_line_le [lex_decr]: "skip_line ls = Inr ls' \<Longrightarrow> lex_left ls' \<le> lex_left ls"
proof (induction ls arbitrary: ls' rule: skip_line.induct)
  case (1 ls)
  then show ?case
    by (subst (asm) skip_line.simps) (fastforce simp: bindE_simps split: if_splits dest: lex_next_le)
qed

lemma long_string_loop_le [lex_decr]:
  "long_string_loop ls keep sep = Inr ls' \<Longrightarrow> lex_left ls' \<le> lex_left ls"
proof (induction ls keep sep arbitrary: ls' rule: long_string_loop.induct)
  case (1 ls keep sep)
  note step = "1.prems" [unfolded long_string_loop.simps [of ls]]
  consider "ls_current ls = 91" | "ls_current ls = 93" | "ls_current ls \<noteq> EOZ" "ls_current ls \<noteq> 91"
      "ls_current ls \<noteq> 93" "currIsNewline ls" | "ls_current ls \<noteq> EOZ" "ls_current ls \<noteq> 91"
      "ls_current ls \<noteq> 93" "\<not> currIsNewline ls"
    using step by (auto split: if_splits)
  then show ?case
  proof cases
    case 1
    then have ne: "ls_current ls \<noteq> EOZ" by (simp add: EOZ_def)
    with step 1 obtain k ls1 where k: "skip_sep ls = Inr (k, ls1)"
      "if k = sep then \<exists>ls2. save_and_next ls1 = Inr ls2 \<and> sep \<noteq> 0 \<and> long_string_loop ls2 keep sep = Inr ls'
       else long_string_loop ls1 keep sep = Inr ls'"
      by (fastforce simp: bindE_simps split: if_splits)
    show ?thesis
      using k "1.IH"(1,2) [OF ne 1 k(1) refl] skip_sep_less [OF k(1) ne]
      by (fastforce split: if_splits dest: save_and_next_le)
  next
    case 2
    then have ne: "ls_current ls \<noteq> EOZ" "ls_current ls \<noteq> 91" by (simp_all add: EOZ_def)
    with step 2 obtain k ls1 where k: "skip_sep ls = Inr (k, ls1)"
      "if k = sep then save_and_next ls1 = Inr ls' else long_string_loop ls1 keep sep = Inr ls'"
      by (fastforce simp: bindE_simps split: if_splits)
    show ?thesis
      using k "1.IH"(3) [OF ne 2 k(1) refl] skip_sep_less [OF k(1) ne(1)]
      by (fastforce split: if_splits dest: save_and_next_le)
  next
    case 3
    with step obtain ls1 ls2 where k: "save ls 10 = Inr ls1" "inclinenumber ls1 = Inr ls2"
      "long_string_loop (if keep then ls2 else resetbuffer ls2) keep sep = Inr ls'"
      by (fastforce simp: bindE_simps)
    show ?thesis
      using "1.IH"(4) [OF 3(1,2,3,4) k(1,2)] k 3 inclinenumber_less [OF k(2)] save_left [OF k(1)]
      by (auto simp: save_fields(1) [OF k(1)] resetbuffer_def lex_left_def split: if_splits)
  next
    case 4
    show ?thesis
    proof (cases keep)
      case True
      with step 4 obtain ls1 where k: "save_and_next ls = Inr ls1" "long_string_loop ls1 keep sep = Inr ls'"
        by (auto simp: bindE_simps)
      show ?thesis using "1.IH"(5) [OF 4 True k(1)] k save_and_next_le [OF k(1)] by simp
    next
      case False
      with step 4 obtain ls1 where k: "lex_next ls = Inr ls1" "long_string_loop ls1 keep sep = Inr ls'"
        by (auto simp: bindE_simps)
      show ?thesis using "1.IH"(6) [OF 4 False k(1)] k lex_next_le [OF k(1)] by simp
    qed
  qed
qed

lemma read_long_string_le [lex_decr]:
  assumes "read_long_string ls keep sep = Inr (s, ls')"
  shows "lex_left ls' \<le> lex_left ls"
proof -
  obtain ls1 ls2 ls3 where r: "save_and_next ls = Inr ls1"
    "(if currIsNewline ls1 then inclinenumber ls1 else Inr ls1) = Inr ls2"
    "long_string_loop ls2 keep sep = Inr ls3" "ls_z ls' = ls_z ls3" "ls_current ls' = ls_current ls3"
    using assms
    by (fastforce simp: read_long_string_def bindE_simps Let_def luaX_newstring_def split: if_splits)
  have "lex_left ls2 \<le> lex_left ls1"
    using r(2) inclinenumber_less [of ls1 ls2] currIsNewline_not_EOZ [of ls1] by (auto split: if_splits)
  then show ?thesis
    using save_and_next_le [OF r(1)] long_string_loop_le [OF r(3)] r(4,5) by (simp add: lex_left_def)
qed

text \<open>The rest of a comment, after its two hyphens.\<close>

definition skip_comment :: "lexstate \<Rightarrow> lua_error + lexstate" where
  "skip_comment ls =
     (if ls_current ls = 91 then
        bindE (skip_sep ls) (\<lambda>(sep, ls1).
        let ls2 = resetbuffer ls1 in
        if sep \<ge> 0 then
          bindE (read_long_string ls2 False sep) (\<lambda>(_, ls3). Inr (resetbuffer ls3))
        else skip_line ls2)
      else skip_line ls)"

lemma lex_left_resetbuffer [simp]: "lex_left (resetbuffer ls) = lex_left ls"
  by (simp add: lex_left_def resetbuffer_def)

lemma skip_comment_le [lex_decr]: "skip_comment ls = Inr ls' \<Longrightarrow> lex_left ls' \<le> lex_left ls"
proof (cases "ls_current ls = 91")
  case True
  then have "ls_current ls \<noteq> EOZ" by (simp add: EOZ_def)
  moreover assume "skip_comment ls = Inr ls'"
  ultimately show ?thesis
    using True skip_sep_less [of ls]
    by (fastforce simp: skip_comment_def bindE_simps Let_def split: if_splits
        dest: read_long_string_le skip_line_le)
qed (auto simp: skip_comment_def dest: skip_line_le)

definition two_char :: "lexstate \<Rightarrow> int \<Rightarrow> int \<Rightarrow> lua_error + int \<times> seminfo \<times> lexstate" where
  "two_char ls c tk =
     bindE (lex_next ls) (\<lambda>ls1.
     if ls_current ls1 \<noteq> 61 then Inr (c, SemNone, ls1)
     else bindE (lex_next ls1) (\<lambda>ls2. Inr (tk, SemNone, ls2)))"

definition lex_dots :: "lexstate \<Rightarrow> lua_error + int \<times> seminfo \<times> lexstate" where
  "lex_dots ls =
     bindE (save_and_next ls) (\<lambda>ls1.
     bindE (check_next ls1 ''.'') (\<lambda>(two, ls2).
     if two then
       bindE (check_next ls2 ''.'') (\<lambda>(three, ls3).
       Inr (if three then TK_DOTS else TK_CONCAT, SemNone, ls3))
     else if \<not> isdigit (ls_current ls2) then Inr (46, SemNone, ls2)
     else bindE (read_numeral ls2) (\<lambda>(r, ls3). Inr (TK_NUMBER, SemNum r, ls3))))"

definition lex_name :: "lexstate \<Rightarrow> lua_error + int \<times> seminfo \<times> lexstate" where
  "lex_name ls =
     bindE (save_and_next ls) (\<lambda>ls1.
     bindE (save_while (\<lambda>c. isalnum c \<or> c = 95) ls1) (\<lambda>ls2.
     let s = ls_buff ls2; ls3 = luaX_newstring ls2 s
     in if reserved s > 0 then Inr (reserved s - 1 + FIRST_RESERVED, SemNone, ls3)
        else Inr (TK_NAME, SemStr s, ls3)))"

definition lex_bracket :: "lexstate \<Rightarrow> lua_error + int \<times> seminfo \<times> lexstate" where
  "lex_bracket ls =
     bindE (skip_sep ls) (\<lambda>(sep, ls1).
     if sep \<ge> 0 then
       bindE (read_long_string ls1 True sep) (\<lambda>(s, ls2). Inr (TK_STRING, s, ls2))
     else if sep = -1 then Inr (91, SemNone, ls1)
     else Inl (luaX_lexerror ls1 ''invalid long string delimiter'' TK_STRING))"

text \<open>The \<^verbatim>\<open>for (;;) switch\<close> of \<^verbatim>\<open>llex\<close>, in the order of its cases.\<close>

function llex_loop :: "lexstate \<Rightarrow> lua_error + int \<times> seminfo \<times> lexstate" where
  "llex_loop ls =
     (if currIsNewline ls then bindE (inclinenumber ls) llex_loop
      else if ls_current ls = 45 then
        bindE (lex_next ls) (\<lambda>ls1.
        if ls_current ls1 \<noteq> 45 then Inr (45, SemNone, ls1)
        else bindE (lex_next ls1) (\<lambda>ls2. bindE (skip_comment ls2) llex_loop))
      else if ls_current ls = 91 then lex_bracket ls
      else if ls_current ls = 61 then two_char ls 61 TK_EQ
      else if ls_current ls = 60 then two_char ls 60 TK_LE
      else if ls_current ls = 62 then two_char ls 62 TK_GE
      else if ls_current ls = 126 then two_char ls 126 TK_NE
      else if ls_current ls = 34 \<or> ls_current ls = 39 then
        bindE (read_string ls (ls_current ls)) (\<lambda>(s, ls1). Inr (TK_STRING, s, ls1))
      else if ls_current ls = 46 then lex_dots ls
      else if ls_current ls = EOZ then Inr (TK_EOS, SemNone, ls)
      else if isspace (ls_current ls) then bindE (lex_next ls) llex_loop
      else if isdigit (ls_current ls) then
        bindE (read_numeral ls) (\<lambda>(r, ls1). Inr (TK_NUMBER, SemNum r, ls1))
      else if isalpha (ls_current ls) \<or> ls_current ls = 95 then lex_name ls
      else bindE (lex_next ls) (\<lambda>ls1. Inr (ls_current ls, SemNone, ls1)))"
  by pat_completeness auto
termination
proof (relation "measure lex_left", goal_cases)
  case (2 ls x)
  then show ?case using inclinenumber_less [of ls x] currIsNewline_not_EOZ by simp
next
  case (3 ls x1 x2 x3)
  then show ?case
    using lex_next_less [of ls x1] lex_next_le [of x1 x2] skip_comment_le [of x2 x3] by (simp add: EOZ_def)
qed (auto dest: lex_next_less)

declare llex_loop.simps [simp del]

definition llex :: "lexstate \<Rightarrow> lua_error + int \<times> seminfo \<times> lexstate" where
  "llex ls = llex_loop (resetbuffer ls)"

definition luaX_next :: "lexstate \<Rightarrow> lua_error + lexstate" where
  "luaX_next ls =
     (let ls1 = ls\<lparr>ls_lastline := ls_linenumber ls\<rparr> in
      if tok_token (ls_lookahead ls1) \<noteq> TK_EOS then
        Inr (ls1\<lparr>ls_t := ls_lookahead ls1, ls_lookahead := (ls_lookahead ls1)\<lparr>tok_token := TK_EOS\<rparr>\<rparr>)
      else bindE (llex ls1) (\<lambda>(t, s, ls2). Inr (ls2\<lparr>ls_t := \<lparr>tok_token = t, tok_seminfo = s\<rparr>\<rparr>)))"

definition luaX_lookahead :: "lexstate \<Rightarrow> lua_error + lexstate" where
  "luaX_lookahead ls =
     bindE (llex ls) (\<lambda>(t, s, ls1). Inr (ls1\<lparr>ls_lookahead := \<lparr>tok_token = t, tok_seminfo = s\<rparr>\<rparr>))"

end
