(* ===== verification/LuaCode.thy ===== *)
theory LuaCode
  imports LuaVm LuaLex LuaDebug
begin

text \<open>
  The code generator, \<^verbatim>\<open>lcode.c\<close>: constants, registers, jump lists, and the discharge of
  expression descriptors.

  A \<^verbatim>\<open>FuncState\<close> is a record with the fields of the prototype it builds.  The vectors that grow
  by doubling (code, lines, constants) are lists of the elements in use, so \<^verbatim>\<open>fs->pc\<close> and
  \<^verbatim>\<open>fs->nk\<close> are lengths; growing beyond the limit of a vector is its error.  An expression
  descriptor is passed and returned by value.  The union of \<^verbatim>\<open>expdesc\<close> is kept as separate
  fields, of which the kind selects one.  The chain of a jump list is followed at most once per
  instruction: a longer walk would be a cycle, which the code would follow for ever.
\<close>

section \<open>States\<close>

datatype expkind = VVOID | VNIL | VTRUE | VFALSE | VK | VKNUM | VLOCAL | VUPVAL | VGLOBAL | VINDEXED
  | VJMP | VRELOCABLE | VNONRELOC | VCALL | VVARARG

record expdesc =
  e_k :: expkind
  e_info :: int
  e_aux :: int
  e_nval :: lua_Number
  e_t :: int
  e_f :: int

record upvaldesc =
  uv_k :: expkind
  uv_info :: int

record blockcnt =
  bl_breaklist :: int
  bl_nactvar :: int
  bl_upval :: bool
  bl_isbreakable :: bool

record funcstate =
  f_k :: "kval list"
  f_code :: "Instruction list"
  f_p :: "proto list"
  f_lineinfo :: "int list"
  f_locvars :: "locvar list"
  f_upvalues :: "string list"
  f_source :: string
  f_linedefined :: int
  f_lastlinedefined :: int
  f_numparams :: int
  f_is_vararg :: int
  f_maxstacksize :: int
  fs_h :: table
  fs_hid :: nat
  fs_bl :: "blockcnt list"
  fs_lasttarget :: int
  fs_jpc :: int
  fs_freereg :: int
  fs_nactvar :: int
  fs_upvalues :: "upvaldesc list"
  fs_actvar :: "nat list"

definition fs_pc :: "funcstate \<Rightarrow> int" where "fs_pc fs = int (length (f_code fs))"
definition fs_nk :: "funcstate \<Rightarrow> int" where "fs_nk fs = int (length (f_k fs))"

text \<open>The lexical state is only read here: its last line, and its token in an error message.\<close>

type_synonym 'a gen = "lexstate \<Rightarrow> funcstate \<Rightarrow> lua_error + 'a \<times> funcstate"

definition bindG :: "'a gen \<Rightarrow> ('a \<Rightarrow> 'b gen) \<Rightarrow> 'b gen" where
  "bindG m f ls fs = bindE (m ls fs) (\<lambda>(x, fs1). f x ls fs1)"

definition retG :: "'a \<Rightarrow> 'a gen" where
  "retG x ls fs = Inr (x, fs)"

definition failG :: "lua_error \<Rightarrow> 'a gen" where
  "failG e ls fs = Inl e"

definition getG :: "(funcstate \<Rightarrow> 'a) \<Rightarrow> 'a gen" where
  "getG f ls fs = Inr (f fs, fs)"

definition modG :: "(funcstate \<Rightarrow> funcstate) \<Rightarrow> unit gen" where
  "modG f ls fs = Inr ((), f fs)"

definition syntaxG :: "string \<Rightarrow> 'a gen" where
  "syntaxG msg ls fs = Inl (luaX_syntaxerror ls msg)"

definition code_at :: "int \<Rightarrow> Instruction gen" where
  "code_at pc ls fs = (if 0 \<le> pc \<and> pc < fs_pc fs then Inr (f_code fs ! nat pc, fs) else Inl ErrFault)"

definition set_code :: "int \<Rightarrow> Instruction \<Rightarrow> unit gen" where
  "set_code pc i ls fs =
     (if 0 \<le> pc \<and> pc < fs_pc fs then Inr ((), fs\<lparr>f_code := (f_code fs)[nat pc := i]\<rparr>) else Inl ErrFault)"

definition change_code :: "int \<Rightarrow> (Instruction \<Rightarrow> Instruction) \<Rightarrow> unit gen" where
  "change_code pc f = bindG (code_at pc) (\<lambda>i. set_code pc (f i))"

section \<open>Jump lists\<close>

definition NO_JUMP :: int where "NO_JUMP = -1"

definition hasjumps :: "expdesc \<Rightarrow> bool" where
  "hasjumps e \<longleftrightarrow> e_t e \<noteq> e_f e"

definition isnumeral :: "expdesc \<Rightarrow> bool" where
  "isnumeral e \<longleftrightarrow> e_k e = VKNUM \<and> e_t e = NO_JUMP \<and> e_f e = NO_JUMP"

definition fixjump :: "int \<Rightarrow> int \<Rightarrow> unit gen" where
  "fixjump pc dest =
     bindG (code_at pc) (\<lambda>jmp.
     let offset = dest - (pc + 1) in
     if \<bar>offset\<bar> > MAXARG_sBx then syntaxG ''control structure too long''
     else set_code pc (SETARG_sBx jmp offset))"

definition luaK_getlabel :: "int gen" where
  "luaK_getlabel = bindG (modG (\<lambda>fs. fs\<lparr>fs_lasttarget := fs_pc fs\<rparr>)) (\<lambda>_. getG fs_pc)"

definition getjump :: "int \<Rightarrow> int gen" where
  "getjump pc = bindG (code_at pc) (\<lambda>i.
     let offset = GETARG_sBx i in retG (if offset = NO_JUMP then NO_JUMP else pc + 1 + offset))"

text \<open>
  \<^verbatim>\<open>testTMode\<close> of a number that is not an opcode reads outside the table of modes.  The result
  is the position of the instruction.
\<close>

definition getjumpcontrol :: "int \<Rightarrow> int gen" where
  "getjumpcontrol pc =
     bindG (code_at pc) (\<lambda>_.
     if pc \<ge> 1 then
       bindG (code_at (pc - 1)) (\<lambda>i.
       case opcode_of (GET_OPCODE i) of
         None \<Rightarrow> failG ErrFault
       | Some m \<Rightarrow> retG (if testTMode m then pc - 1 else pc))
     else retG pc)"

definition is_op :: "Instruction \<Rightarrow> OpCode \<Rightarrow> bool" where
  "is_op i m \<longleftrightarrow> GET_OPCODE i = opnum m"

primrec need_value_loop :: "nat \<Rightarrow> int \<Rightarrow> bool gen" where
  "need_value_loop 0 list = failG ErrFuel"
| "need_value_loop (Suc n) list =
     (if list = NO_JUMP then retG False
      else
        bindG (getjumpcontrol list) (\<lambda>p. bindG (code_at p) (\<lambda>i.
        if \<not> is_op i OP_TESTSET then retG True
        else bindG (getjump list) (need_value_loop n))))"

definition need_value :: "int \<Rightarrow> bool gen" where
  "need_value list = bindG (getG (\<lambda>fs. length (f_code fs))) (\<lambda>n. need_value_loop (Suc n) list)"

definition patchtestreg :: "int \<Rightarrow> int \<Rightarrow> bool gen" where
  "patchtestreg node reg =
     bindG (getjumpcontrol node) (\<lambda>p. bindG (code_at p) (\<lambda>i.
     if \<not> is_op i OP_TESTSET then retG False
     else
       bindG (if reg \<noteq> NO_REG \<and> reg \<noteq> GETARG_B i then set_code p (SETARG_A i reg)
              else set_code p (CREATE_ABC (opnum OP_TEST) (GETARG_B i) 0 (GETARG_C i))) (\<lambda>_.
       retG True)))"

primrec removevalues_loop :: "nat \<Rightarrow> int \<Rightarrow> unit gen" where
  "removevalues_loop 0 list = failG ErrFuel"
| "removevalues_loop (Suc n) list =
     (if list = NO_JUMP then retG ()
      else bindG (patchtestreg list NO_REG) (\<lambda>_. bindG (getjump list) (removevalues_loop n)))"

definition removevalues :: "int \<Rightarrow> unit gen" where
  "removevalues list = bindG (getG (\<lambda>fs. length (f_code fs))) (\<lambda>n. removevalues_loop (Suc n) list)"

primrec patchlist_loop :: "nat \<Rightarrow> int \<Rightarrow> int \<Rightarrow> int \<Rightarrow> int \<Rightarrow> unit gen" where
  "patchlist_loop 0 list vtarget reg dtarget = failG ErrFuel"
| "patchlist_loop (Suc n) list vtarget reg dtarget =
     (if list = NO_JUMP then retG ()
      else
        bindG (getjump list) (\<lambda>nxt. bindG (patchtestreg list reg) (\<lambda>b.
        bindG (fixjump list (if b then vtarget else dtarget)) (\<lambda>_.
        patchlist_loop n nxt vtarget reg dtarget))))"

definition patchlistaux :: "int \<Rightarrow> int \<Rightarrow> int \<Rightarrow> int \<Rightarrow> unit gen" where
  "patchlistaux list vtarget reg dtarget =
     bindG (getG (\<lambda>fs. length (f_code fs))) (\<lambda>n. patchlist_loop (Suc n) list vtarget reg dtarget)"

definition dischargejpc :: "unit gen" where
  "dischargejpc =
     bindG (getG (\<lambda>fs. (fs_jpc fs, fs_pc fs))) (\<lambda>(jpc, pc).
     bindG (patchlistaux jpc pc NO_REG pc) (\<lambda>_. modG (\<lambda>fs. fs\<lparr>fs_jpc := NO_JUMP\<rparr>)))"

text \<open>\<^verbatim>\<open>while ((next = getjump(fs, list)) != NO_JUMP) list = next\<close>\<close>

primrec last_jump :: "nat \<Rightarrow> int \<Rightarrow> int gen" where
  "last_jump 0 list = failG ErrFuel"
| "last_jump (Suc n) list =
     bindG (getjump list) (\<lambda>nxt. if nxt \<noteq> NO_JUMP then last_jump n nxt else retG list)"

text \<open>The result is the new value of \<^verbatim>\<open>*l1\<close>.\<close>

definition luaK_concat :: "int \<Rightarrow> int \<Rightarrow> int gen" where
  "luaK_concat l1 l2 =
     (if l2 = NO_JUMP then retG l1
      else if l1 = NO_JUMP then retG l2
      else
        bindG (getG (\<lambda>fs. length (f_code fs))) (\<lambda>n. bindG (last_jump (Suc n) l1) (\<lambda>list.
        bindG (fixjump list l2) (\<lambda>_. retG l1))))"

definition luaK_patchtohere :: "int \<Rightarrow> unit gen" where
  "luaK_patchtohere list =
     bindG luaK_getlabel (\<lambda>_. bindG (getG fs_jpc) (\<lambda>jpc. bindG (luaK_concat jpc list) (\<lambda>l.
     modG (\<lambda>fs. fs\<lparr>fs_jpc := l\<rparr>))))"

definition luaK_patchlist :: "int \<Rightarrow> int \<Rightarrow> unit gen" where
  "luaK_patchlist list target =
     bindG (getG fs_pc) (\<lambda>pc.
     if target = pc then luaK_patchtohere list else patchlistaux list target NO_REG target)"

section \<open>Instructions\<close>

definition luaK_code :: "Instruction \<Rightarrow> int \<Rightarrow> int gen" where
  "luaK_code i line =
     bindG dischargejpc (\<lambda>_. bindG (getG fs_pc) (\<lambda>pc.
     if pc \<ge> MAX_INT then failG (ErrRun ''code size overflow'')
     else
       bindG (modG (\<lambda>fs. fs\<lparr>f_code := f_code fs @ [i], f_lineinfo := f_lineinfo fs @ [line]\<rparr>)) (\<lambda>_. retG pc)))"

definition lastlineG :: "int gen" where
  "lastlineG ls fs = Inr (ls_lastline ls, fs)"

definition luaK_codeABC :: "OpCode \<Rightarrow> int \<Rightarrow> int \<Rightarrow> int \<Rightarrow> int gen" where
  "luaK_codeABC opc a b c = bindG lastlineG (luaK_code (CREATE_ABC (opnum opc) a b c))"

definition luaK_codeABx :: "OpCode \<Rightarrow> int \<Rightarrow> int \<Rightarrow> int gen" where
  "luaK_codeABx opc a bc = bindG lastlineG (luaK_code (CREATE_ABx (opnum opc) a bc))"

definition luaK_codeAsBx :: "OpCode \<Rightarrow> int \<Rightarrow> int \<Rightarrow> int gen" where
  "luaK_codeAsBx opc a sbx = luaK_codeABx opc a (sbx + MAXARG_sBx)"

definition luaK_fixline :: "int \<Rightarrow> unit gen" where
  "luaK_fixline line ls fs =
     (if f_lineinfo fs = [] then Inl ErrFault
      else Inr ((), fs\<lparr>f_lineinfo := (f_lineinfo fs)[length (f_lineinfo fs) - 1 := line]\<rparr>))"

definition luaK_nil :: "int \<Rightarrow> int \<Rightarrow> unit gen" where
  "luaK_nil from n =
     bindG (getG (\<lambda>fs. (fs_pc fs, fs_lasttarget fs, fs_nactvar fs))) (\<lambda>(pc, lasttarget, nactvar).
     let emit = bindG (luaK_codeABC OP_LOADNIL from (from + n - 1) 0) (\<lambda>_. retG ()) in
     if pc > lasttarget then
       if pc = 0 then (if from \<ge> nactvar then retG () else emit)
       else
         bindG (code_at (pc - 1)) (\<lambda>previous.
         if is_op previous OP_LOADNIL \<and> GETARG_A previous \<le> from \<and> from \<le> GETARG_B previous + 1 then
           (if from + n - 1 > GETARG_B previous then set_code (pc - 1) (SETARG_B previous (from + n - 1))
            else retG ())
         else emit)
     else emit)"

definition luaK_jump :: "int gen" where
  "luaK_jump =
     bindG (getG fs_jpc) (\<lambda>jpc. bindG (modG (\<lambda>fs. fs\<lparr>fs_jpc := NO_JUMP\<rparr>)) (\<lambda>_.
     bindG (luaK_codeAsBx OP_JMP 0 NO_JUMP) (\<lambda>j. luaK_concat j jpc)))"

definition luaK_ret :: "int \<Rightarrow> int \<Rightarrow> unit gen" where
  "luaK_ret first nret = bindG (luaK_codeABC OP_RETURN first (nret + 1) 0) (\<lambda>_. retG ())"

definition condjump :: "OpCode \<Rightarrow> int \<Rightarrow> int \<Rightarrow> int \<Rightarrow> int gen" where
  "condjump opc a b c = bindG (luaK_codeABC opc a b c) (\<lambda>_. luaK_jump)"

section \<open>Registers\<close>

definition MAXSTACK :: int where "MAXSTACK = 250"

definition luaK_checkstack :: "int \<Rightarrow> unit gen" where
  "luaK_checkstack n =
     bindG (getG (\<lambda>fs. (fs_freereg fs + n, f_maxstacksize fs))) (\<lambda>(newstack, size).
     if newstack > size then
       (if newstack \<ge> MAXSTACK then syntaxG ''function or expression too complex''
        else modG (\<lambda>fs. fs\<lparr>f_maxstacksize := newstack mod 256\<rparr>))
     else retG ())"

definition luaK_reserveregs :: "int \<Rightarrow> unit gen" where
  "luaK_reserveregs n = bindG (luaK_checkstack n) (\<lambda>_. modG (\<lambda>fs. fs\<lparr>fs_freereg := fs_freereg fs + n\<rparr>))"

definition freereg :: "int \<Rightarrow> unit gen" where
  "freereg reg = modG (\<lambda>fs.
     if \<not> ISK reg \<and> reg \<ge> fs_nactvar fs then fs\<lparr>fs_freereg := fs_freereg fs - 1\<rparr> else fs)"

definition freeexp :: "expdesc \<Rightarrow> unit gen" where
  "freeexp e = (if e_k e = VNONRELOC then freereg (e_info e) else retG ())"

section \<open>Constants\<close>

definition addk :: "tvalue \<Rightarrow> kval \<Rightarrow> int gen" where
  "addk k v ls fs =
     bindE (luaH_set (fs_h fs) k) (\<lambda>(s, h).
     case slot_read h s of
       TNumber n \<Rightarrow> Inr (lua_number2int n, fs\<lparr>fs_h := h\<rparr>)
     | _ \<Rightarrow>
         bindE (slot_write h s (TNumber (cast_num (fs_nk fs)))) (\<lambda>h1.
         if fs_nk fs \<ge> MAXARG_Bx then Inl (ErrRun ''constant table overflow'')
         else Inr (fs_nk fs, fs\<lparr>fs_h := h1, f_k := f_k fs @ [v]\<rparr>)))"

definition luaK_stringK :: "string \<Rightarrow> int gen" where
  "luaK_stringK s = addk (TString s) (KString (Some s))"

definition luaK_numberK :: "lua_Number \<Rightarrow> int gen" where
  "luaK_numberK r = addk (TNumber r) (KNumber r)"

definition boolK :: "bool \<Rightarrow> int gen" where
  "boolK b = addk (TBoolean b) (KBoolean b)"

definition nilK :: "int gen" where
  "nilK = bindG (getG fs_hid) (\<lambda>h. addk (TTable h) KNil)"

section \<open>Discharging expressions\<close>

text \<open>\<^verbatim>\<open>getcode(fs, e)\<close> is the instruction at \<open>e_info e\<close>.\<close>

definition luaK_setreturns :: "expdesc \<Rightarrow> int \<Rightarrow> unit gen" where
  "luaK_setreturns e nresults =
     (if e_k e = VCALL then change_code (e_info e) (\<lambda>i. SETARG_C i (nresults + 1))
      else if e_k e = VVARARG then
        bindG (change_code (e_info e) (\<lambda>i. SETARG_B i (nresults + 1))) (\<lambda>_.
        bindG (getG fs_freereg) (\<lambda>r. bindG (change_code (e_info e) (\<lambda>i. SETARG_A i r)) (\<lambda>_.
        luaK_reserveregs 1)))
      else retG ())"

definition luaK_setoneret :: "expdesc \<Rightarrow> expdesc gen" where
  "luaK_setoneret e =
     (if e_k e = VCALL then
        bindG (code_at (e_info e)) (\<lambda>i. retG (e\<lparr>e_k := VNONRELOC, e_info := GETARG_A i\<rparr>))
      else if e_k e = VVARARG then
        bindG (change_code (e_info e) (\<lambda>i. SETARG_B i 2)) (\<lambda>_. retG (e\<lparr>e_k := VRELOCABLE\<rparr>))
      else retG e)"

definition luaK_dischargevars :: "expdesc \<Rightarrow> expdesc gen" where
  "luaK_dischargevars e =
     (case e_k e of
        VLOCAL \<Rightarrow> retG (e\<lparr>e_k := VNONRELOC\<rparr>)
      | VUPVAL \<Rightarrow> bindG (luaK_codeABC OP_GETUPVAL 0 (e_info e) 0) (\<lambda>pc. retG (e\<lparr>e_info := pc, e_k := VRELOCABLE\<rparr>))
      | VGLOBAL \<Rightarrow> bindG (luaK_codeABx OP_GETGLOBAL 0 (e_info e)) (\<lambda>pc. retG (e\<lparr>e_info := pc, e_k := VRELOCABLE\<rparr>))
      | VINDEXED \<Rightarrow>
          bindG (freereg (e_aux e)) (\<lambda>_. bindG (freereg (e_info e)) (\<lambda>_.
          bindG (luaK_codeABC OP_GETTABLE 0 (e_info e) (e_aux e)) (\<lambda>pc. retG (e\<lparr>e_info := pc, e_k := VRELOCABLE\<rparr>))))
      | VVARARG \<Rightarrow> luaK_setoneret e
      | VCALL \<Rightarrow> luaK_setoneret e
      | _ \<Rightarrow> retG e)"

definition code_label :: "int \<Rightarrow> int \<Rightarrow> int \<Rightarrow> int gen" where
  "code_label a b jump = bindG luaK_getlabel (\<lambda>_. luaK_codeABC OP_LOADBOOL a b jump)"

definition in_reg :: "expdesc \<Rightarrow> int \<Rightarrow> expdesc" where
  "in_reg e reg = e\<lparr>e_info := reg, e_k := VNONRELOC\<rparr>"

definition discharge2reg :: "expdesc \<Rightarrow> int \<Rightarrow> expdesc gen" where
  "discharge2reg e0 reg =
     bindG (luaK_dischargevars e0) (\<lambda>e.
     case e_k e of
       VNIL \<Rightarrow> bindG (luaK_nil reg 1) (\<lambda>_. retG (in_reg e reg))
     | VFALSE \<Rightarrow> bindG (luaK_codeABC OP_LOADBOOL reg 0 0) (\<lambda>_. retG (in_reg e reg))
     | VTRUE \<Rightarrow> bindG (luaK_codeABC OP_LOADBOOL reg 1 0) (\<lambda>_. retG (in_reg e reg))
     | VK \<Rightarrow> bindG (luaK_codeABx OP_LOADK reg (e_info e)) (\<lambda>_. retG (in_reg e reg))
     | VKNUM \<Rightarrow> bindG (luaK_numberK (e_nval e)) (\<lambda>k. bindG (luaK_codeABx OP_LOADK reg k) (\<lambda>_. retG (in_reg e reg)))
     | VRELOCABLE \<Rightarrow> bindG (change_code (e_info e) (\<lambda>i. SETARG_A i reg)) (\<lambda>_. retG (in_reg e reg))
     | VNONRELOC \<Rightarrow>
         bindG (if reg \<noteq> e_info e then bindG (luaK_codeABC OP_MOVE reg (e_info e) 0) (\<lambda>_. retG ()) else retG ()) (\<lambda>_.
         retG (in_reg e reg))
     | _ \<Rightarrow> retG e)"

definition discharge2anyreg :: "expdesc \<Rightarrow> expdesc gen" where
  "discharge2anyreg e =
     (if e_k e \<noteq> VNONRELOC then
        bindG (luaK_reserveregs 1) (\<lambda>_. bindG (getG fs_freereg) (\<lambda>r. discharge2reg e (r - 1)))
      else retG e)"

definition exp2reg :: "expdesc \<Rightarrow> int \<Rightarrow> expdesc gen" where
  "exp2reg e0 reg =
     bindG (discharge2reg e0 reg) (\<lambda>e1.
     bindG (if e_k e1 = VJMP then bindG (luaK_concat (e_t e1) (e_info e1)) (\<lambda>t. retG (e1\<lparr>e_t := t\<rparr>)) else retG e1) (\<lambda>e.
     bindG (if hasjumps e then
              bindG (bindG (need_value (e_t e)) (\<lambda>b. if b then retG True else need_value (e_f e))) (\<lambda>need.
              bindG (if need then
                       bindG (if e_k e = VJMP then retG NO_JUMP else luaK_jump) (\<lambda>fj.
                       bindG (code_label reg 0 1) (\<lambda>p_f. bindG (code_label reg 1 0) (\<lambda>p_t.
                       bindG (luaK_patchtohere fj) (\<lambda>_. retG (p_f, p_t)))))
                     else retG (NO_JUMP, NO_JUMP)) (\<lambda>(p_f, p_t).
              bindG luaK_getlabel (\<lambda>final.
              bindG (patchlistaux (e_f e) final reg p_f) (\<lambda>_.
              patchlistaux (e_t e) final reg p_t))))
            else retG ()) (\<lambda>_.
     retG (e\<lparr>e_f := NO_JUMP, e_t := NO_JUMP, e_info := reg, e_k := VNONRELOC\<rparr>))))"

definition luaK_exp2nextreg :: "expdesc \<Rightarrow> expdesc gen" where
  "luaK_exp2nextreg e0 =
     bindG (luaK_dischargevars e0) (\<lambda>e. bindG (freeexp e) (\<lambda>_. bindG (luaK_reserveregs 1) (\<lambda>_.
     bindG (getG fs_freereg) (\<lambda>r. exp2reg e (r - 1)))))"

text \<open>The register is \<open>e_info\<close> of the result.\<close>

definition luaK_exp2anyreg :: "expdesc \<Rightarrow> expdesc gen" where
  "luaK_exp2anyreg e0 =
     bindG (luaK_dischargevars e0) (\<lambda>e. bindG (getG fs_nactvar) (\<lambda>nactvar.
     if e_k e = VNONRELOC \<and> \<not> hasjumps e then retG e
     else if e_k e = VNONRELOC \<and> e_info e \<ge> nactvar then exp2reg e (e_info e)
     else luaK_exp2nextreg e))"

definition luaK_exp2val :: "expdesc \<Rightarrow> expdesc gen" where
  "luaK_exp2val e = (if hasjumps e then luaK_exp2anyreg e else luaK_dischargevars e)"

text \<open>The result is the \<^verbatim>\<open>RK\<close> operand and the expression.\<close>

definition luaK_exp2RK :: "expdesc \<Rightarrow> (int \<times> expdesc) gen" where
  "luaK_exp2RK e0 =
     bindG (luaK_exp2val e0) (\<lambda>e. bindG (getG fs_nk) (\<lambda>nk.
     let any = bindG (luaK_exp2anyreg e) (\<lambda>e1. retG (e_info e1, e1));
         const = (\<lambda>m. bindG m (\<lambda>k. retG (RKASK k, e\<lparr>e_info := k, e_k := VK\<rparr>))) in
     if e_k e = VNIL \<and> nk \<le> MAXINDEXRK then const nilK
     else if e_k e = VKNUM \<and> nk \<le> MAXINDEXRK then const (luaK_numberK (e_nval e))
     else if (e_k e = VTRUE \<or> e_k e = VFALSE) \<and> nk \<le> MAXINDEXRK then const (boolK (e_k e = VTRUE))
     else if e_k e = VK \<and> e_info e \<le> MAXINDEXRK then retG (RKASK (e_info e), e)
     else any))"

definition luaK_storevar :: "expdesc \<Rightarrow> expdesc \<Rightarrow> unit gen" where
  "luaK_storevar var ex =
     (case e_k var of
        VLOCAL \<Rightarrow> bindG (freeexp ex) (\<lambda>_. bindG (exp2reg ex (e_info var)) (\<lambda>_. retG ()))
      | VUPVAL \<Rightarrow> bindG (luaK_exp2anyreg ex) (\<lambda>e. bindG (luaK_codeABC OP_SETUPVAL (e_info e) (e_info var) 0) (\<lambda>_. freeexp e))
      | VGLOBAL \<Rightarrow> bindG (luaK_exp2anyreg ex) (\<lambda>e. bindG (luaK_codeABx OP_SETGLOBAL (e_info e) (e_info var)) (\<lambda>_. freeexp e))
      | VINDEXED \<Rightarrow> bindG (luaK_exp2RK ex) (\<lambda>(rk, e). bindG (luaK_codeABC OP_SETTABLE (e_info var) (e_aux var) rk) (\<lambda>_. freeexp e))
      | _ \<Rightarrow> freeexp ex)"

definition luaK_self :: "expdesc \<Rightarrow> expdesc \<Rightarrow> expdesc gen" where
  "luaK_self e0 key =
     bindG (luaK_exp2anyreg e0) (\<lambda>e. bindG (freeexp e) (\<lambda>_. bindG (getG fs_freereg) (\<lambda>func.
     bindG (luaK_reserveregs 2) (\<lambda>_. bindG (luaK_exp2RK key) (\<lambda>(rk, key1).
     bindG (luaK_codeABC OP_SELF func (e_info e) rk) (\<lambda>_. bindG (freeexp key1) (\<lambda>_.
     retG (in_reg e func))))))))"

section \<open>Conditions\<close>

definition invertjump :: "expdesc \<Rightarrow> unit gen" where
  "invertjump e =
     bindG (getjumpcontrol (e_info e)) (\<lambda>p. change_code p (\<lambda>i. SETARG_A i (if GETARG_A i = 0 then 1 else 0)))"

text \<open>\<^verbatim>\<open>fs->pc--\<close>\<close>

definition remove_last :: "unit gen" where
  "remove_last = modG (\<lambda>fs. fs\<lparr>f_code := butlast (f_code fs), f_lineinfo := butlast (f_lineinfo fs)\<rparr>)"

definition jumponcond :: "expdesc \<Rightarrow> bool \<Rightarrow> int gen" where
  "jumponcond e cond =
     (let go = bindG (discharge2anyreg e) (\<lambda>e1. bindG (freeexp e1) (\<lambda>_.
                condjump OP_TESTSET NO_REG (e_info e1) (if cond then 1 else 0))) in
      if e_k e = VRELOCABLE then
        bindG (code_at (e_info e)) (\<lambda>ie.
        if is_op ie OP_NOT then
          bindG remove_last (\<lambda>_. condjump OP_TEST (GETARG_B ie) 0 (if cond then 0 else 1))
        else go)
      else go)"

definition luaK_goiftrue :: "expdesc \<Rightarrow> expdesc gen" where
  "luaK_goiftrue e0 =
     bindG (luaK_dischargevars e0) (\<lambda>e.
     bindG (if e_k e = VK \<or> e_k e = VKNUM \<or> e_k e = VTRUE then retG NO_JUMP
            else if e_k e = VJMP then bindG (invertjump e) (\<lambda>_. retG (e_info e))
            else jumponcond e False) (\<lambda>pc.
     bindG (luaK_concat (e_f e) pc) (\<lambda>f. bindG (luaK_patchtohere (e_t e)) (\<lambda>_.
     retG (e\<lparr>e_f := f, e_t := NO_JUMP\<rparr>)))))"

definition luaK_goiffalse :: "expdesc \<Rightarrow> expdesc gen" where
  "luaK_goiffalse e0 =
     bindG (luaK_dischargevars e0) (\<lambda>e.
     bindG (if e_k e = VNIL \<or> e_k e = VFALSE then retG NO_JUMP
            else if e_k e = VJMP then retG (e_info e)
            else jumponcond e True) (\<lambda>pc.
     bindG (luaK_concat (e_t e) pc) (\<lambda>t. bindG (luaK_patchtohere (e_f e)) (\<lambda>_.
     retG (e\<lparr>e_t := t, e_f := NO_JUMP\<rparr>)))))"

definition codenot :: "expdesc \<Rightarrow> expdesc gen" where
  "codenot e0 =
     bindG (luaK_dischargevars e0) (\<lambda>e.
     bindG (case e_k e of
              VNIL \<Rightarrow> retG (e\<lparr>e_k := VTRUE\<rparr>) | VFALSE \<Rightarrow> retG (e\<lparr>e_k := VTRUE\<rparr>)
            | VK \<Rightarrow> retG (e\<lparr>e_k := VFALSE\<rparr>) | VKNUM \<Rightarrow> retG (e\<lparr>e_k := VFALSE\<rparr>) | VTRUE \<Rightarrow> retG (e\<lparr>e_k := VFALSE\<rparr>)
            | VJMP \<Rightarrow> bindG (invertjump e) (\<lambda>_. retG e)
            | k \<Rightarrow>
                if k = VRELOCABLE \<or> k = VNONRELOC then
                  bindG (discharge2anyreg e) (\<lambda>e1. bindG (freeexp e1) (\<lambda>_.
                  bindG (luaK_codeABC OP_NOT 0 (e_info e1) 0) (\<lambda>pc. retG (e1\<lparr>e_info := pc, e_k := VRELOCABLE\<rparr>))))
                else retG e) (\<lambda>e1.
     let e2 = e1\<lparr>e_f := e_t e1, e_t := e_f e1\<rparr> in
     bindG (removevalues (e_f e2)) (\<lambda>_. bindG (removevalues (e_t e2)) (\<lambda>_. retG e2))))"

definition luaK_indexed :: "expdesc \<Rightarrow> expdesc \<Rightarrow> expdesc gen" where
  "luaK_indexed t k = bindG (luaK_exp2RK k) (\<lambda>(rk, _). retG (t\<lparr>e_aux := rk, e_k := VINDEXED\<rparr>))"

section \<open>Operators\<close>

datatype BinOpr = OPR_ADD | OPR_SUB | OPR_MUL | OPR_DIV | OPR_MOD | OPR_POW | OPR_CONCAT | OPR_NE | OPR_EQ
  | OPR_LT | OPR_LE | OPR_GT | OPR_GE | OPR_AND | OPR_OR | OPR_NOBINOPR

datatype UnOpr = OPR_MINUS | OPR_NOT | OPR_LEN | OPR_NOUNOPR

text \<open>\<open>numpow\<close> is the C library's \<^verbatim>\<open>pow\<close>.  \<open>None\<close>: not folded.\<close>

definition fold_op :: "(lua_Number \<Rightarrow> lua_Number \<Rightarrow> lua_Number) \<Rightarrow> OpCode \<Rightarrow> lua_Number \<Rightarrow> lua_Number \<Rightarrow> lua_Number option" where
  "fold_op numpow opc v1 v2 =
     (case opc of
        OP_ADD \<Rightarrow> Some (luai_numadd v1 v2)
      | OP_SUB \<Rightarrow> Some (luai_numsub v1 v2)
      | OP_MUL \<Rightarrow> Some (luai_nummul v1 v2)
      | OP_DIV \<Rightarrow> if luai_numeq v2 (cast_num 0) then None else Some (luai_numdiv v1 v2)
      | OP_MOD \<Rightarrow> if luai_numeq v2 (cast_num 0) then None else Some (luai_nummod v1 v2)
      | OP_POW \<Rightarrow> Some (numpow v1 v2)
      | OP_UNM \<Rightarrow> Some (luai_numunm v1)
      | OP_LEN \<Rightarrow> None
      | _ \<Rightarrow> Some (cast_num 0))"

definition constfolding :: "(lua_Number \<Rightarrow> lua_Number \<Rightarrow> lua_Number) \<Rightarrow> OpCode \<Rightarrow> expdesc \<Rightarrow> expdesc \<Rightarrow> expdesc option" where
  "constfolding numpow opc e1 e2 =
     (if \<not> isnumeral e1 \<or> \<not> isnumeral e2 then None
      else case fold_op numpow opc (e_nval e1) (e_nval e2) of
        None \<Rightarrow> None
      | Some r \<Rightarrow> if luai_numisnan r then None else Some (e1\<lparr>e_nval := r\<rparr>))"

definition codearith :: "(lua_Number \<Rightarrow> lua_Number \<Rightarrow> lua_Number) \<Rightarrow> OpCode \<Rightarrow> expdesc \<Rightarrow> expdesc \<Rightarrow> expdesc gen" where
  "codearith numpow opc e1 e2 =
     (case constfolding numpow opc e1 e2 of
        Some e \<Rightarrow> retG e
      | None \<Rightarrow>
          bindG (if opc \<noteq> OP_UNM \<and> opc \<noteq> OP_LEN then luaK_exp2RK e2 else retG (0, e2)) (\<lambda>(o2, e2').
          bindG (luaK_exp2RK e1) (\<lambda>(o1, e1').
          bindG (if o1 > o2 then bindG (freeexp e1') (\<lambda>_. freeexp e2')
                 else bindG (freeexp e2') (\<lambda>_. freeexp e1')) (\<lambda>_.
          bindG (luaK_codeABC opc 0 o1 o2) (\<lambda>pc. retG (e1'\<lparr>e_info := pc, e_k := VRELOCABLE\<rparr>))))))"

definition codecomp :: "OpCode \<Rightarrow> int \<Rightarrow> expdesc \<Rightarrow> expdesc \<Rightarrow> expdesc gen" where
  "codecomp opc cond e1 e2 =
     bindG (luaK_exp2RK e1) (\<lambda>(o1, e1'). bindG (luaK_exp2RK e2) (\<lambda>(o2, e2').
     bindG (freeexp e2') (\<lambda>_. bindG (freeexp e1') (\<lambda>_.
     bindG (if cond = 0 \<and> opc \<noteq> OP_EQ then condjump opc 1 o2 o1 else condjump opc cond o1 o2) (\<lambda>pc.
     retG (e1'\<lparr>e_info := pc, e_k := VJMP\<rparr>))))))"

definition luaK_prefix :: "(lua_Number \<Rightarrow> lua_Number \<Rightarrow> lua_Number) \<Rightarrow> UnOpr \<Rightarrow> expdesc \<Rightarrow> expdesc gen" where
  "luaK_prefix numpow opr e =
     (let e2 = \<lparr>e_k = VKNUM, e_info = 0, e_aux = 0, e_nval = cast_num 0, e_t = NO_JUMP, e_f = NO_JUMP\<rparr> in
      case opr of
        OPR_MINUS \<Rightarrow> bindG (if isnumeral e then retG e else luaK_exp2anyreg e) (\<lambda>e1. codearith numpow OP_UNM e1 e2)
      | OPR_NOT \<Rightarrow> codenot e
      | OPR_LEN \<Rightarrow> bindG (luaK_exp2anyreg e) (\<lambda>e1. codearith numpow OP_LEN e1 e2)
      | OPR_NOUNOPR \<Rightarrow> retG e)"

definition luaK_infix :: "BinOpr \<Rightarrow> expdesc \<Rightarrow> expdesc gen" where
  "luaK_infix opr v =
     (if opr = OPR_AND then luaK_goiftrue v
      else if opr = OPR_OR then luaK_goiffalse v
      else if opr = OPR_CONCAT then luaK_exp2nextreg v
      else if opr \<in> {OPR_ADD, OPR_SUB, OPR_MUL, OPR_DIV, OPR_MOD, OPR_POW} \<and> isnumeral v then retG v
      else bindG (luaK_exp2RK v) (\<lambda>(_, v1). retG v1))"

definition luaK_posfix :: "(lua_Number \<Rightarrow> lua_Number \<Rightarrow> lua_Number) \<Rightarrow> BinOpr \<Rightarrow> expdesc \<Rightarrow> expdesc \<Rightarrow> expdesc gen" where
  "luaK_posfix numpow opr e1 e2 =
     (case opr of
        OPR_AND \<Rightarrow> bindG (luaK_dischargevars e2) (\<lambda>e. bindG (luaK_concat (e_f e) (e_f e1)) (\<lambda>f. retG (e\<lparr>e_f := f\<rparr>)))
      | OPR_OR \<Rightarrow> bindG (luaK_dischargevars e2) (\<lambda>e. bindG (luaK_concat (e_t e) (e_t e1)) (\<lambda>t. retG (e\<lparr>e_t := t\<rparr>)))
      | OPR_CONCAT \<Rightarrow>
          bindG (luaK_exp2val e2) (\<lambda>e.
          bindG (if e_k e = VRELOCABLE then bindG (code_at (e_info e)) (\<lambda>i. retG (is_op i OP_CONCAT)) else retG False) (\<lambda>joins.
          if joins then
            bindG (freeexp e1) (\<lambda>_. bindG (change_code (e_info e) (\<lambda>i. SETARG_B i (e_info e1))) (\<lambda>_.
            retG (e1\<lparr>e_k := VRELOCABLE, e_info := e_info e\<rparr>)))
          else bindG (luaK_exp2nextreg e) (\<lambda>e'. codearith numpow OP_CONCAT e1 e')))
      | OPR_ADD \<Rightarrow> codearith numpow OP_ADD e1 e2
      | OPR_SUB \<Rightarrow> codearith numpow OP_SUB e1 e2
      | OPR_MUL \<Rightarrow> codearith numpow OP_MUL e1 e2
      | OPR_DIV \<Rightarrow> codearith numpow OP_DIV e1 e2
      | OPR_MOD \<Rightarrow> codearith numpow OP_MOD e1 e2
      | OPR_POW \<Rightarrow> codearith numpow OP_POW e1 e2
      | OPR_EQ \<Rightarrow> codecomp OP_EQ 1 e1 e2
      | OPR_NE \<Rightarrow> codecomp OP_EQ 0 e1 e2
      | OPR_LT \<Rightarrow> codecomp OP_LT 1 e1 e2
      | OPR_LE \<Rightarrow> codecomp OP_LE 1 e1 e2
      | OPR_GT \<Rightarrow> codecomp OP_LT 0 e1 e2
      | OPR_GE \<Rightarrow> codecomp OP_LE 0 e1 e2
      | OPR_NOBINOPR \<Rightarrow> retG e1)"

definition luaK_setlist :: "int \<Rightarrow> int \<Rightarrow> int \<Rightarrow> unit gen" where
  "luaK_setlist base nelems tostore =
     (let c = (if nelems < 1 then 1 else (nelems - 1) div LFIELDS_PER_FLUSH + 1); b = (if tostore = LUA_MULTRET then 0 else tostore) in
      bindG (if c \<le> MAXARG_C then luaK_codeABC OP_SETLIST base b c
             else bindG (luaK_codeABC OP_SETLIST base b 0) (\<lambda>_. bindG lastlineG (luaK_code (word_of_int c)))) (\<lambda>_.
      modG (\<lambda>fs. fs\<lparr>fs_freereg := base + 1\<rparr>)))"

end
