(* ===== verification/LuaCodeSpec.thy ===== *)
theory LuaCodeSpec
  imports LuaCode
begin

text \<open>
  What the code generator promises: a jump list is the list of its instructions, concatenation
  appends and patching sends every jump of a list to its target; the table of constants and
  the vector of constants agree; an operation folded at compile time gives the number that the
  virtual machine would compute.  And two cases where it does not keep what it means to.
\<close>

lemmas gen_defs = bindG_def retG_def failG_def getG_def modG_def syntaxG_def

section \<open>Jump lists as lists\<close>

definition link :: "Instruction list \<Rightarrow> int \<Rightarrow> int" where
  "link code pc = (let offset = GETARG_sBx (code ! nat pc) in if offset = NO_JUMP then NO_JUMP else pc + 1 + offset)"

primrec chain :: "Instruction list \<Rightarrow> int \<Rightarrow> int list \<Rightarrow> bool" where
  "chain code l [] \<longleftrightarrow> l = NO_JUMP"
| "chain code l (j # js) \<longleftrightarrow> l = j \<and> 0 \<le> j \<and> j < int (length code) \<and> chain code (link code j) js"

lemma chain_det: "chain code l js \<Longrightarrow> chain code l js' \<Longrightarrow> js = js'"
proof (induction js arbitrary: l js')
  case Nil
  then show ?case by (cases js') (auto simp: NO_JUMP_def)
next
  case (Cons j js)
  then show ?case by (cases js') (auto simp: NO_JUMP_def)
qed

lemma chain_suffix: "chain code l (xs @ j # ys) \<Longrightarrow> chain code j (j # ys)"
  by (induction xs arbitrary: l) auto

lemma chain_distinct: "chain code l js \<Longrightarrow> distinct js"
proof (induction js arbitrary: l)
  case (Cons j js)
  have "j \<notin> set js"
  proof
    assume "j \<in> set js"
    then obtain ys zs where js: "js = ys @ j # zs" by (auto simp: in_set_conv_decomp)
    have "chain code j (j # zs)" by (rule chain_suffix [of code l "j # ys"]) (use Cons.prems js in simp)
    moreover have "chain code j (j # js)" using Cons.prems by simp
    ultimately have "zs = js" using chain_det by blast
    with js show False by simp
  qed
  with Cons show ?case by auto
qed simp

lemma chain_range: "chain code l js \<Longrightarrow> j \<in> set js \<Longrightarrow> 0 \<le> j \<and> j < int (length code)"
  by (induction js arbitrary: l) auto

lemma chain_length:
  assumes "chain code l js"
  shows "length js \<le> length code"
proof -
  have "length js = card (set js)" using chain_distinct [OF assms] by (simp add: distinct_card)
  also have "\<dots> \<le> card {0 ..< int (length code)}" using chain_range [OF assms] by (intro card_mono) auto
  finally show ?thesis by simp
qed

lemma chain_cong:
  "length code' = length code \<Longrightarrow> (\<And>j. j \<in> set js \<Longrightarrow> link code' j = link code j) \<Longrightarrow> chain code' l js = chain code l js"
  by (induction js arbitrary: l) auto

lemma chain_append:
  "chain code l (xs @ [j]) \<Longrightarrow> chain code' l2 ys \<Longrightarrow> length code' = length code \<Longrightarrow> link code' j = l2 \<Longrightarrow>
   (\<And>x. x \<in> set xs \<Longrightarrow> link code' x = link code x) \<Longrightarrow> chain code' l (xs @ j # ys)"
  by (induction xs arbitrary: l) auto

lemma link_NO_JUMP [simp]: "chain code l (j # js) \<Longrightarrow> l \<noteq> NO_JUMP"
  by (auto simp: NO_JUMP_def)

section \<open>The primitive steps\<close>

lemma code_at_eval: "0 \<le> pc \<Longrightarrow> pc < int (length (f_code fs)) \<Longrightarrow> code_at pc ls fs = Inr (f_code fs ! nat pc, fs)"
  by (simp add: code_at_def fs_pc_def)

lemma set_code_eval: "0 \<le> pc \<Longrightarrow> pc < int (length (f_code fs)) \<Longrightarrow>
    set_code pc i ls fs = Inr ((), fs\<lparr>f_code := (f_code fs)[nat pc := i]\<rparr>)"
  by (simp add: set_code_def fs_pc_def)

lemma getjump_eval:
  "0 \<le> pc \<Longrightarrow> pc < int (length (f_code fs)) \<Longrightarrow> getjump pc ls fs = Inr (link (f_code fs) pc, fs)"
  unfolding getjump_def link_def bindG_def by (simp only: code_at_eval bindE.simps prod.case retG_def Let_def)

lemma sBx_reads_back:
  assumes "\<bar>offset\<bar> \<le> MAXARG_sBx"
  shows "GETARG_sBx (SETARG_sBx i offset) = offset"
proof -
  have "getfield POS_Bx SIZE_Bx (setfield POS_Bx SIZE_Bx i (offset + MAXARG_sBx)) = offset + MAXARG_sBx"
    by (rule getfield_setfield_same) (use assms in \<open>auto simp: field_sizes\<close>)
  then show ?thesis by (simp only: field_unfold add_diff_cancel_right')
qed

lemma sBx_other: "GET_OPCODE (SETARG_sBx i s) = GET_OPCODE i" "GET_OPCODE (SETARG_A i a) = GET_OPCODE i"
  by (simp_all add: field_unfold field_sizes getfield_setfield_other)

lemma fixjump_eval:
  "0 \<le> pc \<Longrightarrow> pc < int (length (f_code fs)) \<Longrightarrow> fixjump pc dest ls fs =
    (if \<bar>dest - (pc + 1)\<bar> > MAXARG_sBx then Inl (luaX_syntaxerror ls ''control structure too long'')
     else Inr ((), fs\<lparr>f_code := (f_code fs)[nat pc := SETARG_sBx (f_code fs ! nat pc) (dest - (pc + 1))]\<rparr>))"
  by (simp add: fixjump_def gen_defs code_at_eval set_code_eval Let_def)

lemma last_jump_eval:
  "chain (f_code fs) l (js @ [j]) \<Longrightarrow> length js < n \<Longrightarrow> last_jump n l ls fs = Inr (j, fs)"
proof (induction js arbitrary: l n)
  case Nil
  then show ?case by (cases n) (auto simp: gen_defs getjump_eval)
next
  case (Cons k js)
  obtain m where n: "n = Suc m" using Cons.prems(2) by (cases n) auto
  have "link (f_code fs) k \<noteq> NO_JUMP" using Cons.prems(1) by (cases js) (auto simp: NO_JUMP_def)
  with Cons n show ?case by (simp add: gen_defs getjump_eval)
qed

text \<open>
  Concatenating two disjoint jump lists appends them: the walk through the result meets
  the jumps of the first list and then those of the second; the only instruction touched is
  the last jump of the first list; and the only error is the one for a distance that does not
  fit the instruction.
\<close>

theorem concat_appends:
  assumes "chain (f_code fs) l1 js1" "chain (f_code fs) l2 js2" "set js1 \<inter> set js2 = {}"
  shows "case luaK_concat l1 l2 ls fs of
      Inl e \<Rightarrow> e = luaX_syntaxerror ls ''control structure too long''
    | Inr (l, fs') \<Rightarrow> chain (f_code fs') l (js1 @ js2)
        \<and> fs' = fs\<lparr>f_code := f_code fs'\<rparr> \<and> length (f_code fs') = length (f_code fs)
        \<and> (\<forall>p < length (f_code fs). js1 = [] \<or> js2 = [] \<or> int p \<noteq> last js1 \<longrightarrow> f_code fs' ! p = f_code fs ! p)"
proof (cases "js1 = [] \<or> js2 = []")
  case True
  then show ?thesis using assms(1,2) by (cases js1; cases js2) (auto simp: luaK_concat_def gen_defs NO_JUMP_def)
next
  case both: False
  then obtain xs j where js1: "js1 = xs @ [j]" by (metis rev_exhaust)
  let ?c = "f_code fs" and ?l = "\<lambda>js. (case js of [] \<Rightarrow> NO_JUMP | k # _ \<Rightarrow> k)"
  have ne: "l1 \<noteq> NO_JUMP" "l2 \<noteq> NO_JUMP" using both assms(1,2) by (cases js1; cases js2; auto simp: NO_JUMP_def)+
  have j: "0 \<le> j \<and> j < int (length ?c)" using chain_range [OF assms(1), of j] js1 by simp
  have len: "length xs < Suc (length ?c)" using chain_length [OF assms(1)] js1 by simp
  have last: "last_jump (Suc (length ?c)) l1 ls fs = Inr (j, fs)" using last_jump_eval assms(1) js1 len by blast
  have l2: "l2 \<in> set js2" using both assms(2) by (cases js2) auto
  then have "l2 \<noteq> j" using assms(3) js1 by auto
  show ?thesis
  proof (cases "\<bar>l2 - (j + 1)\<bar> > MAXARG_sBx")
    case True
    with ne last j show ?thesis by (simp add: luaK_concat_def gen_defs fixjump_eval del: last_jump.simps)
  next
    case fit: False
    let ?c' = "?c[nat j := SETARG_sBx (?c ! nat j) (l2 - (j + 1))]"
    have r: "luaK_concat l1 l2 ls fs = Inr (l1, fs\<lparr>f_code := ?c'\<rparr>)"
      using ne last j fit by (simp add: luaK_concat_def gen_defs fixjump_eval del: last_jump.simps)
    have "?c' ! nat j = SETARG_sBx (?c ! nat j) (l2 - (j + 1))" using j by (intro nth_list_update_eq) linarith
    then have linkj: "link ?c' j = l2"
      using fit \<open>l2 \<noteq> j\<close> sBx_reads_back [of "l2 - (j + 1)"] by (simp add: link_def Let_def NO_JUMP_def)
    have other: "link ?c' x = link ?c x" if "x \<noteq> j" "0 \<le> x" for x
    proof -
      have "nat j \<noteq> nat x" using that j by auto
      then show ?thesis unfolding link_def by (simp only: nth_list_update_neq [OF \<open>nat j \<noteq> nat x\<close>])
    qed
    have "distinct (xs @ [j])" using chain_distinct assms(1) js1 by blast
    then have xs: "link ?c' x = link ?c x" if "x \<in> set xs" for x
      using that other [of x] chain_range [OF assms(1), of x] js1 by auto
    have "link ?c' x = link ?c x" if "x \<in> set js2" for x
      using that other [of x] chain_range [OF assms(2), of x] assms(3) js1 by auto
    then have "chain ?c' l2 js2" using assms(2) chain_cong [of ?c' ?c js2 l2] by simp
    then have "chain ?c' l1 (xs @ j # js2)" using chain_append [of ?c l1 xs j ?c' l2 js2] assms(1) js1 linkj xs by simp
    with r js1 j both show ?thesis by (auto simp: nth_list_update)
  qed
qed

section \<open>Patching\<close>

text \<open>The instruction that controls the jump at \<open>j\<close>.\<close>

definition tests :: "Instruction list \<Rightarrow> int \<Rightarrow> bool" where
  "tests code p = (case opcode_of (GET_OPCODE (code ! nat p)) of None \<Rightarrow> False | Some m \<Rightarrow> testTMode m)"

definition control :: "Instruction list \<Rightarrow> int \<Rightarrow> int" where
  "control code j = (if 1 \<le> j \<and> tests code (j - 1) then j - 1 else j)"

definition testset :: "Instruction list \<Rightarrow> int \<Rightarrow> bool" where
  "testset code j = is_op (code ! nat (control code j)) OP_TESTSET"

definition patch_test :: "int \<Rightarrow> Instruction \<Rightarrow> Instruction" where
  "patch_test reg i =
     (if reg \<noteq> NO_REG \<and> reg \<noteq> GETARG_B i then SETARG_A i reg
      else CREATE_ABC (opnum OP_TEST) (GETARG_B i) 0 (GETARG_C i))"

text \<open>The code with every jump of a list sent to its target.\<close>

definition patched :: "Instruction list \<Rightarrow> int list \<Rightarrow> int \<Rightarrow> int \<Rightarrow> int \<Rightarrow> Instruction list" where
  "patched code js vtarget reg dtarget =
     map (\<lambda>p. let j = int p in
       if j \<in> set js then SETARG_sBx (code ! p) ((if testset code j then vtarget else dtarget) - (j + 1))
       else if j + 1 \<in> set js \<and> testset code (j + 1) then patch_test reg (code ! p)
       else code ! p) [0 ..< length code]"

lemma opcode_of_opnum [simp]: "opcode_of (opnum m) = Some m"
  by (cases m) (simp_all add: opcode_of_def opnum_def all_opcodes_def NUM_OPCODES_def)

lemma opnum_inject [simp]: "opnum m = opnum m' \<longleftrightarrow> m = m'"
  by (metis opcode_of_opnum option.inject)

lemma testTMode_simps: "testTMode OP_TESTSET" "testTMode OP_TEST" "\<not> testTMode OP_JMP"
  by code_simp+

lemma tests_op: "is_op (code ! nat p) m \<Longrightarrow> tests code p = testTMode m"
  by (simp add: tests_def is_op_def)

lemma CREATE_ABC_opcode: "GET_OPCODE (CREATE_ABC (opnum m) a b c) = opnum m"
proof -
  have "0 \<le> opnum m \<and> opnum m < 2 ^ 6" by (cases m) (simp_all add: opnum_def all_opcodes_def)
  then have w: "bit (opnum m) k \<Longrightarrow> k < 6" for k using bit_less_width [of "opnum m" 6] by simp
  show ?thesis
    by (rule bit_eqI) (auto simp: field_unfold bit_getfield CREATE_ABC_def bit_or_iff bit_push_word bit_word_of_int_iff field_sizes dest: w)
qed

lemma patch_test_op: "is_op i OP_TESTSET \<Longrightarrow> is_op (patch_test reg i) OP_TESTSET \<or> is_op (patch_test reg i) OP_TEST"
  by (simp add: patch_test_def is_op_def sBx_other CREATE_ABC_opcode)

definition jump_ok :: "Instruction list \<Rightarrow> int \<Rightarrow> bool" where
  "jump_ok code j \<longleftrightarrow> 0 \<le> j \<and> j < int (length code) \<and> is_op (code ! nat j) OP_JMP
     \<and> (1 \<le> j \<longrightarrow> opcode_of (GET_OPCODE (code ! nat (j - 1))) \<noteq> None)"

lemma getjumpcontrol_eval:
  assumes "jump_ok (f_code fs) j"
  shows "getjumpcontrol j ls fs = Inr (control (f_code fs) j, fs)"
proof (cases "1 \<le> j")
  case True
  then obtain m where "opcode_of (GET_OPCODE (f_code fs ! nat (j - 1))) = Some m" using assms by (auto simp: jump_ok_def)
  with True assms show ?thesis
    by (simp add: getjumpcontrol_def gen_defs code_at_eval control_def tests_def jump_ok_def)
next
  case False
  with assms show ?thesis by (simp add: getjumpcontrol_def gen_defs code_at_eval control_def jump_ok_def)
qed

lemma testset_control:
  assumes "jump_ok code j" "testset code j"
  shows "1 \<le> j \<and> control code j = j - 1 \<and> is_op (code ! nat (j - 1)) OP_TESTSET"
  using assms by (auto simp: testset_def control_def jump_ok_def is_op_def split: if_splits)

lemma patchtestreg_eval:
  assumes "jump_ok (f_code fs) j"
  shows "patchtestreg j reg ls fs = Inr (testset (f_code fs) j,
    if testset (f_code fs) j then fs\<lparr>f_code := (f_code fs)[nat (j - 1) := patch_test reg (f_code fs ! nat (j - 1))]\<rparr> else fs)"
proof -
  let ?c = "control (f_code fs) j"
  have c: "0 \<le> ?c" "?c < int (length (f_code fs))" using assms by (auto simp: control_def jump_ok_def)
  show ?thesis
  proof (cases "testset (f_code fs) j")
    case True
    then have "1 \<le> j" "?c = j - 1" "is_op (f_code fs ! nat (j - 1)) OP_TESTSET" using testset_control [OF assms] by auto
    with True c getjumpcontrol_eval [OF assms] show ?thesis
      by (simp add: patchtestreg_def gen_defs code_at_eval set_code_eval patch_test_def)
  next
    case False
    then have "\<not> is_op (f_code fs ! nat ?c) OP_TESTSET" by (simp add: testset_def)
    with False c getjumpcontrol_eval [OF assms] show ?thesis by (simp add: patchtestreg_def gen_defs code_at_eval)
  qed
qed

text \<open>One round of the loop on code \<open>code\<close>.\<close>

definition patch_one :: "Instruction list \<Rightarrow> int \<Rightarrow> int \<Rightarrow> int \<Rightarrow> Instruction list" where
  "patch_one code j target reg =
     (let code1 = (if testset code j then code[nat (j - 1) := patch_test reg (code ! nat (j - 1))] else code) in
      code1[nat j := SETARG_sBx (code1 ! nat j) (target - (j + 1))])"

lemma patch_one_nth:
  assumes "jump_ok code j" "p < length code"
  shows "patch_one code j target reg ! p =
    (if int p = j then SETARG_sBx (code ! p) (target - (j + 1))
     else if int p + 1 = j \<and> testset code j then patch_test reg (code ! p) else code ! p)"
proof -
  have j: "0 \<le> j" "j < int (length code)" "int p = j \<longleftrightarrow> p = nat j" using assms by (auto simp: jump_ok_def)
  show ?thesis
  proof (cases "testset code j")
    case True
    then have "1 \<le> j" using testset_control [OF assms(1)] by simp
    then have "nat j \<noteq> nat (j - 1)" "int p + 1 = j \<longleftrightarrow> p = nat (j - 1)" by auto
    with True j assms(2) show ?thesis by (auto simp: patch_one_def Let_def)
  next
    case False
    with j assms(2) show ?thesis by (auto simp: patch_one_def Let_def)
  qed
qed

lemma patch_one_length [simp]: "length (patch_one code j target reg) = length code"
  by (simp add: patch_one_def Let_def)

lemma patch_one_kinds:
  assumes j: "jump_ok code j" and p: "p < length code"
  shows "tests (patch_one code j target reg) (int p) = tests code (int p)"
    "is_op (patch_one code j target reg ! p) OP_JMP = is_op (code ! p) OP_JMP"
    "opcode_of (GET_OPCODE (patch_one code j target reg ! p)) = None \<longleftrightarrow> opcode_of (GET_OPCODE (code ! p)) = None"
proof -
  let ?i = "patch_one code j target reg ! p"
  consider "GET_OPCODE ?i = GET_OPCODE (code ! p)"
    | "is_op (code ! p) OP_TESTSET" "is_op ?i OP_TESTSET \<or> is_op ?i OP_TEST"
  proof (cases "int p \<noteq> j \<and> int p + 1 = j \<and> testset code j")
    case True
    then have "p = nat (j - 1)" by auto
    then have "is_op (code ! p) OP_TESTSET" using True testset_control [OF j] by auto
    with True that(2) patch_test_op [of "code ! p" reg] patch_one_nth [OF j p, of target reg] show thesis by auto
  next
    case False
    with that(1) patch_one_nth [OF j p, of target reg] show thesis by (auto simp: sBx_other split: if_splits)
  qed
  then show "tests (patch_one code j target reg) (int p) = tests code (int p)" "is_op ?i OP_JMP = is_op (code ! p) OP_JMP"
    "opcode_of (GET_OPCODE ?i) = None \<longleftrightarrow> opcode_of (GET_OPCODE (code ! p)) = None"
    by (cases; auto simp: tests_def is_op_def testTMode_simps)+
qed

text \<open>It does not disturb another jump.\<close>

lemma patch_one_other:
  assumes j: "jump_ok code j" and k: "jump_ok code k" "k \<noteq> j"
  shows "jump_ok (patch_one code j target reg) k" "testset (patch_one code j target reg) k = testset code k"
    "link (patch_one code j target reg) k = link code k"
proof -
  let ?c = "patch_one code j target reg"
  have r: "0 \<le> k" "nat k < length code" using k by (auto simp: jump_ok_def)
  have not_test: "\<not> (k + 1 = j \<and> testset code j)"
  proof
    assume "k + 1 = j \<and> testset code j"
    then have "is_op (code ! nat k) OP_TESTSET" using testset_control [OF j] by auto
    with k show False by (simp add: jump_ok_def is_op_def)
  qed
  have same: "?c ! nat k = code ! nat k" using patch_one_nth [OF j r(2), of target reg] k(2) r(1) not_test by simp
  then show "link ?c k = link code k" unfolding link_def by (simp only:)
  have prev: "1 \<le> k \<Longrightarrow> nat (k - 1) < length code" using r by auto
  show "jump_ok ?c k" using k same prev patch_one_kinds [OF j, of "nat (k - 1)"] by (auto simp: jump_ok_def)
  have ctl: "control ?c k = control code k"
    using patch_one_kinds(1) [OF j, of "nat (k - 1)"] prev by (auto simp: control_def)
  have "?c ! nat (control code k) = code ! nat (control code k)"
  proof (cases "control code k = k")
    case False
    then have "control code k = k - 1" "1 \<le> k" "tests code (k - 1)" by (auto simp: control_def split: if_splits)
    moreover from this have "k - 1 \<noteq> j" using j tests_op [of code j OP_JMP] by (auto simp: jump_ok_def testTMode_simps)
    ultimately show ?thesis using patch_one_nth [OF j prev, of target reg] k(2) by auto
  qed (simp add: same)
  then show "testset ?c k = testset code k" by (simp add: testset_def ctl)
qed

lemma chain_link: "chain code l js \<Longrightarrow> length code' = length code \<Longrightarrow> \<forall>j \<in> set js. link code' j = link code j \<Longrightarrow> chain code' l js"
  using chain_cong [of code' code js l] by blast

lemma patched_Cons:
  fixes vtarget dtarget :: int
  assumes ok: "\<forall>k \<in> set (j # js). jump_ok code k" and j: "j \<notin> set js"
  defines "target \<equiv> if testset code j then vtarget else dtarget"
  shows "patched (patch_one code j target reg) js vtarget reg dtarget = patched code (j # js) vtarget reg dtarget"
proof (rule nth_equalityI)
  fix p assume "p < length (patched (patch_one code j target reg) js vtarget reg dtarget)"
  then have p: "p < length code" by (simp add: patched_def)
  have jok: "jump_ok code j" using ok by simp
  have other: "testset (patch_one code j target reg) k = testset code k" if "k \<in> set js" for k
    using patch_one_other(2) [OF jok] ok that j by auto
  have jmp: "\<not> testset code (k + 1)" if "k \<in> set (j # js)" "k + 1 \<in> set (j # js)" for k
  proof
    assume "testset code (k + 1)"
    then have "is_op (code ! nat k) OP_TESTSET" using testset_control [of code "k + 1"] ok that(2) by auto
    then show False using ok that(1) by (auto simp: jump_ok_def is_op_def)
  qed
  show "patched (patch_one code j target reg) js vtarget reg dtarget ! p = patched code (j # js) vtarget reg dtarget ! p"
    using p patch_one_nth [OF jok p, of target reg] other [of "int p"] other [of "int p + 1"] j jmp [of "int p"]
    by (auto simp: patched_def target_def Let_def)
qed (simp add: patched_def)

lemma patchlist_loop_eval:
  assumes "chain (f_code fs) list js" "\<forall>j \<in> set js. jump_ok (f_code fs) j" "length js < n"
  shows "patchlist_loop n list vtarget reg dtarget ls fs =
    (if \<forall>j \<in> set js. \<bar>(if testset (f_code fs) j then vtarget else dtarget) - (j + 1)\<bar> \<le> MAXARG_sBx
     then Inr ((), fs\<lparr>f_code := patched (f_code fs) js vtarget reg dtarget\<rparr>)
     else Inl (luaX_syntaxerror ls ''control structure too long''))"
  using assms
proof (induction js arbitrary: list n fs)
  case Nil
  have "patched (f_code fs) [] vtarget reg dtarget = f_code fs" by (simp add: patched_def map_nth)
  with Nil show ?case by (cases n) (auto simp: gen_defs)
next
  case (Cons j js)
  obtain m where n: "n = Suc m" using Cons.prems(3) by (cases n) auto
  let ?c = "f_code fs"
  have jok: "jump_ok ?c j" and j: "j \<notin> set js" "list = j" "list \<noteq> NO_JUMP"
    using Cons.prems chain_distinct [OF Cons.prems(1)] by (auto simp: NO_JUMP_def)
  let ?t = "if testset ?c j then vtarget else dtarget"
  let ?fs = "fs\<lparr>f_code := patch_one ?c j ?t reg\<rparr>"
  have step: "patchlist_loop n list vtarget reg dtarget ls fs =
      (if \<bar>?t - (j + 1)\<bar> \<le> MAXARG_sBx then patchlist_loop m (link ?c j) vtarget reg dtarget ls ?fs
       else Inl (luaX_syntaxerror ls ''control structure too long''))"
    using j n jok by (simp add: gen_defs getjump_eval patchtestreg_eval fixjump_eval jump_ok_def patch_one_def Let_def)
  have ok: "\<forall>k \<in> set js. jump_ok ?c k \<and> k \<noteq> j" using Cons.prems(2) j by auto
  have "chain (f_code ?fs) (link ?c j) js"
    by (rule chain_link [of ?c]) (use Cons.prems(1) ok patch_one_other(3) [OF jok] in auto)
  then have "patchlist_loop m (link ?c j) vtarget reg dtarget ls ?fs =
      (if \<forall>k \<in> set js. \<bar>(if testset (f_code ?fs) k then vtarget else dtarget) - (k + 1)\<bar> \<le> MAXARG_sBx
       then Inr ((), ?fs\<lparr>f_code := patched (f_code ?fs) js vtarget reg dtarget\<rparr>)
       else Inl (luaX_syntaxerror ls ''control structure too long''))"
    using Cons.prems(3) n ok patch_one_other(1) [OF jok] by (intro Cons.IH) auto
  also have "(\<forall>k \<in> set js. \<bar>(if testset (f_code ?fs) k then vtarget else dtarget) - (k + 1)\<bar> \<le> MAXARG_sBx) \<longleftrightarrow>
      (\<forall>k \<in> set js. \<bar>(if testset ?c k then vtarget else dtarget) - (k + 1)\<bar> \<le> MAXARG_sBx)"
    using ok patch_one_other(2) [OF jok] by (intro ball_cong) auto
  also have "patched (f_code ?fs) js vtarget reg dtarget = patched ?c (j # js) vtarget reg dtarget"
    using patched_Cons [of j js ?c vtarget dtarget reg] Cons.prems(2) j by simp
  finally show ?case unfolding step by simp
qed

text \<open>
  C28.  Patching a jump list sends every jump of it to its target: to \<open>vtarget\<close> if it is
  controlled by an \<^verbatim>\<open>OP_TESTSET\<close>, which then stores to the register asked for (or becomes an
  \<^verbatim>\<open>OP_TEST\<close> where there is none, or where the value is already there), and to \<open>dtarget\<close>
  otherwise.  No other instruction changes, and the only error is a distance that does not
  fit.
\<close>

theorem patchlist_targets:
  assumes "chain (f_code fs) list js" "\<forall>j \<in> set js. jump_ok (f_code fs) j"
  shows "patchlistaux list vtarget reg dtarget ls fs =
    (if \<forall>j \<in> set js. \<bar>(if testset (f_code fs) j then vtarget else dtarget) - (j + 1)\<bar> \<le> MAXARG_sBx
     then Inr ((), fs\<lparr>f_code := patched (f_code fs) js vtarget reg dtarget\<rparr>)
     else Inl (luaX_syntaxerror ls ''control structure too long''))"
  using patchlist_loop_eval [OF assms, of "Suc (length (f_code fs))" vtarget reg dtarget ls] chain_length [OF assms(1)]
  by (simp add: patchlistaux_def gen_defs del: patchlist_loop.simps)

section \<open>Constants\<close>

text \<open>The key under which a constant is found in \<^verbatim>\<open>fs->h\<close>, the table at \<open>hid\<close>.\<close>

fun key_of :: "nat \<Rightarrow> kval \<Rightarrow> tvalue" where
  "key_of hid KNil = TTable hid"
| "key_of hid (KBoolean b) = TBoolean b"
| "key_of hid (KNumber n) = TNumber n"
| "key_of hid (KString s) = (case s of None \<Rightarrow> TNil | Some s \<Rightarrow> TString s)"

text \<open>The table knows the index of every constant, and nothing else.\<close>

definition consts_ok :: "funcstate \<Rightarrow> bool" where
  "consts_ok fs \<longleftrightarrow> table_ok (fs_h fs) \<and> fs_nk fs \<le> MAXARG_Bx
     \<and> (\<forall>i < length (f_k fs). key_of (fs_hid fs) (f_k fs ! i) \<noteq> TNil
          \<and> lookup (fs_h fs) (key_of (fs_hid fs) (f_k fs ! i)) = TNumber (cast_num (int i)))
     \<and> (\<forall>key. lookup (fs_h fs) key \<noteq> TNil \<longrightarrow>
          (\<exists>i < length (f_k fs). lookup (fs_h fs) key = TNumber (cast_num (int i))
             \<and> luaO_rawequalObj key (key_of (fs_hid fs) (f_k fs ! i))))"

lemma consts_okD:
  assumes "consts_ok fs"
  shows "table_ok (fs_h fs)" "fs_nk fs \<le> MAXARG_Bx"
    "i < length (f_k fs) \<Longrightarrow> lookup (fs_h fs) (key_of (fs_hid fs) (f_k fs ! i)) = TNumber (cast_num (int i))"
    "lookup (fs_h fs) key \<noteq> TNil \<Longrightarrow> \<exists>i < length (f_k fs). lookup (fs_h fs) key = TNumber (cast_num (int i))
       \<and> luaO_rawequalObj key (key_of (fs_hid fs) (f_k fs ! i))"
  using assms by (auto simp: consts_ok_def)

lemma index_fits: "consts_ok fs \<Longrightarrow> i < length (f_k fs) \<Longrightarrow> lua_number2int (cast_num (int i)) = int i"
  by (simp add: consts_ok_def fs_nk_def INT_MIN_def INT_MAX_def)

lemma consts_ok_table:
  "consts_ok fs \<Longrightarrow> table_ok h \<Longrightarrow> lookup h = lookup (fs_h fs) \<Longrightarrow> consts_ok (fs\<lparr>fs_h := h\<rparr>)"
  by (simp add: consts_ok_def fs_nk_def)

text \<open>A constant that is there already.\<close>

lemma addk_present:
  assumes ok: "consts_ok fs" and key: "valid_key key" and i: "i < length (f_k fs)" "lookup (fs_h fs) key = TNumber (cast_num (int i))"
    and r: "addk key v ls fs = Inr (n, fs')"
  shows "n = int i \<and> (\<exists>h. fs' = fs\<lparr>fs_h := h\<rparr> \<and> consts_ok fs')"
proof -
  obtain s h where h: "luaH_set (fs_h fs) key = Inr (s, h)" "table_ok h" "s = scan h key" "lookup h = lookup (fs_h fs)"
    using luaH_set_outcome [OF consts_okD(1) [OF ok] key] r by (auto simp: set_outcome_def addk_def)
  have "slot_read h s = TNumber (cast_num (int i))" using i(2) unfolding h(3) h(4) [symmetric] by (simp add: lookup_def)
  with r h(1) have "n = int i" "fs' = fs\<lparr>fs_h := h\<rparr>" using index_fits [OF ok i(1)] by (simp_all add: addk_def)
  then show ?thesis using consts_ok_table [OF ok h(2,4)] by blast
qed

text \<open>A new constant.\<close>

lemma addk_new:
  assumes ok: "consts_ok fs" and key: "valid_key (key_of (fs_hid fs) v)" and none: "lookup (fs_h fs) (key_of (fs_hid fs) v) = TNil"
    and r: "addk (key_of (fs_hid fs) v) v ls fs = Inr (n, fs')"
  shows "n = fs_nk fs \<and> (\<exists>h. fs' = fs\<lparr>fs_h := h, f_k := f_k fs @ [v]\<rparr>) \<and> consts_ok fs'"
proof -
  let ?key = "key_of (fs_hid fs) v"
  obtain s h where h: "luaH_set (fs_h fs) ?key = Inr (s, h)" "table_ok h" "s = scan h ?key" "s \<noteq> SNil" "lookup h = lookup (fs_h fs)"
    using luaH_set_outcome [OF consts_okD(1) [OF ok] key] r by (auto simp: set_outcome_def addk_def)
  have "slot_read h s = TNil" using none unfolding h(3) h(5) [symmetric] by (simp add: lookup_def)
  moreover obtain h1 where h1: "slot_write h s (TNumber (cast_num (fs_nk fs))) = Inr h1" "table_ok h1"
    "\<And>k. lookup h1 k = (if luaO_rawequalObj k ?key then TNumber (cast_num (fs_nk fs)) else lookup h k)"
    using slot_write_ok [OF h(2), of ?key] h(3,4) by metis
  ultimately have e: "n = fs_nk fs" "fs' = fs\<lparr>fs_h := h1, f_k := f_k fs @ [v]\<rparr>" "fs_nk fs < MAXARG_Bx"
    using r h(1) by (auto simp: addk_def split: if_splits)
  have self: "luaO_rawequalObj ?key ?key" using key by (simp add: valid_key_iff)
  have other: "\<not> luaO_rawequalObj (key_of (fs_hid fs) (f_k fs ! i)) ?key" if "i < length (f_k fs)" for i
    using lookup_cong [OF table_ok_nodes [OF consts_okD(1) [OF ok]]] consts_okD(3) [OF ok that] none by fastforce
  have "consts_ok fs'" unfolding consts_ok_def
  proof (intro conjI allI impI)
    show "table_ok (fs_h fs')" "fs_nk fs' \<le> MAXARG_Bx" using h1(2) e by (simp_all add: fs_nk_def)
    fix i assume "i < length (f_k fs')"
    then consider "i < length (f_k fs)" | "i = length (f_k fs)" using e(2) by fastforce
    then show "lookup (fs_h fs') (key_of (fs_hid fs') (f_k fs' ! i)) = TNumber (cast_num (int i))"
      using e(2) h1(3) self other consts_okD(3) [OF ok] h(5) by cases (simp_all add: nth_append fs_nk_def)
    from \<open>i < length (f_k fs')\<close> show "key_of (fs_hid fs') (f_k fs' ! i) \<noteq> TNil"
      using ok key e(2) by (auto simp: consts_ok_def valid_key_def nth_append less_Suc_eq)
  next
    fix k assume k: "lookup (fs_h fs') k \<noteq> TNil"
    show "\<exists>i < length (f_k fs'). lookup (fs_h fs') k = TNumber (cast_num (int i))
        \<and> luaO_rawequalObj k (key_of (fs_hid fs') (f_k fs' ! i))"
    proof (cases "luaO_rawequalObj k ?key")
      case True
      with e(2) h1(3) show ?thesis by (auto simp: fs_nk_def intro!: exI [of _ "length (f_k fs)"])
    next
      case False
      then obtain i where "i < length (f_k fs)" "lookup (fs_h fs) k = TNumber (cast_num (int i))"
          "luaO_rawequalObj k (key_of (fs_hid fs) (f_k fs ! i))"
        using consts_okD(4) [OF ok, of k] k e(2) h1(3) h(5) by auto
      with False e(2) h1(3) h(5) show ?thesis by (auto simp: nth_append intro!: exI [of _ i])
    qed
  qed
  with e show ?thesis by blast
qed

text \<open>
  C29.  The constants of a function: adding one (a string, a number other than NaN, a boolean or
  \<^verbatim>\<open>nil\<close>) returns the index of a constant equal to it, reuses the one that is there, appends
  it otherwise, and leaves all earlier indices valid; the table that finds the constants keeps
  knowing exactly the index of each.
\<close>

theorem addk_constant:
  assumes "consts_ok fs" "valid_key (key_of (fs_hid fs) v)" "addk (key_of (fs_hid fs) v) v ls fs = Inr (i, fs')"
  shows "consts_ok fs' \<and> 0 \<le> i \<and> i < fs_nk fs'
    \<and> luaO_rawequalObj (key_of (fs_hid fs) v) (key_of (fs_hid fs) (f_k fs' ! nat i))
    \<and> f_k fs' = f_k fs @ (if i < fs_nk fs then [] else [v])"
proof (cases "lookup (fs_h fs) (key_of (fs_hid fs) v) = TNil")
  case True
  with addk_new [OF assms(1,2) True assms(3)] assms(2) show ?thesis by (auto simp: fs_nk_def valid_key_iff)
next
  case False
  then obtain j where j: "j < length (f_k fs)" "lookup (fs_h fs) (key_of (fs_hid fs) v) = TNumber (cast_num (int j))"
    "luaO_rawequalObj (key_of (fs_hid fs) v) (key_of (fs_hid fs) (f_k fs ! j))"
    using consts_okD(4) [OF assms(1)] by blast
  with addk_present [OF assms(1,2) j(1,2) assms(3)] show ?thesis by (auto simp: fs_nk_def)
qed

text \<open>
  Negative zero is lost: a function that has the constant \<open>0\<close> has it in the place of
  \<open>-0\<close> too, because the two are equal as keys; the number the code loads is not the one that
  was folded.
\<close>

theorem negative_zero_lost:
  assumes "consts_ok fs" "i < length (f_k fs)" "f_k fs ! i = KNumber (cast_num 0)"
    and "luaK_numberK (luai_numunm (cast_num 0)) ls fs = Inr (n, fs')"
  shows "f_k fs' ! nat n = KNumber (cast_num 0) \<and> luai_numunm (cast_num 0) \<noteq> cast_num 0"
proof -
  have z: "luai_numeq (luai_numunm (cast_num 0)) (cast_num 0)" "luai_numunm (cast_num 0) \<noteq> cast_num 0"
    "\<not> luai_numisnan (luai_numunm (cast_num 0))" by code_simp+
  then have "lookup (fs_h fs) (TNumber (luai_numunm (cast_num 0))) = lookup (fs_h fs) (TNumber (cast_num 0))"
    by (intro lookup_cong table_ok_nodes consts_okD(1) [OF assms(1)]) simp
  also have "\<dots> = TNumber (cast_num (int i))" using consts_okD(3) [OF assms(1,2)] assms(3) by simp
  finally have "n = int i \<and> (\<exists>h. fs' = fs\<lparr>fs_h := h\<rparr> \<and> consts_ok fs')"
    using addk_present [OF assms(1) _ assms(2) _ assms(4) [unfolded luaK_numberK_def]] z(3) by (simp add: valid_key_def)
  with assms(3) z(2) show ?thesis by auto
qed

section \<open>Constant folding\<close>

definition event_of :: "OpCode \<Rightarrow> TMS option" where
  "event_of opc = (case opc of OP_ADD \<Rightarrow> Some TM_ADD | OP_SUB \<Rightarrow> Some TM_SUB | OP_MUL \<Rightarrow> Some TM_MUL | OP_DIV \<Rightarrow> Some TM_DIV
     | OP_MOD \<Rightarrow> Some TM_MOD | OP_POW \<Rightarrow> Some TM_POW | OP_UNM \<Rightarrow> Some TM_UNM | _ \<Rightarrow> None)"

text \<open>
  C30.  Folding agrees with execution: where an operation on two numerals is folded, the numeral
  holds the number that the virtual machine computes for the same operation on the same
  numbers, it is not NaN, and the divisor of a folded division is not zero.
\<close>

theorem folding_is_execution:
  assumes "constfolding numpow opc e1 e2 = Some e" "event_of opc = Some event"
  shows "Arith numpow call S (TNumber (e_nval e1)) (TNumber (e_nval e2)) event = Inr (TNumber (e_nval e), S)
    \<and> \<not> dbl_isnan (e_nval e) \<and> isnumeral e
    \<and> (opc = OP_DIV \<or> opc = OP_MOD \<longrightarrow> \<not> luai_numeq (e_nval e2) (cast_num 0))"
  using assms
  by (cases opc) (auto simp: constfolding_def event_of_def fold_op_def Arith_def arith_op_def isnumeral_def split: if_splits)

section \<open>The word after a large \<^verbatim>\<open>OP_SETLIST\<close>\<close>

text \<open>A function at its start, and a lexical state on line 1.\<close>

definition blank_fs :: funcstate where
  "blank_fs = \<lparr>f_k = [], f_code = [], f_p = [], f_lineinfo = [], f_locvars = [], f_upvalues = [], f_source = ''=s'',
     f_linedefined = 0, f_lastlinedefined = 0, f_numparams = 0, f_is_vararg = 0, f_maxstacksize = 2,
     fs_h = projr (luaH_new 0 0), fs_hid = 0, fs_bl = [], fs_lasttarget = -1, fs_jpc = NO_JUMP, fs_freereg = 0,
     fs_nactvar = 0, fs_upvalues = [], fs_actvar = replicate 200 0\<rparr>"

definition blank_ls :: lexstate where
  "blank_ls = \<lparr>ls_current = EOZ, ls_linenumber = 1, ls_lastline = 1, ls_t = \<lparr>tok_token = TK_EOS, tok_seminfo = SemNone\<rparr>,
     ls_lookahead = \<lparr>tok_token = TK_EOS, tok_seminfo = SemNone\<rparr>, ls_z = luaZ_init [], ls_buff = [], ls_buffsize = 32,
     ls_source = ''=s'', ls_decpoint = CHR ''.'', ls_strings = [], ls_locale = CHR ''.''\<rparr>"


section \<open>Witnesses\<close>

text \<open>Code of two tests with their jumps, linked, and one jump of its own.\<close>

definition jump_code :: "Instruction list" where
  "jump_code =
     [CREATE_ABC (opnum OP_TESTSET) 255 1 0, CREATE_ABx (opnum OP_JMP) 0 (-1 + MAXARG_sBx),
      CREATE_ABC (opnum OP_EQ) 1 0 1, CREATE_ABx (opnum OP_JMP) 0 (-3 + MAXARG_sBx),
      CREATE_ABx (opnum OP_JMP) 0 (-1 + MAXARG_sBx), CREATE_ABC (opnum OP_MOVE) 0 1 0]"

definition jump_fs :: funcstate where
  "jump_fs = blank_fs\<lparr>f_code := jump_code, f_lineinfo := replicate 6 1\<rparr>"

lemma jump_chains: "chain (f_code jump_fs) 3 [3, 1]" "chain (f_code jump_fs) 4 [4]"
  by code_simp+

theorem concat_appends_witness:
  "\<exists>fs'. luaK_concat 3 4 blank_ls jump_fs = Inr (3, fs') \<and> chain (f_code fs') 3 [3, 1, 4]"
proof -
  let ?r = "luaK_concat 3 4 blank_ls jump_fs"
  have "map_sum id fst ?r = Inr 3" by code_simp
  moreover have "set [3, 1] \<inter> set [4::int] = {}" by simp
  ultimately show ?thesis
    using concat_appends [OF jump_chains, of blank_ls] by (cases ?r) auto
qed

theorem patchlist_targets_witness:
  "\<exists>fs'. patchlistaux 3 5 2 0 blank_ls jump_fs = Inr ((), fs') \<and> GETARG_sBx (f_code fs' ! 1) = 3 \<and> GETARG_A (f_code fs' ! 0) = 2
     \<and> GETARG_sBx (f_code fs' ! 3) = -4"
proof -
  have "\<forall>j \<in> set [3, 1]. jump_ok (f_code jump_fs) j" by code_simp
  from patchlist_targets [OF jump_chains(1) this, of 5 2 0 blank_ls]
  have "patchlistaux 3 5 2 0 blank_ls jump_fs = Inr ((), jump_fs\<lparr>f_code := patched (f_code jump_fs) [3, 1] 5 2 0\<rparr>)"
    by (simp add: MAXARG_sBx_def MAXARG_Bx_def SIZE_Bx_def SIZE_B_def SIZE_C_def)
  moreover have "GETARG_sBx (patched (f_code jump_fs) [3, 1] 5 2 0 ! 1) = 3" "GETARG_A (patched (f_code jump_fs) [3, 1] 5 2 0 ! 0) = 2"
    "GETARG_sBx (patched (f_code jump_fs) [3, 1] 5 2 0 ! 3) = -4" by code_simp+
  ultimately show ?thesis by simp
qed

lemma blank_consts: "consts_ok blank_fs"
proof -
  have "luaH_new 0 0 = Inr (fs_h blank_fs)" by code_simp
  then have "table_ok (fs_h blank_fs)" "\<forall>key. lookup (fs_h blank_fs) key = TNil"
    using luaH_new_ok [of 0 0] by (auto simp: Let_def)
  then show ?thesis by (simp add: consts_ok_def blank_fs_def fs_nk_def)
qed

theorem addk_constant_witness:
  "\<exists>fs'. luaK_stringK ''x'' blank_ls blank_fs = Inr (0, fs') \<and> consts_ok fs' \<and> f_k fs' = [KString (Some ''x'')]"
proof -
  let ?r = "luaK_stringK ''x'' blank_ls blank_fs"
  have "map_sum id fst ?r = Inr 0" by code_simp
  then obtain fs' where r: "?r = Inr (0, fs')" by (cases ?r) auto
  then have "addk (key_of (fs_hid blank_fs) (KString (Some ''x''))) (KString (Some ''x'')) blank_ls blank_fs = Inr (0, fs')"
    by (simp add: luaK_stringK_def)
  from addk_constant [OF blank_consts _ this] r show ?thesis by (simp add: valid_key_def blank_fs_def fs_nk_def)
qed

theorem negative_zero_lost_witness:
  "\<exists>fs fs'. luaK_numberK (cast_num 0) blank_ls blank_fs = Inr (0, fs)
     \<and> luaK_numberK (luai_numunm (cast_num 0)) blank_ls fs = Inr (0, fs') \<and> f_k fs' ! 0 = KNumber (cast_num 0)"
proof -
  let ?r = "luaK_numberK (cast_num 0) blank_ls blank_fs"
  have "map_sum id (\<lambda>(i, fs). (i, f_k fs, map_sum id fst (luaK_numberK (luai_numunm (cast_num 0)) blank_ls fs))) ?r
      = Inr (0, [KNumber (cast_num 0)], Inr 0)" by code_simp
  then obtain fs fs' where r: "?r = Inr (0, fs)" "f_k fs = [KNumber (cast_num 0)]"
      "luaK_numberK (luai_numunm (cast_num 0)) blank_ls fs = Inr (0, fs')"
    by (cases ?r; cases "luaK_numberK (luai_numunm (cast_num 0)) blank_ls (snd (projr ?r))") auto
  have "consts_ok fs"
  proof -
    have "valid_key (TNumber (cast_num 0))" by code_simp
    moreover have "lookup (fs_h blank_fs) (TNumber (cast_num 0)) = TNil" by code_simp
    ultimately show ?thesis
      using addk_new [OF blank_consts, of "KNumber (cast_num 0)" blank_ls 0 fs] r(1) by (simp add: luaK_numberK_def)
  qed
  with r negative_zero_lost [of fs 0 blank_ls 0 fs'] show ?thesis by auto
qed

definition numeral_exp :: "int \<Rightarrow> expdesc" where
  "numeral_exp n = \<lparr>e_k = VKNUM, e_info = 0, e_aux = 0, e_nval = cast_num n, e_t = NO_JUMP, e_f = NO_JUMP\<rparr>"

theorem folding_is_execution_witness:
  "\<forall>call S. \<exists>e. constfolding (\<lambda>x y. x) OP_ADD (numeral_exp 2) (numeral_exp 3) = Some e
     \<and> Arith (\<lambda>x y. x) call S (TNumber (cast_num 2)) (TNumber (cast_num 3)) TM_ADD = Inr (TNumber (e_nval e), S)"
proof (intro allI)
  fix call S
  let ?c = "constfolding (\<lambda>x y. x) OP_ADD (numeral_exp 2) (numeral_exp 3)"
  have "?c = Some (numeral_exp 5)" by code_simp
  moreover have "event_of OP_ADD = Some TM_ADD" by (simp add: event_of_def)
  ultimately show "\<exists>e. ?c = Some e
     \<and> Arith (\<lambda>x y. x) call S (TNumber (cast_num 2)) (TNumber (cast_num 3)) TM_ADD = Inr (TNumber (e_nval e), S)"
    using folding_is_execution [of "\<lambda>x y. x" OP_ADD "numeral_exp 2" "numeral_exp 3" "numeral_exp 5" TM_ADD call S]
    by (auto simp: numeral_exp_def)
qed

end
