(* ===== verification/LuaParser.thy ===== *)
theory LuaParser
  imports LuaCode
begin

text \<open>
  The parser, \<^verbatim>\<open>lparser.c\<close>.

  The state of a parse is the lexical state, the chain of functions being compiled (the
  innermost first: \<^verbatim>\<open>ls->fs\<close> is the head and \<^verbatim>\<open>fs->prev\<close> the next) and \<^verbatim>\<open>L->nCcalls\<close>.
  A function of the parser that works on the current \<^verbatim>\<open>FuncState\<close> is one of the code generator,
  lifted with \<open>genP\<close>.  A \<^verbatim>\<open>BlockCnt\<close> on the C stack is an element of \<open>fs_bl\<close>.  The vectors of the
  prototype hold the elements in use, as in the code generator; strings anchored in \<^verbatim>\<open>fs->h\<close>
  against collection are the \<open>ls_strings\<close> of the lexical state.

  As in the source, only \<^verbatim>\<open>expr\<close> and \<^verbatim>\<open>chunk\<close> are called before their definition: the other
  rules take them as arguments, and \<open>rules\<close> ties the knot.  Every level of that recursion and every
  turn of a loop uses one unit of fuel; running out of it is \<open>None\<close>.
\<close>

section \<open>State\<close>

record parstate =
  ps_ls :: lexstate
  ps_fs :: "funcstate list"
  ps_nCcalls :: int
  ps_hid :: nat

type_synonym 'a parse = "parstate \<Rightarrow> (lua_error + 'a \<times> parstate) option"

definition bindP :: "'a parse \<Rightarrow> ('a \<Rightarrow> 'b parse) \<Rightarrow> 'b parse" where
  "bindP m f s =
     (case m s of None \<Rightarrow> None | Some (Inl e) \<Rightarrow> Some (Inl e) | Some (Inr (x, s1)) \<Rightarrow> f x s1)"

definition retP :: "'a \<Rightarrow> 'a parse" where
  "retP x s = Some (Inr (x, s))"

definition failP :: "lua_error \<Rightarrow> 'a parse" where
  "failP e s = Some (Inl e)"

definition getP :: "(parstate \<Rightarrow> 'a) \<Rightarrow> 'a parse" where
  "getP f s = Some (Inr (f s, s))"

definition lexP :: "(lexstate \<Rightarrow> lua_error + lexstate) \<Rightarrow> unit parse" where
  "lexP f s = Some (bindE (f (ps_ls s)) (\<lambda>ls. Inr ((), s\<lparr>ps_ls := ls\<rparr>)))"

definition genP :: "'a gen \<Rightarrow> 'a parse" where
  "genP m s =
     (case ps_fs s of
        [] \<Rightarrow> Some (Inl ErrFault)
      | fs # prev \<Rightarrow> Some (bindE (m (ps_ls s) fs) (\<lambda>(x, fs1). Inr (x, s\<lparr>ps_fs := fs1 # prev\<rparr>))))"

definition nextP :: "unit parse" where "nextP = lexP luaX_next"
definition tokP :: "int parse" where "tokP = getP (\<lambda>s. tok_token (ls_t (ps_ls s)))"
definition lineP :: "int parse" where "lineP = getP (\<lambda>s. ls_linenumber (ps_ls s))"
definition syntaxP :: "string \<Rightarrow> 'a parse" where "syntaxP msg s = Some (Inl (luaX_syntaxerror (ps_ls s) msg))"

section \<open>Reserved words\<close>

definition TK_AND :: int where "TK_AND = FIRST_RESERVED"
definition TK_BREAK :: int where "TK_BREAK = FIRST_RESERVED + 1"
definition TK_DO :: int where "TK_DO = FIRST_RESERVED + 2"
definition TK_ELSE :: int where "TK_ELSE = FIRST_RESERVED + 3"
definition TK_ELSEIF :: int where "TK_ELSEIF = FIRST_RESERVED + 4"
definition TK_END :: int where "TK_END = FIRST_RESERVED + 5"
definition TK_FALSE :: int where "TK_FALSE = FIRST_RESERVED + 6"
definition TK_FOR :: int where "TK_FOR = FIRST_RESERVED + 7"
definition TK_IF :: int where "TK_IF = FIRST_RESERVED + 9"
definition TK_IN :: int where "TK_IN = FIRST_RESERVED + 10"
definition TK_LOCAL :: int where "TK_LOCAL = FIRST_RESERVED + 11"
definition TK_NIL :: int where "TK_NIL = FIRST_RESERVED + 12"
definition TK_NOT :: int where "TK_NOT = FIRST_RESERVED + 13"
definition TK_OR :: int where "TK_OR = FIRST_RESERVED + 14"
definition TK_REPEAT :: int where "TK_REPEAT = FIRST_RESERVED + 15"
definition TK_RETURN :: int where "TK_RETURN = FIRST_RESERVED + 16"
definition TK_THEN :: int where "TK_THEN = FIRST_RESERVED + 17"
definition TK_TRUE :: int where "TK_TRUE = FIRST_RESERVED + 18"
definition TK_UNTIL :: int where "TK_UNTIL = FIRST_RESERVED + 19"

lemmas TK_word_defs = TK_AND_def TK_BREAK_def TK_DO_def TK_ELSE_def TK_ELSEIF_def TK_END_def TK_FALSE_def
  TK_FOR_def TK_IF_def TK_IN_def TK_LOCAL_def TK_NIL_def TK_NOT_def TK_OR_def TK_REPEAT_def TK_RETURN_def
  TK_THEN_def TK_TRUE_def TK_UNTIL_def TK_defs

text \<open>The limits of \<^verbatim>\<open>luaconf.h\<close>, where \<^verbatim>\<open>LUA_COMPAT_VARARG\<close> is defined.\<close>

definition LUAI_MAXVARS :: int where "LUAI_MAXVARS = 200"
definition LUAI_MAXUPVALUES :: int where "LUAI_MAXUPVALUES = 60"
definition LUAI_MAXCCALLS :: int where "LUAI_MAXCCALLS = 200"
definition SHRT_MAX :: int where "SHRT_MAX = 32767"

definition hasmultret :: "expkind \<Rightarrow> bool" where
  "hasmultret k \<longleftrightarrow> k = VCALL \<or> k = VVARARG"

section \<open>Errors and tokens\<close>

text \<open>A step that raises the error for a message, or the error of making the message.\<close>

definition with_message :: "lua_error + string \<Rightarrow> (string \<Rightarrow> lua_error) \<Rightarrow> lua_error" where
  "with_message m f = (case m of Inl e \<Rightarrow> e | Inr s \<Rightarrow> f s)"

definition anchor_token :: "unit parse" where
  "anchor_token s =
     (let t = ls_t (ps_ls s) in
      if tok_token t = TK_NAME \<or> tok_token t = TK_STRING then
        (case tok_seminfo t of
           SemStr str \<Rightarrow>
             if ps_fs s = [] then Some (Inl ErrFault)
             else Some (Inr ((), s\<lparr>ps_ls := luaX_newstring (ps_ls s) str\<rparr>))
         | _ \<Rightarrow> Some (Inl ErrFault))
      else Some (Inr ((), s)))"

definition error_expected :: "int \<Rightarrow> 'a parse" where
  "error_expected token s =
     Some (Inl (with_message
       (bindE (luaX_token2str token) (\<lambda>t. luaO_pushvfstring (LUA_QS @ '' expected'') [FStr (Some t)]))
       (luaX_syntaxerror (ps_ls s))))"

definition errorlimit :: "lexstate \<Rightarrow> funcstate \<Rightarrow> int \<Rightarrow> string \<Rightarrow> lua_error" where
  "errorlimit ls fs limit what =
     with_message
       (if f_linedefined fs = 0
        then luaO_pushvfstring ''main function has more than %d %s'' [FInt limit, FStr (Some what)]
        else luaO_pushvfstring ''function at line %d has more than %d %s''
               [FInt (f_linedefined fs), FInt limit, FStr (Some what)])
       (\<lambda>msg. luaX_lexerror ls msg 0)"

definition luaY_checklimit :: "int \<Rightarrow> int \<Rightarrow> string \<Rightarrow> unit gen" where
  "luaY_checklimit v l m ls fs = (if v > l then Inl (errorlimit ls fs l m) else Inr ((), fs))"

definition testnext :: "int \<Rightarrow> bool parse" where
  "testnext c = bindP tokP (\<lambda>t. if t = c then bindP nextP (\<lambda>_. retP True) else retP False)"

definition check :: "int \<Rightarrow> unit parse" where
  "check c = bindP tokP (\<lambda>t. if t \<noteq> c then error_expected c else retP ())"

definition checknext :: "int \<Rightarrow> unit parse" where
  "checknext c = bindP (check c) (\<lambda>_. nextP)"

definition check_condition :: "bool \<Rightarrow> string \<Rightarrow> unit parse" where
  "check_condition c msg = (if \<not> c then syntaxP msg else retP ())"

definition check_match :: "int \<Rightarrow> int \<Rightarrow> int \<Rightarrow> unit parse" where
  "check_match what who line =
     bindP (testnext what) (\<lambda>b.
     if b then retP ()
     else
       bindP lineP (\<lambda>l.
       if line = l then error_expected what
       else (\<lambda>s. Some (Inl (with_message
         (bindE (luaX_token2str what) (\<lambda>w. bindE (luaX_token2str who) (\<lambda>wo.
          luaO_pushvfstring (LUA_QS @ '' expected (to close '' @ LUA_QS @ '' at line %d)'')
            [FStr (Some w), FStr (Some wo), FInt line])))
         (luaX_syntaxerror (ps_ls s)))))))"

text \<open>\<^verbatim>\<open>ls->t.seminfo.ts\<close>\<close>

definition tokstrP :: "string parse" where
  "tokstrP s = (case tok_seminfo (ls_t (ps_ls s)) of SemStr str \<Rightarrow> retP str s | _ \<Rightarrow> Some (Inl ErrFault))"

definition str_checkname :: "string parse" where
  "str_checkname = bindP (check TK_NAME) (\<lambda>_. bindP tokstrP (\<lambda>ts. bindP nextP (\<lambda>_. retP ts)))"

text \<open>\<^verbatim>\<open>init_exp\<close> leaves the other members of the union as they are; no code reads them.\<close>

definition init_exp :: "expkind \<Rightarrow> int \<Rightarrow> expdesc" where
  "init_exp k i = \<lparr>e_k = k, e_info = i, e_aux = 0, e_nval = cast_num 0, e_t = NO_JUMP, e_f = NO_JUMP\<rparr>"

definition codestring :: "string \<Rightarrow> expdesc parse" where
  "codestring s = bindP (genP (luaK_stringK s)) (\<lambda>k. retP (init_exp VK k))"

definition checkname :: "expdesc parse" where
  "checkname = bindP str_checkname codestring"

section \<open>Variables\<close>

text \<open>The index of the new variable is the old \<^verbatim>\<open>fs->nlocvars\<close>.\<close>

definition registerlocalvar :: "string \<Rightarrow> nat gen" where
  "registerlocalvar name =
     bindG (getG (\<lambda>fs. length (f_locvars fs))) (\<lambda>n.
     if int n \<ge> SHRT_MAX then failG (ErrRun ''too many local variables'')
     else
       bindG (modG (\<lambda>fs. fs\<lparr>f_locvars := f_locvars fs @ [\<lparr>varname = Some name, startpc = 0, endpc = 0\<rparr>]\<rparr>)) (\<lambda>_.
       retG n))"

definition set_actvar :: "int \<Rightarrow> nat \<Rightarrow> unit gen" where
  "set_actvar i v ls fs =
     (if 0 \<le> i \<and> i < int (length (fs_actvar fs))
      then Inr ((), fs\<lparr>fs_actvar := (fs_actvar fs)[nat i := v mod 2 ^ 16]\<rparr>) else Inl ErrFault)"

definition new_localvar :: "string \<Rightarrow> int \<Rightarrow> unit gen" where
  "new_localvar name n =
     bindG (getG fs_nactvar) (\<lambda>nactvar.
     bindG (luaY_checklimit (nactvar + n + 1) LUAI_MAXVARS ''local variables'') (\<lambda>_.
     bindG (registerlocalvar name) (\<lambda>r. set_actvar (nactvar + n) r)))"

definition new_localvarliteral :: "string \<Rightarrow> int \<Rightarrow> unit parse" where
  "new_localvarliteral v n =
     bindP (lexP (\<lambda>ls. Inr (luaX_newstring ls v))) (\<lambda>_. genP (new_localvar v n))"

text \<open>\<^verbatim>\<open>getlocvar(fs, i)\<close>; \<open>None\<close> is outside of a vector.\<close>

definition locvar_index :: "funcstate \<Rightarrow> int \<Rightarrow> nat option" where
  "locvar_index fs i =
     (if 0 \<le> i \<and> i < int (length (fs_actvar fs)) \<and> fs_actvar fs ! nat i < length (f_locvars fs)
      then Some (fs_actvar fs ! nat i) else None)"

definition change_locvar :: "int \<Rightarrow> (locvar \<Rightarrow> locvar) \<Rightarrow> unit gen" where
  "change_locvar i f ls fs =
     (case locvar_index fs i of
        None \<Rightarrow> Inl ErrFault
      | Some j \<Rightarrow> Inr ((), fs\<lparr>f_locvars := (f_locvars fs)[j := f (f_locvars fs ! j)]\<rparr>))"

text \<open>\<^verbatim>\<open>for (; nvars; nvars--)\<close>\<close>

primrec adjust_loop :: "nat \<Rightarrow> unit gen" where
  "adjust_loop 0 = retG ()"
| "adjust_loop (Suc n) =
     bindG (getG (\<lambda>fs. (fs_nactvar fs, fs_pc fs))) (\<lambda>(nactvar, pc).
     bindG (change_locvar (nactvar - int (Suc n)) (\<lambda>v. v\<lparr>startpc := pc\<rparr>)) (\<lambda>_. adjust_loop n))"

definition adjustlocalvars :: "int \<Rightarrow> unit gen" where
  "adjustlocalvars nvars =
     bindG (modG (\<lambda>fs. fs\<lparr>fs_nactvar := (fs_nactvar fs + nvars) mod 256\<rparr>)) (\<lambda>_. adjust_loop (nat nvars))"

primrec removevars_loop :: "nat \<Rightarrow> unit gen" where
  "removevars_loop 0 = retG ()"
| "removevars_loop (Suc n) =
     bindG (modG (\<lambda>fs. fs\<lparr>fs_nactvar := fs_nactvar fs - 1\<rparr>)) (\<lambda>_.
     bindG (getG (\<lambda>fs. (fs_nactvar fs, fs_pc fs))) (\<lambda>(nactvar, pc).
     bindG (change_locvar nactvar (\<lambda>v. v\<lparr>endpc := pc\<rparr>)) (\<lambda>_. removevars_loop n)))"

definition removevars :: "int \<Rightarrow> unit gen" where
  "removevars tolevel = bindG (getG fs_nactvar) (\<lambda>nactvar. removevars_loop (nat (nactvar - tolevel)))"

section \<open>Scopes\<close>

text \<open>The loop over \<^verbatim>\<open>f->upvalues\<close>.\<close>

fun find_upvalue :: "upvaldesc list \<Rightarrow> expdesc \<Rightarrow> nat \<Rightarrow> nat option" where
  "find_upvalue [] v i = None"
| "find_upvalue (u # us) v i =
     (if uv_k u = e_k v \<and> uv_info u = e_info v then Some i else find_upvalue us v (Suc i))"

definition indexupvalue :: "string \<Rightarrow> expdesc \<Rightarrow> int gen" where
  "indexupvalue name v =
     bindG (getG fs_upvalues) (\<lambda>us.
     case find_upvalue us v 0 of
       Some i \<Rightarrow> retG (int i)
     | None \<Rightarrow>
         bindG (luaY_checklimit (int (length us) + 1) LUAI_MAXUPVALUES ''upvalues'') (\<lambda>_.
         bindG (modG (\<lambda>fs. fs\<lparr>f_upvalues := f_upvalues fs @ [name],
             fs_upvalues := us @ [\<lparr>uv_k = e_k v, uv_info = e_info v mod 256\<rparr>]\<rparr>)) (\<lambda>_.
         retG (int (length us)))))"

text \<open>The loop of \<^verbatim>\<open>searchvar\<close>, with \<open>i\<close> one more than the index.\<close>

primrec searchvar_loop :: "funcstate \<Rightarrow> string \<Rightarrow> nat \<Rightarrow> lua_error + int" where
  "searchvar_loop fs n 0 = Inr (-1)"
| "searchvar_loop fs n (Suc i) =
     (case locvar_index fs (int i) of
        None \<Rightarrow> Inl ErrFault
      | Some j \<Rightarrow> if Some n = varname (f_locvars fs ! j) then Inr (int i) else searchvar_loop fs n i)"

definition searchvar :: "funcstate \<Rightarrow> string \<Rightarrow> lua_error + int" where
  "searchvar fs n = searchvar_loop fs n (nat (fs_nactvar fs))"

fun markupval_blocks :: "blockcnt list \<Rightarrow> int \<Rightarrow> blockcnt list" where
  "markupval_blocks [] level = []"
| "markupval_blocks (bl # bls) level =
     (if bl_nactvar bl > level then bl # markupval_blocks bls level else bl\<lparr>bl_upval := True\<rparr> # bls)"

definition markupval :: "funcstate \<Rightarrow> int \<Rightarrow> funcstate" where
  "markupval fs level = fs\<lparr>fs_bl := markupval_blocks (fs_bl fs) level\<rparr>"

text \<open>The chain \<^verbatim>\<open>fs\<close>, \<^verbatim>\<open>fs->prev\<close>, \dots is a list; \<^verbatim>\<open>NO_REG\<close> is the information of a global.\<close>

primrec singlevaraux :: "lexstate \<Rightarrow> funcstate list \<Rightarrow> string \<Rightarrow> bool \<Rightarrow> lua_error + (expkind \<times> expdesc) \<times> funcstate list" where
  "singlevaraux ls [] n base = Inr ((VGLOBAL, init_exp VGLOBAL NO_REG), [])"
| "singlevaraux ls (fs # prev) n base =
     bindE (searchvar fs n) (\<lambda>v.
     if v \<ge> 0 then
       Inr ((VLOCAL, init_exp VLOCAL v), (if \<not> base then markupval fs v else fs) # prev)
     else
       bindE (singlevaraux ls prev n False) (\<lambda>((k, var), prev1).
       if k = VGLOBAL then Inr ((VGLOBAL, var), fs # prev1)
       else
         bindE (indexupvalue n var ls fs) (\<lambda>(i, fs1).
         Inr ((VUPVAL, var\<lparr>e_info := i, e_k := VUPVAL\<rparr>), fs1 # prev1))))"

definition singlevar :: "expdesc parse" where
  "singlevar =
     bindP str_checkname (\<lambda>name.
     bindP (\<lambda>s. Some (bindE (singlevaraux (ps_ls s) (ps_fs s) name True) (\<lambda>(kv, fss). Inr (kv, s\<lparr>ps_fs := fss\<rparr>)))) (\<lambda>(k, var).
     if k = VGLOBAL then bindP (genP (luaK_stringK name)) (\<lambda>i. retP (var\<lparr>e_info := i\<rparr>))
     else retP var))"

definition adjust_assign :: "int \<Rightarrow> int \<Rightarrow> expdesc \<Rightarrow> unit gen" where
  "adjust_assign nvars nexps e =
     (let extra = nvars - nexps in
      if hasmultret (e_k e) then
        let extra1 = (if extra + 1 < 0 then 0 else extra + 1) in
        bindG (luaK_setreturns e extra1) (\<lambda>_.
        if extra1 > 1 then luaK_reserveregs (extra1 - 1) else retG ())
      else
        bindG (if e_k e \<noteq> VVOID then bindG (luaK_exp2nextreg e) (\<lambda>_. retG ()) else retG ()) (\<lambda>_.
        if extra > 0 then
          bindG (getG fs_freereg) (\<lambda>reg. bindG (luaK_reserveregs extra) (\<lambda>_. luaK_nil reg extra))
        else retG ()))"

section \<open>Levels, blocks and functions\<close>

definition enterlevel :: "unit parse" where
  "enterlevel s =
     (let s1 = s\<lparr>ps_nCcalls := ps_nCcalls s + 1\<rparr> in
      if ps_nCcalls s1 > LUAI_MAXCCALLS
      then Some (Inl (luaX_lexerror (ps_ls s1) ''chunk has too many syntax levels'' 0))
      else Some (Inr ((), s1)))"

definition leavelevel :: "unit parse" where
  "leavelevel s = Some (Inr ((), s\<lparr>ps_nCcalls := ps_nCcalls s - 1\<rparr>))"

definition enterblock :: "bool \<Rightarrow> unit gen" where
  "enterblock isbreakable =
     modG (\<lambda>fs. fs\<lparr>fs_bl := \<lparr>bl_breaklist = NO_JUMP, bl_nactvar = fs_nactvar fs, bl_upval = False,
                              bl_isbreakable = isbreakable\<rparr> # fs_bl fs\<rparr>)"

definition leaveblock :: "unit gen" where
  "leaveblock =
     bindG (getG fs_bl) (\<lambda>bls.
     case bls of
       [] \<Rightarrow> failG ErrFault
     | bl # prev \<Rightarrow>
         bindG (modG (\<lambda>fs. fs\<lparr>fs_bl := prev\<rparr>)) (\<lambda>_.
         bindG (removevars (bl_nactvar bl)) (\<lambda>_.
         bindG (if bl_upval bl then bindG (luaK_codeABC OP_CLOSE (bl_nactvar bl) 0 0) (\<lambda>_. retG ()) else retG ()) (\<lambda>_.
         bindG (modG (\<lambda>fs. fs\<lparr>fs_freereg := fs_nactvar fs\<rparr>)) (\<lambda>_.
         luaK_patchtohere (bl_breaklist bl))))))"

text \<open>The prototype that a function state has built.\<close>

definition proto_of :: "funcstate \<Rightarrow> proto" where
  "proto_of fs =
     Proto (f_k fs) (f_code fs) (f_p fs) (f_lineinfo fs) (f_locvars fs) (map Some (f_upvalues fs))
       (Some (f_source fs)) (f_linedefined fs) (f_lastlinedefined fs)
       (word_of_int (int (length (f_upvalues fs)))) (word_of_int (f_numparams fs))
       (word_of_int (f_is_vararg fs)) (word_of_int (f_maxstacksize fs))"

primrec capture_upvalues :: "upvaldesc list \<Rightarrow> unit gen" where
  "capture_upvalues [] = retG ()"
| "capture_upvalues (u # us) =
     bindG (luaK_codeABC (if uv_k u = VLOCAL then OP_MOVE else OP_GETUPVAL) 0 (uv_info u) 0) (\<lambda>_.
     capture_upvalues us)"

definition pushclosure :: "funcstate \<Rightarrow> expdesc gen" where
  "pushclosure func =
     bindG (getG (\<lambda>fs. int (length (f_p fs)))) (\<lambda>np.
     if np \<ge> MAXARG_Bx then failG (ErrRun ''constant table overflow'')
     else
       bindG (modG (\<lambda>fs. fs\<lparr>f_p := f_p fs @ [proto_of func]\<rparr>)) (\<lambda>_.
       bindG (luaK_codeABx OP_CLOSURE 0 np) (\<lambda>pc.
       bindG (capture_upvalues (fs_upvalues func)) (\<lambda>_. retG (init_exp VRELOCABLE pc)))))"

text \<open>The vector \<^verbatim>\<open>actvar\<close> starts with arbitrary contents.\<close>

definition new_funcstate :: "string \<Rightarrow> table \<Rightarrow> nat \<Rightarrow> funcstate" where
  "new_funcstate src h hid =
     \<lparr>f_k = [], f_code = [], f_p = [], f_lineinfo = [], f_locvars = [], f_upvalues = [], f_source = src,
      f_linedefined = 0, f_lastlinedefined = 0, f_numparams = 0, f_is_vararg = 0, f_maxstacksize = 2,
      fs_h = h, fs_hid = hid, fs_bl = [], fs_lasttarget = -1, fs_jpc = NO_JUMP, fs_freereg = 0,
      fs_nactvar = 0, fs_upvalues = [], fs_actvar = replicate 200 0\<rparr>"

definition open_func :: "unit parse" where
  "open_func s =
     Some (bindE (luaH_new 0 0) (\<lambda>h.
       Inr ((), s\<lparr>ps_fs := new_funcstate (ls_source (ps_ls s)) h (ps_hid s) # ps_fs s, ps_hid := ps_hid s + 1\<rparr>)))"

text \<open>The result is the closed function; its vectors are cut to the elements in use.\<close>

definition close_func :: "funcstate parse" where
  "close_func =
     bindP (genP (removevars 0)) (\<lambda>_. bindP (genP (luaK_ret 0 0)) (\<lambda>_.
     bindP (genP (getG id)) (\<lambda>fs. bindP (\<lambda>s. Some (Inr ((), s\<lparr>ps_fs := tl (ps_fs s)\<rparr>))) (\<lambda>_.
     bindP anchor_token (\<lambda>_. retP fs)))))"

section \<open>Constructors, parameters and calls\<close>

definition field :: "expdesc \<Rightarrow> expdesc parse" where
  "field v =
     bindP (genP (luaK_exp2anyreg v)) (\<lambda>v1. bindP nextP (\<lambda>_. bindP checkname (\<lambda>key.
     genP (luaK_indexed v1 key))))"

definition yindex :: "expdesc parse \<Rightarrow> expdesc parse" where
  "yindex expr =
     bindP nextP (\<lambda>_. bindP expr (\<lambda>v. bindP (genP (luaK_exp2val v)) (\<lambda>v1. bindP (checknext 93) (\<lambda>_. retP v1))))"

record ConsControl =
  cc_v :: expdesc
  cc_t :: expdesc
  cc_nh :: int
  cc_na :: int
  cc_tostore :: int

definition recfield :: "expdesc parse \<Rightarrow> ConsControl \<Rightarrow> ConsControl parse" where
  "recfield expr cc =
     bindP (genP (getG fs_freereg)) (\<lambda>reg. bindP tokP (\<lambda>t.
     bindP (if t = TK_NAME then
              bindP (genP (luaY_checklimit (cc_nh cc) MAX_INT ''items in a constructor'')) (\<lambda>_. checkname)
            else yindex expr) (\<lambda>key.
     bindP (checknext 61) (\<lambda>_.
     bindP (genP (luaK_exp2RK key)) (\<lambda>(rkkey, _).
     bindP expr (\<lambda>val.
     bindP (genP (luaK_exp2RK val)) (\<lambda>(rkval, _).
     bindP (genP (luaK_codeABC OP_SETTABLE (e_info (cc_t cc)) rkkey rkval)) (\<lambda>_.
     bindP (genP (modG (\<lambda>fs. fs\<lparr>fs_freereg := reg\<rparr>))) (\<lambda>_.
     retP (cc\<lparr>cc_nh := cc_nh cc + 1\<rparr>))))))))))"

definition closelistfield :: "ConsControl \<Rightarrow> ConsControl gen" where
  "closelistfield cc =
     (if e_k (cc_v cc) = VVOID then retG cc
      else
        bindG (luaK_exp2nextreg (cc_v cc)) (\<lambda>v.
        let cc1 = cc\<lparr>cc_v := v\<lparr>e_k := VVOID\<rparr>\<rparr> in
        if cc_tostore cc = LFIELDS_PER_FLUSH then
          bindG (luaK_setlist (e_info (cc_t cc)) (cc_na cc) (cc_tostore cc)) (\<lambda>_. retG (cc1\<lparr>cc_tostore := 0\<rparr>))
        else retG cc1))"

definition luaK_setmultret :: "expdesc \<Rightarrow> unit gen" where
  "luaK_setmultret e = luaK_setreturns e LUA_MULTRET"

definition lastlistfield :: "ConsControl \<Rightarrow> ConsControl gen" where
  "lastlistfield cc =
     (if cc_tostore cc = 0 then retG cc
      else if hasmultret (e_k (cc_v cc)) then
        bindG (luaK_setmultret (cc_v cc)) (\<lambda>_.
        bindG (luaK_setlist (e_info (cc_t cc)) (cc_na cc) LUA_MULTRET) (\<lambda>_. retG (cc\<lparr>cc_na := cc_na cc - 1\<rparr>)))
      else
        bindG (if e_k (cc_v cc) \<noteq> VVOID then luaK_exp2nextreg (cc_v cc) else retG (cc_v cc)) (\<lambda>v.
        bindG (luaK_setlist (e_info (cc_t cc)) (cc_na cc) (cc_tostore cc)) (\<lambda>_. retG (cc\<lparr>cc_v := v\<rparr>))))"

definition listfield :: "expdesc parse \<Rightarrow> ConsControl \<Rightarrow> ConsControl parse" where
  "listfield expr cc =
     bindP expr (\<lambda>v. bindP (genP (luaY_checklimit (cc_na cc) MAX_INT ''items in a constructor'')) (\<lambda>_.
     retP (cc\<lparr>cc_v := v, cc_na := cc_na cc + 1, cc_tostore := cc_tostore cc + 1\<rparr>)))"

text \<open>One item: the \<^verbatim>\<open>switch\<close> of \<^verbatim>\<open>constructor\<close>.\<close>

definition constructor_item :: "expdesc parse \<Rightarrow> ConsControl \<Rightarrow> ConsControl parse" where
  "constructor_item expr cc =
     bindP tokP (\<lambda>t.
     if t = TK_NAME then
       bindP (lexP luaX_lookahead) (\<lambda>_. bindP (getP (\<lambda>s. tok_token (ls_lookahead (ps_ls s)))) (\<lambda>ahead.
       if ahead \<noteq> 61 then listfield expr cc else recfield expr cc))
     else if t = 91 then recfield expr cc
     else listfield expr cc)"

primrec constructor_loop :: "expdesc parse \<Rightarrow> nat \<Rightarrow> ConsControl \<Rightarrow> ConsControl parse" where
  "constructor_loop expr 0 cc = (\<lambda>s. None)"
| "constructor_loop expr (Suc n) cc =
     bindP tokP (\<lambda>t.
     if t = 125 then retP cc
     else
       bindP (genP (closelistfield cc)) (\<lambda>cc1. bindP (constructor_item expr cc1) (\<lambda>cc2.
       bindP (bindP (testnext 44) (\<lambda>b. if b then retP True else testnext 59)) (\<lambda>more.
       if more then constructor_loop expr n cc2 else retP cc2))))"

definition constructor :: "expdesc parse \<Rightarrow> nat \<Rightarrow> expdesc parse" where
  "constructor expr n =
     bindP lineP (\<lambda>line.
     bindP (genP (luaK_codeABC OP_NEWTABLE 0 0 0)) (\<lambda>pc.
     bindP (genP (luaK_exp2nextreg (init_exp VRELOCABLE pc))) (\<lambda>t.
     bindP (checknext 123) (\<lambda>_.
     bindP (constructor_loop expr n
              \<lparr>cc_v = init_exp VVOID 0, cc_t = t, cc_nh = 0, cc_na = 0, cc_tostore = 0\<rparr>) (\<lambda>cc.
     bindP (check_match 125 123 line) (\<lambda>_.
     bindP (genP (lastlistfield cc)) (\<lambda>cc1.
     bindP (genP (change_code pc (\<lambda>i. SETARG_B i (luaO_int2fb (word_of_int (cc_na cc1)))))) (\<lambda>_.
     bindP (genP (change_code pc (\<lambda>i. SETARG_C i (luaO_int2fb (word_of_int (cc_nh cc1)))))) (\<lambda>_.
     retP t)))))))))"

definition set_vararg :: "int \<Rightarrow> unit gen" where
  "set_vararg v = modG (\<lambda>fs. fs\<lparr>f_is_vararg := v\<rparr>)"

primrec parlist_loop :: "nat \<Rightarrow> int \<Rightarrow> int parse" where
  "parlist_loop 0 nparams = (\<lambda>s. None)"
| "parlist_loop (Suc n) nparams =
     bindP (bindP tokP (\<lambda>t.
       if t = TK_NAME then
         bindP str_checkname (\<lambda>name. bindP (genP (new_localvar name nparams)) (\<lambda>_. retP (nparams + 1)))
       else if t = TK_DOTS then
         bindP nextP (\<lambda>_. bindP (new_localvarliteral ''arg'' nparams) (\<lambda>_.
         bindP (genP (set_vararg ((VARARG_HASARG OR VARARG_NEEDSARG) OR VARARG_ISVARARG))) (\<lambda>_. retP (nparams + 1))))
       else syntaxP (''<name> or '' @ [CHR 0x27] @ ''...'' @ [CHR 0x27] @ '' expected''))) (\<lambda>nparams1.
     bindP (genP (getG f_is_vararg)) (\<lambda>va.
     bindP (if va = 0 then testnext 44 else retP False) (\<lambda>more.
     if more then parlist_loop n nparams1 else retP nparams1)))"

definition parlist :: "nat \<Rightarrow> unit parse" where
  "parlist n =
     bindP (genP (set_vararg 0)) (\<lambda>_. bindP tokP (\<lambda>t.
     bindP (if t \<noteq> 41 then parlist_loop n 0 else retP 0) (\<lambda>nparams.
     bindP (genP (adjustlocalvars nparams)) (\<lambda>_.
     bindP (genP (modG (\<lambda>fs. fs\<lparr>f_numparams := (fs_nactvar fs - (f_is_vararg fs AND VARARG_HASARG)) mod 256\<rparr>))) (\<lambda>_.
     genP (bindG (getG fs_nactvar) luaK_reserveregs))))))"

definition body :: "unit parse \<Rightarrow> nat \<Rightarrow> bool \<Rightarrow> int \<Rightarrow> expdesc parse" where
  "body chunk n needself line =
     bindP open_func (\<lambda>_.
     bindP (genP (modG (\<lambda>fs. fs\<lparr>f_linedefined := line\<rparr>))) (\<lambda>_.
     bindP (checknext 40) (\<lambda>_.
     bindP (if needself then bindP (new_localvarliteral ''self'' 0) (\<lambda>_. genP (adjustlocalvars 1)) else retP ()) (\<lambda>_.
     bindP (parlist n) (\<lambda>_.
     bindP (checknext 41) (\<lambda>_.
     bindP chunk (\<lambda>_.
     bindP lineP (\<lambda>lastline.
     bindP (genP (modG (\<lambda>fs. fs\<lparr>f_lastlinedefined := lastline\<rparr>))) (\<lambda>_.
     bindP (check_match TK_END TK_FUNCTION line) (\<lambda>_.
     bindP close_func (\<lambda>new_fs.
     genP (pushclosure new_fs))))))))))))"

primrec explist1_loop :: "expdesc parse \<Rightarrow> nat \<Rightarrow> expdesc \<Rightarrow> int \<Rightarrow> (int \<times> expdesc) parse" where
  "explist1_loop expr 0 v k = (\<lambda>s. None)"
| "explist1_loop expr (Suc n) v k =
     bindP (testnext 44) (\<lambda>b.
     if b then
       bindP (genP (luaK_exp2nextreg v)) (\<lambda>_. bindP expr (\<lambda>v1. explist1_loop expr n v1 (k + 1)))
     else retP (k, v))"

definition explist1 :: "expdesc parse \<Rightarrow> nat \<Rightarrow> (int \<times> expdesc) parse" where
  "explist1 expr n = bindP expr (\<lambda>v. explist1_loop expr n v 1)"

text \<open>The arguments: the \<^verbatim>\<open>switch\<close> of \<^verbatim>\<open>funcargs\<close>.\<close>

definition callargs :: "expdesc parse \<Rightarrow> nat \<Rightarrow> int \<Rightarrow> expdesc parse" where
  "callargs expr n line =
     bindP tokP (\<lambda>t.
     if t = 40 then
       bindP (getP (\<lambda>s. ls_lastline (ps_ls s))) (\<lambda>lastline.
       if line \<noteq> lastline then syntaxP ''ambiguous syntax (function call x new statement)''
       else
         bindP nextP (\<lambda>_. bindP tokP (\<lambda>t1.
         bindP (if t1 = 41 then retP (init_exp VVOID 0)
                else bindP (explist1 expr n) (\<lambda>(_, e). bindP (genP (luaK_setmultret e)) (\<lambda>_. retP e))) (\<lambda>args.
         bindP (check_match 41 40 line) (\<lambda>_. retP args)))))
     else if t = 123 then constructor expr n
     else if t = TK_STRING then
       bindP tokstrP (\<lambda>ts. bindP (codestring ts) (\<lambda>args. bindP nextP (\<lambda>_. retP args)))
     else syntaxP ''function arguments expected'')"

definition funcargs :: "expdesc parse \<Rightarrow> nat \<Rightarrow> expdesc \<Rightarrow> expdesc parse" where
  "funcargs expr n f =
     bindP lineP (\<lambda>line.
     bindP (callargs expr n line) (\<lambda>args.
     let base = e_info f in
     bindP (if hasmultret (e_k args) then retP LUA_MULTRET
            else
              bindP (if e_k args \<noteq> VVOID then bindP (genP (luaK_exp2nextreg args)) (\<lambda>_. retP ()) else retP ()) (\<lambda>_.
              bindP (genP (getG fs_freereg)) (\<lambda>r. retP (r - (base + 1))))) (\<lambda>nparams.
     bindP (genP (luaK_codeABC OP_CALL base (nparams + 1) 2)) (\<lambda>pc.
     bindP (genP (luaK_fixline line)) (\<lambda>_.
     bindP (genP (modG (\<lambda>fs. fs\<lparr>fs_freereg := base + 1\<rparr>))) (\<lambda>_.
     retP (init_exp VCALL pc)))))))"

section \<open>Expressions\<close>

definition prefixexp :: "expdesc parse \<Rightarrow> expdesc parse" where
  "prefixexp expr =
     bindP tokP (\<lambda>t.
     if t = 40 then
       bindP lineP (\<lambda>line. bindP nextP (\<lambda>_. bindP expr (\<lambda>v. bindP (check_match 41 40 line) (\<lambda>_.
       genP (luaK_dischargevars v)))))
     else if t = TK_NAME then singlevar
     else syntaxP ''unexpected symbol'')"

primrec primaryexp_loop :: "expdesc parse \<Rightarrow> nat \<Rightarrow> expdesc \<Rightarrow> expdesc parse" where
  "primaryexp_loop expr 0 v = (\<lambda>s. None)"
| "primaryexp_loop expr (Suc n) v =
     bindP tokP (\<lambda>t.
     if t = 46 then bindP (field v) (primaryexp_loop expr n)
     else if t = 91 then
       bindP (genP (luaK_exp2anyreg v)) (\<lambda>v1. bindP (yindex expr) (\<lambda>key.
       bindP (genP (luaK_indexed v1 key)) (primaryexp_loop expr n)))
     else if t = 58 then
       bindP nextP (\<lambda>_. bindP checkname (\<lambda>key. bindP (genP (luaK_self v key)) (\<lambda>v1.
       bindP (funcargs expr n v1) (primaryexp_loop expr n))))
     else if t = 40 \<or> t = TK_STRING \<or> t = 123 then
       bindP (genP (luaK_exp2nextreg v)) (\<lambda>v1. bindP (funcargs expr n v1) (primaryexp_loop expr n))
     else retP v)"

definition primaryexp :: "expdesc parse \<Rightarrow> nat \<Rightarrow> expdesc parse" where
  "primaryexp expr n = bindP (prefixexp expr) (primaryexp_loop expr n)"

definition simpleexp :: "expdesc parse \<Rightarrow> unit parse \<Rightarrow> nat \<Rightarrow> expdesc parse" where
  "simpleexp expr chunk n =
     bindP tokP (\<lambda>t.
     let thennext = (\<lambda>e. bindP nextP (\<lambda>_. retP e)) in
     if t = TK_NUMBER then
       bindP (\<lambda>s. case tok_seminfo (ls_t (ps_ls s)) of SemNum r \<Rightarrow> retP r s | _ \<Rightarrow> Some (Inl ErrFault)) (\<lambda>r.
       thennext ((init_exp VKNUM 0)\<lparr>e_nval := r\<rparr>))
     else if t = TK_STRING then bindP tokstrP (\<lambda>ts. bindP (codestring ts) thennext)
     else if t = TK_NIL then thennext (init_exp VNIL 0)
     else if t = TK_TRUE then thennext (init_exp VTRUE 0)
     else if t = TK_FALSE then thennext (init_exp VFALSE 0)
     else if t = TK_DOTS then
       bindP (genP (getG f_is_vararg)) (\<lambda>va.
       bindP (check_condition (va \<noteq> 0) (''cannot use '' @ [CHR 0x27] @ ''...'' @ [CHR 0x27] @ '' outside a vararg function'')) (\<lambda>_.
       bindP (genP (set_vararg (va AND NOT VARARG_NEEDSARG))) (\<lambda>_.
       bindP (genP (luaK_codeABC OP_VARARG 0 1 0)) (\<lambda>pc. thennext (init_exp VVARARG pc)))))
     else if t = 123 then constructor expr n
     else if t = TK_FUNCTION then bindP nextP (\<lambda>_. bindP lineP (\<lambda>line. body chunk n False line))
     else primaryexp expr n)"

definition getunopr :: "int \<Rightarrow> UnOpr" where
  "getunopr opr =
     (if opr = TK_NOT then OPR_NOT
      else if opr = 45 then OPR_MINUS
      else if opr = 35 then OPR_LEN
      else OPR_NOUNOPR)"

definition getbinopr :: "int \<Rightarrow> BinOpr" where
  "getbinopr opr =
     (if opr = 43 then OPR_ADD
      else if opr = 45 then OPR_SUB
      else if opr = 42 then OPR_MUL
      else if opr = 47 then OPR_DIV
      else if opr = 37 then OPR_MOD
      else if opr = 94 then OPR_POW
      else if opr = TK_CONCAT then OPR_CONCAT
      else if opr = TK_NE then OPR_NE
      else if opr = TK_EQ then OPR_EQ
      else if opr = 60 then OPR_LT
      else if opr = TK_LE then OPR_LE
      else if opr = 62 then OPR_GT
      else if opr = TK_GE then OPR_GE
      else if opr = TK_AND then OPR_AND
      else if opr = TK_OR then OPR_OR
      else OPR_NOBINOPR)"

text \<open>The left and the right priority; \<^verbatim>\<open>OPR_NOBINOPR\<close> has none and is never looked up.\<close>

fun priority :: "BinOpr \<Rightarrow> nat \<times> nat" where
  "priority OPR_ADD = (6, 6)" | "priority OPR_SUB = (6, 6)" | "priority OPR_MUL = (7, 7)"
| "priority OPR_DIV = (7, 7)" | "priority OPR_MOD = (7, 7)"
| "priority OPR_POW = (10, 9)" | "priority OPR_CONCAT = (5, 4)"
| "priority OPR_NE = (3, 3)" | "priority OPR_EQ = (3, 3)"
| "priority OPR_LT = (3, 3)" | "priority OPR_LE = (3, 3)" | "priority OPR_GT = (3, 3)" | "priority OPR_GE = (3, 3)"
| "priority OPR_AND = (2, 2)" | "priority OPR_OR = (1, 1)" | "priority OPR_NOBINOPR = (0, 0)"

definition UNARY_PRIORITY :: nat where "UNARY_PRIORITY = 8"

text \<open>\<open>sub\<close> is \<^verbatim>\<open>subexpr\<close> itself, which returns the first operator it has not treated.\<close>

primrec subexpr_loop :: "(lua_Number \<Rightarrow> lua_Number \<Rightarrow> lua_Number) \<Rightarrow> (nat \<Rightarrow> (BinOpr \<times> expdesc) parse) \<Rightarrow> nat \<Rightarrow> nat \<Rightarrow> BinOpr \<Rightarrow> expdesc
    \<Rightarrow> (BinOpr \<times> expdesc) parse" where
  "subexpr_loop numpow sub 0 limit opr v = (\<lambda>s. None)"
| "subexpr_loop numpow sub (Suc n) limit opr v =
     (if opr \<noteq> OPR_NOBINOPR \<and> fst (priority opr) > limit then
        bindP nextP (\<lambda>_. bindP (genP (luaK_infix opr v)) (\<lambda>v1.
        bindP (sub (snd (priority opr))) (\<lambda>(nextop, v2).
        bindP (genP (luaK_posfix numpow opr v1 v2)) (\<lambda>v3.
        subexpr_loop numpow sub n limit nextop v3))))
      else retP (opr, v))"

definition subexpr_rule :: "(lua_Number \<Rightarrow> lua_Number \<Rightarrow> lua_Number) \<Rightarrow> (nat \<Rightarrow> (BinOpr \<times> expdesc) parse) \<Rightarrow> unit parse \<Rightarrow> nat \<Rightarrow> nat
    \<Rightarrow> (BinOpr \<times> expdesc) parse" where
  "subexpr_rule numpow sub chunk n limit =
     bindP enterlevel (\<lambda>_. bindP tokP (\<lambda>t.
     let uop = getunopr t in
     bindP (if uop \<noteq> OPR_NOUNOPR then
              bindP nextP (\<lambda>_. bindP (sub UNARY_PRIORITY) (\<lambda>(_, v). genP (luaK_prefix numpow uop v)))
            else simpleexp (bindP (sub 0) (\<lambda>(_, v). retP v)) chunk n) (\<lambda>v.
     bindP tokP (\<lambda>t1.
     bindP (subexpr_loop numpow sub n limit (getbinopr t1) v) (\<lambda>r.
     bindP leavelevel (\<lambda>_. retP r))))))"

section \<open>Statements\<close>

definition block_follow :: "int \<Rightarrow> bool" where
  "block_follow token \<longleftrightarrow> token = TK_ELSE \<or> token = TK_ELSEIF \<or> token = TK_END \<or> token = TK_UNTIL \<or> token = TK_EOS"

definition block :: "unit parse \<Rightarrow> unit parse" where
  "block chunk = bindP (genP (enterblock False)) (\<lambda>_. bindP chunk (\<lambda>_. genP leaveblock))"

text \<open>The chain of \<^verbatim>\<open>LHS_assign\<close> is a list; the results are the list with the safe copies and whether
  there is a conflict.\<close>

fun conflict_chain :: "expdesc list \<Rightarrow> expdesc \<Rightarrow> int \<Rightarrow> expdesc list \<times> bool" where
  "conflict_chain [] v extra = ([], False)"
| "conflict_chain (lh # lhs) v extra =
     (let (rest, c) = conflict_chain lhs v extra in
      if e_k lh = VINDEXED then
        let c1 = (e_info lh = e_info v); lh1 = (if c1 then lh\<lparr>e_info := extra\<rparr> else lh);
            c2 = (e_aux lh1 = e_info v); lh2 = (if c2 then lh1\<lparr>e_aux := extra\<rparr> else lh1)
        in (lh2 # rest, c1 \<or> c2 \<or> c)
      else (lh # rest, c))"

definition check_conflict :: "expdesc list \<Rightarrow> expdesc \<Rightarrow> expdesc list gen" where
  "check_conflict lh v =
     bindG (getG fs_freereg) (\<lambda>extra.
     let (lh1, conflict) = conflict_chain lh v extra in
     if conflict then
       bindG (luaK_codeABC OP_MOVE extra (e_info v) 0) (\<lambda>_. bindG (luaK_reserveregs 1) (\<lambda>_. retG lh1))
     else retG lh1)"

text \<open>\<^verbatim>\<open>VLOCAL <= k && k <= VINDEXED\<close>\<close>

definition assignable :: "expkind \<Rightarrow> bool" where
  "assignable k \<longleftrightarrow> k = VLOCAL \<or> k = VUPVAL \<or> k = VGLOBAL \<or> k = VINDEXED"

text \<open>\<open>lh\<close> is the variable read last and \<open>prev\<close> the ones before; the result is the chain as the calls
  have changed it.\<close>

primrec assignment :: "expdesc parse \<Rightarrow> nat \<Rightarrow> expdesc list \<Rightarrow> int \<Rightarrow> expdesc list parse" where
  "assignment expr 0 lhs nvars = (\<lambda>s. None)"
| "assignment expr (Suc n) lhs nvars =
     (let storedefault = (\<lambda>chain.
            bindP (genP (bindG (getG fs_freereg) (\<lambda>r. luaK_storevar (hd chain) (init_exp VNONRELOC (r - 1))))) (\<lambda>_.
            retP chain)) in
      bindP (check_condition (assignable (e_k (hd lhs))) ''syntax error'') (\<lambda>_.
      bindP (testnext 44) (\<lambda>comma.
      if comma then
        bindP (primaryexp expr n) (\<lambda>nv.
        bindP (if e_k nv = VLOCAL then genP (check_conflict lhs nv) else retP lhs) (\<lambda>lhs1.
        bindP (getP ps_nCcalls) (\<lambda>nCcalls.
        bindP (genP (luaY_checklimit nvars (LUAI_MAXCCALLS - nCcalls) ''variables in assignment'')) (\<lambda>_.
        bindP (assignment expr n (nv # lhs1) (nvars + 1)) (\<lambda>chain.
        storedefault (tl chain))))))
      else
        bindP (checknext 61) (\<lambda>_.
        bindP (explist1 expr n) (\<lambda>(nexps, e).
        if nexps \<noteq> nvars then
          bindP (genP (adjust_assign nvars nexps e)) (\<lambda>_.
          bindP (if nexps > nvars then genP (modG (\<lambda>fs. fs\<lparr>fs_freereg := fs_freereg fs - (nexps - nvars)\<rparr>)) else retP ()) (\<lambda>_.
          storedefault lhs))
        else
          bindP (genP (luaK_setoneret e)) (\<lambda>e1. bindP (genP (luaK_storevar (hd lhs) e1)) (\<lambda>_. retP lhs)))))))"

definition cond :: "expdesc parse \<Rightarrow> int parse" where
  "cond expr =
     bindP expr (\<lambda>v.
     bindP (genP (luaK_goiftrue (if e_k v = VNIL then v\<lparr>e_k := VFALSE\<rparr> else v))) (\<lambda>v1. retP (e_f v1)))"

text \<open>The search for the loop: its place in the chain, and whether a block inside it has upvalues.\<close>

fun break_target :: "blockcnt list \<Rightarrow> nat \<Rightarrow> bool \<Rightarrow> (nat \<times> bool) option" where
  "break_target [] i upval = None"
| "break_target (bl # bls) i upval =
     (if bl_isbreakable bl then Some (i, upval) else break_target bls (Suc i) (upval \<or> bl_upval bl))"

definition breakstat :: "unit gen" where
  "breakstat =
     bindG (getG fs_bl) (\<lambda>bls.
     case break_target bls 0 False of
       None \<Rightarrow> syntaxG ''no loop to break''
     | Some (i, upval) \<Rightarrow>
         bindG (if upval then bindG (luaK_codeABC OP_CLOSE (bl_nactvar (bls ! i)) 0 0) (\<lambda>_. retG ()) else retG ()) (\<lambda>_.
         bindG luaK_jump (\<lambda>j. bindG (luaK_concat (bl_breaklist (bls ! i)) j) (\<lambda>l.
         modG (\<lambda>fs. fs\<lparr>fs_bl := (fs_bl fs)[i := (fs_bl fs ! i)\<lparr>bl_breaklist := l\<rparr>]\<rparr>)))))"

definition whilestat :: "expdesc parse \<Rightarrow> unit parse \<Rightarrow> int \<Rightarrow> unit parse" where
  "whilestat expr chunk line =
     bindP nextP (\<lambda>_.
     bindP (genP luaK_getlabel) (\<lambda>whileinit.
     bindP (cond expr) (\<lambda>condexit.
     bindP (genP (enterblock True)) (\<lambda>_.
     bindP (checknext TK_DO) (\<lambda>_.
     bindP (block chunk) (\<lambda>_.
     bindP (genP (bindG luaK_jump (\<lambda>j. luaK_patchlist j whileinit))) (\<lambda>_.
     bindP (check_match TK_END TK_WHILE line) (\<lambda>_.
     bindP (genP leaveblock) (\<lambda>_.
     genP (luaK_patchtohere condexit))))))))))"

definition repeatstat :: "expdesc parse \<Rightarrow> unit parse \<Rightarrow> int \<Rightarrow> unit parse" where
  "repeatstat expr chunk line =
     bindP (genP luaK_getlabel) (\<lambda>repeat_init.
     bindP (genP (enterblock True)) (\<lambda>_.
     bindP (genP (enterblock False)) (\<lambda>_.
     bindP nextP (\<lambda>_.
     bindP chunk (\<lambda>_.
     bindP (check_match TK_UNTIL TK_REPEAT line) (\<lambda>_.
     bindP (cond expr) (\<lambda>condexit.
     bindP (genP (getG (\<lambda>fs. case fs_bl fs of [] \<Rightarrow> False | bl2 # _ \<Rightarrow> bl_upval bl2))) (\<lambda>upval.
     bindP (if \<not> upval then
              bindP (genP leaveblock) (\<lambda>_. genP (luaK_patchlist condexit repeat_init))
            else
              bindP (genP breakstat) (\<lambda>_.
              bindP (genP (luaK_patchtohere condexit)) (\<lambda>_.
              bindP (genP leaveblock) (\<lambda>_.
              genP (bindG luaK_jump (\<lambda>j. luaK_patchlist j repeat_init)))))) (\<lambda>_.
     genP leaveblock)))))))))"

definition exp1 :: "expdesc parse \<Rightarrow> expkind parse" where
  "exp1 expr = bindP expr (\<lambda>e. bindP (genP (luaK_exp2nextreg e)) (\<lambda>_. retP (e_k e)))"

definition forbody :: "unit parse \<Rightarrow> int \<Rightarrow> int \<Rightarrow> int \<Rightarrow> bool \<Rightarrow> unit parse" where
  "forbody chunk base line nvars isnum =
     bindP (genP (adjustlocalvars 3)) (\<lambda>_.
     bindP (checknext TK_DO) (\<lambda>_.
     bindP (genP (if isnum then luaK_codeAsBx OP_FORPREP base NO_JUMP else luaK_jump)) (\<lambda>prep.
     bindP (genP (enterblock False)) (\<lambda>_.
     bindP (genP (adjustlocalvars nvars)) (\<lambda>_.
     bindP (genP (luaK_reserveregs nvars)) (\<lambda>_.
     bindP (block chunk) (\<lambda>_.
     bindP (genP leaveblock) (\<lambda>_.
     bindP (genP (luaK_patchtohere prep)) (\<lambda>_.
     bindP (genP (if isnum then luaK_codeAsBx OP_FORLOOP base NO_JUMP else luaK_codeABC OP_TFORLOOP base 0 nvars)) (\<lambda>endfor.
     bindP (genP (luaK_fixline line)) (\<lambda>_.
     genP (bindG (if isnum then retG endfor else luaK_jump) (\<lambda>j. luaK_patchlist j (prep + 1))))))))))))))"

definition fornum :: "expdesc parse \<Rightarrow> unit parse \<Rightarrow> string \<Rightarrow> int \<Rightarrow> unit parse" where
  "fornum expr chunk vname line =
     bindP (genP (getG fs_freereg)) (\<lambda>base.
     bindP (new_localvarliteral ''(for index)'' 0) (\<lambda>_.
     bindP (new_localvarliteral ''(for limit)'' 1) (\<lambda>_.
     bindP (new_localvarliteral ''(for step)'' 2) (\<lambda>_.
     bindP (genP (new_localvar vname 3)) (\<lambda>_.
     bindP (checknext 61) (\<lambda>_.
     bindP (exp1 expr) (\<lambda>_.
     bindP (checknext 44) (\<lambda>_.
     bindP (exp1 expr) (\<lambda>_.
     bindP (testnext 44) (\<lambda>step.
     bindP (if step then bindP (exp1 expr) (\<lambda>_. retP ())
            else
              genP (bindG (getG fs_freereg) (\<lambda>r. bindG (luaK_numberK (cast_num 1)) (\<lambda>k.
                bindG (luaK_codeABx OP_LOADK r k) (\<lambda>_. luaK_reserveregs 1))))) (\<lambda>_.
     forbody chunk base line 1 True)))))))))))"

primrec forlist_names :: "nat \<Rightarrow> int \<Rightarrow> int parse" where
  "forlist_names 0 nvars = (\<lambda>s. None)"
| "forlist_names (Suc n) nvars =
     bindP (testnext 44) (\<lambda>b.
     if b then
       bindP str_checkname (\<lambda>name. bindP (genP (new_localvar name nvars)) (\<lambda>_. forlist_names n (nvars + 1)))
     else retP nvars)"

definition forlist :: "expdesc parse \<Rightarrow> unit parse \<Rightarrow> nat \<Rightarrow> string \<Rightarrow> unit parse" where
  "forlist expr chunk n indexname =
     bindP (genP (getG fs_freereg)) (\<lambda>base.
     bindP (new_localvarliteral ''(for generator)'' 0) (\<lambda>_.
     bindP (new_localvarliteral ''(for state)'' 1) (\<lambda>_.
     bindP (new_localvarliteral ''(for control)'' 2) (\<lambda>_.
     bindP (genP (new_localvar indexname 3)) (\<lambda>_.
     bindP (forlist_names n 4) (\<lambda>nvars.
     bindP (checknext TK_IN) (\<lambda>_.
     bindP lineP (\<lambda>line.
     bindP (explist1 expr n) (\<lambda>(nexps, e).
     bindP (genP (adjust_assign 3 nexps e)) (\<lambda>_.
     bindP (genP (luaK_checkstack 3)) (\<lambda>_.
     forbody chunk base line (nvars - 3) False)))))))))))"

definition forstat :: "expdesc parse \<Rightarrow> unit parse \<Rightarrow> nat \<Rightarrow> int \<Rightarrow> unit parse" where
  "forstat expr chunk n line =
     bindP (genP (enterblock True)) (\<lambda>_.
     bindP nextP (\<lambda>_.
     bindP str_checkname (\<lambda>vname.
     bindP tokP (\<lambda>t.
     bindP (if t = 61 then fornum expr chunk vname line
            else if t = 44 \<or> t = TK_IN then forlist expr chunk n vname
            else syntaxP ([CHR 0x27] @ ''='' @ [CHR 0x27] @ '' or '' @ [CHR 0x27] @ ''in'' @ [CHR 0x27] @ '' expected'')) (\<lambda>_.
     bindP (check_match TK_END TK_FOR line) (\<lambda>_.
     genP leaveblock))))))"

definition test_then_block :: "expdesc parse \<Rightarrow> unit parse \<Rightarrow> int parse" where
  "test_then_block expr chunk =
     bindP nextP (\<lambda>_. bindP (cond expr) (\<lambda>condexit. bindP (checknext TK_THEN) (\<lambda>_.
     bindP (block chunk) (\<lambda>_. retP condexit))))"

primrec ifstat_loop :: "expdesc parse \<Rightarrow> unit parse \<Rightarrow> nat \<Rightarrow> int \<Rightarrow> int \<Rightarrow> (int \<times> int) parse" where
  "ifstat_loop expr chunk 0 flist escapelist = (\<lambda>s. None)"
| "ifstat_loop expr chunk (Suc n) flist escapelist =
     bindP tokP (\<lambda>t.
     if t = TK_ELSEIF then
       bindP (genP (bindG luaK_jump (luaK_concat escapelist))) (\<lambda>escapelist1.
       bindP (genP (luaK_patchtohere flist)) (\<lambda>_.
       bindP (test_then_block expr chunk) (\<lambda>flist1. ifstat_loop expr chunk n flist1 escapelist1)))
     else retP (flist, escapelist))"

definition ifstat :: "expdesc parse \<Rightarrow> unit parse \<Rightarrow> nat \<Rightarrow> int \<Rightarrow> unit parse" where
  "ifstat expr chunk n line =
     bindP (test_then_block expr chunk) (\<lambda>flist0.
     bindP (ifstat_loop expr chunk n flist0 NO_JUMP) (\<lambda>(flist, escapelist).
     bindP tokP (\<lambda>t.
     bindP (if t = TK_ELSE then
              bindP (genP (bindG luaK_jump (luaK_concat escapelist))) (\<lambda>escapelist1.
              bindP (genP (luaK_patchtohere flist)) (\<lambda>_.
              bindP nextP (\<lambda>_. bindP (block chunk) (\<lambda>_. retP escapelist1))))
            else genP (luaK_concat escapelist flist)) (\<lambda>escapelist2.
     bindP (genP (luaK_patchtohere escapelist2)) (\<lambda>_.
     check_match TK_END TK_IF line)))))"

definition localfunc :: "unit parse \<Rightarrow> nat \<Rightarrow> unit parse" where
  "localfunc chunk n =
     bindP str_checkname (\<lambda>name.
     bindP (genP (new_localvar name 0)) (\<lambda>_.
     bindP (genP (getG (\<lambda>fs. init_exp VLOCAL (fs_freereg fs)))) (\<lambda>v.
     bindP (genP (luaK_reserveregs 1)) (\<lambda>_.
     bindP (genP (adjustlocalvars 1)) (\<lambda>_.
     bindP lineP (\<lambda>line.
     bindP (body chunk n False line) (\<lambda>b.
     bindP (genP (luaK_storevar v b)) (\<lambda>_.
     genP (bindG (getG (\<lambda>fs. (fs_nactvar fs, fs_pc fs))) (\<lambda>(nactvar, pc).
       change_locvar (nactvar - 1) (\<lambda>lv. lv\<lparr>startpc := pc\<rparr>)))))))))))"

primrec localstat_names :: "nat \<Rightarrow> int \<Rightarrow> int parse" where
  "localstat_names 0 nvars = (\<lambda>s. None)"
| "localstat_names (Suc n) nvars =
     bindP str_checkname (\<lambda>name. bindP (genP (new_localvar name nvars)) (\<lambda>_.
     bindP (testnext 44) (\<lambda>b. if b then localstat_names n (nvars + 1) else retP (nvars + 1))))"

definition localstat :: "expdesc parse \<Rightarrow> nat \<Rightarrow> unit parse" where
  "localstat expr n =
     bindP (localstat_names n 0) (\<lambda>nvars.
     bindP (testnext 61) (\<lambda>b.
     bindP (if b then explist1 expr n else retP (0, init_exp VVOID 0)) (\<lambda>(nexps, e).
     bindP (genP (adjust_assign nvars nexps e)) (\<lambda>_.
     genP (adjustlocalvars nvars)))))"

primrec funcname_loop :: "nat \<Rightarrow> expdesc \<Rightarrow> expdesc parse" where
  "funcname_loop 0 v = (\<lambda>s. None)"
| "funcname_loop (Suc n) v = bindP tokP (\<lambda>t. if t = 46 then bindP (field v) (funcname_loop n) else retP v)"

definition funcname :: "nat \<Rightarrow> (bool \<times> expdesc) parse" where
  "funcname n =
     bindP singlevar (\<lambda>v. bindP (funcname_loop n v) (\<lambda>v1. bindP tokP (\<lambda>t.
     if t = 58 then bindP (field v1) (\<lambda>v2. retP (True, v2)) else retP (False, v1))))"

definition funcstat :: "unit parse \<Rightarrow> nat \<Rightarrow> int \<Rightarrow> unit parse" where
  "funcstat chunk n line =
     bindP nextP (\<lambda>_.
     bindP (funcname n) (\<lambda>(needself, v).
     bindP (body chunk n needself line) (\<lambda>b.
     bindP (genP (luaK_storevar v b)) (\<lambda>_.
     genP (luaK_fixline line)))))"

definition exprstat :: "expdesc parse \<Rightarrow> nat \<Rightarrow> unit parse" where
  "exprstat expr n =
     bindP (primaryexp expr n) (\<lambda>v.
     if e_k v = VCALL then genP (change_code (e_info v) (\<lambda>i. SETARG_C i 1))
     else bindP (assignment expr n [v] 1) (\<lambda>_. retP ()))"

definition retstat :: "expdesc parse \<Rightarrow> nat \<Rightarrow> unit parse" where
  "retstat expr n =
     bindP nextP (\<lambda>_. bindP tokP (\<lambda>t.
     bindP (if block_follow t \<or> t = 59 then retP (0, 0)
            else
              bindP (explist1 expr n) (\<lambda>(nret, e).
              if hasmultret (e_k e) then
                bindP (genP (luaK_setmultret e)) (\<lambda>_.
                bindP (if e_k e = VCALL \<and> nret = 1
                       then genP (change_code (e_info e) (\<lambda>i. SET_OPCODE i (opnum OP_TAILCALL))) else retP ()) (\<lambda>_.
                bindP (genP (getG fs_nactvar)) (\<lambda>first. retP (first, LUA_MULTRET))))
              else if nret = 1 then
                bindP (genP (luaK_exp2anyreg e)) (\<lambda>e1. retP (e_info e1, nret))
              else
                bindP (genP (luaK_exp2nextreg e)) (\<lambda>_. bindP (genP (getG fs_nactvar)) (\<lambda>first. retP (first, nret))))) (\<lambda>(first, nret).
     genP (luaK_ret first nret))))"

text \<open>The result: whether it must be the last statement.\<close>

definition statement :: "expdesc parse \<Rightarrow> unit parse \<Rightarrow> nat \<Rightarrow> bool parse" where
  "statement expr chunk n =
     bindP lineP (\<lambda>line. bindP tokP (\<lambda>t.
     let notlast = (\<lambda>m. bindP m (\<lambda>_. retP False)) in
     if t = TK_IF then notlast (ifstat expr chunk n line)
     else if t = TK_WHILE then notlast (whilestat expr chunk line)
     else if t = TK_DO then
       notlast (bindP nextP (\<lambda>_. bindP (block chunk) (\<lambda>_. check_match TK_END TK_DO line)))
     else if t = TK_FOR then notlast (forstat expr chunk n line)
     else if t = TK_REPEAT then notlast (repeatstat expr chunk line)
     else if t = TK_FUNCTION then notlast (funcstat chunk n line)
     else if t = TK_LOCAL then
       notlast (bindP nextP (\<lambda>_. bindP (testnext TK_FUNCTION) (\<lambda>b.
         if b then localfunc chunk n else localstat expr n)))
     else if t = TK_RETURN then bindP (retstat expr n) (\<lambda>_. retP True)
     else if t = TK_BREAK then bindP nextP (\<lambda>_. bindP (genP breakstat) (\<lambda>_. retP True))
     else notlast (exprstat expr n)))"

primrec chunk_loop :: "expdesc parse \<Rightarrow> unit parse \<Rightarrow> nat \<Rightarrow> bool \<Rightarrow> unit parse" where
  "chunk_loop expr chunk 0 islast = (\<lambda>s. None)"
| "chunk_loop expr chunk (Suc n) islast =
     bindP tokP (\<lambda>t.
     if \<not> islast \<and> \<not> block_follow t then
       bindP (statement expr chunk n) (\<lambda>islast1.
       bindP (testnext 59) (\<lambda>_.
       bindP (genP (modG (\<lambda>fs. fs\<lparr>fs_freereg := fs_nactvar fs\<rparr>))) (\<lambda>_.
       chunk_loop expr chunk n islast1)))
     else retP ())"

definition chunk_rule :: "expdesc parse \<Rightarrow> unit parse \<Rightarrow> nat \<Rightarrow> unit parse" where
  "chunk_rule expr chunk n =
     bindP enterlevel (\<lambda>_. bindP (chunk_loop expr chunk n False) (\<lambda>_. leavelevel))"

section \<open>The recursion\<close>

text \<open>The pair of \<^verbatim>\<open>subexpr\<close> and \<^verbatim>\<open>chunk\<close>.\<close>

primrec rules :: "(lua_Number \<Rightarrow> lua_Number \<Rightarrow> lua_Number) \<Rightarrow> nat \<Rightarrow> (nat \<Rightarrow> (BinOpr \<times> expdesc) parse) \<times> unit parse" where
  "rules numpow 0 = ((\<lambda>limit s. None), (\<lambda>s. None))"
| "rules numpow (Suc n) =
     (case rules numpow n of
        (sub, chunk) \<Rightarrow>
          (subexpr_rule numpow sub chunk n,
           chunk_rule (bindP (sub 0) (\<lambda>(_, v). retP v)) chunk (Suc n)))"

definition subexpr :: "(lua_Number \<Rightarrow> lua_Number \<Rightarrow> lua_Number) \<Rightarrow> nat \<Rightarrow> nat \<Rightarrow> (BinOpr \<times> expdesc) parse" where
  "subexpr numpow n = fst (rules numpow n)"

definition expr :: "(lua_Number \<Rightarrow> lua_Number \<Rightarrow> lua_Number) \<Rightarrow> nat \<Rightarrow> expdesc parse" where
  "expr numpow n = bindP (subexpr numpow n 0) (\<lambda>(_, v). retP v)"

definition chunk :: "(lua_Number \<Rightarrow> lua_Number \<Rightarrow> lua_Number) \<Rightarrow> nat \<Rightarrow> unit parse" where
  "chunk numpow n = snd (rules numpow n)"

text \<open>
  \<open>t\<close> is the arbitrary first token and \<open>nCcalls\<close> the depth of C calls at entry.
\<close>

definition luaY_parser :: "(lua_Number \<Rightarrow> lua_Number \<Rightarrow> lua_Number) \<Rightarrow> nat \<Rightarrow> byte \<Rightarrow> token \<Rightarrow> int \<Rightarrow> zio \<Rightarrow> string
    \<Rightarrow> (lua_error + proto \<times> parstate) option" where
  "luaY_parser numpow n locale t nCcalls z name =
     (case luaX_setinput locale t z name of
        Inl e \<Rightarrow> Some (Inl e)
      | Inr ls \<Rightarrow>
          bindP open_func (\<lambda>_.
          bindP (genP (set_vararg VARARG_ISVARARG)) (\<lambda>_.
          bindP nextP (\<lambda>_.
          bindP (chunk numpow n) (\<lambda>_.
          bindP (check TK_EOS) (\<lambda>_.
          bindP close_func (\<lambda>fs. retP (proto_of fs))))))) \<lparr>ps_ls = ls, ps_fs = [], ps_nCcalls = nCcalls, ps_hid = 0\<rparr>)"

end
