(* ===== verification/LuaExec.thy ===== *)
theory LuaExec
  imports LuaParser
begin

text \<open>
  Running functions: the upvalues of \<^verbatim>\<open>lfunc.c\<close>, the calls of \<^verbatim>\<open>ldo.c\<close> and the interpreter
  \<^verbatim>\<open>luaV_execute\<close> of \<^verbatim>\<open>lvm.c\<close>.

  A C function is a parameter: \<open>cfun\<close> maps its closure, the arguments and the store to an error or to its
  results.  \<open>numpow\<close> is the C library's \<^verbatim>\<open>pow\<close>.  Hooks, yields across calls and the collector
  (\<^verbatim>\<open>luaC_checkGC\<close>, barriers) are not here.  An access outside the stack, the code or the constants is
  \<open>ErrFault\<close>.  \<^verbatim>\<open>luaV_execute\<close> takes fuel, one unit per instruction; the calls an instruction
  makes from C (tag methods, \<^verbatim>\<open>luaD_call\<close>) run on what is left.
\<close>

type_synonym 'a vm = "store \<Rightarrow> lua_error + 'a \<times> store"

definition bindV :: "'a vm \<Rightarrow> ('a \<Rightarrow> 'b vm) \<Rightarrow> 'b vm" where
  "bindV m f S = bindE (m S) (\<lambda>(x, S1). f x S1)"

definition retV :: "'a \<Rightarrow> 'a vm" where
  "retV x S = Inr (x, S)"

definition failV :: "lua_error \<Rightarrow> 'a vm" where
  "failV e S = Inl e"

definition getV :: "(store \<Rightarrow> 'a) \<Rightarrow> 'a vm" where
  "getV f S = Inr (f S, S)"

definition modV :: "(store \<Rightarrow> store) \<Rightarrow> unit vm" where
  "modV f S = Inr ((), f S)"

definition liftV :: "lua_error + 'a \<Rightarrow> 'a vm" where
  "liftV r S = bindE r (\<lambda>x. Inr (x, S))"

section \<open>The stack\<close>

definition EXTRA_STACK :: nat where "EXTRA_STACK = 5"
definition LUA_MINSTACK :: nat where "LUA_MINSTACK = 20"
definition BASIC_CI_SIZE :: int where "BASIC_CI_SIZE = 8"
definition LUAI_MAXCALLS :: int where "LUAI_MAXCALLS = 20000"

definition getslot :: "nat \<Rightarrow> tvalue vm" where
  "getslot i S = (if i < length (s_stack S) then Inr (s_stack S ! i, S) else Inl ErrFault)"

definition setslot :: "nat \<Rightarrow> tvalue \<Rightarrow> unit vm" where
  "setslot i v S = (if i < length (s_stack S) then Inr ((), S\<lparr>s_stack := (s_stack S)[i := v]\<rparr>) else Inl ErrFault)"

definition settop :: "nat \<Rightarrow> unit vm" where
  "settop n = modV (\<lambda>S. S\<lparr>s_top := n\<rparr>)"

text \<open>\<^verbatim>\<open>correctstack\<close> is not needed: positions are indices.  New slots hold nil for the C garbage.\<close>

definition luaD_reallocstack :: "nat \<Rightarrow> store \<Rightarrow> store" where
  "luaD_reallocstack newsize S =
     (let realsize = newsize + 1 + EXTRA_STACK in
      S\<lparr>s_stack := take realsize (s_stack S) @ replicate (realsize - length (s_stack S)) TNil\<rparr>)"

definition luaD_growstack :: "nat \<Rightarrow> store \<Rightarrow> store" where
  "luaD_growstack n S =
     (if n \<le> length (s_stack S) then luaD_reallocstack (2 * length (s_stack S)) S
      else luaD_reallocstack (length (s_stack S) + n) S)"

text \<open>\<^verbatim>\<open>stack_last - top <= n\<close>, where \<^verbatim>\<open>stack_last\<close> is \<^verbatim>\<open>stacksize - EXTRA_STACK - 1\<close>\<close>

definition luaD_checkstack :: "nat \<Rightarrow> unit vm" where
  "luaD_checkstack n = modV (\<lambda>S.
     if int (length (s_stack S)) - int EXTRA_STACK - 1 - int (s_top S) \<le> int n then luaD_growstack n S else S)"

definition incr_top :: "unit vm" where
  "incr_top = bindV (luaD_checkstack 1) (\<lambda>_. modV (\<lambda>S. S\<lparr>s_top := s_top S + 1\<rparr>))"

text \<open>\<^verbatim>\<open>for (; from < to; from++) setnilvalue(from)\<close>\<close>

primrec setnils :: "nat \<Rightarrow> nat \<Rightarrow> unit vm" where
  "setnils from 0 = retV ()"
| "setnils from (Suc k) = bindV (setslot from TNil) (\<lambda>_. setnils (from + 1) k)"

section \<open>Upvalues\<close>

text \<open>The list of open upvalues with the one for a level, and that upvalue if there was one.\<close>

fun findupval_loop :: "(nat \<times> nat) list \<Rightarrow> nat \<Rightarrow> nat \<Rightarrow> nat option \<times> (nat \<times> nat) list" where
  "findupval_loop [] level new = (None, [(level, new)])"
| "findupval_loop ((v, p) # pp) level new =
     (if v \<ge> level then
        if v = level then (Some p, (v, p) # pp)
        else (case findupval_loop pp level new of (r, qq) \<Rightarrow> (r, (v, p) # qq))
      else (None, (level, new) # (v, p) # pp))"

definition luaF_findupval :: "nat \<Rightarrow> nat vm" where
  "luaF_findupval level S =
     (case findupval_loop (s_openupval S) level (s_next S) of
        (Some p, _) \<Rightarrow> Inr (p, S)
      | (None, pp) \<Rightarrow> Inr (s_next S, S\<lparr>s_openupval := pp, s_next := s_next S + 1\<rparr>))"

text \<open>The slot an open upvalue points to: \<^verbatim>\<open>uv->v != &uv->u.value\<close>.\<close>

definition open_level :: "(nat \<times> nat) list \<Rightarrow> nat \<Rightarrow> nat option" where
  "open_level pp u = map_of (map (\<lambda>(v, p). (p, v)) pp) u"

definition upval_get :: "nat \<Rightarrow> tvalue vm" where
  "upval_get u S = (case open_level (s_openupval S) u of Some l \<Rightarrow> getslot l S | None \<Rightarrow> Inr (s_upvals S u, S))"

definition upval_set :: "nat \<Rightarrow> tvalue \<Rightarrow> unit vm" where
  "upval_set u v S =
     (case open_level (s_openupval S) u of
        Some l \<Rightarrow> setslot l v S
      | None \<Rightarrow> Inr ((), S\<lparr>s_upvals := (s_upvals S)(u := v)\<rparr>))"

fun close_loop :: "(nat \<times> nat) list \<Rightarrow> nat \<Rightarrow> unit vm" where
  "close_loop [] level = modV (\<lambda>S. S\<lparr>s_openupval := []\<rparr>)"
| "close_loop ((v, p) # pp) level =
     (if v \<ge> level then
        bindV (getslot v) (\<lambda>x. bindV (modV (\<lambda>S. S\<lparr>s_upvals := (s_upvals S)(p := x)\<rparr>)) (\<lambda>_. close_loop pp level))
      else modV (\<lambda>S. S\<lparr>s_openupval := (v, p) # pp\<rparr>))"

definition luaF_close :: "nat \<Rightarrow> unit vm" where
  "luaF_close level = bindV (getV s_openupval) (\<lambda>pp. close_loop pp level)"

definition luaF_newLclosure :: "proto \<Rightarrow> nat \<Rightarrow> nat list \<Rightarrow> nat vm" where
  "luaF_newLclosure p e ups S =
     Inr (s_next S, S\<lparr>s_closures := (s_closures S)(s_next S \<mapsto> LClosure p e ups), s_next := s_next S + 1\<rparr>)"

definition newtable :: "table \<Rightarrow> nat vm" where
  "newtable t S = Inr (s_next S, set_table (s_next S) t (S\<lparr>s_next := s_next S + 1\<rparr>))"

section \<open>Calls\<close>

datatype pcr = PCRLUA | PCRC

definition cur_ci :: "callinfo vm" where
  "cur_ci S = (case s_ci S of [] \<Rightarrow> Inl ErrFault | ci # _ \<Rightarrow> Inr (ci, S))"

definition closure_value :: "tvalue \<Rightarrow> (nat \<times> closure) vm" where
  "closure_value v S =
     (case v of
        TFunction f \<Rightarrow> (case s_closures S f of Some cl \<Rightarrow> Inr ((f, cl), S) | None \<Rightarrow> Inl ErrFault)
      | _ \<Rightarrow> Inl ErrFault)"

text \<open>\<^verbatim>\<open>inc_ci\<close> with \<^verbatim>\<open>growCI\<close>; an overflow while an overflow is handled is \<^verbatim>\<open>LUA_ERRERR\<close>.\<close>

definition inc_ci :: "callinfo \<Rightarrow> unit vm" where
  "inc_ci ci S =
     (let push = (\<lambda>S. Inr ((), S\<lparr>s_ci := ci # s_ci S\<rparr>)) in
      if int (length (s_ci S)) = s_size_ci S then
        if s_size_ci S > LUAI_MAXCALLS then Inl (ErrRun ''error in error handling'')
        else
          let S1 = S\<lparr>s_size_ci := 2 * s_size_ci S\<rparr> in
          if s_size_ci S1 > LUAI_MAXCALLS then Inl (ErrRun ''stack overflow'') else push S1
      else push S)"

text \<open>The extra arguments go to the fields 1, 2, \dots of the \<^verbatim>\<open>arg\<close> table, their number to \<^verbatim>\<open>n\<close>.\<close>

primrec fill_arg :: "nat \<Rightarrow> nat \<Rightarrow> nat \<Rightarrow> table \<Rightarrow> table vm" where
  "fill_arg from i 0 t = retV t"
| "fill_arg from i (Suc k) t =
     bindV (getslot (from + i)) (\<lambda>v. bindV (liftV (table_puti t (int i + 1) v)) (\<lambda>t1. fill_arg from (i + 1) k t1))"

primrec move_fixed :: "nat \<Rightarrow> nat \<Rightarrow> nat \<Rightarrow> unit vm" where
  "move_fixed fixed i 0 = retV ()"
| "move_fixed fixed i (Suc k) =
     bindV (getslot (fixed + i)) (\<lambda>v. bindV (getV s_top) (\<lambda>tp. bindV (setslot tp v) (\<lambda>_. bindV (settop (tp + 1)) (\<lambda>_.
     bindV (setslot (fixed + i) TNil) (\<lambda>_. move_fixed fixed (i + 1) k)))))"

definition needsarg :: "proto \<Rightarrow> bool" where
  "needsarg p \<longleftrightarrow> uint (p_is_vararg p) AND VARARG_NEEDSARG \<noteq> 0"

definition adjust_varargs :: "proto \<Rightarrow> nat \<Rightarrow> nat vm" where
  "adjust_varargs p actual0 =
     (let nfixargs = unat (p_numparams p); missing = nfixargs - actual0; actual = actual0 + missing in
      bindV (getV s_top) (\<lambda>tp. bindV (setnils tp missing) (\<lambda>_. bindV (settop (tp + missing)) (\<lambda>_.
      bindV (if needsarg p then
               bindV (luaD_checkstack (unat (p_maxstacksize p))) (\<lambda>_.
               let nvar = actual - nfixargs in
               bindV (liftV (luaH_new nvar 1)) (\<lambda>t0.
               bindV (fill_arg (tp + missing - nvar) 0 nvar t0) (\<lambda>t1.
               bindV (liftV (bindE (luaH_setstr t1 ''n'') (\<lambda>(s, t2). slot_write t2 s (TNumber (cast_num (int nvar)))))) (\<lambda>t3.
               bindV (newtable t3) (\<lambda>h. retV (Some h))))))
             else retV None) (\<lambda>htab.
      bindV (getV s_top) (\<lambda>base.
      bindV (move_fixed (base - actual) 0 nfixargs) (\<lambda>_.
      bindV (case htab of
               None \<Rightarrow> retV ()
             | Some h \<Rightarrow> bindV (getV s_top) (\<lambda>t. bindV (setslot t (TTable h)) (\<lambda>_. settop (t + 1)))) (\<lambda>_.
      retV base))))))))"

text \<open>\<^verbatim>\<open>for (p = L->top; p > func; p--) setobjs2s(L, p, p-1)\<close>, with \<open>k\<close> slots to move.\<close>

primrec open_hole :: "nat \<Rightarrow> nat \<Rightarrow> unit vm" where
  "open_hole func 0 = retV ()"
| "open_hole func (Suc k) =
     bindV (getslot (func + k)) (\<lambda>v. bindV (setslot (func + k + 1) v) (\<lambda>_. open_hole func k))"

definition tryfuncTM :: "nat \<Rightarrow> unit vm" where
  "tryfuncTM func =
     bindV (getslot func) (\<lambda>f.
     bindV (\<lambda>S. bindE (luaT_gettmbyobj S f TM_CALL) (\<lambda>tm. Inr (tm, S))) (\<lambda>tm.
     if \<not> is_function tm then failV (luaG_typeerror f ''call'')
     else
       bindV (getV s_top) (\<lambda>tp. bindV (open_hole func (tp - func)) (\<lambda>_. bindV incr_top (\<lambda>_. setslot func tm)))))"

text \<open>\<^verbatim>\<open>while (i-- > 0)\<close> and the loop before it: \<open>wanted\<close> values, or all of them when it is negative.\<close>

primrec copy_slots :: "nat \<Rightarrow> nat \<Rightarrow> nat \<Rightarrow> unit vm" where
  "copy_slots from to 0 = retV ()"
| "copy_slots from to (Suc k) =
     bindV (getslot from) (\<lambda>v. bindV (setslot to v) (\<lambda>_. copy_slots (from + 1) (to + 1) k))"

text \<open>\<^verbatim>\<open>ci = L->ci--\<close>, where the caller \<^verbatim>\<open>ci - 1\<close> is read next.\<close>

definition pop_ci :: "callinfo vm" where
  "pop_ci S = (case s_ci S of ci # caller # cil \<Rightarrow> Inr (ci, S\<lparr>s_ci := caller # cil\<rparr>) | _ \<Rightarrow> Inl ErrFault)"

text \<open>The result: whether the caller asked for a fixed number of results.\<close>

definition luaD_poscall :: "nat \<Rightarrow> bool vm" where
  "luaD_poscall firstResult =
     bindV pop_ci (\<lambda>ci.
     bindV (getV s_top) (\<lambda>tp.
     let res = call_func ci; wanted = call_nresults ci; avail = tp - firstResult;
         n = (if wanted < 0 then avail else min (nat wanted) avail); pad = (if wanted < 0 then 0 else nat wanted - n) in
     bindV (copy_slots firstResult res n) (\<lambda>_.
     bindV (setnils (res + n) pad) (\<lambda>_.
     bindV (settop (res + n + pad)) (\<lambda>_.
     retV (wanted \<noteq> LUA_MULTRET))))))"

text \<open>The values from a slot upwards, and writing values from a slot upwards.\<close>

primrec put_values :: "nat \<Rightarrow> tvalue list \<Rightarrow> unit vm" where
  "put_values i [] = retV ()"
| "put_values i (v # vs) = bindV (setslot i v) (\<lambda>_. put_values (i + 1) vs)"

primrec get_values :: "nat \<Rightarrow> nat \<Rightarrow> tvalue list vm" where
  "get_values i 0 = retV []"
| "get_values i (Suc k) = bindV (getslot i) (\<lambda>v. bindV (get_values (i + 1) k) (\<lambda>vs. retV (v # vs)))"

type_synonym cfun = "nat \<Rightarrow> tvalue list \<Rightarrow> store \<Rightarrow> lua_error + tvalue list \<times> store"

definition precall_Lua :: "proto \<Rightarrow> nat \<Rightarrow> int \<Rightarrow> pcr vm" where
  "precall_Lua p func nresults =
     bindV (luaD_checkstack (unat (p_maxstacksize p))) (\<lambda>_.
     bindV (if p_is_vararg p = 0 then
              let base = func + 1 in
              bindV (modV (\<lambda>S. if s_top S > base + unat (p_numparams p) then S\<lparr>s_top := base + unat (p_numparams p)\<rparr> else S)) (\<lambda>_.
              retV base)
            else bindV (getV (\<lambda>S. s_top S - func - 1)) (\<lambda>nargs. adjust_varargs p nargs)) (\<lambda>base.
     let citop = base + unat (p_maxstacksize p) in
     bindV (inc_ci \<lparr>call_base = base, call_func = func, call_top = citop, call_pc = 0, call_nresults = nresults, call_tailcalls = 0\<rparr>) (\<lambda>_.
     bindV (getV s_top) (\<lambda>st.
     bindV (setnils st (citop - st)) (\<lambda>_.
     bindV (settop citop) (\<lambda>_. retV PCRLUA))))))"

text \<open>A C function leaves its results on the top of its frame, here from \<^verbatim>\<open>L->base\<close>.\<close>

definition precall_C :: "cfun \<Rightarrow> nat \<Rightarrow> nat \<Rightarrow> int \<Rightarrow> pcr vm" where
  "precall_C cfun f func nresults =
     bindV (luaD_checkstack LUA_MINSTACK) (\<lambda>_.
     bindV (getV s_top) (\<lambda>tp.
     let base = func + 1 in
     bindV (inc_ci \<lparr>call_base = base, call_func = func, call_top = tp + LUA_MINSTACK, call_pc = 0, call_nresults = nresults,
                    call_tailcalls = 0\<rparr>) (\<lambda>_.
     bindV (get_values base (tp - base)) (\<lambda>args.
     bindV (cfun f args) (\<lambda>vs.
     bindV (settop base) (\<lambda>_. bindV (luaD_checkstack (length vs)) (\<lambda>_.
     bindV (put_values base vs) (\<lambda>_. bindV (settop (base + length vs)) (\<lambda>_.
     bindV (luaD_poscall base) (\<lambda>_. retV PCRC))))))))))"

definition luaD_precall :: "cfun \<Rightarrow> nat \<Rightarrow> int \<Rightarrow> pcr vm" where
  "luaD_precall cfun func nresults =
     bindV (getslot func) (\<lambda>f0.
     bindV (if \<not> is_function f0 then tryfuncTM func else retV ()) (\<lambda>_.
     bindV (getslot func) (\<lambda>fv.
     bindV (closure_value fv) (\<lambda>(f, cl).
     case cl of
       LClosure p e ups \<Rightarrow> precall_Lua p func nresults
     | CClosure fn e upvs \<Rightarrow> precall_C cfun f func nresults))))"

text \<open>\<open>execute\<close> is \<^verbatim>\<open>luaV_execute(L, 1)\<close>.\<close>

definition luaD_call :: "unit vm \<Rightarrow> cfun \<Rightarrow> nat \<Rightarrow> int \<Rightarrow> unit vm" where
  "luaD_call execute cfun func nResults =
     bindV (modV (\<lambda>S. S\<lparr>s_nCcalls := s_nCcalls S + 1\<rparr>)) (\<lambda>_.
     bindV (getV s_nCcalls) (\<lambda>n.
     if n = LUAI_MAXCCALLS then failV (ErrRun ''C stack overflow'')
     else if n \<ge> LUAI_MAXCCALLS + LUAI_MAXCCALLS div 8 then failV (ErrRun ''error in error handling'')
     else
       bindV (luaD_precall cfun func nResults) (\<lambda>r.
       bindV (if r = PCRLUA then execute else retV ()) (\<lambda>_.
       modV (\<lambda>S. S\<lparr>s_nCcalls := s_nCcalls S - 1\<rparr>)))))"

text \<open>
  A call made by C code: \<^verbatim>\<open>callTMres\<close> and \<^verbatim>\<open>callTM\<close> push the function and its arguments and take the
  results from the top again.  Every result is handed over here; its caller takes the first, or nil.
\<close>

definition call_value :: "unit vm \<Rightarrow> cfun \<Rightarrow> host" where
  "call_value execute cfun f args =
     bindV (getV s_top) (\<lambda>func.
     bindV (luaD_checkstack (length args + 1)) (\<lambda>_.
     bindV (put_values func (f # args)) (\<lambda>_.
     bindV (settop (func + 1 + length args)) (\<lambda>_.
     bindV (luaD_call execute cfun func LUA_MULTRET) (\<lambda>_.
     bindV (getV s_top) (\<lambda>tp.
     bindV (get_values func (tp - func)) (\<lambda>vs.
     bindV (settop func) (\<lambda>_. retV vs))))))))"

section \<open>Instructions\<close>

text \<open>What the loop does after an instruction: go on, in a frame that replaced this one, in a called function, in a caller.\<close>

datatype signal = SNext | SReentry | SCall | SReturn bool

text \<open>The frame of the running Lua function.\<close>

record frame =
  fr_base :: nat
  fr_proto :: proto
  fr_env :: nat
  fr_ups :: "nat list"

definition cur_frame :: "frame vm" where
  "cur_frame =
     bindV cur_ci (\<lambda>ci. bindV (getslot (call_func ci)) (\<lambda>v. bindV (closure_value v) (\<lambda>(f, cl).
     case cl of
       LClosure p e ups \<Rightarrow> retV \<lparr>fr_base = call_base ci, fr_proto = p, fr_env = e, fr_ups = ups\<rparr>
     | _ \<Rightarrow> failV ErrFault)))"

definition change_ci :: "(callinfo \<Rightarrow> callinfo) \<Rightarrow> unit vm" where
  "change_ci f S = (case s_ci S of [] \<Rightarrow> Inl ErrFault | ci # cil \<Rightarrow> Inr ((), S\<lparr>s_ci := f ci # cil\<rparr>))"

definition dojump :: "int \<Rightarrow> unit vm" where
  "dojump i = change_ci (\<lambda>ci. ci\<lparr>call_pc := call_pc ci + i\<rparr>)"

definition instr_at :: "frame \<Rightarrow> int \<Rightarrow> Instruction vm" where
  "instr_at fr pc S = (if 0 \<le> pc \<and> pc < sizecode (fr_proto fr) then Inr (p_code (fr_proto fr) ! nat pc, S) else Inl ErrFault)"

text \<open>\<^verbatim>\<open>*pc\<close>\<close>

definition next_instr :: "frame \<Rightarrow> Instruction vm" where
  "next_instr fr = bindV cur_ci (\<lambda>ci. instr_at fr (call_pc ci))"

definition reg :: "frame \<Rightarrow> int \<Rightarrow> nat" where
  "reg fr r = fr_base fr + nat r"

definition const_value :: "kval \<Rightarrow> tvalue option" where
  "const_value k =
     (case k of KNil \<Rightarrow> Some TNil | KBoolean b \<Rightarrow> Some (TBoolean b) | KNumber n \<Rightarrow> Some (TNumber n)
      | KString s \<Rightarrow> map_option TString s)"

definition getconst :: "frame \<Rightarrow> int \<Rightarrow> tvalue vm" where
  "getconst fr k =
     (if 0 \<le> k \<and> k < sizek (fr_proto fr)
      then (case const_value (p_k (fr_proto fr) ! nat k) of Some v \<Rightarrow> retV v | None \<Rightarrow> failV ErrFault)
      else failV ErrFault)"

text \<open>\<^verbatim>\<open>RKB\<close> and \<^verbatim>\<open>RKC\<close>\<close>

definition RK :: "frame \<Rightarrow> int \<Rightarrow> tvalue vm" where
  "RK fr x = (if ISK x then getconst fr (INDEXK x) else getslot (reg fr x))"

definition upval_of :: "frame \<Rightarrow> int \<Rightarrow> nat vm" where
  "upval_of fr i = (if 0 \<le> i \<and> i < int (length (fr_ups fr)) then retV (fr_ups fr ! nat i) else failV ErrFault)"

definition then_next :: "unit vm \<Rightarrow> signal vm" where
  "then_next m = bindV m (\<lambda>_. retV SNext)"

text \<open>A conditional jump: the instruction after a test is the jump.\<close>

definition test_jump :: "frame \<Rightarrow> bool \<Rightarrow> unit vm" where
  "test_jump fr c =
     bindV (if c then bindV (next_instr fr) (\<lambda>j. dojump (GETARG_sBx j)) else retV ()) (\<lambda>_. dojump 1)"

definition op_arith :: "(lua_Number \<Rightarrow> lua_Number \<Rightarrow> lua_Number) \<Rightarrow> host \<Rightarrow> frame \<Rightarrow> Instruction \<Rightarrow> TMS \<Rightarrow> unit vm" where
  "op_arith numpow call fr i tm =
     bindV (RK fr (GETARG_B i)) (\<lambda>rb. bindV (RK fr (GETARG_C i)) (\<lambda>rc.
     case (rb, rc) of
       (TNumber nb, TNumber nc) \<Rightarrow> setslot (reg fr (GETARG_A i)) (TNumber (arith_op numpow tm nb nc))
     | _ \<Rightarrow> bindV (\<lambda>S. Arith numpow call S rb rc tm) (setslot (reg fr (GETARG_A i)))))"

definition op_unm :: "(lua_Number \<Rightarrow> lua_Number \<Rightarrow> lua_Number) \<Rightarrow> host \<Rightarrow> frame \<Rightarrow> Instruction \<Rightarrow> unit vm" where
  "op_unm numpow call fr i =
     bindV (getslot (reg fr (GETARG_B i))) (\<lambda>rb.
     case rb of
       TNumber nb \<Rightarrow> setslot (reg fr (GETARG_A i)) (TNumber (luai_numunm nb))
     | _ \<Rightarrow> bindV (\<lambda>S. Arith numpow call S rb rb TM_UNM) (setslot (reg fr (GETARG_A i))))"

definition op_len :: "host \<Rightarrow> frame \<Rightarrow> Instruction \<Rightarrow> unit vm" where
  "op_len call fr i =
     bindV (getslot (reg fr (GETARG_B i))) (\<lambda>rb.
     case rb of
       TTable h \<Rightarrow> bindV (\<lambda>S. bindE (hvalue S h) (\<lambda>t. bindE (luaH_getn t) (\<lambda>n. Inr (n, S)))) (\<lambda>n.
                   setslot (reg fr (GETARG_A i)) (TNumber (cast_num n)))
     | TString s \<Rightarrow> setslot (reg fr (GETARG_A i)) (TNumber (cast_num (int (length s))))
     | _ \<Rightarrow> bindV (\<lambda>S. call_binTM call S rb TNil TM_LEN) (\<lambda>r.
            case r of None \<Rightarrow> failV (luaG_typeerror rb ''get length of'') | Some v \<Rightarrow> setslot (reg fr (GETARG_A i)) v))"

text \<open>
  \<^verbatim>\<open>luaV_concat\<close> leaves its result in the first operand; what it leaves in the others,
  which compiled code does not read again, is here what they were.
\<close>

definition op_concat :: "host \<Rightarrow> frame \<Rightarrow> Instruction \<Rightarrow> unit vm" where
  "op_concat call fr i =
     bindV (get_values (reg fr (GETARG_B i)) (nat (GETARG_C i - GETARG_B i + 1))) (\<lambda>vs.
     bindV (\<lambda>S. luaV_concat call S vs) (\<lambda>v.
     bindV (setslot (reg fr (GETARG_B i)) v) (\<lambda>_. setslot (reg fr (GETARG_A i)) v)))"

definition op_compare :: "host \<Rightarrow> (host \<Rightarrow> store \<Rightarrow> tvalue \<Rightarrow> tvalue \<Rightarrow> lua_error + bool \<times> store) \<Rightarrow> frame \<Rightarrow> Instruction \<Rightarrow> unit vm" where
  "op_compare call cmp fr i =
     bindV (RK fr (GETARG_B i)) (\<lambda>rb. bindV (RK fr (GETARG_C i)) (\<lambda>rc.
     bindV (\<lambda>S. cmp call S rb rc) (\<lambda>b. test_jump fr ((if b then 1 else 0) = GETARG_A i))))"

definition op_call :: "cfun \<Rightarrow> frame \<Rightarrow> Instruction \<Rightarrow> signal vm" where
  "op_call cfun fr i =
     (let ra = reg fr (GETARG_A i); b = GETARG_B i; nresults = GETARG_C i - 1 in
      bindV (if b \<noteq> 0 then settop (ra + nat b) else retV ()) (\<lambda>_.
      bindV (luaD_precall cfun ra nresults) (\<lambda>r.
      if r = PCRLUA then retV SCall
      else
        bindV (if nresults \<ge> 0 then bindV cur_ci (\<lambda>ci. settop (call_top ci)) else retV ()) (\<lambda>_. retV SNext))))"

text \<open>The frame of a tail-called Lua function replaces the one of its caller.\<close>

definition replace_frame :: "signal vm" where
  "replace_frame =
     bindV (getV s_ci) (\<lambda>cil.
     case cil of
       new # ci # rest \<Rightarrow>
         (let func = call_func ci; pfunc = call_func new in
          bindV (luaF_close (call_base ci)) (\<lambda>_.
          bindV (getV s_top) (\<lambda>tp.
          let n = tp - pfunc in
          bindV (copy_slots pfunc func n) (\<lambda>_.
          bindV (settop (func + n)) (\<lambda>_.
          bindV (modV (\<lambda>S. S\<lparr>s_ci :=
            ci\<lparr>call_base := func + (call_base new - pfunc), call_top := func + n, call_pc := call_pc new,
               call_tailcalls := call_tailcalls ci + 1\<rparr> # rest\<rparr>)) (\<lambda>_.
          retV SReentry))))))
     | _ \<Rightarrow> failV ErrFault)"

definition op_tailcall :: "cfun \<Rightarrow> frame \<Rightarrow> Instruction \<Rightarrow> signal vm" where
  "op_tailcall cfun fr i =
     (let ra = reg fr (GETARG_A i); b = GETARG_B i in
      bindV (if b \<noteq> 0 then settop (ra + nat b) else retV ()) (\<lambda>_.
      bindV (luaD_precall cfun ra LUA_MULTRET) (\<lambda>r.
      if r = PCRLUA then replace_frame else retV SNext)))"

definition op_return :: "frame \<Rightarrow> Instruction \<Rightarrow> signal vm" where
  "op_return fr i =
     (let ra = reg fr (GETARG_A i); b = GETARG_B i in
      bindV (if b \<noteq> 0 then settop (ra + nat b - 1) else retV ()) (\<lambda>_.
      bindV (luaF_close (fr_base fr)) (\<lambda>_.
      bindV (luaD_poscall ra) (\<lambda>fixed. retV (SReturn fixed)))))"

definition nvalue_slot :: "nat \<Rightarrow> lua_Number vm" where
  "nvalue_slot r = bindV (getslot r) (\<lambda>v. case v of TNumber n \<Rightarrow> retV n | _ \<Rightarrow> failV ErrFault)"

definition op_forloop :: "frame \<Rightarrow> Instruction \<Rightarrow> unit vm" where
  "op_forloop fr i =
     (let ra = reg fr (GETARG_A i) in
      bindV (nvalue_slot (ra + 2)) (\<lambda>step. bindV (nvalue_slot ra) (\<lambda>idx0. bindV (nvalue_slot (ra + 1)) (\<lambda>limit.
      let idx = luai_numadd idx0 step in
      if (if luai_numlt (cast_num 0) step then luai_numle idx limit else luai_numle limit idx) then
        bindV (dojump (GETARG_sBx i)) (\<lambda>_. bindV (setslot ra (TNumber idx)) (\<lambda>_. setslot (ra + 3) (TNumber idx)))
      else retV ()))))"

text \<open>\<^verbatim>\<open>tonumber(o, n)\<close> converts a string in place.\<close>

definition tonumber_slot :: "nat \<Rightarrow> string \<Rightarrow> lua_Number vm" where
  "tonumber_slot r what =
     bindV (getslot r) (\<lambda>v. bindV (getV s_decpoint) (\<lambda>dp.
     case luaV_tonumber dp v of
       None \<Rightarrow> failV (ErrRun ([CHR 0x27] @ ''for'' @ [CHR 0x27] @ what @ '' must be a number''))
     | Some n \<Rightarrow> bindV (setslot r (TNumber n)) (\<lambda>_. retV n)))"

definition op_forprep :: "frame \<Rightarrow> Instruction \<Rightarrow> unit vm" where
  "op_forprep fr i =
     (let ra = reg fr (GETARG_A i) in
      bindV (tonumber_slot ra '' initial value'') (\<lambda>init. bindV (tonumber_slot (ra + 1) '' limit'') (\<lambda>_.
      bindV (tonumber_slot (ra + 2) '' step'') (\<lambda>step.
      bindV (setslot ra (TNumber (luai_numsub init step))) (\<lambda>_. dojump (GETARG_sBx i))))))"

definition op_tforloop :: "unit vm \<Rightarrow> cfun \<Rightarrow> frame \<Rightarrow> Instruction \<Rightarrow> unit vm" where
  "op_tforloop execute cfun fr i =
     (let ra = reg fr (GETARG_A i); cb = ra + 3 in
      bindV (bindV (getslot (ra + 2)) (setslot (cb + 2))) (\<lambda>_.
      bindV (bindV (getslot (ra + 1)) (setslot (cb + 1))) (\<lambda>_.
      bindV (bindV (getslot ra) (setslot cb)) (\<lambda>_.
      bindV (settop (cb + 3)) (\<lambda>_.
      bindV (luaD_call execute cfun cb (GETARG_C i)) (\<lambda>_.
      bindV (bindV cur_ci (\<lambda>ci. settop (call_top ci))) (\<lambda>_.
      bindV (getslot cb) (\<lambda>v.
      bindV (if v \<noteq> TNil then bindV (setslot (cb - 1) v) (\<lambda>_. bindV (next_instr fr) (\<lambda>j. dojump (GETARG_sBx j))) else retV ()) (\<lambda>_.
      dojump 1)))))))))"

text \<open>\<^verbatim>\<open>for (; n > 0; n--)\<close>\<close>

primrec setlist_loop :: "nat \<Rightarrow> nat \<Rightarrow> int \<Rightarrow> nat \<Rightarrow> unit vm" where
  "setlist_loop h ra lst 0 = retV ()"
| "setlist_loop h ra lst (Suc n) =
     bindV (getslot (ra + Suc n)) (\<lambda>v.
     bindV (\<lambda>S. bindE (hvalue S h) (\<lambda>t. bindE (table_puti t lst v) (\<lambda>t1. Inr ((), set_table h t1 S)))) (\<lambda>_.
     setlist_loop h ra (lst - 1) n))"

definition op_setlist :: "frame \<Rightarrow> Instruction \<Rightarrow> unit vm" where
  "op_setlist fr i =
     (let ra = reg fr (GETARG_A i) in
      bindV (if GETARG_B i = 0 then
               bindV (getV (\<lambda>S. s_top S - ra - 1)) (\<lambda>n. bindV (bindV cur_ci (\<lambda>ci. settop (call_top ci))) (\<lambda>_. retV n))
             else retV (nat (GETARG_B i))) (\<lambda>n.
      bindV (if GETARG_C i = 0 then bindV (next_instr fr) (\<lambda>w. bindV (dojump 1) (\<lambda>_. retV (sint w)))
             else retV (GETARG_C i)) (\<lambda>c.
      bindV (getslot ra) (\<lambda>v.
      case v of
        TTable h \<Rightarrow>
          (let lst = (c - 1) * LFIELDS_PER_FLUSH + int n in
           bindV (\<lambda>S. bindE (hvalue S h) (\<lambda>t.
             if lst > int (sizearray t) then bindE (luaH_resizearray t (nat lst)) (\<lambda>t1. Inr ((), set_table h t1 S)) else Inr ((), S))) (\<lambda>_.
           setlist_loop h ra lst n))
      | _ \<Rightarrow> retV ()))))"

text \<open>The pseudo-instructions after \<^verbatim>\<open>OP_CLOSURE\<close> tell where the upvalues come from.\<close>

primrec closure_upvals :: "frame \<Rightarrow> nat \<Rightarrow> nat list vm" where
  "closure_upvals fr 0 = retV []"
| "closure_upvals fr (Suc k) =
     bindV (next_instr fr) (\<lambda>w.
     bindV (if GET_OPCODE w = opnum OP_GETUPVAL then upval_of fr (GETARG_B w)
            else luaF_findupval (reg fr (GETARG_B w))) (\<lambda>u.
     bindV (dojump 1) (\<lambda>_. bindV (closure_upvals fr k) (\<lambda>us. retV (u # us)))))"

text \<open>The closure is allocated before its upvalues are found.\<close>

definition op_closure :: "frame \<Rightarrow> Instruction \<Rightarrow> unit vm" where
  "op_closure fr i =
     (let x = GETARG_Bx i in
      if 0 \<le> x \<and> x < sizep (fr_proto fr) then
        let p = p_p (fr_proto fr) ! nat x in
        bindV (luaF_newLclosure p (fr_env fr) []) (\<lambda>f.
        bindV (closure_upvals fr (unat (p_nups p))) (\<lambda>us.
        bindV (modV (\<lambda>S. S\<lparr>s_closures := (s_closures S)(f \<mapsto> LClosure p (fr_env fr) us)\<rparr>)) (\<lambda>_.
        setslot (reg fr (GETARG_A i)) (TFunction f))))
      else failV ErrFault)"

primrec vararg_loop :: "nat \<Rightarrow> nat \<Rightarrow> nat \<Rightarrow> nat \<Rightarrow> nat \<Rightarrow> unit vm" where
  "vararg_loop ra base n j 0 = retV ()"
| "vararg_loop ra base n j (Suc k) =
     bindV (if j < n then bindV (getslot (base - n + j)) (setslot (ra + j)) else setslot (ra + j) TNil) (\<lambda>_.
     vararg_loop ra base n (j + 1) k)"

definition op_vararg :: "frame \<Rightarrow> Instruction \<Rightarrow> unit vm" where
  "op_vararg fr i =
     (let ra = reg fr (GETARG_A i); b = GETARG_B i - 1 in
      bindV cur_ci (\<lambda>ci.
      let n = call_base ci - call_func ci - unat (p_numparams (fr_proto fr)) - 1 in
      bindV (if b = LUA_MULTRET then
               bindV (luaD_checkstack n) (\<lambda>_. bindV (settop (ra + n)) (\<lambda>_. retV n))
             else retV (nat b)) (\<lambda>k.
      vararg_loop ra (call_base ci) n 0 k)))"

text \<open>\<^verbatim>\<open>do setnilvalue(rb--); while (rb >= ra)\<close>: at least one slot.\<close>

definition op_loadnil :: "frame \<Rightarrow> Instruction \<Rightarrow> unit vm" where
  "op_loadnil fr i =
     (let a = GETARG_A i; b = GETARG_B i in
      if b \<ge> a then setnils (reg fr a) (nat (b - a + 1)) else setslot (reg fr b) TNil)"

definition execute_op :: "(lua_Number \<Rightarrow> lua_Number \<Rightarrow> lua_Number) \<Rightarrow> unit vm \<Rightarrow> cfun \<Rightarrow> frame \<Rightarrow> Instruction \<Rightarrow> OpCode \<Rightarrow> signal vm" where
  "execute_op numpow execute cfun fr i opc =
     (let call = call_value execute cfun; ra = reg fr (GETARG_A i); rb = reg fr (GETARG_B i) in
      case opc of
        OP_MOVE \<Rightarrow> then_next (bindV (getslot rb) (setslot ra))
      | OP_LOADK \<Rightarrow> then_next (bindV (getconst fr (GETARG_Bx i)) (setslot ra))
      | OP_LOADBOOL \<Rightarrow> then_next (bindV (setslot ra (TBoolean (GETARG_B i \<noteq> 0))) (\<lambda>_.
                             if GETARG_C i \<noteq> 0 then dojump 1 else retV ()))
      | OP_LOADNIL \<Rightarrow> then_next (op_loadnil fr i)
      | OP_GETUPVAL \<Rightarrow> then_next (bindV (upval_of fr (GETARG_B i)) (\<lambda>u. bindV (upval_get u) (setslot ra)))
      | OP_GETGLOBAL \<Rightarrow> then_next (bindV (getconst fr (GETARG_Bx i)) (\<lambda>k.
                             bindV (\<lambda>S. luaV_gettable call S (TTable (fr_env fr)) k) (setslot ra)))
      | OP_GETTABLE \<Rightarrow> then_next (bindV (getslot rb) (\<lambda>t. bindV (RK fr (GETARG_C i)) (\<lambda>k.
                             bindV (\<lambda>S. luaV_gettable call S t k) (setslot ra))))
      | OP_SETGLOBAL \<Rightarrow> then_next (bindV (getconst fr (GETARG_Bx i)) (\<lambda>k. bindV (getslot ra) (\<lambda>v.
                             (\<lambda>S. bindE (luaV_settable call S (TTable (fr_env fr)) k v) (\<lambda>S1. Inr ((), S1))))))
      | OP_SETUPVAL \<Rightarrow> then_next (bindV (upval_of fr (GETARG_B i)) (\<lambda>u. bindV (getslot ra) (upval_set u)))
      | OP_SETTABLE \<Rightarrow> then_next (bindV (getslot ra) (\<lambda>t. bindV (RK fr (GETARG_B i)) (\<lambda>k. bindV (RK fr (GETARG_C i)) (\<lambda>v.
                             (\<lambda>S. bindE (luaV_settable call S t k v) (\<lambda>S1. Inr ((), S1)))))))
      | OP_NEWTABLE \<Rightarrow> then_next (bindV (liftV (luaH_new (nat (luaO_fb2int (GETARG_B i))) (luaO_fb2int (GETARG_C i)))) (\<lambda>t.
                             bindV (newtable t) (\<lambda>h. setslot ra (TTable h))))
      | OP_SELF \<Rightarrow> then_next (bindV (getslot rb) (\<lambda>v. bindV (setslot (ra + 1) v) (\<lambda>_.
                             bindV (getslot rb) (\<lambda>t. bindV (RK fr (GETARG_C i)) (\<lambda>k.
                             bindV (\<lambda>S. luaV_gettable call S t k) (setslot ra))))))
      | OP_ADD \<Rightarrow> then_next (op_arith numpow call fr i TM_ADD)
      | OP_SUB \<Rightarrow> then_next (op_arith numpow call fr i TM_SUB)
      | OP_MUL \<Rightarrow> then_next (op_arith numpow call fr i TM_MUL)
      | OP_DIV \<Rightarrow> then_next (op_arith numpow call fr i TM_DIV)
      | OP_MOD \<Rightarrow> then_next (op_arith numpow call fr i TM_MOD)
      | OP_POW \<Rightarrow> then_next (op_arith numpow call fr i TM_POW)
      | OP_UNM \<Rightarrow> then_next (op_unm numpow call fr i)
      | OP_NOT \<Rightarrow> then_next (bindV (getslot rb) (\<lambda>v. setslot ra (TBoolean (l_isfalse v))))
      | OP_LEN \<Rightarrow> then_next (op_len call fr i)
      | OP_CONCAT \<Rightarrow> then_next (op_concat call fr i)
      | OP_JMP \<Rightarrow> then_next (dojump (GETARG_sBx i))
      | OP_EQ \<Rightarrow> then_next (op_compare call equalobj fr i)
      | OP_LT \<Rightarrow> then_next (op_compare call luaV_lessthan fr i)
      | OP_LE \<Rightarrow> then_next (op_compare call lessequal fr i)
      | OP_TEST \<Rightarrow> then_next (bindV (getslot ra) (\<lambda>v. test_jump fr ((if l_isfalse v then 1 else 0) \<noteq> GETARG_C i)))
      | OP_TESTSET \<Rightarrow> then_next (bindV (getslot rb) (\<lambda>v.
                             if (if l_isfalse v then 1 else 0) \<noteq> GETARG_C i
                             then bindV (setslot ra v) (\<lambda>_. test_jump fr True) else test_jump fr False))
      | OP_CALL \<Rightarrow> op_call cfun fr i
      | OP_TAILCALL \<Rightarrow> op_tailcall cfun fr i
      | OP_RETURN \<Rightarrow> op_return fr i
      | OP_FORLOOP \<Rightarrow> then_next (op_forloop fr i)
      | OP_FORPREP \<Rightarrow> then_next (op_forprep fr i)
      | OP_TFORLOOP \<Rightarrow> then_next (op_tforloop execute cfun fr i)
      | OP_SETLIST \<Rightarrow> then_next (op_setlist fr i)
      | OP_CLOSE \<Rightarrow> then_next (luaF_close ra)
      | OP_CLOSURE \<Rightarrow> then_next (op_closure fr i)
      | OP_VARARG \<Rightarrow> then_next (op_vararg fr i))"

text \<open>One turn of the loop: fetch at \<^verbatim>\<open>*pc++\<close>, decode and execute.\<close>

definition vm_step :: "(lua_Number \<Rightarrow> lua_Number \<Rightarrow> lua_Number) \<Rightarrow> unit vm \<Rightarrow> cfun \<Rightarrow> signal vm" where
  "vm_step numpow execute cfun =
     bindV cur_frame (\<lambda>fr. bindV (next_instr fr) (\<lambda>i. bindV (dojump 1) (\<lambda>_.
     case opcode_of (GET_OPCODE i) of
       Some opc \<Rightarrow> execute_op numpow execute cfun fr i opc
     | None \<Rightarrow> retV SNext)))"

primrec luaV_execute :: "(lua_Number \<Rightarrow> lua_Number \<Rightarrow> lua_Number) \<Rightarrow> cfun \<Rightarrow> nat \<Rightarrow> nat \<Rightarrow> unit vm" where
  "luaV_execute numpow cfun 0 nexeccalls = failV ErrFuel"
| "luaV_execute numpow cfun (Suc n) nexeccalls =
     bindV (vm_step numpow (luaV_execute numpow cfun n 1) cfun) (\<lambda>sig.
     case sig of
       SNext \<Rightarrow> luaV_execute numpow cfun n nexeccalls
     | SReentry \<Rightarrow> luaV_execute numpow cfun n nexeccalls
     | SCall \<Rightarrow> luaV_execute numpow cfun n (nexeccalls + 1)
     | SReturn fixed \<Rightarrow>
         if nexeccalls - 1 = 0 then retV ()
         else
           bindV (if fixed then bindV cur_ci (\<lambda>ci. settop (call_top ci)) else retV ()) (\<lambda>_.
           luaV_execute numpow cfun n (nexeccalls - 1)))"

end
