(* ===== verification/LuaExecSpec.thy ===== *)
theory LuaExecSpec
  imports LuaExec
begin

text \<open>
  Calls are balanced.  The locales collect what a relation between stores has to allow so that
  whole groups of operations keep it.
\<close>

section \<open>Relations kept by a computation\<close>

definition keeps :: "(store \<Rightarrow> store \<Rightarrow> bool) \<Rightarrow> 'a vm \<Rightarrow> bool" where
  "keeps R m \<longleftrightarrow> (\<forall>S x S'. m S = Inr (x, S') \<longrightarrow> R S S')"

named_theorems vm_intro

lemma keepsI: "(\<And>S x S'. m S = Inr (x, S') \<Longrightarrow> R S S') \<Longrightarrow> keeps R m"
  by (simp add: keeps_def)

lemma keepsD: "keeps R m \<Longrightarrow> m S = Inr (x, S') \<Longrightarrow> R S S'"
  by (simp add: keeps_def)

lemma bindV_Inr: "bindV m f S = Inr r \<longleftrightarrow> (\<exists>x S1. m S = Inr (x, S1) \<and> f x S1 = Inr r)"
  by (cases "m S") (auto simp: bindV_def)

lemma bindE_Inr: "bindE r f = Inr y \<longleftrightarrow> (\<exists>x. r = Inr x \<and> f x = Inr y)"
  by (cases r) auto

lemma keeps_if [vm_intro]: "(b \<Longrightarrow> keeps R m) \<Longrightarrow> (\<not> b \<Longrightarrow> keeps R m') \<Longrightarrow> keeps R (if b then m else m')"
  by simp

lemma keeps_option [vm_intro]:
  "(a = None \<Longrightarrow> keeps R m) \<Longrightarrow> (\<And>x. a = Some x \<Longrightarrow> keeps R (f x)) \<Longrightarrow> keeps R (case a of None \<Rightarrow> m | Some x \<Rightarrow> f x)"
  by (cases a) auto

lemma keeps_prod [vm_intro]: "(\<And>x y. keeps R (f x y)) \<Longrightarrow> keeps R (case p of (x, y) \<Rightarrow> f x y)"
  by (cases p) auto

lemma keeps_Let [vm_intro]: "(\<And>x. x = e \<Longrightarrow> keeps R (f x)) \<Longrightarrow> keeps R (let x = e in f x)"
  by simp

lemma keeps_fail [vm_intro]: "keeps R (failV e)"
  by (simp add: keeps_def failV_def)

locale vm_relation =
  fixes R :: "store \<Rightarrow> store \<Rightarrow> bool"
  assumes refl: "R S S" and trans: "R S T \<Longrightarrow> R T U \<Longrightarrow> R S U"
    and tables: "R S (set_table h t S)"
begin

lemma k_ret [vm_intro]: "keeps R (retV x)"
  by (simp add: keeps_def retV_def refl)

lemma k_get [vm_intro]: "keeps R (getV f)"
  by (simp add: keeps_def getV_def refl)

lemma k_lift [vm_intro]: "keeps R (liftV r)"
  by (auto simp: keeps_def liftV_def bindE_Inr refl)

lemma k_bind [vm_intro]: "keeps R m \<Longrightarrow> (\<And>x. keeps R (f x)) \<Longrightarrow> keeps R (bindV m f)"
  by (auto simp: keeps_def bindV_Inr) (metis trans)

lemma k_mod: "(\<And>S. R S (f S)) \<Longrightarrow> keeps R (modV f)"
  by (simp add: keeps_def modV_def)

lemma gettm: "luaT_gettm S mt e = Inr (x, S') \<Longrightarrow> R S S'"
  by (auto simp: luaT_gettm_def bindE_Inr Let_def refl tables split: if_splits)

lemma fasttm_rel: "fasttm S et e = Inr (x, S') \<Longrightarrow> R S S'"
  by (auto simp: fasttm_def bindE_Inr refl gettm split: option.splits if_splits)

lemma compTM: "get_compTM S m1 m2 e = Inr (x, S') \<Longrightarrow> R S S'"
  by (fastforce simp: get_compTM_def bindE_Inr refl split: option.splits if_splits dest: fasttm_rel trans [OF fasttm_rel fasttm_rel])

end

text \<open>A client of a host that keeps the relation.\<close>

locale host_relation = vm_relation +
  fixes call :: host
  assumes host: "keeps R (call f args)"
begin

lemma callTMres_rel: "callTMres call S f p1 p2 = Inr (v, S') \<Longrightarrow> R S S'"
  by (auto simp: callTMres_def bindE_Inr intro: keepsD [OF host])

lemma callTM_rel: "callTM call S f p1 p2 p3 = Inr S' \<Longrightarrow> R S S'"
  by (auto simp: callTM_def bindE_Inr intro: keepsD [OF host])

lemma binTM_rel: "call_binTM call S p1 p2 e = Inr (v, S') \<Longrightarrow> R S S'"
  by (auto simp: call_binTM_def bindE_Inr refl callTMres_rel split: if_splits)

lemma orderTM_rel: "call_orderTM call S p1 p2 e = Inr (v, S') \<Longrightarrow> R S S'"
  by (auto simp: call_orderTM_def bindE_Inr refl callTMres_rel split: if_splits)

lemma gettable_rel: "gettable_loop n call S t key = Inr (v, S') \<Longrightarrow> R S S'"
proof (induction n arbitrary: S t)
  case (Suc n)
  have again: "R S1 S'" if "(if is_function tm then callTMres call S1 tm t key else gettable_loop n call S1 tm key) = Inr (v, S')" for tm S1
    using that Suc.IH callTMres_rel by (auto split: if_splits)
  show ?case
  proof (cases "\<exists>h. t = TTable h")
    case True
    then obtain h tab s where t: "t = TTable h" "hvalue S h = Inr tab" "luaH_get tab key = Inr s"
      using Suc.prems by (auto simp: bindE_Inr)
    show ?thesis
    proof (cases "slot_read tab s = TNil")
      case True
      then obtain tm S1 where f: "fasttm S (t_metatable tab) TM_INDEX = Inr (tm, S1)"
        and r: "(case tm of None \<Rightarrow> Inr (slot_read tab s, S1) | Some f \<Rightarrow> if is_function f then callTMres call S1 f t key
            else gettable_loop n call S1 f key) = Inr (v, S')"
        using Suc.prems t by (auto simp: Let_def bindE_Inr)
      have "R S1 S'" using r again refl by (cases tm) auto
      then show ?thesis using fasttm_rel [OF f] trans by blast
    next
      case False
      then show ?thesis using Suc.prems t refl by (simp add: Let_def)
    qed
  next
    case False
    then have "gettable_loop (Suc n) call S t key = bindE (index_tm S t TM_INDEX) (\<lambda>tm.
        if is_function tm then callTMres call S tm t key else gettable_loop n call S tm key)"
      by (cases t) (auto simp: Let_def)
    from Suc.prems [unfolded this] obtain tm where "(if is_function tm then callTMres call S tm t key else gettable_loop n call S tm key) = Inr (v, S')"
      unfolding bindE_Inr by blast
    then show ?thesis by (rule again)
  qed
qed simp

lemma settable_rel: "settable_loop n call S t key val = Inr S' \<Longrightarrow> R S S'"
proof (induction n arbitrary: S t)
  case (Suc n)
  have again: "R S1 S'" if "(if is_function tm then callTM call S1 tm t key val else settable_loop n call S1 tm key val) = Inr S'" for tm S1
    using that Suc.IH callTM_rel by (auto split: if_splits)
  show ?case
  proof (cases "\<exists>h. t = TTable h")
    case True
    then obtain h where t: "t = TTable h" by blast
    obtain tab0 s tab where g: "hvalue S h = Inr tab0" "luaH_set tab0 key = Inr (s, tab)"
      using Suc.prems t by (auto simp: bindE_Inr)
    let ?S1 = "set_table h tab S"
    have a: "R S2 S'" if "bindE (hvalue S2 h) (\<lambda>tab1. bindE (slot_write tab1 s val) (\<lambda>tab2. Inr (set_table h (tab2\<lparr>t_flags := 0\<rparr>) S2))) = Inr S'" for S2
      using that by (auto simp: bindE_Inr tables)
    have "R ?S1 S'"
    proof (cases "slot_read tab s = TNil")
      case True
      then obtain tm S2 where f: "fasttm ?S1 (t_metatable tab) TM_NEWINDEX = Inr (tm, S2)"
        and r: "(case tm of None \<Rightarrow> bindE (hvalue S2 h) (\<lambda>tab1. bindE (slot_write tab1 s val) (\<lambda>tab2.
            Inr (set_table h (tab2\<lparr>t_flags := 0\<rparr>) S2))) | Some f \<Rightarrow> if is_function f then callTM call S2 f t key val
            else settable_loop n call S2 f key val) = Inr S'"
        using Suc.prems t g by (auto simp: Let_def bindE_Inr [of "fasttm _ _ _"])
      have "R S2 S'" using r again a by (cases tm) auto
      then show ?thesis using fasttm_rel [OF f] trans by blast
    next
      case False
      then show ?thesis using Suc.prems t g a [of ?S1] by (simp add: Let_def)
    qed
    then show ?thesis using tables trans by blast
  next
    case False
    then have "settable_loop (Suc n) call S t key val = bindE (index_tm S t TM_NEWINDEX) (\<lambda>tm.
        if is_function tm then callTM call S tm t key val else settable_loop n call S tm key val)"
      by (cases t) (auto simp: Let_def)
    from Suc.prems [unfolded this] obtain tm where "(if is_function tm then callTM call S tm t key val else settable_loop n call S tm key val) = Inr S'"
      unfolding bindE_Inr by blast
    then show ?thesis by (rule again)
  qed
qed simp

lemma lessthan_rel: "luaV_lessthan call S l r = Inr (b, S') \<Longrightarrow> R S S'"
  by (cases l; cases r) (auto simp: luaV_lessthan_def bindE_Inr refl split: if_splits option.splits dest!: orderTM_rel)

lemma lessequal_rel: "lessequal call S l r = Inr (b, S') \<Longrightarrow> R S S'"
  by (cases l; cases r) (auto simp: lessequal_def bindE_Inr refl split: if_splits option.splits dest!: orderTM_rel intro: trans)

lemma equalobj_rel: "equalobj call S l r = Inr (b, S') \<Longrightarrow> R S S'"
  by (cases l; cases r) (auto simp: equalobj_def luaV_equalval_def Let_def bindE_Inr refl
      split: if_splits option.splits dest!: compTM callTMres_rel intro: trans)

lemma concat_rel: "concat_loop call S vs = Inr (v, S') \<Longrightarrow> R S S'"
proof (induction vs arbitrary: S rule: length_induct)
  case (1 vs)
  consider "vs = []" | x where "vs = [x]" | b a rest where "vs = b # a # rest" by (cases vs rule: remdups_adj.cases) auto
  then show ?case
  proof cases
    case 3
    show ?thesis
    proof (cases "tostring a = None \<or> tostring b = None")
      case True
      then obtain res S1 where b: "call_binTM call S a b TM_CONCAT = Inr (Some res, S1)" "concat_loop call S1 (res # rest) = Inr (v, S')"
        using "1.prems" 3 by (auto simp: concat_loop.simps [of call S "b # a # rest"] bindE_Inr split: option.splits)
      then have "R S1 S'" using "1.IH" [rule_format, of "res # rest" S1] 3 by simp
      with binTM_rel [OF b(1)] show ?thesis by (rule trans)
    next
      case False
      then obtain s t where st: "tostring a = Some s" "tostring b = Some t" by auto
      have "\<exists>ws. length ws < length vs \<and> concat_loop call S ws = Inr (v, S')"
      proof (cases "t = []")
        case True
        with "1.prems" 3 st show ?thesis by (intro exI [of _ "TString s # rest"]) (simp add: concat_loop.simps [of call S "b # a # rest"])
      next
        case False
        then obtain ss left where c: "collect_strings (a # rest) (int (length t)) [t] = Inr (ss, left)"
          "concat_loop call S (TString (concat ss) # left) = Inr (v, S')"
          using "1.prems" 3 st by (auto simp: concat_loop.simps [of call S "b # a # rest"] bindE_Inr)
        then have "length left < length (a # rest)" using st by (auto split: if_splits dest: collect_strings_length)
        with c(2) 3 show ?thesis by (intro exI [of _ "TString (concat ss) # left"]) simp
      qed
      then obtain ws where "length ws < length vs" "concat_loop call S ws = Inr (v, S')" by blast
      then show ?thesis by (rule "1.IH" [rule_format])
    qed
  next
    case 1
    with "1.prems" show ?thesis by (simp add: concat_loop.simps [of call S "[]"])
  next
    case (2 x)
    with "1.prems" show ?thesis by (auto simp: concat_loop.simps [of call S "[x]"] refl)
  qed
qed

lemma Arith_rel: "Arith pow call S rb rc e = Inr (v, S') \<Longrightarrow> R S S'"
  by (auto simp: Arith_def bindE_Inr refl split: option.splits dest!: binTM_rel)

end

section \<open>Operations that keep a relation\<close>

text \<open>A relation that does not look at the stack and the objects.\<close>

locale machine_relation = vm_relation +
  assumes stack: "R S (S\<lparr>s_stack := st\<rparr>)" and top_: "R S (S\<lparr>s_top := n\<rparr>)"
    and objects: "R S (S\<lparr>s_next := k\<rparr>)" "R S (S\<lparr>s_closures := cs\<rparr>)"
    and upvals: "R S (S\<lparr>s_upvals := us\<rparr>)" "R S (S\<lparr>s_openupval := pp\<rparr>)"
begin

lemma k_getslot [vm_intro]: "keeps R (getslot i)"
  by (auto simp: keeps_def getslot_def refl split: if_splits)

lemma k_setslot [vm_intro]: "keeps R (setslot i v)"
  by (auto simp: keeps_def setslot_def stack split: if_splits)

lemma k_settop [vm_intro]: "keeps R (settop n)"
  by (simp add: settop_def k_mod top_)

lemma k_checkstack [vm_intro]: "keeps R (luaD_checkstack n)"
  unfolding luaD_checkstack_def
  by (rule k_mod) (simp add: luaD_growstack_def luaD_reallocstack_def Let_def stack refl)

lemma k_incr_top [vm_intro]: "keeps R incr_top"
  unfolding incr_top_def by (intro vm_intro k_mod) (rule top_)

lemma k_setnils [vm_intro]: "keeps R (setnils i k)"
  by (induction k arbitrary: i) (auto intro!: vm_intro)

lemma k_cur_ci [vm_intro]: "keeps R cur_ci"
  by (auto simp: keeps_def cur_ci_def refl split: list.splits)

lemma k_closure [vm_intro]: "keeps R (closure_value v)"
  by (auto simp: keeps_def closure_value_def refl split: tvalue.splits option.splits)

lemma k_findupval [vm_intro]: "keeps R (luaF_findupval l)"
  using trans [OF upvals(2) objects(1)]
  by (auto simp: keeps_def luaF_findupval_def refl split: prod.splits option.splits)

lemma k_upval_get [vm_intro]: "keeps R (upval_get u)"
  by (auto simp: keeps_def upval_get_def getslot_def refl split: option.splits if_splits)

lemma k_upval_set [vm_intro]: "keeps R (upval_set u v)"
  by (auto simp: keeps_def upval_set_def setslot_def stack upvals split: option.splits if_splits)

lemma k_close_loop: "keeps R (close_loop pp l)"
  by (induction pp l rule: close_loop.induct) (auto intro!: vm_intro k_mod upvals)

lemma k_close [vm_intro]: "keeps R (luaF_close l)"
  unfolding luaF_close_def by (intro vm_intro k_close_loop)

lemma k_newLclosure [vm_intro]: "keeps R (luaF_newLclosure p e us)"
  using trans [OF objects(2) objects(1)] by (auto simp: keeps_def luaF_newLclosure_def)

lemma k_newtable [vm_intro]: "keeps R (newtable t)"
  using trans [OF objects(1) tables] by (auto simp: keeps_def newtable_def)

lemma k_fill_arg [vm_intro]: "keeps R (fill_arg f i k t)"
  by (induction k arbitrary: i t) (auto intro!: vm_intro)

lemma k_move_fixed [vm_intro]: "keeps R (move_fixed f i k)"
  by (induction k arbitrary: i) (auto intro!: vm_intro)

lemma k_adjust_varargs [vm_intro]: "keeps R (adjust_varargs p a)"
  unfolding adjust_varargs_def by (intro vm_intro)

lemma k_open_hole [vm_intro]: "keeps R (open_hole f k)"
  by (induction k) (auto intro!: vm_intro)

lemma k_view: "keeps R (\<lambda>S. bindE (f S) (\<lambda>x. Inr (x, S)))"
  by (auto simp: keeps_def bindE_Inr refl)

lemma k_tryfuncTM [vm_intro]: "keeps R (tryfuncTM f)"
  unfolding tryfuncTM_def by (intro vm_intro k_view)

lemma k_copy_slots [vm_intro]: "keeps R (copy_slots f t k)"
  by (induction k arbitrary: f t) (auto intro!: vm_intro)

lemma k_put_values [vm_intro]: "keeps R (put_values i vs)"
  by (induction vs arbitrary: i) (auto intro!: vm_intro)

lemma k_get_values [vm_intro]: "keeps R (get_values i k)"
  by (induction k arbitrary: i) (auto intro!: vm_intro)

lemma k_cur_frame [vm_intro]: "keeps R cur_frame"
  unfolding cur_frame_def by (intro vm_intro) (auto split: closure.split intro!: vm_intro)

lemma k_next_instr [vm_intro]: "keeps R (next_instr fr)"
  unfolding next_instr_def by (intro vm_intro) (auto simp: keeps_def instr_at_def refl split: if_splits)

lemma k_getconst [vm_intro]: "keeps R (getconst fr k)"
  unfolding getconst_def by (intro vm_intro)

lemma k_RK [vm_intro]: "keeps R (RK fr x)"
  unfolding RK_def by (intro vm_intro)

lemma k_upval_of [vm_intro]: "keeps R (upval_of fr x)"
  unfolding upval_of_def by (intro vm_intro)

lemma k_table_put: "keeps R (\<lambda>S. bindE (hvalue S h) (\<lambda>t. bindE (f t S) (\<lambda>t1. Inr ((), set_table h t1 S))))"
  by (auto simp: keeps_def bindE_Inr tables)

lemma k_setlist_loop [vm_intro]: "keeps R (setlist_loop h ra lst n)"
  by (induction n arbitrary: lst) (auto intro!: vm_intro k_table_put)

lemma k_vararg_loop [vm_intro]: "keeps R (vararg_loop ra base n j k)"
  by (induction k arbitrary: j) (auto intro!: vm_intro)

lemma k_op_vararg [vm_intro]: "keeps R (op_vararg fr i)"
  unfolding op_vararg_def by (intro vm_intro)

lemma k_op_loadnil [vm_intro]: "keeps R (op_loadnil fr i)"
  unfolding op_loadnil_def by (intro vm_intro)

lemma k_tonumber_slot [vm_intro]: "keeps R (tonumber_slot r w)"
  unfolding tonumber_slot_def by (intro vm_intro)

lemma k_nvalue_slot [vm_intro]: "keeps R (nvalue_slot r)"
  unfolding nvalue_slot_def by (intro vm_intro) (auto split: tvalue.split intro!: vm_intro)

end

text \<open>One that does not look at where a function is, either; and the instructions that call nothing.\<close>

locale pc_relation = machine_relation +
  assumes pc: "s_ci S = ci # cil \<Longrightarrow> R S (S\<lparr>s_ci := ci\<lparr>call_pc := p\<rparr> # cil\<rparr>)"
begin

lemma k_dojump [vm_intro]: "keeps R (dojump d)"
  by (auto simp: keeps_def dojump_def change_ci_def pc split: list.splits)

lemma k_test_jump [vm_intro]: "keeps R (test_jump fr c)"
  unfolding test_jump_def by (intro vm_intro)

lemma k_op_forloop [vm_intro]: "keeps R (op_forloop fr i)"
  unfolding op_forloop_def by (intro vm_intro)

lemma k_op_forprep [vm_intro]: "keeps R (op_forprep fr i)"
  unfolding op_forprep_def by (intro vm_intro)

lemma k_op_setlist [vm_intro]: "keeps R (op_setlist fr i)"
proof -
  have "keeps R (\<lambda>S. bindE (hvalue S h) (\<lambda>t.
      if b t then bindE (f t) (\<lambda>t1. Inr ((), set_table h t1 S)) else Inr ((), S)))" for h b f
    by (auto simp: keeps_def bindE_Inr tables refl split: if_splits)
  then show ?thesis unfolding op_setlist_def by (intro vm_intro) (auto simp: Let_def split: tvalue.split intro!: vm_intro)
qed

lemma k_closure_upvals [vm_intro]: "keeps R (closure_upvals fr k)"
  by (induction k) (auto intro!: vm_intro)

lemma k_op_closure [vm_intro]: "keeps R (op_closure fr i)"
  unfolding op_closure_def by (intro vm_intro k_mod objects)

end

text \<open>With a promise about calls, the instructions that call tag methods.\<close>

locale caller_relation = machine_relation +
  fixes execute :: "unit vm" and cfun :: cfun
  assumes call: "keeps R (luaD_call execute cfun f n)"
begin

lemma k_call_value: "keeps R (call_value execute cfun f args)"
  unfolding call_value_def by (intro vm_intro call)

end

sublocale caller_relation \<subseteq> host_relation R "call_value execute cfun"
  by unfold_locales (rule k_call_value)

context caller_relation
begin

lemma k_host [vm_intro]:
  "keeps R (\<lambda>S. luaV_gettable (call_value execute cfun) S t k)"
  "keeps R (\<lambda>S. equalobj (call_value execute cfun) S a b)"
  "keeps R (\<lambda>S. luaV_lessthan (call_value execute cfun) S a b)"
  "keeps R (\<lambda>S. lessequal (call_value execute cfun) S a b)"
  "keeps R (\<lambda>S. luaV_concat (call_value execute cfun) S vs)"
  "keeps R (\<lambda>S. Arith pow (call_value execute cfun) S a b e)"
  "keeps R (\<lambda>S. call_binTM (call_value execute cfun) S a b e)"
  "keeps R (\<lambda>S. bindE (luaV_settable (call_value execute cfun) S t k v) (\<lambda>S1. Inr ((), S1)))"
  unfolding luaV_gettable_def luaV_settable_def luaV_concat_def
  by (auto simp: keeps_def bindE_Inr
      intro: gettable_rel equalobj_rel lessthan_rel lessequal_rel concat_rel Arith_rel binTM_rel settable_rel)

lemma k_op_arith [vm_intro]: "keeps R (op_arith pow (call_value execute cfun) fr i e)"
  unfolding op_arith_def by (intro vm_intro) (auto split: tvalue.split intro!: vm_intro)

lemma k_op_unm [vm_intro]: "keeps R (op_unm pow (call_value execute cfun) fr i)"
  unfolding op_unm_def by (intro vm_intro) (auto split: tvalue.split intro!: vm_intro)

lemma k_op_len [vm_intro]: "keeps R (op_len (call_value execute cfun) fr i)"
proof -
  have "keeps R (\<lambda>S. bindE (hvalue S h) (\<lambda>t. bindE (luaH_getn t) (\<lambda>n. Inr (n, S))))" for h
    by (auto simp: keeps_def bindE_Inr refl)
  then show ?thesis unfolding op_len_def by (intro vm_intro) (auto split: tvalue.split option.split intro!: vm_intro)
qed

lemma k_op_concat [vm_intro]: "keeps R (op_concat (call_value execute cfun) fr i)"
  unfolding op_concat_def by (intro vm_intro)

lemma k_then_next [vm_intro]: "keeps R m \<Longrightarrow> keeps R (then_next m)"
  unfolding then_next_def by (intro vm_intro)

text \<open>These leave the program counter alone.\<close>

lemma k_plain_op:
  assumes "opc \<notin> {OP_LOADBOOL, OP_JMP, OP_EQ, OP_LT, OP_LE, OP_TEST, OP_TESTSET, OP_FORLOOP, OP_FORPREP, OP_TFORLOOP,
    OP_SETLIST, OP_CLOSURE, OP_CALL, OP_TAILCALL, OP_RETURN}"
  shows "keeps R (execute_op pow execute cfun fr i opc)"
  using assms by (cases opc; simp add: execute_op_def Let_def; intro vm_intro)

end

text \<open>Both together: every instruction but those that enter and leave functions.\<close>

locale call_relation = pc_relation R + caller_relation R execute cfun
  for R :: "store \<Rightarrow> store \<Rightarrow> bool" and execute :: "unit vm" and cfun :: cfun
begin

lemma k_op_compare [vm_intro]:
  "keeps R (op_compare (call_value execute cfun) equalobj fr i)"
  "keeps R (op_compare (call_value execute cfun) luaV_lessthan fr i)"
  "keeps R (op_compare (call_value execute cfun) lessequal fr i)"
  unfolding op_compare_def by (intro vm_intro)+

lemma k_op_tforloop [vm_intro]: "keeps R (op_tforloop execute cfun fr i)"
  unfolding op_tforloop_def by (intro vm_intro call)

lemma k_execute_op:
  assumes "opc \<notin> {OP_CALL, OP_TAILCALL, OP_RETURN}"
  shows "keeps R (execute_op pow execute cfun fr i opc)"
proof (cases "opc \<in> {OP_LOADBOOL, OP_JMP, OP_EQ, OP_LT, OP_LE, OP_TEST, OP_TESTSET, OP_FORLOOP, OP_FORPREP, OP_TFORLOOP,
    OP_SETLIST, OP_CLOSURE}")
  case True
  then show ?thesis by (cases opc; simp add: execute_op_def Let_def; intro vm_intro conjI impI)
next
  case False
  with assms show ?thesis by (intro k_plain_op) simp
qed

end

section \<open>Calls are balanced\<close>

text \<open>What a C function must leave as it found it: the chain of calls and the depth of C calls.\<close>

definition same_calls :: "store \<Rightarrow> store \<Rightarrow> bool" where
  "same_calls S S' \<longleftrightarrow> s_ci S' = s_ci S \<and> s_nCcalls S' = s_nCcalls S"

definition cfun_balanced :: "cfun \<Rightarrow> bool" where
  "cfun_balanced cfun \<longleftrightarrow> (\<forall>f args. keeps same_calls (cfun f args))"

text \<open>The same up to the next instruction of the running function.\<close>

definition frames :: "store \<Rightarrow> callinfo list" where
  "frames S = (case s_ci S of [] \<Rightarrow> [] | ci # cil \<Rightarrow> ci\<lparr>call_pc := 0\<rparr> # cil)"

definition same_frames :: "store \<Rightarrow> store \<Rightarrow> bool" where
  "same_frames S S' \<longleftrightarrow> frames S' = frames S \<and> s_nCcalls S' = s_nCcalls S"

interpretation calls: machine_relation same_calls
  by unfold_locales (auto simp: same_calls_def set_table_def)

interpretation framed: pc_relation same_frames
  by unfold_locales (auto simp: same_frames_def set_table_def frames_def)

lemma inc_ci_pushes: "inc_ci ci S = Inr (u, S') \<Longrightarrow> s_ci S' = ci # s_ci S \<and> s_nCcalls S' = s_nCcalls S"
  by (auto simp: inc_ci_def Let_def split: if_splits)

lemma setnils_top: "setnils i k S = Inr (u, S') \<Longrightarrow> s_top S' = s_top S"
  by (induction k arbitrary: i S) (auto simp: retV_def bindV_Inr setslot_def split: if_splits)

lemma poscall_returns:
  assumes "luaD_poscall first S = Inr (fixed, S')"
  obtains ci cil where "s_ci S = ci # cil" "s_ci S' = cil" "cil \<noteq> []" "s_nCcalls S' = s_nCcalls S"
    "fixed = (call_nresults ci \<noteq> LUA_MULTRET)"
    "0 \<le> call_nresults ci \<Longrightarrow> s_top S' = call_func ci + nat (call_nresults ci)" "call_func ci \<le> s_top S'"
proof -
  obtain ci S1 where p: "pop_ci S = Inr (ci, S1)"
    using assms by (auto simp: luaD_poscall_def bindV_Inr)
  let ?wanted = "call_nresults ci"
  let ?avail = "s_top S1 - first"
  let ?n = "if ?wanted < 0 then ?avail else min (nat ?wanted) ?avail"
  let ?pad = "if ?wanted < 0 then 0 else nat ?wanted - ?n"
  obtain S2 S3 where c: "copy_slots first (call_func ci) ?n S1 = Inr ((), S2)"
    "setnils (call_func ci + ?n) ?pad S2 = Inr ((), S3)"
    "S' = S3\<lparr>s_top := call_func ci + ?n + ?pad\<rparr>" "fixed = (?wanted \<noteq> LUA_MULTRET)"
    using assms p by (auto simp: luaD_poscall_def bindV_Inr getV_def Let_def settop_def modV_def retV_def)
  have "same_calls S1 S3" using c(1,2) by (meson calls.k_copy_slots calls.k_setnils calls.trans keepsD)
  with c(3) have s: "s_ci S' = s_ci S1" "s_nCcalls S' = s_nCcalls S1" by (simp_all add: same_calls_def)
  show ?thesis
    using p s c(3,4) by (auto simp: pop_ci_def split: list.splits intro!: that)
qed

lemma precall_Lua_pushes:
  assumes "precall_Lua p func n S = Inr (r, S')"
  shows "r = PCRLUA \<and> s_nCcalls S' = s_nCcalls S \<and>
    (\<exists>ci. s_ci S' = ci # s_ci S \<and> call_func ci = func \<and> call_nresults ci = n)"
proof -
  define prepare where "prepare = (if p_is_vararg p = 0 then
      let base = func + 1 in
      bindV (modV (\<lambda>S. if s_top S > base + unat (p_numparams p) then S\<lparr>s_top := base + unat (p_numparams p)\<rparr> else S)) (\<lambda>_. retV base)
    else bindV (getV (\<lambda>S. s_top S - func - 1)) (\<lambda>nargs. adjust_varargs p nargs))"
  have k: "keeps same_calls prepare"
    unfolding prepare_def by (intro vm_intro calls.k_mod) (simp add: same_calls_def)
  obtain S1 S2 base S3 S4 where c: "luaD_checkstack (unat (p_maxstacksize p)) S = Inr ((), S1)" "prepare S1 = Inr (base, S2)"
    and i: "inc_ci \<lparr>call_base = base, call_func = func, call_top = base + unat (p_maxstacksize p), call_pc = 0,
      call_nresults = n, call_tailcalls = 0\<rparr> S2 = Inr ((), S3)"
    and s: "setnils (s_top S3) (base + unat (p_maxstacksize p) - s_top S3) S3 = Inr ((), S4)"
    and r: "S' = S4\<lparr>s_top := base + unat (p_maxstacksize p)\<rparr>" "r = PCRLUA"
    using assms unfolding precall_Lua_def prepare_def [symmetric]
    by (auto simp: bindV_Inr getV_def Let_def settop_def modV_def retV_def)
  have "same_calls S S2" using c k by (meson calls.k_checkstack calls.trans keepsD)
  moreover have "same_calls S3 S4" using s by (rule keepsD [OF calls.k_setnils])
  ultimately show ?thesis using inc_ci_pushes [OF i] r by (simp add: same_calls_def)
qed

lemma precall_C_returns:
  assumes "cfun_balanced cfun" "precall_C cfun f func n S = Inr (r, S')"
  shows "r = PCRC \<and> same_calls S S' \<and> (0 \<le> n \<longrightarrow> s_top S' = func + nat n) \<and> func \<le> s_top S'"
proof -
  define body where "body = (\<lambda>base tp. bindV (get_values base (tp - base)) (\<lambda>args. bindV (cfun f args) (\<lambda>vs.
     bindV (settop base) (\<lambda>_. bindV (luaD_checkstack (length vs)) (\<lambda>_.
     bindV (put_values base vs) (\<lambda>_. settop (base + length vs)))))))"
  have k: "keeps same_calls (body base tp)" for base tp
    using assms(1) unfolding body_def cfun_balanced_def by (intro vm_intro) simp
  let ?ci = "\<lambda>tp. \<lparr>call_base = func + 1, call_func = func, call_top = tp + LUA_MINSTACK, call_pc = 0, call_nresults = n,
      call_tailcalls = 0\<rparr>"
  obtain S1 S2 S3 fixed where c: "luaD_checkstack LUA_MINSTACK S = Inr ((), S1)"
    and i: "inc_ci (?ci (s_top S1)) S1 = Inr ((), S2)"
    and b: "body (func + 1) (s_top S1) S2 = Inr ((), S3)" and p: "luaD_poscall (func + 1) S3 = Inr (fixed, S')" and r: "r = PCRC"
    using assms(2) unfolding precall_C_def body_def
    by (auto simp: bindV_Inr getV_def Let_def retV_def)
  have "same_calls S S1" "same_calls S2 S3" using keepsD [OF calls.k_checkstack c] keepsD [OF k b] by simp_all
  moreover note inc_ci_pushes [OF i]
  ultimately have "s_ci S3 = ?ci (s_top S1) # s_ci S" "s_nCcalls S3 = s_nCcalls S" by (simp_all add: same_calls_def)
  with r show ?thesis by - (rule poscall_returns [OF p], auto simp: same_calls_def)
qed

lemma precall_spec:
  assumes "cfun_balanced cfun" "luaD_precall cfun func n S = Inr (r, S')"
  shows "s_nCcalls S' = s_nCcalls S" "r = PCRLUA \<Longrightarrow> \<exists>ci. s_ci S' = ci # s_ci S \<and> call_func ci = func \<and> call_nresults ci = n"
    "r = PCRC \<Longrightarrow> s_ci S' = s_ci S \<and> (0 \<le> n \<longrightarrow> s_top S' = func + nat n) \<and> func \<le> s_top S'"
proof -
  define find where "find = bindV (getslot func) (\<lambda>f0. bindV (if \<not> is_function f0 then tryfuncTM func else retV ()) (\<lambda>_.
     bindV (getslot func) closure_value))"
  have k: "keeps same_calls find" unfolding find_def by (intro vm_intro)
  obtain f cl S1 where f: "find S = Inr ((f, cl), S1)"
    and run: "(case cl of LClosure p e ups \<Rightarrow> precall_Lua p func n | CClosure fn e upvs \<Rightarrow> precall_C cfun f func n) S1 = Inr (r, S')"
    using assms(2) unfolding luaD_precall_def find_def by (auto simp: bindV_Inr)
  have "same_calls S S1" using keepsD [OF k f] .
  moreover have "(r = PCRLUA \<and> s_nCcalls S' = s_nCcalls S1 \<and> (\<exists>ci. s_ci S' = ci # s_ci S1 \<and> call_func ci = func \<and> call_nresults ci = n))
    \<or> (r = PCRC \<and> same_calls S1 S' \<and> (0 \<le> n \<longrightarrow> s_top S' = func + nat n) \<and> func \<le> s_top S')"
    using run precall_Lua_pushes precall_C_returns [OF assms(1)] by (cases cl) simp_all
  ultimately show "s_nCcalls S' = s_nCcalls S" "r = PCRLUA \<Longrightarrow> \<exists>ci. s_ci S' = ci # s_ci S \<and> call_func ci = func \<and> call_nresults ci = n"
    "r = PCRC \<Longrightarrow> s_ci S' = s_ci S \<and> (0 \<le> n \<longrightarrow> s_top S' = func + nat n) \<and> func \<le> s_top S'"
    by (auto simp: same_calls_def)
qed

text \<open>What running the functions on the top of the chain until \<open>k\<close> of them have returned leaves.\<close>

definition returns_to :: "nat \<Rightarrow> store \<Rightarrow> store \<Rightarrow> bool" where
  "returns_to k S S' \<longleftrightarrow>
     k < length (s_ci S) \<and> s_ci S' = drop k (s_ci S) \<and> s_nCcalls S' = s_nCcalls S \<and>
     (let ci = s_ci S ! (k - 1) in
      (0 \<le> call_nresults ci \<longrightarrow> s_top S' = call_func ci + nat (call_nresults ci)) \<and> call_func ci \<le> s_top S')"

definition execute_balanced :: "unit vm \<Rightarrow> bool" where
  "execute_balanced execute \<longleftrightarrow> keeps (returns_to 1) execute"

lemma call_spec:
  assumes "cfun_balanced cfun" "execute_balanced execute" "luaD_call execute cfun func n S = Inr (u, S')"
  shows "same_calls S S' \<and> (0 \<le> n \<longrightarrow> s_top S' = func + nat n) \<and> func \<le> s_top S'"
proof -
  let ?S = "S\<lparr>s_nCcalls := s_nCcalls S + 1\<rparr>"
  obtain r S1 S2 where p: "luaD_precall cfun func n ?S = Inr (r, S1)" and e: "(if r = PCRLUA then execute else retV ()) S1 = Inr ((), S2)"
    and S': "S' = S2\<lparr>s_nCcalls := s_nCcalls S2 - 1\<rparr>"
    using assms(3) unfolding luaD_call_def by (auto simp: bindV_Inr getV_def modV_def failV_def split: if_splits)
  note pre = precall_spec [OF assms(1) p]
  show ?thesis
  proof (cases r)
    case PCRLUA
    then obtain ci where "s_ci S1 = ci # s_ci S" "call_func ci = func" "call_nresults ci = n" using pre(2) by auto
    moreover have "returns_to 1 S1 S2" using e PCRLUA assms(2) by (auto simp: execute_balanced_def dest: keepsD)
    ultimately show ?thesis using pre(1) S' by (simp add: returns_to_def same_calls_def)
  next
    case PCRC
    then show ?thesis using pre(1) pre(3) [OF PCRC] e S' by (simp add: retV_def same_calls_def)
  qed
qed

definition kept :: "callinfo \<Rightarrow> callinfo \<Rightarrow> bool" where
  "kept ci ci' \<longleftrightarrow> call_func ci' = call_func ci \<and> call_nresults ci' = call_nresults ci"

lemma same_framesD:
  assumes "same_frames S S'" "s_ci S = ci # cil"
  obtains ci' where "s_ci S' = ci' # cil" "kept ci ci'" "s_nCcalls S' = s_nCcalls S"
    "call_base ci' = call_base ci" "call_top ci' = call_top ci" "call_tailcalls ci' = call_tailcalls ci"
proof (cases "s_ci S'")
  case Nil
  then show ?thesis using assms by (simp add: same_frames_def frames_def)
next
  case (Cons ci' cil')
  then have "ci'\<lparr>call_pc := 0\<rparr> = ci\<lparr>call_pc := 0\<rparr>" "cil' = cil" "s_nCcalls S' = s_nCcalls S"
    using assms by (simp_all add: same_frames_def frames_def)
  then show ?thesis using Cons by (cases ci; cases ci') (auto simp: kept_def intro!: that)
qed

lemma same_calls_frames: "same_calls S S' \<Longrightarrow> same_frames S S'"
  by (simp add: same_calls_def same_frames_def frames_def)

lemma framed_calls:
  assumes "cfun_balanced cfun" "execute_balanced execute"
  shows "call_relation same_frames execute cfun"
  using call_spec [OF assms] by unfold_locales (auto intro!: keepsI same_calls_frames)

lemma op_call_spec:
  assumes "cfun_balanced cfun" "op_call cfun fr i S = Inr (sig, S')" "s_ci S = ci # cil"
  shows "s_nCcalls S' = s_nCcalls S \<and> ((sig = SNext \<and> s_ci S' = s_ci S) \<or> (sig = SCall \<and> (\<exists>new. s_ci S' = new # s_ci S)))"
proof -
  define set_top where "set_top = (if GETARG_B i \<noteq> 0 then settop (reg fr (GETARG_A i) + nat (GETARG_B i)) else retV ())"
  define fix_top where "fix_top = (if GETARG_C i - 1 \<ge> 0 then bindV cur_ci (\<lambda>ci. settop (call_top ci)) else retV ())"
  have k: "keeps same_calls set_top" "keeps same_calls fix_top" unfolding set_top_def fix_top_def by (intro vm_intro)+
  obtain S1 r S2 where s: "set_top S = Inr ((), S1)" and p: "luaD_precall cfun (reg fr (GETARG_A i)) (GETARG_C i - 1) S1 = Inr (r, S2)"
    and f: "(if r = PCRLUA then retV SCall else bindV fix_top (\<lambda>_. retV SNext)) S2 = Inr (sig, S')"
    using assms(2) unfolding op_call_def set_top_def fix_top_def by (auto simp: bindV_Inr Let_def)
  have S1: "same_calls S S1" using keepsD [OF k(1) s] .
  note pre = precall_spec [OF assms(1) p]
  show ?thesis
  proof (cases r)
    case PCRLUA
    then show ?thesis using pre(1,2) S1 f by (auto simp: same_calls_def retV_def)
  next
    case PCRC
    then have "same_calls S2 S'" "sig = SNext" using f keepsD [OF k(2)] by (auto simp: bindV_Inr retV_def)
    then show ?thesis using pre(1) pre(3) [OF PCRC] S1 by (simp add: same_calls_def)
  qed
qed

lemma replace_frame_spec:
  assumes "replace_frame S = Inr (sig, S')" "s_ci S = new # ci # cil"
  shows "sig = SReentry \<and> s_nCcalls S' = s_nCcalls S \<and> (\<exists>ci'. s_ci S' = ci' # cil \<and> kept ci ci')"
proof -
  define move where "move = bindV (luaF_close (call_base ci)) (\<lambda>_. bindV (getV s_top) (\<lambda>tp. let n = tp - call_func new in
     bindV (copy_slots (call_func new) (call_func ci) n) (\<lambda>_. bindV (settop (call_func ci + n)) (\<lambda>_. retV n))))"
  have k: "keeps same_calls move" unfolding move_def by (intro vm_intro)
  obtain n S1 where "move S = Inr (n, S1)" "sig = SReentry"
    "S' = S1\<lparr>s_ci := ci\<lparr>call_base := call_func ci + (call_base new - call_func new), call_top := call_func ci + n,
       call_pc := call_pc new, call_tailcalls := call_tailcalls ci + 1\<rparr> # cil\<rparr>"
    using assms unfolding replace_frame_def move_def by (auto simp: bindV_Inr getV_def Let_def modV_def retV_def)
  with keepsD [OF k] show ?thesis by (auto simp: same_calls_def kept_def)
qed

lemma op_tailcall_spec:
  assumes "cfun_balanced cfun" "op_tailcall cfun fr i S = Inr (sig, S')" "s_ci S = ci # cil"
  shows "s_nCcalls S' = s_nCcalls S \<and> ((sig = SNext \<and> s_ci S' = s_ci S) \<or> (sig = SReentry \<and> (\<exists>ci'. s_ci S' = ci' # cil \<and> kept ci ci')))"
proof -
  define set_top where "set_top = (if GETARG_B i \<noteq> 0 then settop (reg fr (GETARG_A i) + nat (GETARG_B i)) else retV ())"
  have k: "keeps same_calls set_top" unfolding set_top_def by (intro vm_intro)
  obtain S1 r S2 where s: "set_top S = Inr ((), S1)" and p: "luaD_precall cfun (reg fr (GETARG_A i)) LUA_MULTRET S1 = Inr (r, S2)"
    and f: "(if r = PCRLUA then replace_frame else retV SNext) S2 = Inr (sig, S')"
    using assms(2) unfolding op_tailcall_def set_top_def by (auto simp: bindV_Inr Let_def)
  have S1: "same_calls S S1" using keepsD [OF k s] .
  note pre = precall_spec [OF assms(1) p]
  show ?thesis
  proof (cases r)
    case PCRLUA
    then obtain new where "s_ci S2 = new # ci # cil" using pre(2) S1 assms(3) by (auto simp: same_calls_def)
    then show ?thesis using f PCRLUA replace_frame_spec [of S2 sig S' new ci cil] pre(1) S1 by (simp add: same_calls_def)
  next
    case PCRC
    then show ?thesis using pre(1) pre(3) [OF PCRC] S1 f by (simp add: same_calls_def retV_def)
  qed
qed

lemma op_return_spec:
  assumes "op_return fr i S = Inr (sig, S')" "s_ci S = ci # cil"
  shows "s_nCcalls S' = s_nCcalls S \<and> s_ci S' = cil \<and> cil \<noteq> [] \<and> sig = SReturn (call_nresults ci \<noteq> LUA_MULTRET)
    \<and> (0 \<le> call_nresults ci \<longrightarrow> s_top S' = call_func ci + nat (call_nresults ci)) \<and> call_func ci \<le> s_top S'"
proof -
  define prepare where "prepare = bindV (if GETARG_B i \<noteq> 0 then settop (reg fr (GETARG_A i) + nat (GETARG_B i) - 1) else retV ())
     (\<lambda>_. luaF_close (fr_base fr))"
  have k: "keeps same_calls prepare" unfolding prepare_def by (intro vm_intro)
  obtain S1 fixed where s: "prepare S = Inr ((), S1)" and p: "luaD_poscall (reg fr (GETARG_A i)) S1 = Inr (fixed, S')"
    and r: "sig = SReturn fixed"
    using assms(1) unfolding op_return_def prepare_def by (auto simp: bindV_Inr Let_def retV_def)
  have "s_ci S1 = ci # cil" "s_nCcalls S1 = s_nCcalls S" using keepsD [OF k s] assms(2) by (simp_all add: same_calls_def)
  with r show ?thesis by - (rule poscall_returns [OF p], auto)
qed

lemma bindV_ret: "bindV (retV x) f = f x"
  by (simp add: bindV_def retV_def fun_eq_iff)

lemma bindV_assoc: "bindV (bindV m f) g = bindV m (\<lambda>x. bindV (f x) g)"
proof
  show "bindV (bindV m f) g S = bindV m (\<lambda>x. bindV (f x) g) S" for S by (cases "m S") (auto simp: bindV_def)
qed

definition fetch :: "(frame \<times> Instruction) vm" where
  "fetch = bindV cur_frame (\<lambda>fr. bindV (next_instr fr) (\<lambda>i. bindV (dojump 1) (\<lambda>_. retV (fr, i))))"

lemma vm_step_fetch:
  "vm_step pow execute cfun = bindV fetch (\<lambda>(fr, i). case opcode_of (GET_OPCODE i) of
     Some opc \<Rightarrow> execute_op pow execute cfun fr i opc | None \<Rightarrow> retV SNext)"
  by (simp add: vm_step_def fetch_def bindV_assoc bindV_ret)

definition step_effect :: "signal \<Rightarrow> store \<Rightarrow> store \<Rightarrow> callinfo \<Rightarrow> callinfo list \<Rightarrow> bool" where
  "step_effect sig S S' ci cil \<longleftrightarrow> s_nCcalls S' = s_nCcalls S \<and>
     (case sig of
        SNext \<Rightarrow> \<exists>ci'. s_ci S' = ci' # cil \<and> kept ci ci'
      | SReentry \<Rightarrow> \<exists>ci'. s_ci S' = ci' # cil \<and> kept ci ci'
      | SCall \<Rightarrow> \<exists>new ci'. s_ci S' = new # ci' # cil \<and> kept ci ci'
      | SReturn fixed \<Rightarrow> s_ci S' = cil \<and> cil \<noteq> [] \<and> fixed = (call_nresults ci \<noteq> LUA_MULTRET)
          \<and> (0 \<le> call_nresults ci \<longrightarrow> s_top S' = call_func ci + nat (call_nresults ci)) \<and> call_func ci \<le> s_top S')"

lemma then_next_signal: "then_next m S = Inr (sig, S') \<Longrightarrow> sig = SNext"
  by (auto simp: then_next_def bindV_Inr retV_def)

lemma execute_op_signal:
  assumes "execute_op pow execute cfun fr i opc S = Inr (sig, S')" "opc \<notin> {OP_CALL, OP_TAILCALL, OP_RETURN}"
  shows "sig = SNext"
  using assms by (cases opc) (auto simp: execute_op_def Let_def dest: then_next_signal)

lemma vm_step_spec:
  assumes cf: "cfun_balanced cfun" "execute_balanced execute" and step: "vm_step pow execute cfun S = Inr (sig, S')"
  obtains ci cil where "s_ci S = ci # cil" "step_effect sig S S' ci cil"
proof -
  obtain fr i S1 where f: "fetch S = Inr ((fr, i), S1)"
    and e: "(case opcode_of (GET_OPCODE i) of Some opc \<Rightarrow> execute_op pow execute cfun fr i opc | None \<Rightarrow> retV SNext) S1 = Inr (sig, S')"
    using step unfolding vm_step_fetch by (auto simp: bindV_Inr)
  obtain ci cil where ci: "s_ci S = ci # cil"
    using f by (auto simp: fetch_def cur_frame_def cur_ci_def bindV_Inr split: list.splits)
  have "keeps same_frames fetch" unfolding fetch_def by (intro vm_intro)
  from same_framesD [OF keepsD [OF this f] ci] obtain ci1 where
    c1: "s_ci S1 = ci1 # cil" "kept ci ci1" "s_nCcalls S1 = s_nCcalls S" by metis
  have "step_effect sig S1 S' ci1 cil"
  proof (cases "opcode_of (GET_OPCODE i)")
    case None
    then show ?thesis using e c1 by (simp add: retV_def step_effect_def kept_def)
  next
    case (Some opc)
    then have e: "execute_op pow execute cfun fr i opc S1 = Inr (sig, S')" using e by simp
    consider "opc = OP_CALL" | "opc = OP_TAILCALL" | "opc = OP_RETURN" | "opc \<notin> {OP_CALL, OP_TAILCALL, OP_RETURN}" by blast
    then show ?thesis
    proof cases
      case 1
      then have "op_call cfun fr i S1 = Inr (sig, S')" using e by (simp add: execute_op_def)
      from op_call_spec [OF cf(1) this c1(1)] c1(1) show ?thesis by (auto simp: step_effect_def kept_def)
    next
      case 2
      then have "op_tailcall cfun fr i S1 = Inr (sig, S')" using e by (simp add: execute_op_def)
      from op_tailcall_spec [OF cf(1) this c1(1)] c1(1) show ?thesis by (auto simp: step_effect_def kept_def)
    next
      case 3
      then have "op_return fr i S1 = Inr (sig, S')" using e by (simp add: execute_op_def)
      from op_return_spec [OF this c1(1)] show ?thesis by (simp add: step_effect_def)
    next
      case 4
      have "same_frames S1 S'" by (rule keepsD [OF call_relation.k_execute_op [OF framed_calls [OF cf] 4] e])
      from same_framesD [OF this c1(1)] execute_op_signal [OF e 4] show ?thesis by (fastforce simp: step_effect_def)
    qed
  qed
  then have "step_effect sig S S' ci cil" using c1(2,3) by (cases sig) (auto simp: step_effect_def kept_def)
  with ci show ?thesis by (rule that)
qed

lemma returns_to_kept:
  assumes "returns_to k S1 S'" "s_ci S1 = ci' # cil" "s_ci S = ci # cil" "kept ci ci'" "s_nCcalls S1 = s_nCcalls S" "1 \<le> k"
  shows "returns_to k S S'"
  using assms by (cases k; cases "k = 1") (auto simp: returns_to_def kept_def Let_def nth_Cons split: nat.splits)

lemma execute_spec: "cfun_balanced cfun \<Longrightarrow> 1 \<le> k \<Longrightarrow> luaV_execute pow cfun n k S = Inr (u, S') \<Longrightarrow> returns_to k S S'"
proof (induction n arbitrary: k S S')
  case 0
  then show ?case by (simp add: failV_def)
next
  case (Suc n)
  have bal: "execute_balanced (luaV_execute pow cfun n 1)"
    unfolding execute_balanced_def using Suc.IH [OF Suc.prems(1), of 1] by (auto intro: keepsI)
  obtain sig S1 where step: "vm_step pow (luaV_execute pow cfun n 1) cfun S = Inr (sig, S1)"
    and rest: "(case sig of
       SNext \<Rightarrow> luaV_execute pow cfun n k
     | SReentry \<Rightarrow> luaV_execute pow cfun n k
     | SCall \<Rightarrow> luaV_execute pow cfun n (k + 1)
     | SReturn fixed \<Rightarrow> if k - 1 = 0 then retV () else
         bindV (if fixed then bindV cur_ci (\<lambda>ci. settop (call_top ci)) else retV ()) (\<lambda>_. luaV_execute pow cfun n (k - 1))) S1
       = Inr (u, S')"
    using Suc.prems(3) by (auto simp: bindV_Inr)
  from vm_step_spec [OF Suc.prems(1) bal step] obtain ci cil where
    ci: "s_ci S = ci # cil" and eff: "step_effect sig S S1 ci cil" .
  have nc: "s_nCcalls S1 = s_nCcalls S" using eff by (simp add: step_effect_def)
  have go_on: "returns_to k S S'" if "luaV_execute pow cfun n k S1 = Inr (u, S')" "\<exists>ci'. s_ci S1 = ci' # cil \<and> kept ci ci'"
    using that Suc.IH [OF Suc.prems(1,2) that(1)] returns_to_kept [OF _ _ ci _ nc Suc.prems(2)] by blast
  show ?case
  proof (cases sig)
    case SNext
    then show ?thesis using rest eff by (auto simp: step_effect_def intro: go_on)
  next
    case SReentry
    then show ?thesis using rest eff by (auto simp: step_effect_def intro: go_on)
  next
    case SCall
    then obtain new ci' where c: "s_ci S1 = new # ci' # cil" "kept ci ci'" using eff by (auto simp: step_effect_def)
    have "returns_to (k + 1) S1 S'" using Suc.IH [OF Suc.prems(1), of "k + 1"] rest SCall by simp
    then have "returns_to k (S1\<lparr>s_ci := ci' # cil\<rparr>) S'" using c Suc.prems(2) by (simp add: returns_to_def Let_def nth_Cons')
    then show ?thesis using returns_to_kept [OF _ _ ci c(2) _ Suc.prems(2)] nc by simp
  next
    case (SReturn fixed)
    have r: "s_ci S1 = cil" "cil \<noteq> []" "0 \<le> call_nresults ci \<longrightarrow> s_top S1 = call_func ci + nat (call_nresults ci)"
      "call_func ci \<le> s_top S1" using eff SReturn by (simp_all add: step_effect_def)
    show ?thesis
    proof (cases "k = 1")
      case True
      then show ?thesis using rest SReturn r ci nc by (simp add: retV_def returns_to_def)
    next
      case False
      define fix_top where "fix_top = (if fixed then bindV cur_ci (\<lambda>ci. settop (call_top ci)) else retV ())"
      have k: "keeps same_calls fix_top" unfolding fix_top_def by (intro vm_intro)
      obtain S2 where f: "fix_top S1 = Inr ((), S2)" and e: "luaV_execute pow cfun n (k - 1) S2 = Inr (u, S')"
        using rest SReturn False Suc.prems(2) unfolding fix_top_def by (auto simp: bindV_Inr)
      have "s_ci S2 = cil" "s_nCcalls S2 = s_nCcalls S1" using keepsD [OF k f] r(1) by (simp_all add: same_calls_def)
      moreover have "returns_to (k - 1) S2 S'" using Suc.IH [OF Suc.prems(1) _ e] False Suc.prems(2) by simp
      moreover obtain k' where "k = Suc (Suc k')" using False Suc.prems(2) by (cases k rule: nat.exhaust) (auto simp: gr0_conv_Suc)
      ultimately show ?thesis using ci nc by (simp add: returns_to_def Let_def)
    qed
  qed
qed

lemma luaV_execute_balanced: "cfun_balanced cfun \<Longrightarrow> execute_balanced (luaV_execute pow cfun n 1)"
  using execute_spec by (auto simp: execute_balanced_def intro!: keepsI)

text \<open>The promises about calls hold of the interpreter, as long as C functions keep theirs.\<close>

interpretation run: caller_relation "\<lambda>S S'. cfun_balanced cfun \<longrightarrow> same_calls S S'" "luaV_execute pow cfun n 1" cfun
  for pow cfun n
proof
  show "keeps (\<lambda>S S'. cfun_balanced cfun \<longrightarrow> same_calls S S') (luaD_call (luaV_execute pow cfun n 1) cfun f m)" for f m
    using call_spec [OF _ luaV_execute_balanced] by (auto intro!: keepsI)
qed (auto simp: same_calls_def set_table_def)

interpretation run_frames: call_relation "\<lambda>S S'. cfun_balanced cfun \<longrightarrow> same_frames S S'" "luaV_execute pow cfun n 1" cfun
  for pow cfun n
proof
  show "keeps (\<lambda>S S'. cfun_balanced cfun \<longrightarrow> same_frames S S') (luaD_call (luaV_execute pow cfun n 1) cfun f m)" for f m
    using call_spec [OF _ luaV_execute_balanced] same_calls_frames by (auto intro!: keepsI)
qed (auto simp: same_frames_def set_table_def frames_def)

text \<open>
  C39. Calls are balanced: when a call returns -- through any number of nested and tail calls,
  tag methods and C functions that keep to the same rule -- the chain of active functions and
  the depth of C calls are what they were, and exactly the results asked for, or all of them,
  are left from the place of the function upwards.
\<close>

theorem calls_are_balanced:
  assumes "cfun_balanced cfun" "luaD_call (luaV_execute pow cfun fuel 1) cfun func nresults S = Inr (u, S')"
  shows "s_ci S' = s_ci S \<and> s_nCcalls S' = s_nCcalls S \<and> func \<le> s_top S'
    \<and> (0 \<le> nresults \<longrightarrow> s_top S' = func + nat nresults)"
  using call_spec [OF assms(1) luaV_execute_balanced assms(2)] assms(1) by (auto simp: same_calls_def)

text \<open>A function that returns a constant, and a store in which it is about to be called.\<close>

definition answer_proto :: proto where
  "answer_proto = Proto [KBoolean True]
     [CREATE_ABx (opnum OP_LOADK) 0 0, CREATE_ABC (opnum OP_RETURN) 0 2 0, CREATE_ABC (opnum OP_RETURN) 0 1 0]
     [] [] [] [] None 0 0 0 0 0 2"

definition answer_store :: store where
  "answer_store = \<lparr>s_tables = Map.empty, s_udatas = Map.empty, s_closures = Map.empty(2 \<mapsto> LClosure answer_proto 1 []),
     s_upvals = (\<lambda>_. TNil), s_mt = (\<lambda>_. None), s_registry = TNil, s_gt = TTable 1, s_next = 9, s_decpoint = CHR ''.'',
     s_stack = TNil # TFunction 2 # replicate 43 TNil, s_top = 2,
     s_ci = [\<lparr>call_base = 1, call_func = 0, call_top = 21, call_pc = 0, call_nresults = 0, call_tailcalls = 0\<rparr>], s_size_ci = 8,
     s_openupval = [], s_nCcalls = 0\<rparr>"


definition no_results :: cfun where
  "no_results f args S = Inr ([], S)"

lemma no_results_balanced: "cfun_balanced no_results"
  by (simp add: cfun_balanced_def keeps_def no_results_def same_calls_def)

definition answer_run :: "lua_error + unit \<times> store" where
  "answer_run = luaD_call (luaV_execute (\<lambda>a b. a) no_results 3 1) no_results 1 3 answer_store"

lemma answer_run_ok: "\<exists>S'. answer_run = Inr ((), S')"
proof -
  have no: "\<not> isl answer_run" by code_simp
  show ?thesis
  proof (cases answer_run)
    case (Inl e)
    with no show ?thesis unfolding Inl by simp
  next
    case (Inr r)
    then show ?thesis by (cases r) auto
  qed
qed

lemma calls_are_balanced_witness:
  "\<exists>S'. answer_run = Inr ((), S') \<and> s_ci S' = s_ci answer_store \<and> s_top S' = 4"
proof -
  obtain S' where r: "answer_run = Inr ((), S')" using answer_run_ok by blast
  from calls_are_balanced [OF no_results_balanced r [unfolded answer_run_def]] r show ?thesis by (intro exI [of _ S']) simp
qed

end
