(* ===== verification/LuaExecFlow.thy ===== *)
theory LuaExecFlow
  imports LuaExecSpec
begin

text \<open>
  The interpreter follows the control flow the code checker assumes: every instruction goes on
  where \<open>vm_next\<close> says, so that running accepted code stays inside it.
\<close>

section \<open>Where a computation goes\<close>

text \<open>
  \<open>goes pc A m\<close>: from the instruction \<open>pc\<close> the computation leaves the running function at one of
  the instructions \<open>A\<close>, with the rest of the chain of calls as it was.
\<close>

definition goes :: "int \<Rightarrow> int set \<Rightarrow> 'a vm \<Rightarrow> bool" where
  "goes pc A m \<longleftrightarrow> (\<forall>S x S' ci cil. m S = Inr (x, S') \<and> s_ci S = ci # cil \<and> call_pc ci = pc \<longrightarrow>
     (\<exists>q \<in> A. s_ci S' = ci\<lparr>call_pc := q\<rparr> # cil))"

named_theorems goes_intro

lemma goesI:
  "(\<And>S x S' ci cil. m S = Inr (x, S') \<Longrightarrow> s_ci S = ci # cil \<Longrightarrow> call_pc ci = pc \<Longrightarrow> \<exists>q \<in> A. s_ci S' = ci\<lparr>call_pc := q\<rparr> # cil)
   \<Longrightarrow> goes pc A m"
  by (auto simp: goes_def)

lemma goes_same: "keeps same_calls m \<Longrightarrow> pc \<in> A \<Longrightarrow> goes pc A m"
  by (rule goesI, rule bexI [of _ pc]) (auto simp: same_calls_def dest: keepsD)

lemma goes_bind:
  assumes "goes pc B m" "\<And>q x. q \<in> B \<Longrightarrow> goes q A (f x)"
  shows "goes pc A (bindV m f)"
proof (rule goesI)
  fix S x S' ci cil
  assume "bindV m f S = Inr (x, S')" and ci: "s_ci S = ci # cil" "call_pc ci = pc"
  then obtain y S1 where m: "m S = Inr (y, S1)" and f: "f y S1 = Inr (x, S')" by (auto simp: bindV_Inr)
  obtain q where q: "q \<in> B" "s_ci S1 = ci\<lparr>call_pc := q\<rparr> # cil" using assms(1) m ci unfolding goes_def by blast
  then obtain q' where "q' \<in> A" "s_ci S' = (ci\<lparr>call_pc := q\<rparr>)\<lparr>call_pc := q'\<rparr> # cil"
    using assms(2) [OF q(1)] f unfolding goes_def by fastforce
  then show "\<exists>q \<in> A. s_ci S' = ci\<lparr>call_pc := q\<rparr> # cil" by auto
qed

lemma goes_bind_same: "keeps same_calls m \<Longrightarrow> (\<And>x. goes pc A (f x)) \<Longrightarrow> goes pc A (bindV m f)"
  by (rule goes_bind [of pc "{pc}"]) (auto intro: goes_same)

lemma goes_then_next: "goes pc A m \<Longrightarrow> goes pc A (then_next m)"
  unfolding then_next_def by (rule goes_bind [of pc A]) (auto intro!: goes_same vm_intro)

lemma goes_if: "(b \<Longrightarrow> goes pc A m) \<Longrightarrow> (\<not> b \<Longrightarrow> goes pc A m') \<Longrightarrow> goes pc A (if b then m else m')"
  by simp

lemma goes_jump: "pc + d \<in> A \<Longrightarrow> goes pc A (dojump d)"
  by (rule goesI, rule bexI [of _ "pc + d"]) (auto simp: dojump_def change_ci_def)

lemma goes_next:
  assumes "goes pc A (f (p_code (fr_proto fr) ! nat pc))"
  shows "goes pc A (bindV (next_instr fr) f)"
proof (rule goesI)
  fix S x S' ci cil
  assume "bindV (next_instr fr) f S = Inr (x, S')" "s_ci S = ci # cil" "call_pc ci = pc"
  moreover from this have "f (p_code (fr_proto fr) ! nat pc) S = Inr (x, S')"
    by (auto simp: next_instr_def bindV_Inr cur_ci_def instr_at_def split: if_splits)
  ultimately show "\<exists>q \<in> A. s_ci S' = ci\<lparr>call_pc := q\<rparr> # cil" using assms by (auto simp: goes_def)
qed

lemma goes_test_jump: "pc + 1 \<in> A \<Longrightarrow> pc + 1 + GETARG_sBx (p_code (fr_proto fr) ! nat pc) \<in> A \<Longrightarrow> goes pc A (test_jump fr c)"
  unfolding test_jump_def
  by (rule goes_bind [of pc "{pc, pc + GETARG_sBx (p_code (fr_proto fr) ! nat pc)}"])
    (auto intro!: goes_if goes_next goes_jump goes_same vm_intro simp: algebra_simps)

lemma goes_closure_upvals: "pc + int k \<in> A \<Longrightarrow> goes pc A (closure_upvals fr k)"
proof (induction k arbitrary: pc)
  case 0
  then show ?case by (auto intro!: goes_same vm_intro)
next
  case (Suc k)
  then have "goes (pc + 1) A (closure_upvals fr k)" by (simp add: algebra_simps)
  then have "goes (pc + 1) A (bindV (closure_upvals fr k) (\<lambda>us. retV (u # us)))" for u
    by (rule goes_bind) (auto intro!: goes_same vm_intro)
  then have "goes pc A (bindV (dojump 1) (\<lambda>_. bindV (closure_upvals fr k) (\<lambda>us. retV (u # us))))" for u
    by (intro goes_bind [of pc "{pc + 1}"] goes_jump) auto
  then have "goes pc A (bindV (if b then upval_of fr x else luaF_findupval y)
      (\<lambda>u. bindV (dojump 1) (\<lambda>_. bindV (closure_upvals fr k) (\<lambda>us. retV (u # us)))))" for b x y
    by - (rule goes_bind_same, intro vm_intro)
  then show ?case unfolding closure_upvals.simps by (rule goes_next)
qed


definition moving :: "OpCode set" where
  "moving = {OP_LOADBOOL, OP_JMP, OP_EQ, OP_LT, OP_LE, OP_TEST, OP_TESTSET, OP_FORLOOP, OP_FORPREP, OP_TFORLOOP,
    OP_SETLIST, OP_CLOSURE, OP_CALL, OP_TAILCALL, OP_RETURN}"

text \<open>A computation in the midst of which the C functions keep their promise.\<close>

lemma goes_run:
  "cfun_balanced cfun \<Longrightarrow> keeps (\<lambda>S S'. cfun_balanced cfun \<longrightarrow> same_calls S S') m \<Longrightarrow> pc \<in> A \<Longrightarrow> goes pc A m"
  by (auto intro: goes_same simp: keeps_def)

lemma goes_run_bind:
  "cfun_balanced cfun \<Longrightarrow> keeps (\<lambda>S S'. cfun_balanced cfun \<longrightarrow> same_calls S S') m \<Longrightarrow> (\<And>x. goes pc A (f x)) \<Longrightarrow> goes pc A (bindV m f)"
  by (rule goes_bind_same) (auto simp: keeps_def)

lemma goes_compare:
  assumes "cfun_balanced cfun" "cmp \<in> {equalobj, luaV_lessthan, lessequal}"
    "pc + 1 \<in> A" "pc + 1 + GETARG_sBx (p_code (fr_proto fr) ! nat pc) \<in> A"
  shows "goes pc A (op_compare (call_value (luaV_execute pow cfun n 1) cfun) cmp fr i)"
proof -
  have "keeps (\<lambda>S S'. cfun_balanced cfun \<longrightarrow> same_calls S S') (\<lambda>S. cmp (call_value (luaV_execute pow cfun n 1) cfun) S a b)" for a b
    using assms(2) run.k_host(2-4) by auto
  then show ?thesis unfolding op_compare_def
    by (intro goes_bind_same goes_run_bind [OF assms(1)] goes_test_jump vm_intro assms(3,4))
qed


lemma goes_setlist:
  "(if GETARG_C i = 0 then pc + 1 else pc) \<in> A \<Longrightarrow> goes pc A (op_setlist fr i)"
proof -
  assume a: "(if GETARG_C i = 0 then pc + 1 else pc) \<in> A"
  let ?q = "if GETARG_C i = 0 then pc + 1 else pc"
  have "keeps same_calls (\<lambda>S. bindE (hvalue S h) (\<lambda>t.
      if b t then bindE (f t) (\<lambda>t1. Inr ((), set_table h t1 S)) else Inr ((), S)))" for h b f
    by (auto simp: keeps_def bindE_Inr same_calls_def set_table_def split: if_splits)
  then have rest: "keeps same_calls (bindV (getslot ra) (\<lambda>v. case v of
      TTable h \<Rightarrow> (let lst = (c - 1) * LFIELDS_PER_FLUSH + int n in
           bindV (\<lambda>S. bindE (hvalue S h) (\<lambda>t.
             if lst > int (sizearray t) then bindE (luaH_resizearray t (nat lst)) (\<lambda>t1. Inr ((), set_table h t1 S)) else Inr ((), S))) (\<lambda>_.
           setlist_loop h ra lst n))
      | _ \<Rightarrow> retV ()))" for ra c n
    by (intro vm_intro) (auto simp: Let_def split: tvalue.split intro!: vm_intro)
  have word: "goes pc {?q} (if GETARG_C i = 0 then bindV (next_instr fr) (\<lambda>w. bindV (dojump 1) (\<lambda>_. retV (sint w))) else retV (GETARG_C i))"
    by (auto intro!: goes_same goes_next goes_bind [of pc "{?q}"] goes_jump vm_intro)
  have "goes pc A (bindV (if GETARG_C i = 0 then bindV (next_instr fr) (\<lambda>w. bindV (dojump 1) (\<lambda>_. retV (sint w)))
      else retV (GETARG_C i)) (\<lambda>c. bindV (getslot ra) (\<lambda>v. case v of
      TTable h \<Rightarrow> (let lst = (c - 1) * LFIELDS_PER_FLUSH + int n in
           bindV (\<lambda>S. bindE (hvalue S h) (\<lambda>t.
             if lst > int (sizearray t) then bindE (luaH_resizearray t (nat lst)) (\<lambda>t1. Inr ((), set_table h t1 S)) else Inr ((), S))) (\<lambda>_.
           setlist_loop h ra lst n))
      | _ \<Rightarrow> retV ())))" for ra n
    by (rule goes_bind [OF word]) (use a in \<open>auto intro!: goes_same rest\<close>)
  then show ?thesis unfolding op_setlist_def Let_def
    by - (rule goes_bind_same, (intro vm_intro)[1], simp add: Let_def)
qed

lemma goes_closure:
  assumes "pc + uint (p_nups (p_p (fr_proto fr) ! nat (GETARG_Bx i))) \<in> A"
  shows "goes pc A (op_closure fr i)"
proof -
  have k: "keeps same_calls (modV (\<lambda>S. S\<lparr>s_closures := f S\<rparr>))" for f
    by (rule calls.k_mod) (simp add: same_calls_def)
  let ?p = "p_p (fr_proto fr) ! nat (GETARG_Bx i)"
  have f: "keeps same_calls (failV ErrFault)" "goes pc A (failV ErrFault)" by (simp_all add: keeps_fail goes_def failV_def)
  have "goes pc A (bindV (closure_upvals fr (unat (p_nups ?p))) (\<lambda>us. bindV (modV (\<lambda>S. S\<lparr>s_closures := g us S\<rparr>)) (\<lambda>_.
      setslot r v)))" for g r v
  proof (rule goes_bind)
    show "goes pc {pc + uint (p_nups ?p)} (closure_upvals fr (unat (p_nups ?p)))" by (rule goes_closure_upvals) simp
    show "q \<in> {pc + uint (p_nups ?p)} \<Longrightarrow> goes q A (bindV (modV (\<lambda>S. S\<lparr>s_closures := g us S\<rparr>)) (\<lambda>_. setslot r v))" for q us
      using assms by (auto intro!: goes_same vm_intro k)
  qed
  then have "goes pc A (bindV (luaF_newLclosure q e us) (\<lambda>f. bindV (closure_upvals fr (unat (p_nups ?p)))
      (\<lambda>us. bindV (modV (\<lambda>S. S\<lparr>s_closures := g f us S\<rparr>)) (\<lambda>_. setslot r (v f)))))" for q e us g r v
    by - (rule goes_bind_same, intro vm_intro)
  then show ?thesis unfolding op_closure_def Let_def by (intro goes_if f(2))
qed

lemma goes_forloop: "pc \<in> A \<Longrightarrow> pc + GETARG_sBx i \<in> A \<Longrightarrow> goes pc A (op_forloop fr i)"
  unfolding op_forloop_def Let_def
  by (intro goes_bind_same vm_intro goes_if goes_bind [of pc "{pc + GETARG_sBx i}"] goes_jump)
    (auto intro!: goes_same vm_intro)

lemma goes_forprep: "pc + GETARG_sBx i \<in> A \<Longrightarrow> goes pc A (op_forprep fr i)"
  unfolding op_forprep_def Let_def by (intro goes_bind_same vm_intro goes_jump)

lemma goes_tforloop:
  assumes "cfun_balanced cfun" "pc + 1 \<in> A" "pc + 1 + GETARG_sBx (p_code (fr_proto fr) ! nat pc) \<in> A"
  shows "goes pc A (op_tforloop (luaV_execute pow cfun n 1) cfun fr i)"
proof -
  let ?B = "{pc, pc + GETARG_sBx (p_code (fr_proto fr) ! nat pc)}"
  have "goes pc ?B (if v \<noteq> TNil then bindV (setslot r v) (\<lambda>_. bindV (next_instr fr) (\<lambda>j. dojump (GETARG_sBx j))) else retV ())" for v r
  proof (rule goes_if)
    have "goes pc ?B (bindV (next_instr fr) (\<lambda>j. dojump (GETARG_sBx j)))" by (rule goes_next, rule goes_jump) simp
    then show "goes pc ?B (bindV (setslot r v) (\<lambda>_. bindV (next_instr fr) (\<lambda>j. dojump (GETARG_sBx j))))"
      by - (rule goes_bind_same, intro vm_intro)
  qed (auto intro: goes_same vm_intro)
  then have "goes pc A (bindV (if v \<noteq> TNil then bindV (setslot r v) (\<lambda>_. bindV (next_instr fr) (\<lambda>j. dojump (GETARG_sBx j))) else retV ())
      (\<lambda>_. dojump 1))" for v r
    by (rule goes_bind) (use assms(2,3) in \<open>auto intro!: goes_jump simp: algebra_simps\<close>)
  then have rest: "goes pc A (bindV (getslot cb) (\<lambda>v. bindV (if v \<noteq> TNil then bindV (setslot r v) (\<lambda>_. bindV (next_instr fr)
      (\<lambda>j. dojump (GETARG_sBx j))) else retV ()) (\<lambda>_. dojump 1)))" for cb r
    by - (rule goes_bind_same, intro vm_intro)
  have k: "keeps same_calls (luaD_call (luaV_execute pow cfun n 1) cfun f m)" for f m
    using run.call [of cfun pow n] assms(1) by simp
  note step = goes_bind_same [OF k] goes_bind_same [OF calls.k_settop] goes_bind_same [OF calls.k_bind [OF calls.k_getslot calls.k_setslot]]
    goes_bind_same [OF calls.k_bind [OF calls.k_cur_ci calls.k_settop]]
  show ?thesis unfolding op_tforloop_def Let_def by (rule step rest)+
qed

lemma goes_op:
  assumes cf: "cfun_balanced cfun" and fr: "fr_proto fr = p" and i: "i = p_code p ! nat pc"
    and opc: "opcode_of (GET_OPCODE i) = Some opc" "opc \<notin> {OP_CALL, OP_TAILCALL, OP_RETURN}"
  shows "goes (pc + 1) (set (vm_next p pc)) (execute_op pow (luaV_execute pow cfun n 1) cfun fr i opc)"
proof (cases "opc \<in> moving")
  case False
  then have "pc + 1 \<in> set (vm_next p pc)" using opc i by (simp add: vm_next_def moving_def)
  moreover have "keeps (\<lambda>S S'. cfun_balanced cfun \<longrightarrow> same_calls S S') (execute_op pow (luaV_execute pow cfun n 1) cfun fr i opc)"
    using False by (intro run.k_plain_op) (simp add: moving_def)
  ultimately show ?thesis by (intro goes_run [OF cf])
next
  case True
  let ?A = "set (vm_next p pc)" and ?run = "execute_op pow (luaV_execute pow cfun n 1) cfun fr i opc"
  have test: "pc + 1 + 1 \<in> ?A" "pc + 1 + 1 + GETARG_sBx (p_code (fr_proto fr) ! nat (pc + 1)) \<in> ?A"
    if "opc \<in> {OP_EQ, OP_LT, OP_LE, OP_TEST, OP_TESTSET, OP_TFORLOOP}"
    using that opc i fr by (auto simp: vm_next_def Let_def algebra_simps)
  have jump: "pc + 1 + GETARG_sBx i \<in> ?A" if "opc \<in> {OP_JMP, OP_FORPREP, OP_FORLOOP}"
    using that opc i by (auto simp: vm_next_def Let_def)
  consider "opc = OP_LOADBOOL" | "opc = OP_JMP" | "opc = OP_EQ" | "opc = OP_LT" | "opc = OP_LE" | "opc = OP_TEST" | "opc = OP_TESTSET"
    | "opc = OP_FORLOOP" | "opc = OP_FORPREP" | "opc = OP_TFORLOOP" | "opc = OP_SETLIST" | "opc = OP_CLOSURE"
    using True opc(2) by (auto simp: moving_def)
  then show ?thesis
  proof cases
    case 1
    then have "(if GETARG_C i \<noteq> 0 then pc + 2 else pc + 1) \<in> ?A" using opc i by (simp add: vm_next_def Let_def)
    then have "goes (pc + 1) ?A (if GETARG_C i \<noteq> 0 then dojump 1 else retV ())"
      by (auto intro!: goes_jump goes_same vm_intro simp: algebra_simps split: if_splits)
    then show ?thesis using 1 by (simp add: execute_op_def Let_def goes_then_next goes_bind_same calls.k_setslot del: if_split)
  next
    case 2
    then show ?thesis using jump by (simp add: execute_op_def Let_def goes_then_next goes_jump)
  next
    case 3
    then have "?run = then_next (op_compare (call_value (luaV_execute pow cfun n 1) cfun) equalobj fr i)" by (simp add: execute_op_def)
    moreover have "goes (pc + 1) ?A (op_compare (call_value (luaV_execute pow cfun n 1) cfun) equalobj fr i)"
      by (rule goes_compare [OF cf]; (intro test)?; simp add: 3)
    ultimately show ?thesis by (simp only: goes_then_next)
  next
    case 4
    then have "?run = then_next (op_compare (call_value (luaV_execute pow cfun n 1) cfun) luaV_lessthan fr i)" by (simp add: execute_op_def)
    moreover have "goes (pc + 1) ?A (op_compare (call_value (luaV_execute pow cfun n 1) cfun) luaV_lessthan fr i)"
      by (rule goes_compare [OF cf]; (intro test)?; simp add: 4)
    ultimately show ?thesis by (simp only: goes_then_next)
  next
    case 5
    then have "?run = then_next (op_compare (call_value (luaV_execute pow cfun n 1) cfun) lessequal fr i)" by (simp add: execute_op_def)
    moreover have "goes (pc + 1) ?A (op_compare (call_value (luaV_execute pow cfun n 1) cfun) lessequal fr i)"
      by (rule goes_compare [OF cf]; (intro test)?; simp add: 5)
    ultimately show ?thesis by (simp only: goes_then_next)
  next
    case 6
    then show ?thesis using test
      by (simp add: execute_op_def Let_def) (intro goes_then_next goes_bind_same vm_intro goes_test_jump; simp)
  next
    case 7
    then show ?thesis using test
      by (simp add: execute_op_def Let_def del: if_split) (intro goes_then_next goes_bind_same vm_intro goes_if goes_test_jump; simp)
  next
    case 8
    then have "pc + 1 \<in> ?A" using opc i by (simp add: vm_next_def Let_def)
    then show ?thesis using 8 jump by (simp add: execute_op_def Let_def goes_then_next goes_forloop)
  next
    case 9
    then show ?thesis using jump by (simp add: execute_op_def Let_def goes_then_next goes_forprep)
  next
    case 10
    then have "?run = then_next (op_tforloop (luaV_execute pow cfun n 1) cfun fr i)" by (simp add: execute_op_def)
    moreover have "goes (pc + 1) ?A (op_tforloop (luaV_execute pow cfun n 1) cfun fr i)"
      by (rule goes_tforloop [OF cf]; intro test; simp add: 10)
    ultimately show ?thesis by (simp only: goes_then_next)
  next
    case 11
    then have "(if GETARG_C i = 0 then pc + 1 + 1 else pc + 1) \<in> ?A" using opc i by (simp add: vm_next_def Let_def)
    then show ?thesis using 11 by (simp add: execute_op_def Let_def goes_then_next goes_setlist del: if_split)
  next
    case 12
    then have "pc + 1 + uint (p_nups (p_p (fr_proto fr) ! nat (GETARG_Bx i))) \<in> ?A" using opc i fr by (simp add: vm_next_def Let_def)
    then show ?thesis using 12 by (simp add: execute_op_def Let_def goes_then_next goes_closure)
  qed
qed


text \<open>The function on the top of the chain of calls is a Lua function with this prototype.\<close>

definition running :: "store \<Rightarrow> proto \<Rightarrow> callinfo \<Rightarrow> callinfo list \<Rightarrow> bool" where
  "running S p ci cil \<longleftrightarrow> s_ci S = ci # cil \<and> call_func ci < length (s_stack S) \<and>
     (\<exists>f e us. s_stack S ! call_func ci = TFunction f \<and> s_closures S f = Some (LClosure p e us))"

lemma fetch_running:
  assumes "running S p ci cil" "fetch S = Inr ((fr, i), S1)"
  shows "fr_proto fr = p" "i = p_code p ! nat (call_pc ci)" "s_ci S1 = ci\<lparr>call_pc := call_pc ci + 1\<rparr> # cil"
  using assms
  by (auto simp: running_def fetch_def cur_frame_def cur_ci_def getslot_def closure_value_def next_instr_def instr_at_def
      dojump_def change_ci_def bindV_Inr retV_def split: if_splits)

lemma vm_step_next:
  assumes cf: "cfun_balanced cfun" and run: "running S p ci cil" and sig: "sig \<in> {SNext, SCall}"
    and step: "vm_step pow (luaV_execute pow cfun n 1) cfun S = Inr (sig, S')"
  obtains callee ci' where "s_ci S' = callee @ ci' # cil" "length callee = (if sig = SCall then 1 else 0)"
    "call_pc ci' \<in> set (vm_next p (call_pc ci))"
proof -
  let ?pc = "call_pc ci"
  obtain fr i S1 where f: "fetch S = Inr ((fr, i), S1)"
    and e: "(case opcode_of (GET_OPCODE i) of Some opc \<Rightarrow> execute_op pow (luaV_execute pow cfun n 1) cfun fr i opc
      | None \<Rightarrow> retV SNext) S1 = Inr (sig, S')"
    using step unfolding vm_step_fetch by (auto simp: bindV_Inr)
  note fe = fetch_running [OF run f]
  show ?thesis
  proof (cases "opcode_of (GET_OPCODE i)")
    case None
    then show ?thesis using e fe by (intro that [of "[]"]) (auto simp: retV_def vm_next_def)
  next
    case (Some opc)
    then have e: "execute_op pow (luaV_execute pow cfun n 1) cfun fr i opc S1 = Inr (sig, S')" using e by simp
    consider "opc = OP_CALL" | "opc = OP_TAILCALL" | "opc = OP_RETURN" | "opc \<notin> {OP_CALL, OP_TAILCALL, OP_RETURN}" by blast
    then show ?thesis
    proof cases
      case 1
      then have "op_call cfun fr i S1 = Inr (sig, S')" using e by (simp add: execute_op_def)
      from op_call_spec [OF cf this fe(3)] consider "sig = SNext" "s_ci S' = s_ci S1" | new where "sig = SCall" "s_ci S' = new # s_ci S1"
        by blast
      then show ?thesis
      proof cases
        case 1
        with fe Some \<open>opc = OP_CALL\<close> show ?thesis by (intro that [of "[]"]) (auto simp: vm_next_def)
      next
        case (2 new)
        with fe Some \<open>opc = OP_CALL\<close> show ?thesis by (intro that [of "[new]"]) (auto simp: vm_next_def)
      qed
    next
      case 2
      then have "op_tailcall cfun fr i S1 = Inr (sig, S')" using e by (simp add: execute_op_def)
      from op_tailcall_spec [OF cf this fe(3)] show ?thesis
        using fe Some 2 sig by (intro that [of "[]"]) (auto simp: vm_next_def)
    next
      case 3
      then have "op_return fr i S1 = Inr (sig, S')" using e by (simp add: execute_op_def)
      from op_return_spec [OF this fe(3)] sig show ?thesis by auto
    next
      case 4
      have "sig = SNext" using execute_op_signal [OF e 4] .
      moreover obtain q where "q \<in> set (vm_next p ?pc)" "s_ci S' = (ci\<lparr>call_pc := ?pc + 1\<rparr>)\<lparr>call_pc := q\<rparr> # cil"
        using goes_op [OF cf fe(1,2) Some 4, of pow n] e fe(3) unfolding goes_def by fastforce
      ultimately show ?thesis by (intro that [of "[]" "ci\<lparr>call_pc := q\<rparr>"]) simp_all
    qed
  qed
qed

text \<open>
  C40. The interpreter stays in checked code.  While a function whose code the checker accepted
  runs and calls others, every step leaves its program counter at an instruction of its code
  -- never outside, never at the operand word of another instruction -- and the callers' frames
  untouched, except after an \<^verbatim>\<open>OP_LOADBOOL\<close> with C above 1.
\<close>

theorem execution_stays_in_checked_code:
  assumes "cfun_balanced cfun" "luaG_checkcode p = Inr True" "running S p ci cil"
    "starts p (call_pc ci)" "call_pc ci < sizecode p"
    "\<not> (LuaDebug.is_op OP_LOADBOOL (p_code p ! nat (call_pc ci)) \<and> 1 < GETARG_C (p_code p ! nat (call_pc ci)))"
    "vm_step pow (luaV_execute pow cfun fuel 1) cfun S = Inr (sig, S')" "sig = SNext \<or> sig = SCall"
  shows "\<exists>callee ci'. s_ci S' = callee @ ci' # cil \<and> length callee = (if sig = SCall then 1 else 0)
     \<and> starts p (call_pc ci') \<and> 0 \<le> call_pc ci' \<and> call_pc ci' < sizecode p"
proof -
  obtain callee ci' where "s_ci S' = callee @ ci' # cil" "length callee = (if sig = SCall then 1 else 0)"
    and pc: "call_pc ci' \<in> set (vm_next p (call_pc ci))"
    using vm_step_next [OF assms(1,3) _ assms(7)] assms(8) by blast
  with accepted_flow [OF checkcode_accepted [OF assms(2)] assms(4,5) pc assms(6)] starts_nonneg show ?thesis by blast
qed

text \<open>A store in which the constant function has been entered.\<close>

definition entered_store :: store where
  "entered_store = answer_store\<lparr>s_top := 4,
     s_ci := \<lparr>call_base = 2, call_func = 1, call_top = 4, call_pc = 0, call_nresults = 1, call_tailcalls = 0\<rparr> # s_ci answer_store\<rparr>"

lemma execution_stays_in_checked_code_witness:
  "\<exists>S' ci'. vm_step (\<lambda>a b. a) (luaV_execute (\<lambda>a b. a) no_results 3 1) no_results entered_store = Inr (SNext, S')
     \<and> s_ci S' = ci' # s_ci answer_store \<and> call_pc ci' < 3"
proof -
  let ?step = "vm_step (\<lambda>a b. a) (luaV_execute (\<lambda>a b. a) no_results 3 1) no_results entered_store"
  let ?ci = "\<lparr>call_base = 2, call_func = 1, call_top = 4, call_pc = 0, call_nresults = 1, call_tailcalls = 0\<rparr>"
  have "map_sum id fst ?step = Inr SNext" by code_simp
  then obtain S' where step: "?step = Inr (SNext, S')" by (cases ?step) auto
  have run: "running entered_store answer_proto ?ci (s_ci answer_store)"
    by (simp add: running_def entered_store_def answer_store_def)
  have ok: "luaG_checkcode answer_proto = Inr True" "sizecode answer_proto = 3"
    "\<not> LuaDebug.is_op OP_LOADBOOL (p_code answer_proto ! 0)" by code_simp+
  have "\<exists>callee ci'. s_ci S' = callee @ ci' # s_ci answer_store \<and> length callee = (if SNext = SCall then 1 else 0)
     \<and> starts answer_proto (call_pc ci') \<and> 0 \<le> call_pc ci' \<and> call_pc ci' < sizecode answer_proto"
    by (rule execution_stays_in_checked_code [OF no_results_balanced ok(1) run _ _ _ step]) (simp_all add: ok starts.first)
  with step ok(2) show ?thesis by auto
qed

end
