(* ===== verification/LuaLexSafe.thy ===== *)
theory LuaLexSafe
  imports LuaLex
begin

text \<open>
  Memory safety and progress of the lexical analyser (\<^verbatim>\<open>llex.c\<close>): on a state in order every
  operation of \<open>LuaLex\<close> ends, with a Lua error or with a state in order again, and reads no
  further than the characters that are left.
\<close>

text \<open>
  A state in order: the current character is \<^verbatim>\<open>EOZ\<close> or a byte with the stream right behind
  it, the buffer holds no more than its capacity, and the current token is one.
\<close>

definition lex_ok :: "lexstate \<Rightarrow> bool" where
  "lex_ok ls \<longleftrightarrow>
     (ls_current ls = EOZ \<or> (0 \<le> ls_current ls \<and> ls_current ls < 256 \<and> zio_ok (ls_z ls)))
     \<and> 0 < ls_buffsize ls \<and> int (length (ls_buff ls)) \<le> ls_buffsize ls
     \<and> tok_token (ls_t ls) \<le> TK_EOS"

lemma lexerror_msg_Inr: "\<exists>m. lexerror_msg ls msg = Inr m"
  by (simp add: lexerror_msg_def pushv_step.simps)

lemma lexerror_plain: "code_error (throw_syntax (lexerror_msg ls msg))"
  using lexerror_msg_Inr [of ls msg] by (auto simp: throw_syntax_def)

lemma save_safe:
  "lex_ok ls \<Longrightarrow> safe (save ls c) (\<lambda>ls'. lex_ok ls' \<and> ls_current ls' = ls_current ls \<and> lex_left ls' = lex_left ls)"
  using lexerror_plain [of ls] by (auto simp: save_def Let_def lex_ok_def lex_left_def)

lemma token2str_safe: "tok \<le> TK_EOS \<Longrightarrow> safe (luaX_token2str tok) (\<lambda>_. True)"
  by (auto simp: luaX_token2str_def TK_defs luaX_tokens_def pushv_step.simps)

lemma near_Inr: "\<exists>r. luaO_pushvfstring (''%s near '' @ LUA_QS) [FStr (Some m), FStr (Some t)] = Inr r"
  by (simp add: LUA_QS_def pushv_step.simps)

lemma lexerror_safe [simp]:
  assumes "lex_ok ls" "tok \<le> TK_EOS"
  shows "code_error (luaX_lexerror ls msg tok)"
proof -
  obtain m where m: "lexerror_msg ls msg = Inr m" using lexerror_msg_Inr by blast
  have "safe (txtToken ls tok) (\<lambda>_. True)"
    unfolding txtToken_def
    using token2str_safe [OF assms(2)] save_safe [OF assms(1), of 0]
    by (auto intro: safe_bindE)
  then have "safe (bindE (txtToken ls tok) (\<lambda>t.
      luaO_pushvfstring (''%s near '' @ LUA_QS) [FStr (Some m), FStr (Some t)])) (\<lambda>_. True)"
  proof (rule safe_bindE)
    show "safe (luaO_pushvfstring (''%s near '' @ LUA_QS) [FStr (Some m), FStr (Some t)]) (\<lambda>_. True)" for t
      using near_Inr [of m t] by (elim exE) (simp only: safe_Inr)
  qed
  then show ?thesis
    unfolding luaX_lexerror_def throw_syntax_def m bindE.simps safe_def by (simp split: sum.splits)
qed

lemma lex_next_safe:
  assumes "lex_ok ls" "ls_current ls \<noteq> EOZ"
  shows "safe (lex_next ls) (\<lambda>ls'. lex_ok ls' \<and> lex_left ls' < lex_left ls)"
proof -
  have z: "zio_ok (ls_z ls)" using assms by (simp add: lex_ok_def)
  have "safe (lex_next ls) lex_ok"
  proof (cases "zrest (ls_z ls)")
    case Nil
    with z obtain z' where "zgetc (ls_z ls) = Inr (EOZ, z')" by (rule zgetc_Nil)
    with assms(1) show ?thesis by (simp add: lex_next_def lex_ok_def)
  next
    case (Cons c cs)
    with z obtain z' where "zgetc (ls_z ls) = Inr (char2int c, z')" "zio_ok z'" by (rule zgetc_Cons)
    with assms(1) show ?thesis by (simp add: lex_next_def lex_ok_def)
  qed
  with assms(2) show ?thesis by (auto elim: safe_mono dest: lex_next_less)
qed

lemma save_and_next_safe:
  "lex_ok ls \<Longrightarrow> ls_current ls \<noteq> EOZ \<Longrightarrow> safe (save_and_next ls) (\<lambda>ls'. lex_ok ls' \<and> lex_left ls' < lex_left ls)"
  unfolding save_and_next_def
  by (rule safe_bindE [OF save_safe]) (auto elim: safe_mono [OF lex_next_safe])

lemma inclinenumber_safe:
  assumes "lex_ok ls" "ls_current ls \<noteq> EOZ"
  shows "safe (inclinenumber ls) (\<lambda>ls'. lex_ok ls' \<and> lex_left ls' < lex_left ls)"
  unfolding inclinenumber_def
proof (rule safe_bindE [OF lex_next_safe [OF assms]])
  fix ls1 assume 1: "lex_ok ls1 \<and> lex_left ls1 < lex_left ls"
  have "safe (if currIsNewline ls1 \<and> ls_current ls1 \<noteq> ls_current ls then lex_next ls1 else Inr ls1)
      (\<lambda>ls2. lex_ok ls2 \<and> lex_left ls2 < lex_left ls)"
    using 1 currIsNewline_not_EOZ [of ls1]
    by (auto intro!: safe_mono [OF lex_next_safe [of ls1]])
  then show "safe (bindE (if currIsNewline ls1 \<and> ls_current ls1 \<noteq> ls_current ls then lex_next ls1 else Inr ls1) (\<lambda>ls2.
      let ls3 = ls2\<lparr>ls_linenumber := ls_linenumber ls2 + 1\<rparr>
      in if ls_linenumber ls3 \<ge> MAX_INT then Inl (luaX_syntaxerror ls3 ''chunk has too many lines'')
         else Inr ls3)) (\<lambda>ls'. lex_ok ls' \<and> lex_left ls' < lex_left ls)"
  proof (rule safe_bindE)
    fix ls2 assume 2: "lex_ok ls2 \<and> lex_left ls2 < lex_left ls"
    let ?ls3 = "ls2\<lparr>ls_linenumber := ls_linenumber ls2 + 1\<rparr>"
    have "lex_ok ?ls3" "tok_token (ls_t ?ls3) \<le> TK_EOS" "lex_left ?ls3 < lex_left ls"
      using 2 by (auto simp: lex_ok_def lex_left_def)
    then show "safe (let ls3 = ?ls3 in if ls_linenumber ls3 \<ge> MAX_INT
        then Inl (luaX_syntaxerror ls3 ''chunk has too many lines'') else Inr ls3)
        (\<lambda>ls'. lex_ok ls' \<and> lex_left ls' < lex_left ls)"
      unfolding Let_def luaX_syntaxerror_def by simp
  qed
qed

text \<open>Every operation below keeps \<open>lex_ok\<close> and never moves backwards.\<close>

definition lex_step :: "lexstate \<Rightarrow> lexstate \<Rightarrow> bool" where
  "lex_step ls ls' \<longleftrightarrow> lex_ok ls' \<and> lex_left ls' \<le> lex_left ls"

lemma lex_step_trans: "lex_step a b \<Longrightarrow> lex_step b c \<Longrightarrow> lex_step a c"
  by (simp add: lex_step_def)

lemma save_while_safe:
  "lex_ok ls \<Longrightarrow> safe (save_while P ls) (lex_step ls)"
proof (induction P ls rule: save_while.induct)
  case (1 P ls)
  show ?case
  proof (cases "ls_current ls \<noteq> EOZ \<and> P (ls_current ls)")
    case True
    have "safe (bindE (save_and_next ls) (save_while P)) (lex_step ls)"
    proof (rule safe_bindE [OF save_and_next_safe [OF "1.prems"]])
      fix x assume "save_and_next ls = Inr x" and x: "lex_ok x \<and> lex_left x < lex_left ls"
      then have "safe (save_while P x) (lex_step x)" using "1.IH" True by blast
      then show "safe (save_while P x) (lex_step ls)"
        using x by (auto elim!: safe_mono simp: lex_step_def)
    qed (use True in auto)
    with True show ?thesis by (subst save_while.simps) simp
  next
    case False
    with "1.prems" show ?thesis by (subst save_while.simps) (auto simp: lex_step_def)
  qed
qed

lemma strchr_not_EOZ: "CHR 0xFF \<notin> set cs \<Longrightarrow> strchr cs c \<Longrightarrow> c \<noteq> EOZ"
proof
  assume "CHR 0xFF \<notin> set cs" "strchr cs c" "c = EOZ"
  moreover have "int2char EOZ = CHR 0xFF" "NUL \<noteq> CHR 0xFF" by code_simp+
  ultimately show False by (auto simp: strchr_def)
qed

lemma check_next_safe:
  "lex_ok ls \<Longrightarrow> CHR 0xFF \<notin> set cs \<Longrightarrow> safe (check_next ls cs) (\<lambda>(b, ls'). lex_step ls ls')"
  unfolding check_next_def
  by (auto simp: lex_step_def intro!: safe_bindE [OF save_and_next_safe] dest: strchr_not_EOZ)

lemma trydecpoint_safe: "lex_ok ls \<Longrightarrow> safe (trydecpoint ls) (\<lambda>(r, ls'). lex_step ls ls')"
proof -
  assume "lex_ok ls"
  then have "lex_ok (buffreplace (ls\<lparr>ls_decpoint := d\<rparr>) a b)"
    "lex_ok (buffreplace (buffreplace (ls\<lparr>ls_decpoint := d\<rparr>) a b) a' b')"
    "lex_left (buffreplace (ls\<lparr>ls_decpoint := d\<rparr>) a b) = lex_left ls" for a b a' b' d
    by (simp_all add: lex_ok_def buffreplace_def lex_left_def)
  then show ?thesis
    by (auto simp: trydecpoint_def Let_def lex_step_def TK_defs split: option.splits)
qed

lemma lex_step_refl: "lex_ok ls \<Longrightarrow> lex_step ls ls"
  by (simp add: lex_step_def)

lemma lex_stepI: "lex_ok ls' \<and> lex_left ls' < lex_left ls \<Longrightarrow> lex_step ls ls'"
  by (simp add: lex_step_def)

lemma lex_step_ok: "lex_step ls ls' \<Longrightarrow> lex_ok ls'"
  by (simp add: lex_step_def)

lemma lex_ok_simps [simp]:
  "lex_ok (luaX_newstring ls s) = lex_ok ls" "lex_left (luaX_newstring ls s) = lex_left ls"
  "lex_step ls (luaX_newstring ls' s) = lex_step ls ls'"
  by (auto simp: lex_ok_def resetbuffer_def luaX_newstring_def lex_left_def lex_step_def)

lemma lex_ok_resetbuffer: "lex_ok ls \<Longrightarrow> lex_ok (resetbuffer ls)"
  by (auto simp: lex_ok_def resetbuffer_def)

text \<open>Sequencing two steps; the first may be known to move.\<close>

lemma step_bindE:
  assumes "safe m (lex_step ls)" "\<And>x. m = Inr x \<Longrightarrow> lex_ok x \<Longrightarrow> safe (f x) (lex_step x)"
  shows "safe (bindE m f) (lex_step ls)"
  using assms(1)
  by (rule safe_bindE) (auto intro!: safe_mono [OF assms(2)] elim: lex_step_trans dest: lex_step_ok)

lemma step_bindE_pair:
  assumes "safe m (lex_step ls)" "\<And>x. m = Inr x \<Longrightarrow> lex_ok x \<Longrightarrow> safe (f x) (\<lambda>(r, y). lex_step x y)"
  shows "safe (bindE m f) (\<lambda>(r, y). lex_step ls y)"
  using assms(1)
  by (rule safe_bindE) (auto intro!: safe_mono [OF assms(2)] elim: lex_step_trans dest: lex_step_ok)

lemma step_pair_bindE:
  assumes "safe m (\<lambda>(r, y). lex_step ls y)"
    "\<And>r x. m = Inr (r, x) \<Longrightarrow> lex_ok x \<Longrightarrow> safe (f (r, x)) (lex_step x)"
  shows "safe (bindE m f) (lex_step ls)"
  using assms(1)
  by (rule safe_bindE) (auto intro!: safe_mono [OF assms(2)] elim: lex_step_trans dest: lex_step_ok)

lemma step_pair_bindE_pair:
  assumes "safe m (\<lambda>(r, y). lex_step ls y)"
    "\<And>r x. m = Inr (r, x) \<Longrightarrow> lex_ok x \<Longrightarrow> safe (f (r, x)) (\<lambda>(r, y). lex_step x y)"
  shows "safe (bindE m f) (\<lambda>(r, y). lex_step ls y)"
  using assms(1)
  by (rule safe_bindE) (auto intro!: safe_mono [OF assms(2)] elim: lex_step_trans dest: lex_step_ok)

text \<open>The first step is known to move.\<close>

lemma move_bindE_pair:
  assumes "safe m (\<lambda>x. lex_ok x \<and> lex_left x < lex_left ls)"
    "\<And>x. m = Inr x \<Longrightarrow> lex_ok x \<Longrightarrow> safe (f x) (\<lambda>(r, y). lex_step x y)"
  shows "safe (bindE m f) (\<lambda>(r, y). lex_ok y \<and> lex_left y < lex_left ls)"
  using assms(1)
  by (rule safe_bindE) (auto intro!: safe_mono [OF assms(2)] simp: lex_step_def)

lemma save_step: "lex_ok ls \<Longrightarrow> safe (save ls c) (lex_step ls)"
  by (rule safe_mono [OF save_safe]) (auto simp: lex_step_def)

lemma save_and_next_step: "lex_ok ls \<Longrightarrow> ls_current ls \<noteq> EOZ \<Longrightarrow> safe (save_and_next ls) (lex_step ls)"
  by (rule safe_mono [OF save_and_next_safe]) (auto intro: lex_stepI)

lemma lex_next_step: "lex_ok ls \<Longrightarrow> ls_current ls \<noteq> EOZ \<Longrightarrow> safe (lex_next ls) (lex_step ls)"
  by (rule safe_mono [OF lex_next_safe]) (auto intro: lex_stepI)

lemma inclinenumber_step: "lex_ok ls \<Longrightarrow> ls_current ls \<noteq> EOZ \<Longrightarrow> safe (inclinenumber ls) (lex_step ls)"
  by (rule safe_mono [OF inclinenumber_safe]) (auto intro: lex_stepI)

lemma skip_equals_safe: "lex_ok ls \<Longrightarrow> safe (skip_equals ls n) (\<lambda>(k, ls'). lex_step ls ls')"
proof (induction ls n rule: skip_equals.induct)
  case (1 ls n)
  show ?case
  proof (cases "ls_current ls = 61")
    case True
    then have "ls_current ls \<noteq> EOZ" by (simp add: EOZ_def)
    with 1 True show ?thesis
      by (subst skip_equals.simps) (auto intro!: step_bindE_pair save_and_next_step)
  next
    case False
    with "1.prems" show ?thesis by (subst skip_equals.simps) (simp add: lex_step_refl)
  qed
qed

lemma skip_sep_safe:
  "lex_ok ls \<Longrightarrow> ls_current ls \<noteq> EOZ \<Longrightarrow> safe (skip_sep ls) (\<lambda>(k, ls'). lex_step ls ls')"
  unfolding skip_sep_def Let_def
  by (auto intro!: step_bindE_pair save_and_next_step step_pair_bindE_pair skip_equals_safe lex_step_refl)

lemma read_decesc_safe: "lex_ok ls \<Longrightarrow> safe (read_decesc i ls c) (\<lambda>(k, ls'). lex_step ls ls')"
proof (induction i arbitrary: ls c)
  case (Suc i)
  have "isdigit (ls_current ls) \<Longrightarrow> ls_current ls \<noteq> EOZ" by (auto simp: isdigit_def EOZ_def)
  with Suc show ?case by (auto intro!: step_bindE_pair lex_next_step lex_step_refl)
qed (simp add: lex_step_refl)

lemma TK_le [simp]: "TK_STRING \<le> TK_EOS" "TK_NUMBER \<le> TK_EOS" "91 \<le> TK_EOS" "0 \<le> TK_EOS"
  by (simp_all add: TK_defs)

lemma save_current_EOZ: "save ls c = Inr ls' \<Longrightarrow> ls_current ls' = EOZ \<longleftrightarrow> ls_current ls = EOZ"
  by (simp add: save_fields)

lemma read_escape_safe: "lex_ok ls \<Longrightarrow> safe (read_escape ls) (lex_step ls)"
proof -
  assume ok: "lex_ok ls"
  have ne: "simple_escape (ls_current ls) = Some c \<Longrightarrow> ls_current ls \<noteq> EOZ" for c
    by (auto simp: simple_escape_def EOZ_def split: if_splits)
  show ?thesis
    unfolding read_escape_def
    using ok ne currIsNewline_not_EOZ [of ls]
    by (auto split: option.split simp: save_current_EOZ
        intro!: step_bindE save_step lex_next_step inclinenumber_step lex_step_refl save_and_next_step
          step_pair_bindE read_decesc_safe)
qed

lemma skip_equals_count: "skip_equals ls n = Inr (k, ls') \<Longrightarrow> n \<le> k"
proof (induction ls n rule: skip_equals.induct)
  case (1 ls n)
  then show ?case
    by (subst (asm) skip_equals.simps) (fastforce simp: bindE_simps split: if_splits)
qed

lemma skip_sep_current: "skip_sep ls = Inr (k, ls') \<Longrightarrow> 0 \<le> k \<Longrightarrow> ls_current ls' = ls_current ls"
  by (auto simp: skip_sep_def bindE_simps Let_def split: if_splits dest!: skip_equals_count)

lemma step_resetbuffer: "lex_step ls ls' \<Longrightarrow> lex_step ls (resetbuffer ls')"
  by (simp add: lex_step_def lex_ok_resetbuffer)

lemma lex_step_from_reset: "lex_step (resetbuffer ls) = lex_step ls"
  by (simp add: lex_step_def fun_eq_iff)

lemma long_string_loop_safe:
  "lex_ok ls \<Longrightarrow> 0 \<le> sep \<Longrightarrow> safe (long_string_loop ls keep sep) (lex_step ls)"
proof (induction ls keep sep rule: long_string_loop.induct)
  case (1 ls keep sep)
  note ok = "1.prems"(1)
  consider (eoz) "ls_current ls = EOZ" | (lb) "ls_current ls = 91" | (rb) "ls_current ls = 93"
    | (nl) "ls_current ls \<noteq> EOZ" "ls_current ls \<noteq> 91" "ls_current ls \<noteq> 93" "currIsNewline ls"
    | (ch) "ls_current ls \<noteq> EOZ" "ls_current ls \<noteq> 91" "ls_current ls \<noteq> 93" "\<not> currIsNewline ls"
    by blast
  then show ?case
  proof cases
    case eoz
    with ok show ?thesis by (subst long_string_loop.simps) (simp add: EOZ_def)
  next
    case lb
    then have ne: "ls_current ls \<noteq> EOZ" by (simp add: EOZ_def)
    have body: "safe (if k = sep then bindE (save_and_next ls1) (\<lambda>ls2.
          if sep = 0 then Inl (luaX_lexerror ls2 ''nesting of [[...]] is deprecated'' 91)
          else long_string_loop ls2 keep sep) else long_string_loop ls1 keep sep) (lex_step ls1)"
      if k: "skip_sep ls = Inr (k, ls1)" and ok1: "lex_ok ls1" for k ls1
      using "1.IH"(1,2) [OF ne lb k refl] skip_sep_current [OF k] ok1 "1.prems"(2) ne
      by (auto intro!: step_bindE save_and_next_step)
    show ?thesis
      by (subst long_string_loop.simps)
        (auto simp: ne lb EOZ_def intro!: step_pair_bindE [OF skip_sep_safe [OF ok ne]] body)
  next
    case rb
    then have ne: "ls_current ls \<noteq> EOZ" "ls_current ls \<noteq> 91" by (simp_all add: EOZ_def)
    have body: "safe (if k = sep then save_and_next ls1 else long_string_loop ls1 keep sep) (lex_step ls1)"
      if k: "skip_sep ls = Inr (k, ls1)" and ok1: "lex_ok ls1" for k ls1
      using "1.IH"(3) [OF ne rb k refl] skip_sep_current [OF k] ok1 "1.prems"(2) ne
      by (auto intro!: save_and_next_step)
    show ?thesis
      by (subst long_string_loop.simps)
        (auto simp: ne rb EOZ_def intro!: step_pair_bindE [OF skip_sep_safe [OF ok ne(1)]] body)
  next
    case nl
    have body: "safe (bindE (inclinenumber ls1) (\<lambda>ls2.
        long_string_loop (if keep then ls2 else resetbuffer ls2) keep sep)) (lex_step ls1)"
      if k: "save ls 10 = Inr ls1" and ok1: "lex_ok ls1" for ls1
    proof (rule step_bindE)
      show "safe (inclinenumber ls1) (lex_step ls1)"
        using nl(1) ok1 by (simp add: inclinenumber_step save_fields(1) [OF k])
      fix x assume x: "inclinenumber ls1 = Inr x" and okx: "lex_ok x"
      show "safe (long_string_loop (if keep then x else resetbuffer x) keep sep) (lex_step x)"
        using "1.IH"(4) [OF nl k x] okx "1.prems"(2)
        by (auto simp: lex_ok_resetbuffer lex_step_from_reset split: if_splits)
    qed
    show ?thesis
      using nl by (subst long_string_loop.simps) (auto intro!: step_bindE [OF save_step [OF ok]] body)
  next
    case ch
    show ?thesis
      using ch ok "1.IH"(5,6) [OF ch] "1.prems"(2)
      by (subst long_string_loop.simps)
        (cases keep; auto simp: EOZ_def intro!: step_bindE save_and_next_step lex_next_step)
  qed
qed

lemma read_long_string_safe:
  assumes "lex_ok ls" "ls_current ls \<noteq> EOZ" "0 \<le> sep"
  shows "safe (read_long_string ls keep sep) (\<lambda>(s, ls'). lex_step ls ls')"
  unfolding read_long_string_def Let_def
  using assms currIsNewline_not_EOZ
  by (auto simp: lex_step_refl
      intro!: step_bindE_pair save_and_next_step inclinenumber_step long_string_loop_safe)

lemma read_string_loop_safe:
  "lex_ok ls \<Longrightarrow> safe (read_string_loop ls del) (\<lambda>ls'. lex_step ls ls' \<and> ls_current ls' = del)"
proof (induction ls del rule: read_string_loop.induct)
  case (1 ls del)
  consider (del) "ls_current ls = del" | (eoz) "ls_current ls \<noteq> del" "ls_current ls = EOZ"
    | (nl) "ls_current ls \<noteq> del" "ls_current ls \<noteq> EOZ" "currIsNewline ls"
    | (esc) "ls_current ls \<noteq> del" "ls_current ls \<noteq> EOZ" "\<not> currIsNewline ls" "ls_current ls = 92"
    | (ch) "ls_current ls \<noteq> del" "ls_current ls \<noteq> EOZ" "\<not> currIsNewline ls" "ls_current ls \<noteq> 92"
    by blast
  then show ?case
  proof cases
    case esc
    have "safe (read_string_loop y del) (\<lambda>z. lex_step ls z \<and> ls_current z = del)"
      if "lex_next ls = Inr x" "read_escape x = Inr y" "lex_step ls x" "lex_step x y" for x y
      using lex_step_ok [OF that(4)] lex_step_trans [OF that(3,4)]
      by (auto intro!: safe_mono [OF "1.IH"(1) [OF esc that(1,2)]] intro: lex_step_trans)
    then show ?thesis
      using esc "1.prems"
      by (subst read_string_loop.simps)
        (auto intro!: safe_bindE [OF lex_next_step] safe_bindE [OF read_escape_safe] dest: lex_step_ok)
  next
    case ch
    have "safe (read_string_loop x del) (\<lambda>z. lex_step ls z \<and> ls_current z = del)"
      if "save_and_next ls = Inr x" "lex_step ls x" for x
      using lex_step_ok [OF that(2)] that(2)
      by (auto intro!: safe_mono [OF "1.IH"(2) [OF ch that(1)]] intro: lex_step_trans)
    then show ?thesis
      using ch "1.prems"
      by (subst read_string_loop.simps) (auto intro!: safe_bindE [OF save_and_next_step])
  qed (use "1.prems" in \<open>subst read_string_loop.simps; simp add: lex_step_refl\<close>)+
qed

lemma read_string_safe:
  assumes "lex_ok ls" "ls_current ls = del" "del \<noteq> EOZ"
  shows "safe (read_string ls del) (\<lambda>(s, ls'). lex_ok ls' \<and> lex_left ls' < lex_left ls)"
proof -
  have "safe (read_string_loop x del) (\<lambda>y. lex_step x y \<and> ls_current y = del)" if "lex_ok x" for x
    using that by (rule read_string_loop_safe)
  then show ?thesis
    unfolding read_string_def Let_def
    using assms
    by (intro move_bindE_pair [OF save_and_next_safe])
      (auto intro!: safe_bindE save_and_next_step intro: lex_step_trans dest: lex_step_ok)
qed

lemma read_numeral_safe:
  assumes "lex_ok ls" "ls_current ls \<noteq> EOZ"
  shows "safe (read_numeral ls) (\<lambda>(r, ls'). lex_ok ls' \<and> lex_left ls' < lex_left ls)"
proof -
  have repl: "lex_ok (buffreplace x a b) = lex_ok x" "lex_step x (buffreplace y a b) = lex_step x y"
    "lex_step (buffreplace x a b) = lex_step x" for x y a b
    by (auto simp: lex_ok_def lex_step_def lex_left_def buffreplace_def fun_eq_iff)
  have "safe (let ls = buffreplace x CHR ''.'' (ls_decpoint x)
     in case luaO_str2d (ls_locale ls) (ls_buff ls) of Some r \<Rightarrow> Inr (r, ls) | None \<Rightarrow> trydecpoint ls)
     (\<lambda>(r, y). lex_step x y)" if "lex_ok x" for x
    using that trydecpoint_safe [of "buffreplace x CHR ''.'' (ls_decpoint x)"]
    by (auto simp: Let_def repl lex_step_refl split: option.split)
  then show ?thesis
    unfolding read_numeral_def
    using assms
    by (intro move_bindE_pair [OF save_and_next_safe])
      (auto intro!: step_bindE_pair step_pair_bindE_pair save_while_safe check_next_safe save_step lex_step_refl)
qed

lemma skip_line_safe: "lex_ok ls \<Longrightarrow> safe (skip_line ls) (lex_step ls)"
proof (induction ls rule: skip_line.induct)
  case (1 ls)
  show ?case
    by (subst skip_line.simps) (use 1 in \<open>auto intro!: step_bindE lex_next_step lex_step_refl\<close>)
qed

lemma skip_comment_safe: "lex_ok ls \<Longrightarrow> safe (skip_comment ls) (lex_step ls)"
proof -
  assume ok: "lex_ok ls"
  have body: "safe (let ls2 = resetbuffer ls1 in
        if sep \<ge> 0 then
          bindE (read_long_string ls2 False sep) (\<lambda>(_, ls3). Inr (resetbuffer ls3))
        else skip_line ls2) (lex_step ls1)"
    if k: "skip_sep ls = Inr (sep, ls1)" and ls: "ls_current ls = 91" and ok1: "lex_ok ls1" for sep ls1
  proof -
    have r: "safe (read_long_string (resetbuffer ls1) False sep) (\<lambda>(_, y). lex_step ls1 y)" if "0 \<le> sep"
      using read_long_string_safe [of "resetbuffer ls1" sep False] that ok1 skip_sep_current [OF k that] ls
      by (simp add: lex_ok_resetbuffer lex_step_from_reset) (simp add: resetbuffer_def EOZ_def)
    show ?thesis
      using skip_line_safe [of "resetbuffer ls1"] ok1
      by (auto simp: Let_def lex_ok_resetbuffer lex_step_from_reset step_resetbuffer lex_step_refl
          intro!: step_pair_bindE r)
  qed
  have "ls_current ls = 91 \<Longrightarrow> ls_current ls \<noteq> EOZ" by (simp add: EOZ_def)
  then show ?thesis
    unfolding skip_comment_def
    using ok by (auto intro!: skip_line_safe step_pair_bindE skip_sep_safe body)
qed

text \<open>What a call of \<open>llex\<close> promises about the token it returns.\<close>

definition token_ok :: "int \<Rightarrow> bool" where
  "token_ok t \<longleftrightarrow> 0 \<le> t \<and> t \<le> TK_EOS"

definition lex_result :: "lexstate \<Rightarrow> int \<times> seminfo \<times> lexstate \<Rightarrow> bool" where
  "lex_result ls r \<longleftrightarrow> (case r of (t, s, ls') \<Rightarrow>
     lex_ok ls' \<and> token_ok t \<and>
     (if t = TK_EOS then ls_current ls' = EOZ \<and> lex_left ls' \<le> lex_left ls else lex_left ls' < lex_left ls))"

lemma lex_resultI:
  "lex_step x ls' \<Longrightarrow> lex_left x < lex_left ls \<Longrightarrow> 0 \<le> t \<Longrightarrow> t < TK_EOS \<Longrightarrow> lex_result ls (t, s, ls')"
  by (simp add: lex_result_def token_ok_def lex_step_def)

lemma lex_result_tokenI:
  "lex_ok ls' \<Longrightarrow> lex_left ls' < lex_left ls \<Longrightarrow> 0 \<le> t \<Longrightarrow> t < TK_EOS \<Longrightarrow> lex_result ls (t, s, ls')"
  by (simp add: lex_result_def token_ok_def)

lemma lex_result_mono: "lex_left x \<le> lex_left ls \<Longrightarrow> lex_result x r \<Longrightarrow> lex_result ls r"
  by (auto simp: lex_result_def split: if_splits)

lemma two_char_safe:
  "lex_ok ls \<Longrightarrow> ls_current ls \<noteq> EOZ \<Longrightarrow> 0 \<le> c \<Longrightarrow> c < TK_EOS \<Longrightarrow> 0 \<le> tk \<Longrightarrow> tk < TK_EOS \<Longrightarrow>
    safe (two_char ls c tk) (lex_result ls)"
  unfolding two_char_def
  by (rule safe_bindE [OF lex_next_safe])
    (auto simp: EOZ_def intro!: safe_bindE [OF lex_next_step] intro: lex_resultI lex_step_refl)

lemma skip_sep_moves:
  "lex_ok ls \<Longrightarrow> ls_current ls \<noteq> EOZ \<Longrightarrow>
    safe (skip_sep ls) (\<lambda>(k, ls'). lex_ok ls' \<and> lex_left ls' < lex_left ls)"
  by (rule safe_mono [OF skip_sep_safe]) (auto dest: lex_step_ok skip_sep_less)

lemma TK_less [simp]: "TK_STRING < TK_EOS" "TK_NUMBER < TK_EOS" "TK_NAME < TK_EOS" "TK_DOTS < TK_EOS"
  "TK_CONCAT < TK_EOS" "TK_EQ < TK_EOS" "TK_LE < TK_EOS" "TK_GE < TK_EOS" "TK_NE < TK_EOS" "n < 256 \<Longrightarrow> n < TK_EOS"
  "0 \<le> TK_STRING" "0 \<le> TK_NUMBER" "0 \<le> TK_NAME" "0 \<le> TK_DOTS"
  "0 \<le> TK_CONCAT" "0 \<le> TK_EQ" "0 \<le> TK_LE" "0 \<le> TK_GE" "0 \<le> TK_NE"
  by (simp_all add: TK_defs)

lemma lex_dots_safe:
  assumes "lex_ok ls" "ls_current ls \<noteq> EOZ"
  shows "safe (lex_dots ls) (lex_result ls)"
proof -
  have digit: "isdigit c \<Longrightarrow> c \<noteq> EOZ" for c by (auto simp: isdigit_def EOZ_def)
  have tail: "safe (if two then bindE (check_next ls2 ''.'') (\<lambda>(three, ls3).
       Inr (if three then TK_DOTS else TK_CONCAT, SemNone, ls3))
     else if \<not> isdigit (ls_current ls2) then Inr (46, SemNone, ls2)
     else bindE (read_numeral ls2) (\<lambda>(r, ls3). Inr (TK_NUMBER, SemNum r, ls3))) (lex_result ls)"
    if "lex_ok ls2" "lex_left ls2 < lex_left ls" for two ls2
    using that digit
    by (auto intro!: safe_bindE [OF check_next_safe] safe_bindE [OF read_numeral_safe] lex_result_tokenI
        simp: lex_step_def)
  show ?thesis
    unfolding lex_dots_def
    using assms
    by (auto intro!: safe_bindE [OF save_and_next_safe] safe_bindE [OF check_next_safe] tail
        simp: lex_step_def)
qed

lemma reserved_from_bound: "0 \<le> reserved_from i ws s \<and> reserved_from i ws s \<le> int (i + length ws)"
  by (induction i ws s rule: reserved_from.induct) auto

lemma lex_name_safe:
  assumes "lex_ok ls" "ls_current ls \<noteq> EOZ"
  shows "safe (lex_name ls) (lex_result ls)"
proof -
  have "0 < reserved s \<Longrightarrow> 0 \<le> reserved s - 1 + FIRST_RESERVED \<and> reserved s - 1 + FIRST_RESERVED < TK_EOS" for s
    using reserved_from_bound [of 0 "take NUM_RESERVED luaX_tokens" s]
    by (simp add: reserved_def TK_defs NUM_RESERVED_def FIRST_RESERVED_def luaX_tokens_def)
  then show ?thesis
    unfolding lex_name_def Let_def
    using assms
    by (intro safe_bindE [OF save_and_next_safe] safe_bindE [OF save_while_safe])
      (auto intro: lex_resultI)
qed

lemma lex_bracket_safe:
  assumes "lex_ok ls" "ls_current ls = 91"
  shows "safe (lex_bracket ls) (lex_result ls)"
  unfolding lex_bracket_def
proof (rule safe_bindE [OF skip_sep_moves])
  show "lex_ok ls" "ls_current ls \<noteq> EOZ" using assms by (simp_all add: EOZ_def)
  fix x assume x: "skip_sep ls = Inr x" "case x of (k, ls') \<Rightarrow> lex_ok ls' \<and> lex_left ls' < lex_left ls"
  obtain sep ls1 where xe: "x = (sep, ls1)" by (cases x)
  have "0 \<le> sep \<Longrightarrow> ls_current ls1 \<noteq> EOZ"
    using skip_sep_current [of ls sep ls1] x(1) xe assms(2) by (simp add: EOZ_def)
  then show "safe (case x of (sep, ls1) \<Rightarrow> if sep \<ge> 0 then
       bindE (read_long_string ls1 True sep) (\<lambda>(s, ls2). Inr (TK_STRING, s, ls2))
     else if sep = -1 then Inr (91, SemNone, ls1)
     else Inl (luaX_lexerror ls1 ''invalid long string delimiter'' TK_STRING)) (lex_result ls)"
    using x(2) xe by (auto intro!: safe_bindE [OF read_long_string_safe] lex_result_tokenI simp: lex_step_def)
qed

lemma llex_loop_safe: "lex_ok ls \<Longrightarrow> safe (llex_loop ls) (lex_result ls)"
proof (induction ls rule: llex_loop.induct)
  case (1 ls)
  note ok = "1.prems"
  have cur: "ls_current ls \<noteq> EOZ \<Longrightarrow> 0 \<le> ls_current ls \<and> ls_current ls < 256"
    using ok by (auto simp: lex_ok_def)
  have again: "safe (bindE m llex_loop) (lex_result ls)"
    if "safe m (\<lambda>x. lex_ok x \<and> lex_left x < lex_left ls)"
      "\<And>x. m = Inr x \<Longrightarrow> lex_ok x \<Longrightarrow> safe (llex_loop x) (lex_result x)" for m
    using that(1)
  proof (rule safe_bindE)
    fix x assume "m = Inr x" "lex_ok x \<and> lex_left x < lex_left ls"
    then show "safe (llex_loop x) (lex_result ls)"
      using lex_result_mono [of x ls] by (intro safe_mono [OF that(2)]) simp_all
  qed
  let ?c = "ls_current ls"
  consider (nl) "currIsNewline ls" | (dash) "\<not> currIsNewline ls" "?c = 45" | (lb) "?c = 91"
    | (eoz) "?c = EOZ" | (sp) "\<not> currIsNewline ls" "isspace ?c"
    | (op) "?c \<in> {61, 60, 62, 126, 34, 39, 46}"
    | (other) "\<not> currIsNewline ls" "?c \<noteq> EOZ" "\<not> isspace ?c" "?c \<notin> {61, 60, 62, 126, 34, 39, 46, 45, 91}"
    by blast
  then show ?case
  proof cases
    case nl
    have "safe (bindE (inclinenumber ls) llex_loop) (lex_result ls)"
      using ok currIsNewline_not_EOZ [OF nl] "1.IH"(1) [OF nl]
      by (intro again inclinenumber_safe)
    with nl show ?thesis by (subst llex_loop.simps) (simp only: if_True)
  next
    case dash
    then have ne: "?c \<noteq> EOZ" by (simp add: EOZ_def)
    have body: "safe (bindE (lex_next ls1) (\<lambda>ls2. bindE (skip_comment ls2) llex_loop)) (lex_result ls)"
      if l1: "lex_next ls = Inr ls1" "lex_ok ls1" "lex_left ls1 < lex_left ls" "ls_current ls1 = 45" for ls1
    proof (rule safe_bindE [OF lex_next_safe])
      show "lex_ok ls1" "ls_current ls1 \<noteq> EOZ" using l1 by (simp_all add: EOZ_def)
      fix ls2 assume l2: "lex_next ls1 = Inr ls2" "lex_ok ls2 \<and> lex_left ls2 < lex_left ls1"
      then show "safe (bindE (skip_comment ls2) llex_loop) (lex_result ls)"
      proof (intro safe_bindE [OF skip_comment_safe])
        fix ls3 assume l3: "skip_comment ls2 = Inr ls3" "lex_step ls2 ls3"
        have "safe (llex_loop ls3) (lex_result ls3)"
          using "1.IH"(2) [OF dash l1(1) _ l2(1) l3(1)] l1(4) lex_step_ok [OF l3(2)] by simp
        then show "safe (llex_loop ls3) (lex_result ls)"
          using l1(3) l2(2) l3(2) lex_result_mono [of ls3 ls] by (elim safe_mono) (simp add: lex_step_def)
      qed simp
    qed
    have "safe (bindE (lex_next ls) (\<lambda>ls1. if ls_current ls1 \<noteq> 45 then Inr (45, SemNone, ls1)
        else bindE (lex_next ls1) (\<lambda>ls2. bindE (skip_comment ls2) llex_loop))) (lex_result ls)"
      using ok ne body by (intro safe_bindE [OF lex_next_safe]) (auto intro!: lex_result_tokenI)
    with dash show ?thesis by (subst llex_loop.simps) simp
  next
    case sp
    then have "?c \<noteq> EOZ" "?c \<notin> {45, 91, 61, 60, 62, 126, 34, 39, 46}"
      by (auto simp: isspace_def EOZ_def)
    moreover from this have "safe (bindE (lex_next ls) llex_loop) (lex_result ls)"
      using ok sp "1.IH"(3) by (intro again lex_next_safe) simp_all
    ultimately show ?thesis using sp by (subst llex_loop.simps) simp
  next
    case op
    then have ne: "?c \<noteq> EOZ" "\<not> currIsNewline ls" "?c \<noteq> 45" "?c \<noteq> 91"
      by (auto simp: EOZ_def currIsNewline_def)
    have two: "safe (two_char ls c tk) (lex_result ls)" if "0 \<le> c" "c < 256" "0 \<le> tk" "tk < TK_EOS" for c tk
      using that by (intro two_char_safe [OF ok ne(1)]) simp_all
    have str: "safe (bindE (read_string ls ?c) (\<lambda>(s, ls1). Inr (TK_STRING, s, ls1))) (lex_result ls)"
      using ne(1) by (intro safe_bindE [OF read_string_safe [OF ok refl]]) (auto intro!: lex_result_tokenI)
    show ?thesis
      using op two str lex_dots_safe [OF ok ne(1)] unfolding llex_loop.simps [of ls]
      by (simp only: ne if_False) (elim insertE emptyE; simp)
  next
    case other
    have num: "safe (bindE (read_numeral ls) (\<lambda>(r, ls1). Inr (TK_NUMBER, SemNum r, ls1))) (lex_result ls)"
      using other(2) by (intro safe_bindE [OF read_numeral_safe [OF ok]]) (auto intro!: lex_result_tokenI)
    have chr: "safe (bindE (lex_next ls) (\<lambda>ls1. Inr (?c, SemNone, ls1))) (lex_result ls)"
      using cur [OF other(2)] by (intro safe_bindE [OF lex_next_safe [OF ok other(2)]]) (auto intro!: lex_result_tokenI)
    show ?thesis
      using other num chr lex_name_safe [OF ok other(2)] unfolding llex_loop.simps [of ls] by simp
  next
    case lb
    with ok show ?thesis
      by (subst llex_loop.simps) (simp add: lex_bracket_safe currIsNewline_def)
  next
    case eoz
    with ok show ?thesis
      by (subst llex_loop.simps) (simp add: lex_result_def token_ok_def currIsNewline_def EOZ_def)
  qed
qed


definition lex_demo :: lexstate where
  "lex_demo = \<lparr>ls_current = 97, ls_linenumber = 1, ls_lastline = 1,
      ls_t = \<lparr>tok_token = 0, tok_seminfo = SemNone\<rparr>,
      ls_lookahead = \<lparr>tok_token = TK_EOS, tok_seminfo = SemNone\<rparr>,
      ls_z = \<lparr>z_n = 0, z_p = [], z_data = [''nd x'']\<rparr>,
      ls_buff = [], ls_buffsize = LUA_MINBUFFER, ls_source = ''=t'',
      ls_decpoint = CHR ''.'', ls_strings = [], ls_locale = CHR ''.''\<rparr>"


end
