(* ===== verification/LuaMatch.thy ===== *)
theory LuaMatch
  imports LuaAux
begin

text \<open>
  The pattern matcher of \<^verbatim>\<open>lstrlib.c\<close>.

  A pointer into the subject is the number of bytes before it; the subject ends at
  \<^verbatim>\<open>src_end\<close> with a zero byte that may be read.  A pointer into the pattern is the rest of the
  pattern from it; \<open>peek\<close> reads the zero byte at the end.  The matcher calls itself on a later part
  of the pattern only; the helpers take that call as their argument \<open>k\<close>.
\<close>

section \<open>The state\<close>

definition CAP_UNFINISHED :: int where "CAP_UNFINISHED = -1"
definition CAP_POSITION :: int where "CAP_POSITION = -2"
definition LUA_MAXCAPTURES :: nat where "LUA_MAXCAPTURES = 32"

definition L_ESC :: byte where "L_ESC = CHR ''%''"

text \<open>\<open>ms_capture\<close> holds the first \<^verbatim>\<open>level\<close> entries of \<^verbatim>\<open>capture\<close>; the others are never read.
  \<open>ms_where\<close> is what \<^verbatim>\<open>luaL_where\<close> puts before an error message.\<close>

record MatchState =
  ms_src :: string
  ms_where :: string
  ms_capture :: "(nat \<times> int) list"

type_synonym matchres = "lua_error + nat option \<times> MatchState"

definition ms_error :: "MatchState \<Rightarrow> string \<Rightarrow> lua_error + 'a" where
  "ms_error ms m = Inl (ErrRun (ms_where ms @ m))"

definition src_at :: "MatchState \<Rightarrow> nat \<Rightarrow> lua_error + byte" where
  "src_at ms s =
     (if s < length (ms_src ms) then Inr (ms_src ms ! s) else if s = length (ms_src ms) then Inr NUL else Inl ErrFault)"

definition peek :: "string \<Rightarrow> byte" where
  "peek p = (case p of [] \<Rightarrow> NUL | c # _ \<Rightarrow> c)"

definition adv :: "nat \<Rightarrow> string \<Rightarrow> lua_error + string" where
  "adv n p = (if n \<le> length p then Inr (drop n p) else Inl ErrFault)"

definition check_capture :: "MatchState \<Rightarrow> int \<Rightarrow> lua_error + nat" where
  "check_capture ms c =
     (let l = c - 49 in
      if l < 0 \<or> l \<ge> int (length (ms_capture ms)) \<or> snd (ms_capture ms ! nat l) = CAP_UNFINISHED
      then ms_error ms ''invalid capture index'' else Inr (nat l))"

primrec close_from :: "(nat \<times> int) list \<Rightarrow> nat \<Rightarrow> nat option" where
  "close_from cs 0 = None"
| "close_from cs (Suc l) = (if snd (cs ! l) = CAP_UNFINISHED then Some l else close_from cs l)"

definition capture_to_close :: "MatchState \<Rightarrow> lua_error + nat" where
  "capture_to_close ms =
     (case close_from (ms_capture ms) (length (ms_capture ms)) of
        Some l \<Rightarrow> Inr l | None \<Rightarrow> ms_error ms ''invalid pattern capture'')"

section \<open>Classes\<close>

fun class_loop :: "MatchState \<Rightarrow> string \<Rightarrow> lua_error + string" where
  "class_loop ms [] = ms_error ms (''malformed pattern (missing '' @ [CHR 0x27] @ '']'' @ [CHR 0x27] @ '')'')"
| "class_loop ms (c # q) =
     (if c = NUL then ms_error ms (''malformed pattern (missing '' @ [CHR 0x27] @ '']'' @ [CHR 0x27] @ '')'')
      else
        let q1 = (if c = L_ESC \<and> peek q \<noteq> NUL then drop 1 q else q) in
        if peek q1 \<noteq> CHR '']'' then class_loop ms q1 else adv 1 q1)"

definition classend :: "MatchState \<Rightarrow> string \<Rightarrow> lua_error + string" where
  "classend ms p =
     (case p of
        [] \<Rightarrow> Inl ErrFault
      | c # q \<Rightarrow>
          if c = L_ESC then
            (if peek q = NUL then ms_error ms (''malformed pattern (ends with '' @ [CHR 0x27] @ ''%'' @ [CHR 0x27] @ '')'')
             else adv 1 q)
          else if c = CHR ''['' then class_loop ms (if peek q = CHR ''^'' then drop 1 q else q)
          else Inr q)"

definition tolower :: "int \<Rightarrow> int" where
  "tolower c = (if 65 \<le> c \<and> c \<le> 90 then c + 32 else c)"

definition toupper :: "int \<Rightarrow> int" where
  "toupper c = (if 97 \<le> c \<and> c \<le> 122 then c - 32 else c)"

definition islower :: "int \<Rightarrow> bool" where
  "islower c \<longleftrightarrow> 97 \<le> c \<and> c \<le> 122"

definition isupper :: "int \<Rightarrow> bool" where
  "isupper c \<longleftrightarrow> 65 \<le> c \<and> c \<le> 90"

definition ispunct :: "int \<Rightarrow> bool" where
  "ispunct c \<longleftrightarrow> 33 \<le> c \<and> c \<le> 126 \<and> \<not> isalnum c"

definition isxdigit :: "int \<Rightarrow> bool" where
  "isxdigit c \<longleftrightarrow> isdigit c \<or> (65 \<le> c \<and> c \<le> 70) \<or> (97 \<le> c \<and> c \<le> 102)"

definition class_test :: "int \<Rightarrow> int \<Rightarrow> bool option" where
  "class_test c l =
     (if l = 97 then Some (isalpha c) else if l = 99 then Some (iscntrl c)
      else if l = 100 then Some (isdigit c) else if l = 108 then Some (islower c)
      else if l = 112 then Some (ispunct c) else if l = 115 then Some (isspace c)
      else if l = 117 then Some (isupper c) else if l = 119 then Some (isalnum c)
      else if l = 120 then Some (isxdigit c) else if l = 122 then Some (c = 0)
      else None)"

definition match_class :: "int \<Rightarrow> int \<Rightarrow> bool" where
  "match_class c cl =
     (case class_test c (tolower cl) of
        None \<Rightarrow> cl = c
      | Some res \<Rightarrow> if islower cl then res else \<not> res)"

text \<open>The loop of \<^verbatim>\<open>matchbracketclass\<close>; \<open>ec\<close> is the length of the pattern from the closing bracket on.\<close>

function bracket_loop :: "int \<Rightarrow> bool \<Rightarrow> string \<Rightarrow> nat \<Rightarrow> bool" where
  "bracket_loop c sig p ec =
     (let q = drop 1 p in
      if length q > ec then
        (if peek q = L_ESC then
           (let q1 = drop 1 q in if match_class c (char2int (peek q1)) then sig else bracket_loop c sig q1 ec)
         else if peek (drop 1 q) = CHR ''-'' \<and> length (drop 2 q) > ec then
           (let q2 = drop 2 q in
            if char2int (peek q) \<le> c \<and> c \<le> char2int (peek q2) then sig else bracket_loop c sig q2 ec)
         else if char2int (peek q) = c then sig
         else bracket_loop c sig q ec)
      else \<not> sig)"
  by pat_completeness auto
termination
  by (relation "measure (\<lambda>(c, sig, p, ec). length p)") auto

declare bracket_loop.simps [simp del]

definition matchbracketclass :: "int \<Rightarrow> string \<Rightarrow> nat \<Rightarrow> bool" where
  "matchbracketclass c p ec =
     (if peek (drop 1 p) = CHR ''^'' then bracket_loop c False (drop 1 p) ec else bracket_loop c True p ec)"

definition singlematch :: "byte \<Rightarrow> string \<Rightarrow> string \<Rightarrow> bool" where
  "singlematch c p ep =
     (if peek p = CHR ''.'' then True
      else if peek p = L_ESC then match_class (char2int c) (char2int (peek (drop 1 p)))
      else if peek p = CHR ''['' then matchbracketclass (char2int c) p (length ep + 1)
      else peek p = c)"

section \<open>Balanced strings and captures\<close>

function balance_loop :: "string \<Rightarrow> byte \<Rightarrow> byte \<Rightarrow> int \<Rightarrow> nat \<Rightarrow> nat option" where
  "balance_loop src b e cont s =
     (let s1 = s + 1 in
      if s1 < length src then
        (if src ! s1 = e then
           (if cont - 1 = 0 then Some (s1 + 1) else balance_loop src b e (cont - 1) s1)
         else if src ! s1 = b then balance_loop src b e (cont + 1) s1
         else balance_loop src b e cont s1)
      else None)"
  by pat_completeness auto
termination
  by (relation "measure (\<lambda>(src, b, e, cont, s). length src - s)") auto

declare balance_loop.simps [simp del]

definition matchbalance :: "MatchState \<Rightarrow> nat \<Rightarrow> string \<Rightarrow> lua_error + nat option" where
  "matchbalance ms s p =
     (if peek p = NUL \<or> peek (drop 1 p) = NUL then ms_error ms ''unbalanced pattern''
      else bindE (src_at ms s) (\<lambda>c.
        if c \<noteq> peek p then Inr None
        else Inr (balance_loop (ms_src ms) (peek p) (peek (drop 1 p)) 1 s)))"

definition start_capture :: "(MatchState \<Rightarrow> nat \<Rightarrow> matchres) \<Rightarrow> MatchState \<Rightarrow> nat \<Rightarrow> int \<Rightarrow> matchres" where
  "start_capture k ms s what =
     (if length (ms_capture ms) \<ge> LUA_MAXCAPTURES then ms_error ms ''too many captures''
      else bindE (k (ms\<lparr>ms_capture := ms_capture ms @ [(s, what)]\<rparr>) s) (\<lambda>(res, ms1).
        Inr (res, if res = None then ms1\<lparr>ms_capture := butlast (ms_capture ms1)\<rparr> else ms1)))"

definition set_len :: "nat \<Rightarrow> int \<Rightarrow> MatchState \<Rightarrow> MatchState" where
  "set_len l n ms = ms\<lparr>ms_capture := (ms_capture ms)[l := (fst (ms_capture ms ! l), n)]\<rparr>"

definition end_capture :: "(MatchState \<Rightarrow> nat \<Rightarrow> matchres) \<Rightarrow> MatchState \<Rightarrow> nat \<Rightarrow> matchres" where
  "end_capture k ms s =
     bindE (capture_to_close ms) (\<lambda>l.
     bindE (k (set_len l (int s - int (fst (ms_capture ms ! l))) ms) s) (\<lambda>(res, ms1).
     Inr (res, if res = None then set_len l CAP_UNFINISHED ms1 else ms1)))"

text \<open>The length of a capture is compared as a \<^verbatim>\<open>size_t\<close>, where a position capture is huge.\<close>

definition match_capture :: "MatchState \<Rightarrow> nat \<Rightarrow> int \<Rightarrow> lua_error + nat option" where
  "match_capture ms s c =
     bindE (check_capture ms c) (\<lambda>l.
     let init = fst (ms_capture ms ! l); len = snd (ms_capture ms ! l) mod 2 ^ 64 in
     Inr (if int (length (ms_src ms) - s) \<ge> len
             \<and> take (nat len) (drop init (ms_src ms)) = take (nat len) (drop s (ms_src ms))
          then Some (s + nat len) else None))"

section \<open>Repetition\<close>

primrec max_try :: "(MatchState \<Rightarrow> nat \<Rightarrow> matchres) \<Rightarrow> MatchState \<Rightarrow> nat \<Rightarrow> nat \<Rightarrow> matchres" where
  "max_try k ms s 0 = k ms s"
| "max_try k ms s (Suc i) =
     bindE (k ms (s + Suc i)) (\<lambda>(res, ms1). if res \<noteq> None then Inr (res, ms1) else max_try k ms1 s i)"

definition max_expand :: "(MatchState \<Rightarrow> nat \<Rightarrow> matchres) \<Rightarrow> MatchState \<Rightarrow> nat \<Rightarrow> string \<Rightarrow> string \<Rightarrow> matchres" where
  "max_expand k ms s p ep =
     (let i = length (takeWhile (\<lambda>c. singlematch c p ep) (drop s (ms_src ms))) in max_try k ms s i)"

function min_expand :: "(MatchState \<Rightarrow> nat \<Rightarrow> matchres) \<Rightarrow> string \<Rightarrow> MatchState \<Rightarrow> nat \<Rightarrow> string \<Rightarrow> string \<Rightarrow> matchres" where
  "min_expand k src ms s p ep =
     bindE (k ms s) (\<lambda>(res, ms1).
     if res \<noteq> None then Inr (res, ms1)
     else if s < length src \<and> singlematch (src ! s) p ep then min_expand k src ms1 (s + 1) p ep
     else Inr (None, ms1))"
  by pat_completeness auto
termination
  by (relation "measure (\<lambda>(k, src, ms, s, p, ep). length src - s)") auto

declare min_expand.simps [simp del]

section \<open>Matching\<close>

lemma class_loop_less: "class_loop ms p = Inr ep \<Longrightarrow> length ep < length p"
  by (induction ms p rule: class_loop.induct) (fastforce simp: Let_def adv_def ms_error_def split: if_splits)+

lemma classend_less: "classend ms p = Inr ep \<Longrightarrow> length ep < length p"
  by (auto simp: classend_def adv_def ms_error_def dest!: class_loop_less split: list.splits if_splits)

lemma adv_less: "adv n p = Inr q \<Longrightarrow> 0 < n \<Longrightarrow> length q < length p"
  by (auto simp: adv_def split: if_splits)

definition previous :: "MatchState \<Rightarrow> nat \<Rightarrow> lua_error + byte" where
  "previous ms s = (if s = 0 then Inr NUL else src_at ms (s - 1))"

text \<open>\<^verbatim>\<open>match\<close>\<close>

function do_match :: "MatchState \<Rightarrow> nat \<Rightarrow> string \<Rightarrow> matchres" where
  "do_match ms s p =
     (case p of
        [] \<Rightarrow> Inr (Some s, ms)
      | c # q \<Rightarrow>
          if c = CHR ''('' then
            (if peek q = CHR '')'' then start_capture (\<lambda>ms s. do_match ms s (drop 1 q)) ms s CAP_POSITION
             else start_capture (\<lambda>ms s. do_match ms s q) ms s CAP_UNFINISHED)
          else if c = CHR '')'' then end_capture (\<lambda>ms s. do_match ms s q) ms s
          else if c = L_ESC \<and> peek q = CHR ''b'' then
            bindE (matchbalance ms s (drop 1 q)) (\<lambda>r.
            case r of None \<Rightarrow> Inr (None, ms)
            | Some s1 \<Rightarrow> bindE (adv 3 q) (\<lambda>p1. do_match ms s1 p1))
          else if c = L_ESC \<and> peek q = CHR ''f'' then
            (let p1 = drop 1 q in
             if peek p1 \<noteq> CHR ''['' then
               ms_error ms (''missing '' @ [CHR 0x27] @ ''['' @ [CHR 0x27] @ '' after '' @ [CHR 0x27] @ ''%f'' @ [CHR 0x27] @ '' in pattern'')
             else
               bindE (classend ms p1) (\<lambda>ep. bindE (previous ms s) (\<lambda>pc. bindE (src_at ms s) (\<lambda>sc.
               if matchbracketclass (char2int pc) p1 (length ep + 1) \<or> \<not> matchbracketclass (char2int sc) p1 (length ep + 1)
               then Inr (None, ms) else do_match ms s ep))))
          else if c = L_ESC \<and> isdigit (char2int (peek q)) then
            bindE (match_capture ms s (char2int (peek q))) (\<lambda>r.
            case r of None \<Rightarrow> Inr (None, ms) | Some s1 \<Rightarrow> do_match ms s1 (drop 1 q))
          else if c = NUL then Inr (Some s, ms)
          else if c = CHR ''$'' \<and> peek q = NUL then Inr (if s = length (ms_src ms) then Some s else None, ms)
          else
            bindE (classend ms p) (\<lambda>ep.
            let m = (s < length (ms_src ms) \<and> singlematch (ms_src ms ! s) p ep); e = peek ep in
            if e = CHR ''?'' then
              (if m then
                 bindE (do_match ms (s + 1) (drop 1 ep)) (\<lambda>(res, ms1).
                 if res \<noteq> None then Inr (res, ms1) else do_match ms1 s (drop 1 ep))
               else do_match ms s (drop 1 ep))
            else if e = CHR ''*'' then max_expand (\<lambda>ms s. do_match ms s (drop 1 ep)) ms s p ep
            else if e = CHR ''+'' then
              (if m then max_expand (\<lambda>ms s. do_match ms s (drop 1 ep)) ms (s + 1) p ep else Inr (None, ms))
            else if e = CHR ''-'' then min_expand (\<lambda>ms s. do_match ms s (drop 1 ep)) (ms_src ms) ms s p ep
            else if \<not> m then Inr (None, ms)
            else do_match ms (s + 1) ep))"
  by pat_completeness auto
termination
  by (relation "measure (\<lambda>(ms, s, p). length p)")
    (auto dest!: classend_less adv_less simp: less_Suc_eq_le)

declare do_match.simps [simp del]

section \<open>Safety\<close>

text \<open>Captures that are open began at or before \<open>s\<close>; closed ones are parts of the subject.\<close>

definition cap_ok :: "string \<Rightarrow> nat \<Rightarrow> nat \<times> int \<Rightarrow> bool" where
  "cap_ok src s c \<longleftrightarrow>
     fst c \<le> s \<and> (snd c = CAP_UNFINISHED \<or> snd c = CAP_POSITION \<or> (0 \<le> snd c \<and> int (fst c) + snd c \<le> int (length src)))"

definition minv :: "MatchState \<Rightarrow> nat \<Rightarrow> bool" where
  "minv ms s \<longleftrightarrow>
     s \<le> length (ms_src ms) \<and> length (ms_capture ms) \<le> LUA_MAXCAPTURES
     \<and> list_all (cap_ok (ms_src ms) s) (ms_capture ms)"

text \<open>A failed match leaves the state as it was; a match ends at or after its start.\<close>

definition mpost :: "MatchState \<Rightarrow> nat \<Rightarrow> nat option \<times> MatchState \<Rightarrow> bool" where
  "mpost ms s r \<longleftrightarrow>
     (case r of
        (None, ms1) \<Rightarrow> ms1 = ms
      | (Some e, ms1) \<Rightarrow> ms_src ms1 = ms_src ms \<and> ms_where ms1 = ms_where ms \<and> s \<le> e \<and> minv ms1 e)"

lemma mpost_simps [simp]:
  "mpost ms s (None, ms1) \<longleftrightarrow> ms1 = ms"
  "mpost ms s (Some e, ms1) \<longleftrightarrow> ms_src ms1 = ms_src ms \<and> ms_where ms1 = ms_where ms \<and> s \<le> e \<and> minv ms1 e"
  by (simp_all add: mpost_def)

lemma mpostE:
  assumes "mpost ms s r"
  obtains "r = (None, ms)"
  | e ms1 where "r = (Some e, ms1)" "ms_src ms1 = ms_src ms" "ms_where ms1 = ms_where ms" "s \<le> e" "minv ms1 e"
proof (cases r)
  case (Pair res ms1)
  then show thesis using assms that by (cases res) auto
qed

lemma ms_error_safe [simp]: "safe (ms_error ms m) Q"
  by (simp add: ms_error_def)

lemma minv_later: "minv ms s \<Longrightarrow> s \<le> t \<Longrightarrow> t \<le> length (ms_src ms) \<Longrightarrow> minv ms t"
  by (auto simp: minv_def cap_ok_def list_all_iff)

lemma minv_src: "minv ms s \<Longrightarrow> s \<le> length (ms_src ms)"
  by (simp add: minv_def)

lemma mpost_later: "mpost ms t r \<Longrightarrow> s \<le> t \<Longrightarrow> mpost ms s r"
  by (cases r; cases "fst r") auto

definition match_safe :: "(MatchState \<Rightarrow> nat \<Rightarrow> matchres) \<Rightarrow> bool" where
  "match_safe k \<longleftrightarrow> (\<forall>ms s. minv ms s \<longrightarrow> safe (k ms s) (mpost ms s))"

lemma match_safeD: "match_safe k \<Longrightarrow> minv ms s \<Longrightarrow> safe (k ms s) (mpost ms s)"
  by (simp add: match_safe_def)

lemma start_capture_safe:
  assumes "match_safe k" "minv ms s" "what = CAP_UNFINISHED \<or> what = CAP_POSITION"
  shows "safe (start_capture k ms s what) (mpost ms s)"
proof (cases "length (ms_capture ms) \<ge> LUA_MAXCAPTURES")
  case False
  have "minv (ms\<lparr>ms_capture := ms_capture ms @ [(s, what)]\<rparr>) s"
    using assms(2,3) False by (auto simp: minv_def cap_ok_def)
  from match_safeD [OF assms(1) this] show ?thesis unfolding start_capture_def if_not_P [OF False]
    by (rule safe_bindE) (auto split: option.splits simp: mpost_def)
qed (simp add: start_capture_def)

lemma close_from_less: "close_from cs n = Some l \<Longrightarrow> l < n \<and> snd (cs ! l) = CAP_UNFINISHED"
  by (induction n) (auto split: if_splits)

lemma set_len_twice:
  assumes "l < length (ms_capture ms)" "snd (ms_capture ms ! l) = n"
  shows "set_len l n (set_len l m ms) = ms"
proof -
  have "(fst (ms_capture ms ! l), n) = ms_capture ms ! l" using assms(2) by auto
  then show ?thesis using assms(1) by (simp add: set_len_def)
qed

lemma set_len_minv:
  assumes "minv ms s" "l < length (ms_capture ms)"
  shows "minv (set_len l (int s - int (fst (ms_capture ms ! l))) ms) s"
proof -
  have "cap_ok (ms_src ms) s (ms_capture ms ! l)" "s \<le> length (ms_src ms)" using assms by (auto simp: minv_def list_all_length)
  then have "cap_ok (ms_src ms) s (fst (ms_capture ms ! l), int s - int (fst (ms_capture ms ! l)))" by (auto simp: cap_ok_def)
  then show ?thesis using assms by (auto simp: minv_def set_len_def list_all_iff dest!: set_update_subset_insert [THEN subsetD])
qed

lemma end_capture_safe:
  assumes "match_safe k" "minv ms s"
  shows "safe (end_capture k ms s) (mpost ms s)"
proof (cases "close_from (ms_capture ms) (length (ms_capture ms))")
  case (Some l)
  let ?ms = "set_len l (int s - int (fst (ms_capture ms ! l))) ms"
  have l: "l < length (ms_capture ms)" "snd (ms_capture ms ! l) = CAP_UNFINISHED" using close_from_less [OF Some] by auto
  have "safe (bindE (k ?ms s) (\<lambda>(res, ms1). Inr (res, if res = None then set_len l CAP_UNFINISHED ms1 else ms1))) (mpost ms s)"
    by (rule safe_bindE [OF match_safeD [OF assms(1) set_len_minv [OF assms(2) l(1)]]])
      (use set_len_twice [OF l] in \<open>auto simp: mpost_def set_len_def split: option.splits\<close>)
  then show ?thesis by (simp add: end_capture_def capture_to_close_def Some)
qed (simp add: end_capture_def capture_to_close_def ms_error_def)

lemma max_try_safe:
  assumes "match_safe k" "minv ms s" "s + i \<le> length (ms_src ms)"
  shows "safe (max_try k ms s i) (mpost ms s)"
  using assms(2,3)
proof (induction i arbitrary: ms)
  case 0
  then show ?case using match_safeD [OF assms(1)] by simp
next
  case (Suc i)
  have "minv ms (s + Suc i)" using minv_later [OF Suc.prems(1), of "s + Suc i"] Suc.prems(2) by simp
  from match_safeD [OF assms(1) this] show ?case unfolding max_try.simps
    by (rule safe_bindE) (use Suc in \<open>auto elim!: mpostE\<close>)
qed

lemma max_expand_safe:
  assumes "match_safe k" "minv ms s"
  shows "safe (max_expand k ms s p ep) (mpost ms s)"
proof -
  have "length (takeWhile P (drop s (ms_src ms))) \<le> length (ms_src ms) - s" for P
    by (metis length_drop length_takeWhile_le)
  then show ?thesis unfolding max_expand_def Let_def
    using minv_src [OF assms(2)] by (intro max_try_safe assms) (simp add: le_diff_conv2 add.commute)
qed

lemma min_expand_safe:
  assumes "match_safe k" "minv ms s" "src = ms_src ms"
  shows "safe (min_expand k src ms s p ep) (mpost ms s)"
  using assms
proof (induction k src ms s p ep rule: min_expand.induct)
  case (1 k src ms s p ep)
  from match_safeD [OF 1(2,3)] show ?case
  proof (subst min_expand.simps, rule safe_bindE)
    fix x assume x: "k ms s = Inr x" "mpost ms s x"
    show "safe (case x of (res, ms1) \<Rightarrow>
        if res \<noteq> None then Inr (res, ms1)
        else if s < length src \<and> singlematch (src ! s) p ep then min_expand k src ms1 (s + 1) p ep
        else Inr (None, ms1)) (mpost ms s)"
    proof (cases "fst x = None \<and> s < length src \<and> singlematch (src ! s) p ep")
      case True
      then have x': "x = (None, ms)" using x(2) by (cases x) auto
      have "minv ms (s + 1)" using 1(3,4) True by (auto intro: minv_later)
      then have "safe (min_expand k src ms (s + 1) p ep) (mpost ms (s + 1))"
        using 1(1) [of "(None, ms)" None ms] True x x' 1(2,4) by simp
      then have "safe (min_expand k src ms (s + 1) p ep) (mpost ms s)" by (rule safe_mono) (erule mpost_later, simp)
      then show ?thesis using True x' by simp
    next
      case False
      then show ?thesis using x(2) by (cases x; cases "fst x") auto
    qed
  qed
qed

lemma src_at_safe: "minv ms s \<Longrightarrow> safe (src_at ms s) (\<lambda>_. True)"
  by (auto simp: src_at_def minv_def)

lemma previous_safe: "minv ms s \<Longrightarrow> safe (previous ms s) (\<lambda>_. True)"
  by (auto simp: src_at_def minv_def previous_def)


lemma matchbalance_safe:
  assumes "minv ms s"
  shows "safe (matchbalance ms s p) (\<lambda>r. \<forall>s1. r = Some s1 \<longrightarrow> s < s1 \<and> s1 \<le> length (ms_src ms)
    \<and> peek p \<noteq> NUL \<and> peek (drop 1 p) \<noteq> NUL)"
proof -
  have "balance_loop src b e cont s = Some s1 \<Longrightarrow> s < s1 \<and> s1 \<le> length src" for src b e cont s s1
    by (induction src b e cont s rule: balance_loop.induct)
      (subst (asm) (3) balance_loop.simps, fastforce simp: Let_def split: if_splits)
  then show ?thesis unfolding matchbalance_def using src_at_safe [OF assms]
    by (auto intro!: safe_bindE)
qed

lemma peek_not_NUL: "peek p \<noteq> NUL \<Longrightarrow> p = peek p # drop 1 p"
  by (cases p) (auto simp: peek_def)

lemma NUL_neq: "NUL \<noteq> CHR '']''" "NUL \<noteq> L_ESC" "NUL \<noteq> CHR ''[''"
  "NUL \<noteq> CHR ''(''" "NUL \<noteq> CHR '')''" "NUL \<noteq> CHR ''$''"
  by code_simp+

lemma peek_Nil: "peek [] = NUL"
  by (simp add: peek_def)

lemma adv1_safe:
  assumes "peek q = CHR '']''" "length q \<le> n"
  shows "safe (adv 1 q) (\<lambda>ep. length ep < Suc n)"
proof -
  have "q \<noteq> []" using assms(1) NUL_neq(1) peek_Nil by metis
  then show ?thesis using assms(2) by (cases q) (auto simp: adv_def)
qed

lemma class_loop_safe: "safe (class_loop ms p) (\<lambda>ep. length ep < length p)"
proof (induction ms p rule: class_loop.induct)
  case (2 ms c q)
  let ?q = "if c = L_ESC \<and> peek q \<noteq> NUL then drop 1 q else q"
  have "peek ?q = CHR '']'' \<Longrightarrow> safe (adv 1 ?q) (\<lambda>ep. length ep < length (c # q))"
    unfolding length_Cons by (rule adv1_safe) simp_all
  moreover have "c \<noteq> NUL \<Longrightarrow> peek ?q \<noteq> CHR '']'' \<Longrightarrow> safe (class_loop ms ?q) (\<lambda>ep. length ep < length (c # q))"
    using 2 [of ?q] by (auto elim!: safe_mono simp: Let_def)
  ultimately show ?case by (simp only: class_loop.simps Let_def) auto
qed simp

lemma classend_safe: "p \<noteq> [] \<Longrightarrow> safe (classend ms p) (\<lambda>ep. length ep < length p)"
proof -
  have "safe (class_loop ms (if peek q = CHR ''^'' then drop 1 q else q)) (\<lambda>ep. length ep < Suc (length q))" for q
    using class_loop_safe by (rule safe_mono) (auto split: if_splits)
  moreover have "peek q \<noteq> NUL \<Longrightarrow> safe (adv 1 q) (\<lambda>ep. length ep < Suc (length q))" for q
    by (cases q) (auto simp: adv_def peek_def)
  ultimately show "p \<noteq> [] \<Longrightarrow> ?thesis" by (auto simp: classend_def split: list.split)
qed

lemma match_capture_safe:
  assumes "minv ms s"
  shows "safe (match_capture ms s c) (\<lambda>r. \<forall>s1. r = Some s1 \<longrightarrow> s \<le> s1 \<and> s1 \<le> length (ms_src ms))"
proof -
  have "safe (check_capture ms c) (\<lambda>_. True)" by (auto simp: check_capture_def Let_def)
  then show ?thesis unfolding match_capture_def
    by (rule safe_bindE) (use minv_src [OF assms] in \<open>auto simp: Let_def\<close>)
qed

lemma safe_if: "(c \<Longrightarrow> safe a Q) \<Longrightarrow> (\<not> c \<Longrightarrow> safe b Q) \<Longrightarrow> safe (if c then a else b) Q"
  by simp

text \<open>A pattern item: what comes after \<^verbatim>\<open>dflt\<close>.\<close>

lemma item_safe:
  assumes IH: "\<And>q. length q < length p \<Longrightarrow> match_safe (\<lambda>ms s. do_match ms s q)"
    and ms: "minv ms s" and ep: "length ep < length p"
    and m: "m \<Longrightarrow> s < length (ms_src ms)"
  shows "safe
     (if peek ep = CHR ''?'' then
        (if m then
           bindE (do_match ms (s + 1) (drop 1 ep)) (\<lambda>(res, ms1).
           if res \<noteq> None then Inr (res, ms1) else do_match ms1 s (drop 1 ep))
         else do_match ms s (drop 1 ep))
      else if peek ep = CHR ''*'' then max_expand (\<lambda>ms s. do_match ms s (drop 1 ep)) ms s p ep
      else if peek ep = CHR ''+'' then
        (if m then max_expand (\<lambda>ms s. do_match ms s (drop 1 ep)) ms (s + 1) p ep else Inr (None, ms))
      else if peek ep = CHR ''-'' then min_expand (\<lambda>ms s. do_match ms s (drop 1 ep)) (ms_src ms) ms s p ep
      else if \<not> m then Inr (None, ms)
      else do_match ms (s + 1) ep) (mpost ms s)"
proof -
  have k: "match_safe (\<lambda>ms s. do_match ms s (drop 1 ep))" "match_safe (\<lambda>ms s. do_match ms s ep)"
    using IH ep by simp_all
  have next_ok: "m \<Longrightarrow> minv ms (s + 1)" using m ms by (auto intro: minv_later)
  have later: "safe r (mpost ms (s + 1)) \<Longrightarrow> safe r (mpost ms s)" for r
    by (erule safe_mono, erule mpost_later, simp)
  have "m \<Longrightarrow> safe (bindE (do_match ms (s + 1) (drop 1 ep)) (\<lambda>(res, ms1).
      if res \<noteq> None then Inr (res, ms1) else do_match ms1 s (drop 1 ep))) (mpost ms s)"
    by (rule safe_bindE [OF later [OF match_safeD [OF k(1) next_ok]]])
      (use match_safeD [OF k(1) ms] in \<open>auto elim!: mpostE\<close>)
  then show ?thesis
    using match_safeD [OF k(1) ms] match_safeD [OF k(2) next_ok] later max_expand_safe [OF k(1) ms]
      max_expand_safe [OF k(1) next_ok] min_expand_safe [OF k(1) ms]
    by (intro safe_if) simp_all
qed

lemma later_safe:
  assumes "match_safe (\<lambda>ms s. do_match ms s q)" "minv ms s" "s \<le> t" "t \<le> length (ms_src ms)"
  shows "safe (do_match ms t q) (mpost ms s)"
  by (rule safe_mono [OF match_safeD [OF assms(1) minv_later [OF assms(2-4)]]]) (erule mpost_later [OF _ assms(3)])

lemma do_match_safe: "match_safe (\<lambda>ms s. do_match ms s p)"
proof (induction p rule: measure_induct_rule [where f = length])
  case (less p)
  show ?case unfolding match_safe_def
  proof (intro allI impI)
    fix ms :: MatchState and s :: nat
    assume ms: "minv ms s"
    show "safe (do_match ms s p) (mpost ms s)"
    proof (cases p)
      case Nil
      then show ?thesis using ms by (subst do_match.simps) simp
    next
      case (Cons c q)
      have k: "match_safe (\<lambda>ms s. do_match ms s q)" "match_safe (\<lambda>ms s. do_match ms s (drop n q))" for n
        using less Cons by simp_all
      have bal: "safe (bindE (matchbalance ms s (drop 1 q)) (\<lambda>r.
          case r of None \<Rightarrow> Inr (None, ms) | Some s1 \<Rightarrow> bindE (adv 3 q) (\<lambda>p1. do_match ms s1 p1))) (mpost ms s)"
        if "peek q = CHR ''b''"
      proof (rule safe_bindE [OF matchbalance_safe [OF ms]])
        fix r
        assume r: "\<forall>s1. r = Some s1 \<longrightarrow> s < s1 \<and> s1 \<le> length (ms_src ms) \<and> peek (drop 1 q) \<noteq> NUL \<and> peek (drop 1 (drop 1 q)) \<noteq> NUL"
        show "safe (case r of None \<Rightarrow> Inr (None, ms) | Some s1 \<Rightarrow> bindE (adv 3 q) (\<lambda>p1. do_match ms s1 p1)) (mpost ms s)"
        proof (cases r)
          case (Some s1)
          have s1: "s \<le> s1" "minv ms s1" using r Some ms by (auto intro: minv_later)
          have "drop 1 (drop 1 q) \<noteq> []" using r Some peek_Nil by metis
          then have "3 \<le> length q" by simp
          then show ?thesis using Some match_safeD [OF k(2) s1(2), of 3] s1(1)
            by (simp add: adv_def) (erule safe_mono, erule mpost_later)
        qed simp
      qed
      have front: "safe (bindE (classend ms (drop 1 q)) (\<lambda>ep. bindE (previous ms s) (\<lambda>pc. bindE (src_at ms s) (\<lambda>sc.
            if matchbracketclass (char2int pc) (drop 1 q) (length ep + 1) \<or> \<not> matchbracketclass (char2int sc) (drop 1 q) (length ep + 1)
            then Inr (None, ms) else do_match ms s ep)))) (mpost ms s)"
        if "peek (drop 1 q) = CHR ''[''"
      proof (rule safe_bindE [OF classend_safe])
        show "drop 1 q \<noteq> []" using that NUL_neq(3) peek_Nil by metis
        fix ep :: string
        assume "length ep < length (drop 1 q)"
        then have "match_safe (\<lambda>ms s. do_match ms s ep)" using less Cons by simp
        from match_safeD [OF this ms] show "safe (bindE (previous ms s) (\<lambda>pc. bindE (src_at ms s) (\<lambda>sc.
            if matchbracketclass (char2int pc) (drop 1 q) (length ep + 1) \<or> \<not> matchbracketclass (char2int sc) (drop 1 q) (length ep + 1)
            then Inr (None, ms) else do_match ms s ep))) (mpost ms s)"
          by (intro safe_bindE [OF previous_safe [OF ms]] safe_bindE [OF src_at_safe [OF ms]] safe_if) simp_all
      qed
      have backref: "safe (bindE (match_capture ms s d) (\<lambda>r.
          case r of None \<Rightarrow> Inr (None, ms) | Some s1 \<Rightarrow> do_match ms s1 (drop 1 q))) (mpost ms s)" for d
        by (rule safe_bindE [OF match_capture_safe [OF ms]])
          (use later_safe [OF k(2) [of 1] ms] in \<open>auto split: option.split\<close>)
      have item: "safe (bindE (classend ms p) (\<lambda>ep.
            let m = (s < length (ms_src ms) \<and> singlematch (ms_src ms ! s) p ep); e = peek ep in
            if e = CHR ''?'' then
              (if m then
                 bindE (do_match ms (s + 1) (drop 1 ep)) (\<lambda>(res, ms1).
                 if res \<noteq> None then Inr (res, ms1) else do_match ms1 s (drop 1 ep))
               else do_match ms s (drop 1 ep))
            else if e = CHR ''*'' then max_expand (\<lambda>ms s. do_match ms s (drop 1 ep)) ms s p ep
            else if e = CHR ''+'' then
              (if m then max_expand (\<lambda>ms s. do_match ms s (drop 1 ep)) ms (s + 1) p ep else Inr (None, ms))
            else if e = CHR ''-'' then min_expand (\<lambda>ms s. do_match ms s (drop 1 ep)) (ms_src ms) ms s p ep
            else if \<not> m then Inr (None, ms)
            else do_match ms (s + 1) ep)) (mpost ms s)"
        unfolding Let_def
        by (rule safe_bindE [OF classend_safe]) (use Cons in simp, rule item_safe [OF less ms], simp_all)
      have dollar: "safe (Inr (if s = length (ms_src ms) then Some s else None, ms)) (mpost ms s)" using ms by (cases "s = length (ms_src ms)") simp_all
      show ?thesis unfolding Cons do_match.simps [of ms s "c # q"] list.case Let_def
        using start_capture_safe [OF k(2) ms, of _ 1] start_capture_safe [OF k(1) ms] end_capture_safe [OF k(1) ms]
          bal front backref item [unfolded Cons Let_def] ms dollar
        by (intro safe_if) (simp_all only: simp_thms safe_Inr mpost_simps ms_error_safe order_refl)
    qed
  qed
qed

section \<open>What a pattern means\<close>

text \<open>A pattern as a list of items; a class is the set of bytes it accepts.\<close>

datatype item =
    Open int | Close | Balance byte byte | Frontier "byte \<Rightarrow> bool" | Backref int | AtEnd
  | One "byte \<Rightarrow> bool" | Opt "byte \<Rightarrow> bool" | Star "byte \<Rightarrow> bool" | Plus "byte \<Rightarrow> bool"

definition ms0 :: MatchState where
  "ms0 = \<lparr>ms_src = [], ms_where = [], ms_capture = []\<rparr>"

definition prepend :: "'a \<Rightarrow> lua_error + 'a list \<Rightarrow> lua_error + 'a list" where
  "prepend x m = bindE m (\<lambda>xs. Inr (x # xs))"

function parse :: "string \<Rightarrow> lua_error + item list" where
  "parse p =
     (case p of
        [] \<Rightarrow> Inr []
      | c # q \<Rightarrow>
          if c = CHR ''('' then
            (if peek q = CHR '')'' then prepend (Open CAP_POSITION) (parse (drop 1 q))
             else prepend (Open CAP_UNFINISHED) (parse q))
          else if c = CHR '')'' then prepend Close (parse q)
          else if c = L_ESC \<and> peek q = CHR ''b'' then
            (if peek (drop 1 q) = NUL \<or> peek (drop 2 q) = NUL then ms_error ms0 []
             else prepend (Balance (peek (drop 1 q)) (peek (drop 2 q))) (parse (drop 3 q)))
          else if c = L_ESC \<and> peek q = CHR ''f'' then
            (if peek (drop 1 q) \<noteq> CHR ''['' then ms_error ms0 []
             else bindE (classend ms0 (drop 1 q)) (\<lambda>ep.
               prepend (Frontier (\<lambda>c. matchbracketclass (char2int c) (drop 1 q) (length ep + 1))) (parse ep)))
          else if c = L_ESC \<and> isdigit (char2int (peek q)) then prepend (Backref (char2int (peek q))) (parse (drop 1 q))
          else if c = NUL then Inr []
          else if c = CHR ''$'' \<and> peek q = NUL then Inr [AtEnd]
          else
            bindE (classend ms0 p) (\<lambda>ep.
            let cl = (\<lambda>c. singlematch c p ep); e = peek ep in
            if e = CHR ''?'' then prepend (Opt cl) (parse (drop 1 ep))
            else if e = CHR ''*'' \<or> e = CHR ''-'' then prepend (Star cl) (parse (drop 1 ep))
            else if e = CHR ''+'' then prepend (Plus cl) (parse (drop 1 ep))
            else prepend (One cl) (parse ep)))"
  by pat_completeness auto
termination
  by (relation "measure length") (auto dest!: classend_less simp: less_Suc_eq_le)

declare parse.simps [simp del]

definition char_at :: "string \<Rightarrow> nat \<Rightarrow> byte" where
  "char_at src s = (if s < length src then src ! s else NUL)"

definition char_before :: "string \<Rightarrow> nat \<Rightarrow> byte" where
  "char_before src s = (if s = 0 then NUL else char_at src (s - 1))"

text \<open>
  \<open>imatch src cs s is e ds\<close>: the items match the subject from \<open>s\<close> to \<open>e\<close>, turning the captures
  \<open>cs\<close> into \<open>ds\<close>.
\<close>

inductive imatch :: "string \<Rightarrow> (nat \<times> int) list \<Rightarrow> nat \<Rightarrow> item list \<Rightarrow> nat \<Rightarrow> (nat \<times> int) list \<Rightarrow> bool" for src where
  finish: "imatch src cs s [] s cs"
| open_cap: "length cs < LUA_MAXCAPTURES \<Longrightarrow> imatch src (cs @ [(s, w)]) s is e ds \<Longrightarrow> imatch src cs s (Open w # is) e ds"
| close_cap: "close_from cs (length cs) = Some l \<Longrightarrow>
    imatch src (cs[l := (fst (cs ! l), int s - int (fst (cs ! l)))]) s is e ds \<Longrightarrow> imatch src cs s (Close # is) e ds"
| balanced: "s < length src \<Longrightarrow> src ! s = x \<Longrightarrow> balance_loop src x y 1 s = Some t \<Longrightarrow> imatch src cs t is e ds \<Longrightarrow>
    imatch src cs s (Balance x y # is) e ds"
| at_frontier: "\<not> P (char_before src s) \<Longrightarrow> P (char_at src s) \<Longrightarrow> imatch src cs s is e ds \<Longrightarrow>
    imatch src cs s (Frontier P # is) e ds"
| back_ref: "49 \<le> c \<Longrightarrow> nat (c - 49) < length cs \<Longrightarrow> cs ! nat (c - 49) = (i, int n) \<Longrightarrow> s + n \<le> length src \<Longrightarrow>
    take n (drop i src) = take n (drop s src) \<Longrightarrow> imatch src cs (s + n) is e ds \<Longrightarrow>
    imatch src cs s (Backref c # is) e ds"
| at_end: "s = length src \<Longrightarrow> imatch src cs s [AtEnd] s cs"
| one_char: "s < length src \<Longrightarrow> P (src ! s) \<Longrightarrow> imatch src cs (s + 1) is e ds \<Longrightarrow> imatch src cs s (One P # is) e ds"
| opt_take: "s < length src \<Longrightarrow> P (src ! s) \<Longrightarrow> imatch src cs (s + 1) is e ds \<Longrightarrow> imatch src cs s (Opt P # is) e ds"
| opt_skip: "imatch src cs s is e ds \<Longrightarrow> imatch src cs s (Opt P # is) e ds"
| star_take: "s < length src \<Longrightarrow> P (src ! s) \<Longrightarrow> imatch src cs (s + 1) (Star P # is) e ds \<Longrightarrow> imatch src cs s (Star P # is) e ds"
| star_skip: "imatch src cs s is e ds \<Longrightarrow> imatch src cs s (Star P # is) e ds"
| plus_take: "s < length src \<Longrightarrow> P (src ! s) \<Longrightarrow> imatch src cs (s + 1) (Star P # is) e ds \<Longrightarrow> imatch src cs s (Plus P # is) e ds"

inductive_simps imatch_simps:
  "imatch src cs s [] e ds"
  "imatch src cs s (Open w # is) e ds"
  "imatch src cs s (Close # is) e ds"
  "imatch src cs s (Balance x y # is) e ds"
  "imatch src cs s (Frontier P # is) e ds"
  "imatch src cs s (Backref c # is) e ds"
  "imatch src cs s [AtEnd] e ds"
  "imatch src cs s (One P # is) e ds"
  "imatch src cs s (Opt P # is) e ds"
  "imatch src cs s (Plus P # is) e ds"

inductive_cases star_cases: "imatch src cs s (Star P # is) e ds"

text \<open>A starred class takes any number of its bytes.\<close>

lemma star_intro:
  "(\<And>i. i < j \<Longrightarrow> s + i < length src \<and> P (src ! (s + i))) \<Longrightarrow> imatch src cs (s + j) is e ds \<Longrightarrow> imatch src cs s (Star P # is) e ds"
proof (induction j arbitrary: s)
  case 0
  then show ?case by (simp add: star_skip)
next
  case (Suc j)
  have "imatch src cs (s + 1) (Star P # is) e ds"
    using Suc.IH [of "s + 1"] Suc.prems(1) [of "Suc i" for i] Suc.prems(2) by simp
  then show ?case using Suc.prems(1) [of 0] by (simp add: star_take)
qed

lemma star_elim:
  assumes "imatch src cs s (Star P # is) e ds"
  shows "\<exists>j. (\<forall>i < j. s + i < length src \<and> P (src ! (s + i))) \<and> imatch src cs (s + j) is e ds"
  using assms
proof (induction cs s "Star P # is" e ds rule: imatch.induct)
  case (star_take s cs e ds)
  then obtain j where j: "\<forall>i < j. s + 1 + i < length src \<and> P (src ! (s + 1 + i))" "imatch src cs (s + 1 + j) is e ds" by blast
  have "\<forall>i < Suc j. s + i < length src \<and> P (src ! (s + i))"
    using j(1) star_take(1,2) by (auto simp: less_Suc_eq_0_disj)
  with j(2) show ?case by (intro exI [of _ "Suc j"]) simp
next
  case (star_skip cs s e ds)
  then show ?case by (intro exI [of _ 0]) simp
qed

lemma takeWhile_run:
  assumes "s \<le> length src"
  shows "j \<le> length (takeWhile P (drop s src)) \<longleftrightarrow> (\<forall>i < j. s + i < length src \<and> P (src ! (s + i)))"
proof
  assume j: "j \<le> length (takeWhile P (drop s src))"
  show "\<forall>i < j. s + i < length src \<and> P (src ! (s + i))"
  proof (intro allI impI)
    fix i assume "i < j"
    then have i: "i < length (takeWhile P (drop s src))" using j by simp
    then have "i < length (drop s src)" using length_takeWhile_le [of P "drop s src"] by linarith
    moreover have "P (drop s src ! i)" using nth_mem [OF i] i by (metis set_takeWhileD takeWhile_nth)
    ultimately show "s + i < length src \<and> P (src ! (s + i))" using assms by simp
  qed
next
  assume j: "\<forall>i < j. s + i < length src \<and> P (src ! (s + i))"
  show "j \<le> length (takeWhile P (drop s src))"
  proof (rule ccontr)
    let ?n = "length (takeWhile P (drop s src))"
    assume "\<not> j \<le> ?n"
    then have n: "?n < j" by simp
    then have "s + ?n < length src" "P (src ! (s + ?n))" using j by auto
    moreover have "\<not> P (drop s src ! ?n)" using nth_length_takeWhile [of P "drop s src"] calculation(1) by simp
    ultimately show False using assms by simp
  qed
qed

section \<open>The matcher finds a match exactly when there is one\<close>

definition found :: "MatchState \<Rightarrow> nat \<Rightarrow> item list \<Rightarrow> nat option \<times> MatchState \<Rightarrow> bool" where
  "found ms s is r \<longleftrightarrow>
     (case r of
        (None, _) \<Rightarrow> \<nexists>e ds. imatch (ms_src ms) (ms_capture ms) s is e ds
      | (Some e, ms1) \<Rightarrow> imatch (ms_src ms) (ms_capture ms) s is e (ms_capture ms1))"

lemma found_simps [simp]:
  "found ms s is (None, ms1) \<longleftrightarrow> (\<nexists>e ds. imatch (ms_src ms) (ms_capture ms) s is e ds)"
  "found ms s is (Some e, ms1) \<longleftrightarrow> imatch (ms_src ms) (ms_capture ms) s is e (ms_capture ms1)"
  by (simp_all add: found_def)

text \<open>Subjects are shorter than a \<^verbatim>\<open>size_t\<close> can say.\<close>

definition start_ok :: "MatchState \<Rightarrow> nat \<Rightarrow> bool" where
  "start_ok ms s \<longleftrightarrow> minv ms s \<and> int (length (ms_src ms)) < 2 ^ 63"

definition finds :: "(MatchState \<Rightarrow> nat \<Rightarrow> matchres) \<Rightarrow> item list \<Rightarrow> bool" where
  "finds k is \<longleftrightarrow> match_safe k \<and> (\<forall>ms s r. start_ok ms s \<longrightarrow> k ms s = Inr r \<longrightarrow> found ms s is r)"

lemma findsD: "finds k is \<Longrightarrow> start_ok ms s \<Longrightarrow> k ms s = Inr r \<Longrightarrow> found ms s is r \<and> mpost ms s r"
proof
  assume k: "finds k is" and ms: "start_ok ms s" and r: "k ms s = Inr r"
  show "found ms s is r" using k ms r unfolding finds_def by blast
  have "safe (k ms s) (mpost ms s)" using k ms by (intro match_safeD) (simp_all add: finds_def start_ok_def)
  then show "mpost ms s r" using r by simp
qed

lemma start_ok_later: "start_ok ms s \<Longrightarrow> s \<le> t \<Longrightarrow> t \<le> length (ms_src ms) \<Longrightarrow> start_ok ms t"
  by (auto simp: start_ok_def intro: minv_later)

lemma start_capture_found:
  assumes k: "finds k is" and ms: "start_ok ms s" and w: "what = CAP_UNFINISHED \<or> what = CAP_POSITION"
    and r: "start_capture k ms s what = Inr r"
  shows "found ms s (Open what # is) r"
proof -
  let ?ms = "ms\<lparr>ms_capture := ms_capture ms @ [(s, what)]\<rparr>"
  have room: "\<not> length (ms_capture ms) \<ge> LUA_MAXCAPTURES" using r by (auto simp: start_capture_def ms_error_def)
  have "start_ok ?ms s" using ms w room by (auto simp: start_ok_def minv_def cap_ok_def)
  moreover obtain res ms1 where r1: "k ?ms s = Inr (res, ms1)"
      "r = (res, if res = None then ms1\<lparr>ms_capture := butlast (ms_capture ms1)\<rparr> else ms1)"
    using r room by (auto simp: start_capture_def bindE_simps)
  ultimately have "found ?ms s is (res, ms1)" using findsD [OF k] by blast
  then show ?thesis using r1(2) room by (cases res) (auto simp: imatch_simps)
qed

lemma end_capture_found:
  assumes k: "finds k is" and ms: "start_ok ms s" and r: "end_capture k ms s = Inr r"
  shows "found ms s (Close # is) r"
proof (cases "close_from (ms_capture ms) (length (ms_capture ms))")
  case None
  then show ?thesis using r by (simp add: end_capture_def capture_to_close_def ms_error_def)
next
  case (Some l)
  let ?ms = "set_len l (int s - int (fst (ms_capture ms ! l))) ms"
  have "l < length (ms_capture ms)" using close_from_less [OF Some] by simp
  then have "start_ok ?ms s" using ms set_len_minv by (auto simp: start_ok_def set_len_def)
  moreover obtain res ms1 where r1: "k ?ms s = Inr (res, ms1)"
      "r = (res, if res = None then set_len l CAP_UNFINISHED ms1 else ms1)"
    using r Some by (auto simp: end_capture_def capture_to_close_def bindE_simps)
  ultimately have "found ?ms s is (res, ms1)" using findsD [OF k] by blast
  then show ?thesis using r1(2) Some by (cases res) (auto simp: imatch_simps set_len_def)
qed

lemma max_try_found:
  assumes k: "finds k is" and ms: "start_ok ms s" "s + i \<le> length (ms_src ms)" and r: "max_try k ms s i = Inr (res, ms1)"
  shows "case res of
      None \<Rightarrow> \<forall>j \<le> i. \<nexists>e ds. imatch (ms_src ms) (ms_capture ms) (s + j) is e ds
    | Some e \<Rightarrow> \<exists>j \<le> i. imatch (ms_src ms) (ms_capture ms) (s + j) is e (ms_capture ms1)"
  using ms r
proof (induction i)
  case 0
  then have "found ms s is (res, ms1)" using findsD [OF k] by auto
  then show ?case by (cases res) auto
next
  case (Suc i)
  have ok: "start_ok ms (s + Suc i)" using start_ok_later [OF Suc.prems(1), of "s + Suc i"] Suc.prems(2) by simp
  obtain x where x: "k ms (s + Suc i) = Inr x" using Suc.prems(3) by (auto simp: bindE_simps)
  have f: "found ms (s + Suc i) is x" "mpost ms (s + Suc i) x" using findsD [OF k ok x] by simp_all
  show ?case
  proof (cases "fst x")
    case None
    with f(2) have x': "x = (None, ms)" by (auto elim: mpostE)
    then have "max_try k ms s i = Inr (res, ms1)" using Suc.prems(3) x by simp
    from Suc.IH [OF Suc.prems(1) _ this] Suc.prems(2) have IH: "case res of
      None \<Rightarrow> \<forall>j \<le> i. \<nexists>e ds. imatch (ms_src ms) (ms_capture ms) (s + j) is e ds
    | Some e \<Rightarrow> \<exists>j \<le> i. imatch (ms_src ms) (ms_capture ms) (s + j) is e (ms_capture ms1)" by simp
    show ?thesis
    proof (cases res)
      case None
      then show ?thesis using IH f(1) x' by (auto simp: le_Suc_eq)
    next
      case (Some e)
      then show ?thesis using IH by (auto intro: le_SucI)
    qed
  next
    case (Some e)
    then have "x = (res, ms1)" using Suc.prems(3) x by (cases x) auto
    then show ?thesis using f(1) Some by auto
  qed
qed

lemma star_runs:
  assumes "s \<le> length src"
  shows "imatch src cs s (Star P # is) e ds
     \<longleftrightarrow> (\<exists>j \<le> length (takeWhile P (drop s src)). imatch src cs (s + j) is e ds)"
  using star_elim [of src cs s P "is" e ds] star_intro [of _ s src P cs "is" e ds] takeWhile_run [OF assms, of _ P] by metis

lemma max_expand_found:
  assumes k: "finds k is" and ms: "start_ok ms s" and r: "max_expand k ms s p ep = Inr r"
  shows "found ms s (Star (\<lambda>c. singlematch c p ep) # is) r"
proof -
  let ?n = "length (takeWhile (\<lambda>c. singlematch c p ep) (drop s (ms_src ms)))"
  have s: "s \<le> length (ms_src ms)" using ms by (simp add: start_ok_def minv_def)
  have n: "s + ?n \<le> length (ms_src ms)"
    using length_takeWhile_le [of "\<lambda>c. singlematch c p ep" "drop s (ms_src ms)"] s by simp
  obtain res ms1 where r': "r = (res, ms1)" by (cases r)
  have "max_try k ms s ?n = Inr (res, ms1)" using r r' by (simp add: max_expand_def)
  from max_try_found [OF k ms n this] show ?thesis
    using star_runs [OF s, of "ms_capture ms" "\<lambda>c. singlematch c p ep" "is"] r' by (cases res) auto
qed

lemma star_unfold:
  "imatch src cs s (Star P # is) e ds
     \<longleftrightarrow> imatch src cs s is e ds \<or> (s < length src \<and> P (src ! s) \<and> imatch src cs (s + 1) (Star P # is) e ds)"
  by (auto elim: star_cases intro: star_take star_skip)

lemma min_expand_found:
  assumes "finds k is" "start_ok ms s" "src = ms_src ms" "min_expand k src ms s p ep = Inr r"
  shows "found ms s (Star (\<lambda>c. singlematch c p ep) # is) r"
  using assms
proof (induction k src ms s p ep rule: min_expand.induct)
  case (1 k src ms s p ep)
  let ?P = "\<lambda>c. singlematch c p ep"
  obtain x where x: "k ms s = Inr x" using 1(5) by (subst (asm) min_expand.simps) (auto simp: bindE_simps)
  have f: "found ms s is x" "mpost ms s x" using findsD [OF 1(2,3) x] by simp_all
  note U = star_unfold [of "ms_src ms" "ms_capture ms" s ?P "is"]
  show ?case
  proof (cases "fst x")
    case (Some e)
    then have "r = x" using 1(5) x by (subst (asm) min_expand.simps) (cases x, auto)
    then show ?thesis using f(1) Some U by (cases x) auto
  next
    case None
    with f(2) have x': "x = (None, ms)" by (auto elim: mpostE)
    show ?thesis
    proof (cases "s < length src \<and> ?P (src ! s)")
      case True
      have "min_expand k src ms (s + 1) p ep = Inr r" using 1(5) x x' True by (subst (asm) min_expand.simps) simp
      moreover have "start_ok ms (s + 1)" using 1(3,4) True by (auto intro: start_ok_later)
      ultimately have "found ms (s + 1) (Star ?P # is) r"
        using 1(1) [of "(None, ms)" None ms] x x' True 1(2,4) by simp
      then show ?thesis using U f(1) x' True 1(4) by (cases r; cases "fst r") auto
    next
      case False
      then have "r = (None, ms)" using 1(5) x x' by (subst (asm) min_expand.simps) (auto split: if_splits)
      then show ?thesis using U f(1) x' False 1(4) by auto
    qed
  qed
qed

lemma class_loop_ms: "class_loop ms p = Inr ep \<longleftrightarrow> class_loop ms0 p = Inr ep"
  by (induction ms p rule: class_loop.induct) (auto simp: Let_def ms_error_def)

lemma classend_ms: "classend ms p = Inr ep \<longleftrightarrow> classend ms0 p = Inr ep"
  using class_loop_ms by (auto simp: classend_def ms_error_def split: list.split)

lemma prepend_Inr: "prepend x m = Inr xs \<longleftrightarrow> (\<exists>ys. m = Inr ys \<and> xs = x # ys)"
  by (auto simp: prepend_def bindE_simps)

lemma src_at_char: "s \<le> length (ms_src ms) \<Longrightarrow> src_at ms s = Inr (char_at (ms_src ms) s)"
  by (auto simp: src_at_def char_at_def)

lemma previous_char: "s \<le> length (ms_src ms) \<Longrightarrow> previous ms s = Inr (char_before (ms_src ms) s)"
  using src_at_char [of "s - 1" ms] by (auto simp: previous_def char_before_def)

lemma match_capture_found:
  assumes ms: "start_ok ms s" and r: "match_capture ms s c = Inr t"
  shows "imatch (ms_src ms) (ms_capture ms) s (Backref c # is) e ds
    \<longleftrightarrow> (\<exists>s1. t = Some s1 \<and> imatch (ms_src ms) (ms_capture ms) s1 is e ds)"
proof -
  let ?cs = "ms_capture ms" and ?src = "ms_src ms"
  define l where "l = nat (c - 49)"
  obtain i len where c: "?cs ! l = (i, len)" by (cases "?cs ! l")
  have l: "49 \<le> c" "l < length ?cs" "len \<noteq> CAP_UNFINISHED"
    using r c by (auto simp: match_capture_def check_capture_def Let_def bindE_simps l_def ms_error_def split: if_splits)
  have t: "t = (if int (length ?src - s) \<ge> len mod 2 ^ 64
      \<and> take (nat (len mod 2 ^ 64)) (drop i ?src) = take (nat (len mod 2 ^ 64)) (drop s ?src)
      then Some (s + nat (len mod 2 ^ 64)) else None)"
    using r c l by (auto simp: match_capture_def check_capture_def Let_def l_def [symmetric] ms_error_def split: if_splits)
  have s: "s \<le> length ?src" "int (length ?src) < 2 ^ 63" using ms by (simp_all add: start_ok_def minv_def)
  have "cap_ok ?src s (i, len)" using ms l(2) c by (auto simp: start_ok_def minv_def list_all_length dest: spec [of _ l])
  then consider (pos) "len = CAP_POSITION" | (closed) n where "len = int n" "int i + len \<le> int (length ?src)"
    using l(3) by (auto simp: cap_ok_def dest: nonneg_int_cases)
  then show ?thesis
  proof cases
    case pos
    then have "t = None" using t s by (simp add: CAP_POSITION_def)
    then show ?thesis using pos c by (auto simp: imatch_simps l_def [symmetric] CAP_POSITION_def)
  next
    case closed
    then have "len mod 2 ^ 64 = int n" using s(2) by simp
    then have "t = (if n \<le> length ?src - s \<and> take n (drop i ?src) = take n (drop s ?src) then Some (s + n) else None)"
      using t by simp
    then show ?thesis using closed c l s by (auto simp: imatch_simps l_def [symmetric])
  qed
qed

lemma matchbalance_found:
  assumes ms: "start_ok ms s" and r: "matchbalance ms s p = Inr t"
  shows "imatch (ms_src ms) (ms_capture ms) s (Balance (peek p) (peek (drop 1 p)) # is) e ds
    \<longleftrightarrow> (\<exists>s1. t = Some s1 \<and> imatch (ms_src ms) (ms_capture ms) s1 is e ds)"
proof -
  have s: "s \<le> length (ms_src ms)" using ms by (simp add: start_ok_def minv_def)
  then show ?thesis using r
    by (auto simp: matchbalance_def src_at_char char_at_def imatch_simps ms_error_def split: if_splits)
qed

lemma item_found:
  assumes IH: "\<And>q is. length q < length p \<Longrightarrow> parse q = Inr is \<Longrightarrow> finds (\<lambda>ms s. do_match ms s q) is"
    and ms: "start_ok ms s" and ep: "length ep < length p"
    and m: "m = (s < length (ms_src ms) \<and> singlematch (ms_src ms ! s) p ep)"
    and p: "(let cl = (\<lambda>c. singlematch c p ep); e = peek ep in
            if e = CHR ''?'' then prepend (Opt cl) (parse (drop 1 ep))
            else if e = CHR ''*'' \<or> e = CHR ''-'' then prepend (Star cl) (parse (drop 1 ep))
            else if e = CHR ''+'' then prepend (Plus cl) (parse (drop 1 ep))
            else prepend (One cl) (parse ep)) = Inr is"
    and r: "(if peek ep = CHR ''?'' then
        (if m then
           bindE (do_match ms (s + 1) (drop 1 ep)) (\<lambda>(res, ms1).
           if res \<noteq> None then Inr (res, ms1) else do_match ms1 s (drop 1 ep))
         else do_match ms s (drop 1 ep))
      else if peek ep = CHR ''*'' then max_expand (\<lambda>ms s. do_match ms s (drop 1 ep)) ms s p ep
      else if peek ep = CHR ''+'' then
        (if m then max_expand (\<lambda>ms s. do_match ms s (drop 1 ep)) ms (s + 1) p ep else Inr (None, ms))
      else if peek ep = CHR ''-'' then min_expand (\<lambda>ms s. do_match ms s (drop 1 ep)) (ms_src ms) ms s p ep
      else if \<not> m then Inr (None, ms)
      else do_match ms (s + 1) ep) = Inr r"
  shows "found ms s is r"
proof -
  let ?P = "\<lambda>c. singlematch c p ep" and ?k = "\<lambda>ms s. do_match ms s (drop 1 ep)"
  have ms1: "m \<Longrightarrow> start_ok ms (s + 1)" using ms m by (auto intro: start_ok_later)
  have k: "parse (drop 1 ep) = Inr js \<Longrightarrow> finds ?k js" for js using IH ep by simp
  consider (opt) "peek ep = CHR ''?''" | (star) "peek ep = CHR ''*''" | (minus) "peek ep = CHR ''-''"
    | (plus) "peek ep = CHR ''+''" | (one) "peek ep \<notin> {CHR ''?'', CHR ''*'', CHR ''-'', CHR ''+''}" by blast
  then show ?thesis
  proof cases
    case star
    then obtain js where js: "parse (drop 1 ep) = Inr js" "is = Star ?P # js" using p by (auto simp: prepend_Inr Let_def)
    then show ?thesis using max_expand_found [OF k ms] r star by simp
  next
    case minus
    then obtain js where js: "parse (drop 1 ep) = Inr js" "is = Star ?P # js" using p by (auto simp: prepend_Inr Let_def)
    then show ?thesis using min_expand_found [OF k ms refl] r minus by simp
  next
    case plus
    then obtain js where js: "parse (drop 1 ep) = Inr js" "is = Plus ?P # js" using p by (auto simp: prepend_Inr Let_def)
    then show ?thesis using max_expand_found [OF k ms1, of js p ep r] r plus m
      by (cases m; cases r; cases "fst r") (auto simp: imatch_simps)
  next
    case one
    then obtain js where js: "parse ep = Inr js" "is = One ?P # js" using p by (auto simp: prepend_Inr Let_def)
    then show ?thesis using findsD [OF IH [OF ep js(1)] ms1, of r] r one m
      by (cases m; cases r; cases "fst r") (auto simp: imatch_simps)
  next
    case opt
    then obtain js where js: "parse (drop 1 ep) = Inr js" "is = Opt ?P # js" using p by (auto simp: prepend_Inr Let_def)
    show ?thesis
    proof (cases m)
      case False
      then show ?thesis using findsD [OF k [OF js(1)] ms, of r] r opt m js(2)
        by (cases r; cases "fst r") (auto simp: imatch_simps)
    next
      case True
      then obtain x where x: "do_match ms (s + 1) (drop 1 ep) = Inr x" using r opt by (auto simp: bindE_simps)
      have f: "found ms (s + 1) js x" "mpost ms (s + 1) x" using findsD [OF k [OF js(1)] ms1 [OF True] x] by simp_all
      show ?thesis
      proof (cases "fst x")
        case (Some e)
        then have "r = x" using r opt True x by (cases x) auto
        then show ?thesis using f(1) Some js(2) True m by (cases x) (auto simp: imatch_simps)
      next
        case None
        with f(2) have x': "x = (None, ms)" by (auto elim: mpostE)
        then have "do_match ms s (drop 1 ep) = Inr r" using r opt True x by simp
        then show ?thesis using findsD [OF k [OF js(1)] ms, of r] f(1) x' js(2)
          by (cases r; cases "fst r") (auto simp: imatch_simps)
      qed
    qed
  qed
qed

lemma do_match_found: "parse p = Inr is \<Longrightarrow> finds (\<lambda>ms s. do_match ms s p) is"
proof (induction p arbitrary: "is" rule: measure_induct_rule [where f = length])
  case (less p "is")
  have "found ms s is r" if ms: "start_ok ms s" and r: "do_match ms s p = Inr r" for ms s r
  proof (cases p)
    case Nil
    then show ?thesis using less.prems r by (subst (asm) parse.simps, subst (asm) do_match.simps) (auto simp: imatch_simps)
  next
    case (Cons c q)
    have k: "length q' < length p \<Longrightarrow> parse q' = Inr js \<Longrightarrow> finds (\<lambda>ms s. do_match ms s q') js" for q' js
      by (rule less.IH)
    have s: "s \<le> length (ms_src ms)" using ms by (simp add: start_ok_def minv_def)
    note R = r [unfolded Cons do_match.simps [of ms s "c # q"] list.case]
    note P = less.prems [unfolded Cons parse.simps [of "c # q"] list.case]
    consider (op) "c = CHR ''(''" | (cl) "c = CHR '')''" | (bal) "c = L_ESC" "peek q = CHR ''b''"
      | (front) "c = L_ESC" "peek q = CHR ''f''" | (ref) "c = L_ESC" "isdigit (char2int (peek q))" "peek q \<notin> {CHR ''b'', CHR ''f''}"
      | (nul) "c = NUL" | (dollar) "c = CHR ''$''" "peek q = NUL"
      | (item) "c \<noteq> CHR ''(''" "c \<noteq> CHR '')''" "\<not> (c = L_ESC \<and> peek q = CHR ''b'')" "\<not> (c = L_ESC \<and> peek q = CHR ''f'')"
        "\<not> (c = L_ESC \<and> isdigit (char2int (peek q)))" "c \<noteq> NUL" "\<not> (c = CHR ''$'' \<and> peek q = NUL)" by blast
    then show ?thesis
    proof cases
      case op
      show ?thesis
      proof (cases "peek q = CHR '')''")
        case True
        then obtain js where js: "parse (drop 1 q) = Inr js" "is = Open CAP_POSITION # js" using P op by (auto simp: prepend_Inr)
        then show ?thesis using start_capture_found [OF k [OF _ js(1)] ms, of CAP_POSITION r] R op True Cons by simp
      next
        case False
        then obtain js where js: "parse q = Inr js" "is = Open CAP_UNFINISHED # js" using P op by (auto simp: prepend_Inr)
        then show ?thesis using start_capture_found [OF k [OF _ js(1)] ms, of CAP_UNFINISHED r] R op False Cons by simp
      qed
    next
      case cl
      then obtain js where js: "parse q = Inr js" "is = Close # js" using P by (auto simp: prepend_Inr)
      then show ?thesis using end_capture_found [OF k [OF _ js(1)] ms, of r] R cl Cons by simp
    next
      case bal
      note c = bal(1) [unfolded L_ESC_def] bal(2)
      obtain js where js: "parse (drop 3 q) = Inr js" "is = Balance (peek (drop 1 q)) (peek (drop 2 q)) # js"
        using P c by (auto simp: prepend_Inr L_ESC_def ms_error_def split: if_splits)
      obtain t where t: "matchbalance ms s (drop 1 q) = Inr t"
        "(case t of None \<Rightarrow> Inr (None, ms) | Some s1 \<Rightarrow> bindE (adv 3 q) (\<lambda>p1. do_match ms s1 p1)) = Inr r"
        using R c by (auto simp: L_ESC_def bindE_simps)
      note B = matchbalance_found [OF ms t(1), of js]
      show ?thesis
      proof (cases t)
        case None
        then show ?thesis using B t(2) js(2) by (auto simp: numeral_2_eq_2)
      next
        case (Some s1)
        then have "do_match ms s1 (drop 3 q) = Inr r" using t(2) by (auto simp: adv_def split: if_splits)
        moreover have "s \<le> s1 \<and> s1 \<le> length (ms_src ms)"
          using safe_D [OF matchbalance_safe t(1), of] ms Some by (auto simp: start_ok_def)
        ultimately have "found ms s1 js r" using findsD [OF k [OF _ js(1)]] start_ok_later [OF ms] Cons by simp
        then show ?thesis using B Some js(2) by (cases r; cases "fst r") (auto simp: numeral_2_eq_2)
      qed
    next
      case front
      note c = front(1) [unfolded L_ESC_def] front(2)
      obtain ep js where js: "classend ms0 (drop 1 q) = Inr ep" "parse ep = Inr js"
        "is = Frontier (\<lambda>c. matchbracketclass (char2int c) (drop 1 q) (length ep + 1)) # js" "peek (drop 1 q) = CHR ''[''"
        using P c by (auto simp: prepend_Inr bindE_simps L_ESC_def ms_error_def split: if_splits)
      have ep: "classend ms (drop 1 q) = Inr ep" "length ep < length p"
        using js(1) classend_ms classend_less [OF js(1)] Cons by auto
      have "(if matchbracketclass (char2int (char_before (ms_src ms) s)) (drop 1 q) (length ep + 1)
               \<or> \<not> matchbracketclass (char2int (char_at (ms_src ms) s)) (drop 1 q) (length ep + 1)
             then Inr (None, ms) else do_match ms s ep) = Inr r"
        using R c js(4) ep(1) previous_char [OF s] src_at_char [OF s] by (simp add: L_ESC_def Let_def)
      then show ?thesis using findsD [OF k [OF ep(2) js(2)] ms, of r] js(3)
        by (cases r; cases "fst r") (auto simp: imatch_simps split: if_splits)
    next
      case ref
      then obtain js where js: "parse (drop 1 q) = Inr js" "is = Backref (char2int (peek q)) # js"
        using P by (auto simp: prepend_Inr L_ESC_def)
      obtain t where t: "match_capture ms s (char2int (peek q)) = Inr t"
        "(case t of None \<Rightarrow> Inr (None, ms) | Some s1 \<Rightarrow> do_match ms s1 (drop 1 q)) = Inr r"
        using R ref by (auto simp: L_ESC_def bindE_simps simp del: One_nat_def)
      note B = match_capture_found [OF ms t(1), of js]
      show ?thesis
      proof (cases t)
        case None
        then show ?thesis using B t(2) js(2) by auto
      next
        case (Some s1)
        have "s \<le> s1 \<and> s1 \<le> length (ms_src ms)"
          using safe_D [OF match_capture_safe t(1)] ms Some by (auto simp: start_ok_def)
        then have "found ms s1 js r" using findsD [OF k [OF _ js(1)]] start_ok_later [OF ms] Cons t(2) Some by simp
        then show ?thesis using B Some js(2) by (cases r; cases "fst r") auto
      qed
    next
      case nul
      then have "c \<noteq> CHR ''(''" "c \<noteq> CHR '')''" "c \<noteq> L_ESC" using NUL_neq by auto
      then show ?thesis using R P nul by (auto simp: imatch_simps)
    next
      case dollar
      then have "c \<noteq> NUL" "c \<noteq> CHR ''(''" "c \<noteq> CHR '')''" "c \<noteq> L_ESC" using NUL_neq by (auto simp: L_ESC_def)
      then show ?thesis using R P dollar by (auto simp: imatch_simps)
    next
      case item
      obtain ep where ep: "classend ms0 p = Inr ep" using P item Cons by (auto simp: bindE_simps)
      note ep' = ep [folded classend_ms [of ms]] classend_less [OF ep]
      show ?thesis
        by (rule item_found [OF less.IH ms ep'(2) refl])
          (use P R item ep [unfolded Cons] ep'(1) [unfolded Cons] in \<open>simp_all only: Cons Let_def simp_thms if_False bindE.simps\<close>)
    qed
  qed
  then show ?case using do_match_safe by (auto simp: finds_def)
qed

text \<open>
  C24. The matcher reads inside the subject and the pattern, whatever the pattern, leaves the
  captures as they were when it fails, and otherwise ends inside the subject, with captures that
  are parts of it.
\<close>

theorem match_reads_inside:
  assumes "s \<le> length src"
  shows "safe (do_match \<lparr>ms_src = src, ms_where = w, ms_capture = []\<rparr> s p)
    (\<lambda>(res, ms). case res of
       None \<Rightarrow> ms = \<lparr>ms_src = src, ms_where = w, ms_capture = []\<rparr>
     | Some e \<Rightarrow> s \<le> e \<and> e \<le> length src \<and> length (ms_capture ms) \<le> LUA_MAXCAPTURES
         \<and> list_all (cap_ok src e) (ms_capture ms))"
proof -
  have "minv \<lparr>ms_src = src, ms_where = w, ms_capture = []\<rparr> s" using assms by (simp add: minv_def)
  from match_safeD [OF do_match_safe this] show ?thesis
    by (rule safe_mono) (auto elim!: mpostE simp: minv_def)
qed

lemma match_reads_inside_witness:
  "safe (do_match \<lparr>ms_src = ''key = value'', ms_where = [], ms_capture = []\<rparr> 0 ''(%a+)%s*=%s*([^%s'') (\<lambda>_. True)"
  using match_reads_inside [of 0 "''key = value''" "[]" "''(%a+)%s*=%s*([^%s''"] by (auto elim: safe_mono)

text \<open>
  C25. The matcher is sound and complete: for a well-formed pattern, it finds a match at a
  position exactly when the items of the pattern match there, and the end and the captures it
  reports are those of such a match.
\<close>

theorem match_sound_complete:
  assumes "parse p = Inr is" "s \<le> length src" "int (length src) < 2 ^ 63"
    and "do_match \<lparr>ms_src = src, ms_where = w, ms_capture = []\<rparr> s p = Inr (res, ms)"
  shows "case res of
      None \<Rightarrow> \<nexists>e ds. imatch src [] s is e ds
    | Some e \<Rightarrow> imatch src [] s is e (ms_capture ms)"
proof -
  have "start_ok \<lparr>ms_src = src, ms_where = w, ms_capture = []\<rparr> s" using assms(2,3) by (simp add: start_ok_def minv_def)
  from findsD [OF do_match_found [OF assms(1)] this assms(4)] show ?thesis by (cases res) auto
qed

lemma match_sound_complete_witness:
  "\<exists>is ds. parse ''(%d+)-%1'' = Inr is \<and> imatch ''12-12'' [] 0 is 5 ds \<and> \<not> (\<exists>e ds. imatch ''12-13'' [] 0 is e ds)"
proof -
  obtain "is" where p: "parse ''(%d+)-%1'' = Inr is"
  proof -
    have "case parse ''(%d+)-%1'' of Inr x \<Rightarrow> True | _ \<Rightarrow> False" by code_simp
    then show ?thesis using that by (auto split: sum.splits)
  qed
  let ?m = "\<lambda>src. do_match \<lparr>ms_src = src, ms_where = [], ms_capture = []\<rparr> 0 ''(%d+)-%1''"
  have "?m ''12-12'' = Inr (Some 5, \<lparr>ms_src = ''12-12'', ms_where = [], ms_capture = [(0, 2)]\<rparr>)" by code_simp
  moreover have "?m ''12-13'' = Inr (None, \<lparr>ms_src = ''12-13'', ms_where = [], ms_capture = []\<rparr>)" by code_simp
  ultimately show ?thesis
    using match_sound_complete [OF p, of 0 "''12-12''" "[]"] match_sound_complete [OF p, of 0 "''12-13''" "[]"] p by auto
qed

end
