(* ===== verification/LuaParserSafe.thy ===== *)
theory LuaParserSafe
  imports LuaParser LuaLexSafe
begin

text \<open>
  The parser terminates.  The rules of the grammar consume tokens; \<open>con\<close> states how many a rule
  consumes and that it keeps the levels and open functions in balance, with one introduction rule
  per operation in \<open>con_rules\<close>.  The locale \<open>grammar\<close> is the contract of the two rules called before
  their definition, \<open>operators\<close> the one of \<^verbatim>\<open>subexpr\<close>; both are interpreted on the parser itself.
\<close>

section \<open>Tokens of the analyser\<close>

text \<open>Reading a token leaves the current token and the one looked ahead to their caller.\<close>

definition frame :: "lexstate \<Rightarrow> token \<times> token" where
  "frame ls = (ls_t ls, ls_lookahead ls)"

lemma frame_simps [simp]:
  "frame (ls\<lparr>ls_current := c\<rparr>) = frame ls" "frame (ls\<lparr>ls_z := z\<rparr>) = frame ls"
  "frame (ls\<lparr>ls_buff := b\<rparr>) = frame ls" "frame (ls\<lparr>ls_buffsize := k\<rparr>) = frame ls"
  "frame (ls\<lparr>ls_linenumber := l\<rparr>) = frame ls" "frame (ls\<lparr>ls_lastline := l\<rparr>) = frame ls" "frame (ls\<lparr>ls_decpoint := d\<rparr>) = frame ls"
  "frame (resetbuffer ls) = frame ls" "frame (luaX_newstring ls s) = frame ls" "frame (buffreplace ls x y) = frame ls"
  by (simp_all add: frame_def resetbuffer_def luaX_newstring_def buffreplace_def)

lemma frame_lex_next: "lex_next ls = Inr ls' \<Longrightarrow> frame ls' = frame ls"
  by (auto simp: lex_next_def bindE_simps)

lemma frame_save: "save ls c = Inr ls' \<Longrightarrow> frame ls' = frame ls"
  by (auto simp: save_def Let_def split: if_splits)

lemma frame_save_and_next: "save_and_next ls = Inr ls' \<Longrightarrow> frame ls' = frame ls"
  by (auto simp: save_and_next_def bindE_simps dest!: frame_lex_next frame_save)

lemma frame_inclinenumber: "inclinenumber ls = Inr ls' \<Longrightarrow> frame ls' = frame ls"
  by (auto simp: inclinenumber_def bindE_simps Let_def dest!: frame_lex_next split: if_splits)

lemma frame_check_next: "check_next ls cs = Inr (b, ls') \<Longrightarrow> frame ls' = frame ls"
  by (auto simp: check_next_def bindE_simps dest!: frame_save_and_next split: if_splits)

lemma frame_save_while: "save_while P ls = Inr ls' \<Longrightarrow> frame ls' = frame ls"
proof (induction P ls rule: save_while.induct)
  case (1 P ls)
  then show ?case
    by (subst (asm) (2) save_while.simps) (fastforce simp: bindE_simps dest: frame_save_and_next split: if_splits)
qed

lemma frame_trydecpoint: "trydecpoint ls = Inr (r, ls') \<Longrightarrow> frame ls' = frame ls"
  by (auto simp: trydecpoint_def Let_def split: option.splits)

lemma frame_read_numeral: "read_numeral ls = Inr (r, ls') \<Longrightarrow> frame ls' = frame ls"
  by (auto simp: read_numeral_def bindE_simps Let_def split: option.splits if_splits
      dest!: frame_save_and_next frame_save_while frame_check_next frame_save frame_trydecpoint)

lemma frame_skip_equals: "skip_equals ls n = Inr (k, ls') \<Longrightarrow> frame ls' = frame ls"
proof (induction ls n rule: skip_equals.induct)
  case (1 ls n)
  then show ?case
    by (subst (asm) (2) skip_equals.simps) (fastforce simp: bindE_simps dest: frame_save_and_next split: if_splits)
qed

lemma frame_skip_sep: "skip_sep ls = Inr (k, ls') \<Longrightarrow> frame ls' = frame ls"
  by (auto simp: skip_sep_def bindE_simps Let_def dest!: frame_save_and_next frame_skip_equals)

lemma frame_long_string_loop: "long_string_loop ls keep sep = Inr ls' \<Longrightarrow> frame ls' = frame ls"
proof (induction ls keep sep rule: long_string_loop.induct)
  case (1 ls keep sep)
  let ?c = "ls_current ls"
  note run = "1.prems" [unfolded long_string_loop.simps [of ls]]
  consider "?c = EOZ" | (lb) "?c \<noteq> EOZ" "?c = 91" | (rb) "?c \<noteq> EOZ" "?c \<noteq> 91" "?c = 93"
    | (nl) "?c \<noteq> EOZ" "?c \<noteq> 91" "?c \<noteq> 93" "currIsNewline ls"
    | (ch) "?c \<noteq> EOZ" "?c \<noteq> 91" "?c \<noteq> 93" "\<not> currIsNewline ls" by blast
  then show ?case
  proof cases
    case lb
    then obtain k ls1 where s: "skip_sep ls = Inr (k, ls1)" using run by (auto simp: bindE_simps)
    show ?thesis
    proof (cases "k = sep")
      case True
      then obtain ls2 where "save_and_next ls1 = Inr ls2" "sep \<noteq> 0" "long_string_loop ls2 keep sep = Inr ls'"
        using run lb s by (auto simp: bindE_simps split: if_splits)
      then show ?thesis
        using "1.IH"(1) [OF lb s refl True] frame_skip_sep [OF s] frame_save_and_next by auto
    next
      case False
      then show ?thesis using run lb s "1.IH"(2) [OF lb s refl False] frame_skip_sep [OF s] by simp
    qed
  next
    case rb
    then obtain k ls1 where s: "skip_sep ls = Inr (k, ls1)" using run by (auto simp: bindE_simps)
    then show ?thesis
      using run rb "1.IH"(3) [OF rb s refl] frame_skip_sep [OF s] frame_save_and_next by (cases "k = sep") auto
  next
    case nl
    then obtain ls1 ls2 where s: "save ls 10 = Inr ls1" "inclinenumber ls1 = Inr ls2"
      "long_string_loop (if keep then ls2 else resetbuffer ls2) keep sep = Inr ls'"
      using run by (auto simp: bindE_simps)
    then show ?thesis
      using "1.IH"(4) [OF nl s(1,2,3)] frame_save [OF s(1)] frame_inclinenumber [OF s(2)] by (simp split: if_splits)
  next
    case ch
    then show ?thesis
      using run "1.IH"(5) [OF ch] "1.IH"(6) [OF ch] frame_save_and_next frame_lex_next
      by (cases keep) (fastforce simp: bindE_simps)+
  qed (use run in simp)
qed

lemma frame_read_long_string: "read_long_string ls keep sep = Inr (s, ls') \<Longrightarrow> frame ls' = frame ls"
  by (auto simp: read_long_string_def bindE_simps Let_def split: if_splits
      dest!: frame_save_and_next frame_inclinenumber frame_long_string_loop)

lemma frame_read_decesc: "read_decesc i ls c = Inr (d, ls') \<Longrightarrow> frame ls' = frame ls"
proof (induction i ls c rule: read_decesc.induct)
  case (2 i ls c)
  then show ?case by (auto simp: bindE_simps split: if_splits) (metis frame_lex_next)
qed simp

lemma frame_read_escape: "read_escape ls = Inr ls' \<Longrightarrow> frame ls' = frame ls"
  by (auto simp: read_escape_def bindE_simps split: option.splits if_splits
      dest!: frame_save frame_lex_next frame_inclinenumber frame_save_and_next frame_read_decesc)

lemma frame_read_string_loop: "read_string_loop ls del = Inr ls' \<Longrightarrow> frame ls' = frame ls"
proof (induction ls del rule: read_string_loop.induct)
  case (1 ls del)
  show ?case
    using "1.prems" unfolding read_string_loop.simps [of ls]
    by (auto simp: bindE_simps split: if_splits)
      (metis "1.IH" frame_save_and_next frame_lex_next frame_read_escape)+
qed

lemma frame_read_string: "read_string ls del = Inr (s, ls') \<Longrightarrow> frame ls' = frame ls"
  by (auto simp: read_string_def bindE_simps Let_def dest!: frame_save_and_next frame_read_string_loop)

lemma frame_skip_line: "skip_line ls = Inr ls' \<Longrightarrow> frame ls' = frame ls"
proof (induction ls rule: skip_line.induct)
  case (1 ls)
  then show ?case
    by (subst (asm) (2) skip_line.simps) (fastforce simp: bindE_simps dest: frame_lex_next split: if_splits)
qed

lemma frame_skip_comment: "skip_comment ls = Inr ls' \<Longrightarrow> frame ls' = frame ls"
  by (auto simp: skip_comment_def bindE_simps Let_def split: if_splits
      dest!: frame_skip_sep frame_read_long_string frame_skip_line)

lemmas frame_lexemes = frame_lex_next frame_save_and_next frame_check_next frame_read_numeral frame_save_while
  frame_skip_sep frame_read_long_string frame_read_string frame_inclinenumber frame_skip_comment

lemma frame_llex_loop: "llex_loop ls = Inr (t, s, ls') \<Longrightarrow> frame ls' = frame ls"
proof (induction ls rule: llex_loop.induct)
  case (1 ls)
  show ?case
    using "1.prems"
    by (subst (asm) llex_loop.simps)
      (fastforce simp: bindE_simps two_char_def lex_dots_def lex_name_def lex_bracket_def Let_def split: if_splits
        dest: "1.IH" frame_lexemes)
qed

lemma frame_llex: "llex ls = Inr (t, s, ls') \<Longrightarrow> ls_t ls' = ls_t ls \<and> ls_lookahead ls' = ls_lookahead ls"
  using frame_llex_loop [of "resetbuffer ls"] by (auto simp: llex_def frame_def resetbuffer_def)

section \<open>Progress of the parser\<close>

text \<open>
  What is left to read, the current token and the one looked ahead included: every
  \<^verbatim>\<open>luaX_next\<close> on a token other than \<^verbatim>\<open>TK_EOS\<close> lowers it.
\<close>

definition pmeas :: "parstate \<Rightarrow> nat" where
  "pmeas s = lex_left (ps_ls s) + (if tok_token (ls_lookahead (ps_ls s)) \<noteq> TK_EOS then 1 else 0)
     + (if tok_token (ls_t (ps_ls s)) \<noteq> TK_EOS then 1 else 0)"

definition ptok :: "parstate \<Rightarrow> int" where
  "ptok s = tok_token (ls_t (ps_ls s))"

definition sok :: "parstate \<Rightarrow> bool" where
  "sok s \<longleftrightarrow> lex_ok (ps_ls s) \<and> tok_token (ls_lookahead (ps_ls s)) \<le> TK_EOS"

text \<open>
  \<open>con P B c h m K Q\<close>: from a state with less than \<open>B\<close> to read and a current token in \<open>P\<close>, the
  step \<open>m\<close> does not run out of fuel; a result \<open>x\<close> has consumed at least \<open>K x\<close>, the current token
  is then in \<open>Q x\<close>, \<^verbatim>\<open>nCcalls\<close> has changed by \<open>c\<close> and the number of open functions by \<open>h\<close>.
\<close>

definition con :: "(int \<Rightarrow> bool) \<Rightarrow> nat \<Rightarrow> int \<Rightarrow> int \<Rightarrow> 'a parse \<Rightarrow> ('a \<Rightarrow> nat) \<Rightarrow> ('a \<Rightarrow> int \<Rightarrow> bool) \<Rightarrow> bool" where
  "con P B c h m K Q \<longleftrightarrow>
     (\<forall>s. sok s \<and> P (ptok s) \<and> pmeas s < B \<longrightarrow>
        (case m s of
           None \<Rightarrow> False
         | Some (Inl e) \<Rightarrow> True
         | Some (Inr (x, s1)) \<Rightarrow>
             sok s1 \<and> pmeas s1 + K x \<le> pmeas s \<and> Q x (ptok s1)
             \<and> ps_nCcalls s1 = ps_nCcalls s + c \<and> int (length (ps_fs s1)) = int (length (ps_fs s)) + h))"

named_theorems con_rules "steps of the parser: consumption and balance"
named_theorems parse_norm "normal form of a sequence of steps"

lemma bindP_assoc [parse_norm]: "bindP (bindP m f) g = bindP m (\<lambda>x. bindP (f x) g)"
  by (auto simp: bindP_def fun_eq_iff split: option.splits sum.splits)

lemma bindP_if [parse_norm]: "bindP (if b then m1 else m2) f = (if b then bindP m1 f else bindP m2 f)"
  by simp

lemma bindP_case_prod [parse_norm]: "bindP (case x of (a, b) \<Rightarrow> m a b) f = (case x of (a, b) \<Rightarrow> bindP (m a b) f)"
  by (cases x) simp

lemma bindP_ret [parse_norm]: "bindP (retP x) f = f x" "bindP m retP = m"
  by (auto simp: bindP_def retP_def fun_eq_iff split: option.splits sum.splits)

lemma bindP_fail [parse_norm]: "bindP (syntaxP msg) f = syntaxP msg" "bindP (error_expected t) f = error_expected t"
  by (auto simp: bindP_def syntaxP_def error_expected_def fun_eq_iff)

lemma con_bind_balance:
  assumes "con P B c1 h1 m K1 Q1" "\<And>x. con (Q1 x) (B - K1 x) (c - c1) (h - h1) (f x) (\<lambda>y. K y - K1 x) Q"
  shows "con P B c h (bindP m f) K Q"
  unfolding con_def
proof (intro allI impI)
  fix s assume s: "sok s \<and> P (ptok s) \<and> pmeas s < B"
  note m = assms(1) [unfolded con_def, rule_format, OF s]
  show "case bindP m f s of None \<Rightarrow> False | Some (Inl e) \<Rightarrow> True
    | Some (Inr (x, s1)) \<Rightarrow> sok s1 \<and> pmeas s1 + K x \<le> pmeas s \<and> Q x (ptok s1)
        \<and> ps_nCcalls s1 = ps_nCcalls s + c \<and> int (length (ps_fs s1)) = int (length (ps_fs s)) + h"
  proof (cases "\<exists>x s1. m s = Some (Inr (x, s1))")
    case True
    then obtain x s1 where x: "m s = Some (Inr (x, s1))" by blast
    with m have s1: "sok s1" "pmeas s1 + K1 x \<le> pmeas s" "Q1 x (ptok s1)" "ps_nCcalls s1 = ps_nCcalls s + c1"
      "int (length (ps_fs s1)) = int (length (ps_fs s)) + h1" by auto
    with s have "sok s1 \<and> Q1 x (ptok s1) \<and> pmeas s1 < B - K1 x" by linarith
    from assms(2) [unfolded con_def, rule_format, OF this] s1 show ?thesis
      by (auto simp: bindP_def x split: option.splits sum.splits)
  qed (use m in \<open>auto simp: bindP_def split: option.splits sum.splits\<close>)
qed

lemma con_bind:
  assumes "con P B 0 0 m K1 Q1" "\<And>x. con (Q1 x) (B - K1 x) c h (f x) (\<lambda>y. K y - K1 x) Q"
  shows "con P B c h (bindP m f) K Q"
  by (rule con_bind_balance [OF assms(1)]) (use assms(2) in simp)

lemma con_tail:
  assumes "con P B 0 0 m K1 Q1" "\<And>x t. Q1 x t \<Longrightarrow> Q x t" "\<And>x. K x \<le> K1 x"
  shows "con P B 0 0 m K Q"
  unfolding con_def
proof (intro allI impI)
  fix s assume "sok s \<and> P (ptok s) \<and> pmeas s < B"
  from assms(1) [unfolded con_def, rule_format, OF this] assms(2,3)
  show "case m s of None \<Rightarrow> False | Some (Inl e) \<Rightarrow> True
    | Some (Inr (x, s1)) \<Rightarrow> sok s1 \<and> pmeas s1 + K x \<le> pmeas s \<and> Q x (ptok s1)
        \<and> ps_nCcalls s1 = ps_nCcalls s + 0 \<and> int (length (ps_fs s1)) = int (length (ps_fs s)) + 0"
    by (auto split: option.splits sum.splits intro: order_trans [OF add_left_mono])
qed

lemma con_pre: "con P B c h m K Q \<Longrightarrow> (\<And>t. P1 t \<Longrightarrow> P t) \<Longrightarrow> B1 \<le> B \<Longrightarrow> con P1 B1 c h m K Q"
  unfolding con_def by (meson less_le_trans)

lemma con_if [con_rules]:
  "(b \<Longrightarrow> con P B c h m1 K Q) \<Longrightarrow> (\<not> b \<Longrightarrow> con P B c h m2 K Q) \<Longrightarrow> con P B c h (if b then m1 else m2) K Q"
  by simp

lemma con_case_prod [con_rules]:
  "(\<And>a b. x = (a, b) \<Longrightarrow> con P B c h (f a b) K Q) \<Longrightarrow> con P B c h (case x of (a, b) \<Rightarrow> f a b) K Q"
  by (cases x) simp

lemma con_ret [con_rules]: "K x = 0 \<Longrightarrow> (\<And>t. P t \<Longrightarrow> Q x t) \<Longrightarrow> con P B 0 0 (retP x) K Q"
  by (simp add: con_def retP_def)

lemma con_fail [con_rules]: "con P B c h (syntaxP msg) K Q" "con P B c h (error_expected t) K Q"
  by (simp_all add: con_def syntaxP_def error_expected_def)

lemma con_genP: "con P B 0 0 (genP m) (\<lambda>_. 0) (\<lambda>_. P)"
  by (auto simp: con_def genP_def sok_def ptok_def pmeas_def bindE_simps split: list.splits sum.splits option.splits)

lemma con_getP: "con P B 0 0 (getP f) (\<lambda>_. 0) (\<lambda>_. P)"
  by (simp add: con_def getP_def)

lemma con_tokP: "con P B 0 0 tokP (\<lambda>_. 0) (\<lambda>x t. t = x \<and> P t)"
  by (simp add: con_def tokP_def getP_def ptok_def)

lemma con_lineP: "con P B 0 0 lineP (\<lambda>_. 0) (\<lambda>_. P)"
  by (simp add: con_def lineP_def getP_def)

lemma next_spec:
  assumes "sok s" "luaX_next (ps_ls s) = Inr ls"
  shows "sok (s\<lparr>ps_ls := ls\<rparr>)" "pmeas (s\<lparr>ps_ls := ls\<rparr>) + (if ptok s \<noteq> TK_EOS then 1 else 0) \<le> pmeas s"
proof -
  let ?l = "(ps_ls s)\<lparr>ls_lastline := ls_linenumber (ps_ls s)\<rparr>"
  have ok: "lex_ok ?l" "lex_left ?l = lex_left (ps_ls s)" using assms(1) by (simp_all add: sok_def lex_ok_def lex_left_def)
  have "sok (s\<lparr>ps_ls := ls\<rparr>) \<and> pmeas (s\<lparr>ps_ls := ls\<rparr>) + (if ptok s \<noteq> TK_EOS then 1 else 0) \<le> pmeas s"
  proof (cases "tok_token (ls_lookahead (ps_ls s)) = TK_EOS")
    case False
    then show ?thesis
      using assms by (auto simp: luaX_next_def Let_def sok_def pmeas_def ptok_def lex_ok_def lex_left_def)
  next
    case True
    then obtain t si ls1 where l: "llex ?l = Inr (t, si, ls1)" "ls = ls1\<lparr>ls_t := \<lparr>tok_token = t, tok_seminfo = si\<rparr>\<rparr>"
      using assms(2) by (auto simp: luaX_next_def Let_def bindE_simps)
    have "safe (llex ?l) (lex_result (resetbuffer ?l))"
      unfolding llex_def by (rule llex_loop_safe [OF lex_ok_resetbuffer [OF ok(1)]])
    with l(1) ok(2) have "lex_ok ls1" "t \<le> TK_EOS" "if t = TK_EOS then lex_left ls1 \<le> lex_left (ps_ls s) else lex_left ls1 < lex_left (ps_ls s)"
      by (auto simp: lex_result_def token_ok_def split: if_splits)
    with frame_llex [OF l(1)] True assms(1) show ?thesis
      by (auto simp: l(2) sok_def pmeas_def ptok_def lex_ok_def lex_left_def split: if_splits)
  qed
  then show "sok (s\<lparr>ps_ls := ls\<rparr>)" "pmeas (s\<lparr>ps_ls := ls\<rparr>) + (if ptok s \<noteq> TK_EOS then 1 else 0) \<le> pmeas s" by blast+
qed

lemma con_nextP: "(\<And>t. P t \<Longrightarrow> t \<noteq> TK_EOS) \<Longrightarrow> con P B 0 0 nextP (\<lambda>_. 1) (\<lambda>_ _. True)"
  using next_spec by (fastforce simp: con_def nextP_def lexP_def bindE_simps split: option.splits sum.splits if_splits)

lemma con_nextP_weak: "con P B 0 0 nextP (\<lambda>_. 0) (\<lambda>_ _. True)"
  using next_spec by (fastforce simp: con_def nextP_def lexP_def bindE_simps split: option.splits sum.splits if_splits)

lemma con_lookahead: "con P B 0 0 (lexP luaX_lookahead) (\<lambda>_. 0) (\<lambda>_. P)"
  unfolding con_def
proof (intro allI impI)
  fix s assume s: "sok s \<and> P (ptok s) \<and> pmeas s < B"
  have "safe (llex (ps_ls s)) (lex_result (resetbuffer (ps_ls s)))"
    unfolding llex_def using s by (intro llex_loop_safe lex_ok_resetbuffer) (simp add: sok_def)
  then show "case lexP luaX_lookahead s of None \<Rightarrow> False | Some (Inl e) \<Rightarrow> True
    | Some (Inr (x, s1)) \<Rightarrow> sok s1 \<and> pmeas s1 + 0 \<le> pmeas s \<and> P (ptok s1)
        \<and> ps_nCcalls s1 = ps_nCcalls s + 0 \<and> int (length (ps_fs s1)) = int (length (ps_fs s)) + 0"
  proof (cases "llex (ps_ls s)")
    case (Inr r)
    then obtain t si ls1 where l: "llex (ps_ls s) = Inr (t, si, ls1)" by (cases r) auto
    with \<open>safe _ _\<close> have "lex_ok ls1" "t \<le> TK_EOS" "if t = TK_EOS then lex_left ls1 \<le> lex_left (ps_ls s) else lex_left ls1 < lex_left (ps_ls s)"
      by (auto simp: lex_result_def token_ok_def split: if_splits)
    with frame_llex [OF l] s show ?thesis
      by (auto simp: lexP_def luaX_lookahead_def l sok_def pmeas_def ptok_def lex_ok_def lex_left_def split: if_splits)
  qed (simp add: lexP_def luaX_lookahead_def)
qed

lemmas [con_rules] = con_genP [THEN con_bind] con_genP [THEN con_tail] con_getP [THEN con_bind]
  con_tokP [THEN con_bind] con_lineP [THEN con_bind] con_nextP [THEN con_bind] con_nextP [THEN con_tail]
  con_lookahead [THEN con_bind]

lemma con_testnext:
  "c \<noteq> TK_EOS \<Longrightarrow> con P B 0 0 (testnext c) (\<lambda>b. if b then 1 else 0) (\<lambda>b t. \<not> b \<longrightarrow> P t \<and> t \<noteq> c)"
  unfolding testnext_def by (auto intro!: con_rules)

lemma con_check: "con P B 0 0 (check c) (\<lambda>_. 0) (\<lambda>_ t. t = c)"
  unfolding check_def by (auto intro!: con_rules)

lemmas [con_rules] = con_testnext [THEN con_bind] con_testnext [THEN con_tail] con_check [THEN con_bind]

lemma con_checknext: "c \<noteq> TK_EOS \<Longrightarrow> con P B 0 0 (checknext c) (\<lambda>_. 1) (\<lambda>_ _. True)"
  unfolding checknext_def by (auto intro!: con_rules)

lemma not_EOS [simp]:
  "93 \<noteq> TK_EOS" "61 \<noteq> TK_EOS" "123 \<noteq> TK_EOS" "125 \<noteq> TK_EOS" "44 \<noteq> TK_EOS" "59 \<noteq> TK_EOS" "41 \<noteq> TK_EOS"
  "40 \<noteq> TK_EOS" "46 \<noteq> TK_EOS" "91 \<noteq> TK_EOS" "58 \<noteq> TK_EOS" "45 \<noteq> TK_EOS" "35 \<noteq> TK_EOS"
  "TK_NAME \<noteq> TK_EOS" "TK_STRING \<noteq> TK_EOS" "TK_NUMBER \<noteq> TK_EOS" "TK_DOTS \<noteq> TK_EOS" "TK_NIL \<noteq> TK_EOS"
  "TK_TRUE \<noteq> TK_EOS" "TK_FALSE \<noteq> TK_EOS" "TK_FUNCTION \<noteq> TK_EOS" "TK_END \<noteq> TK_EOS" "TK_UNTIL \<noteq> TK_EOS"
  "TK_DO \<noteq> TK_EOS" "TK_THEN \<noteq> TK_EOS" "TK_IN \<noteq> TK_EOS" "TK_ELSE \<noteq> TK_EOS" "TK_ELSEIF \<noteq> TK_EOS" "TK_IF \<noteq> TK_EOS"
  "TK_WHILE \<noteq> TK_EOS" "TK_FOR \<noteq> TK_EOS" "TK_REPEAT \<noteq> TK_EOS" "TK_LOCAL \<noteq> TK_EOS" "TK_RETURN \<noteq> TK_EOS"
  "TK_BREAK \<noteq> TK_EOS" "TK_NOT \<noteq> TK_EOS"
  by (simp_all add: TK_word_defs)

lemma con_check_match: "what \<noteq> TK_EOS \<Longrightarrow> con P B 0 0 (check_match what who line) (\<lambda>_. 1) (\<lambda>_ _. True)"
proof -
  assume "what \<noteq> TK_EOS"
  moreover have "con P B 0 0 (\<lambda>s. Some (Inl (e s))) K Q" for e :: "parstate \<Rightarrow> lua_error" and P B K and Q :: "'a \<Rightarrow> int \<Rightarrow> bool"
    by (simp add: con_def)
  ultimately show ?thesis
    unfolding check_match_def by (auto intro!: con_rules)
qed

lemma con_tokstrP: "con P B 0 0 tokstrP (\<lambda>_. 0) (\<lambda>_. P)"
  by (auto simp: con_def tokstrP_def retP_def split: seminfo.splits)

lemmas [con_rules] = con_checknext [THEN con_bind] con_checknext [THEN con_tail] con_check_match [THEN con_bind]
  con_check_match [THEN con_tail] con_tokstrP [THEN con_bind]


lemma con_str_checkname: "con P B 0 0 str_checkname (\<lambda>_. 1) (\<lambda>_ _. True)"
  unfolding str_checkname_def by (auto intro!: con_rules simp: parse_norm)

lemma con_codestring: "con P B 0 0 (codestring s) (\<lambda>_. 0) (\<lambda>_. P)"
  unfolding codestring_def by (auto intro!: con_rules)

lemmas [con_rules] = con_str_checkname [THEN con_bind] con_codestring [THEN con_bind] con_codestring [THEN con_tail]

lemma con_checkname: "con P B 0 0 checkname (\<lambda>_. 1) (\<lambda>_ _. True)"
  unfolding checkname_def by (auto intro!: con_rules)

lemma con_literal: "con P B 0 0 (new_localvarliteral v k) (\<lambda>_. 0) (\<lambda>_. P)"
proof -
  have "con P B 0 0 (lexP (\<lambda>ls. Inr (luaX_newstring ls v))) (\<lambda>_. 0) (\<lambda>_. P)" for P B
    by (simp add: con_def lexP_def sok_def pmeas_def ptok_def) (simp add: luaX_newstring_def)
  then show ?thesis
    unfolding new_localvarliteral_def by (rule con_bind) (auto intro!: con_rules)
qed

lemma singlevaraux_length:
  "singlevaraux ls fss n base = Inr ((k, v), fss') \<Longrightarrow> length fss' = length fss"
  by (induction fss arbitrary: base k v fss') (fastforce simp: bindE_simps split: if_splits)+

lemma con_singlevar: "con P B 0 0 singlevar (\<lambda>_. 1) (\<lambda>_ _. True)"
proof -
  have "con P B 0 0 (\<lambda>s. Some (bindE (singlevaraux (ps_ls s) (ps_fs s) name True) (\<lambda>(kv, fss). Inr (kv, s\<lparr>ps_fs := fss\<rparr>))))
    (\<lambda>_. 0) (\<lambda>_. P)" for P B name
    by (auto simp: con_def sok_def pmeas_def ptok_def bindE_simps dest: singlevaraux_length split: sum.splits)
  note con_rules = con_rules this [THEN con_bind]
  show ?thesis unfolding singlevar_def by (auto intro!: con_rules simp: parse_norm)
qed

lemmas [con_rules] = con_checkname [THEN con_bind] con_checkname [THEN con_tail] con_literal [THEN con_bind]
  con_singlevar [THEN con_bind] con_singlevar [THEN con_tail]

text \<open>Levels and functions change the balance.\<close>

lemma con_enterlevel: "con P B 1 0 enterlevel (\<lambda>_. 0) (\<lambda>_. P)"
  by (simp add: con_def enterlevel_def Let_def sok_def pmeas_def ptok_def)

lemma con_leavelevel: "con P B (-1) 0 leavelevel (\<lambda>_. 0) (\<lambda>_. P)"
  by (simp add: con_def leavelevel_def sok_def pmeas_def ptok_def)

lemma con_open_func: "con P B 0 1 open_func (\<lambda>_. 0) (\<lambda>_. P)"
  by (auto simp: con_def open_func_def bindE_simps sok_def pmeas_def ptok_def split: sum.splits)

lemma con_anchor_token: "con P B 0 0 anchor_token (\<lambda>_. 0) (\<lambda>_. P)"
  by (simp add: con_def anchor_token_def Let_def sok_def pmeas_def ptok_def split: seminfo.splits)
    (simp add: luaX_newstring_def)

lemma genP_open: "genP m s = Some (Inr (x, s1)) \<Longrightarrow> ps_fs s1 \<noteq> [] \<and> length (ps_fs s1) = length (ps_fs s)"
  by (auto simp: genP_def bindE_simps split: list.splits)

lemma con_close_func: "con P B 0 (-1) close_func (\<lambda>_. 0) (\<lambda>_. P)"
proof -
  have drop: "con P B 0 (-1) (bindP (genP m) (\<lambda>fs. bindP (\<lambda>s. Some (Inr ((), s\<lparr>ps_fs := tl (ps_fs s)\<rparr>))) (\<lambda>_. bindP anchor_token (\<lambda>_. retP fs))))
      (\<lambda>_. 0) (\<lambda>_. P)" for P B m
    unfolding con_def
  proof (intro allI impI)
    fix s assume s: "sok s \<and> P (ptok s) \<and> pmeas s < B"
    show "case bindP (genP m) (\<lambda>fs. bindP (\<lambda>s. Some (Inr ((), s\<lparr>ps_fs := tl (ps_fs s)\<rparr>))) (\<lambda>_. bindP anchor_token (\<lambda>_. retP fs))) s of
        None \<Rightarrow> False | Some (Inl e) \<Rightarrow> True
      | Some (Inr (x, s1)) \<Rightarrow> sok s1 \<and> pmeas s1 + 0 \<le> pmeas s \<and> P (ptok s1)
          \<and> ps_nCcalls s1 = ps_nCcalls s + 0 \<and> int (length (ps_fs s1)) = int (length (ps_fs s)) + - 1"
    proof (cases "\<exists>fs s1. genP m s = Some (Inr (fs, s1))")
      case True
      then obtain fs s1 where g: "genP m s = Some (Inr (fs, s1))" by blast
      let ?s = "s1\<lparr>ps_fs := tl (ps_fs s1)\<rparr>"
      from con_genP [of P B m, unfolded con_def, rule_format, OF s] g genP_open [OF g]
      have "sok ?s \<and> P (ptok ?s) \<and> pmeas ?s < B" and r: "pmeas ?s \<le> pmeas s" "ps_nCcalls ?s = ps_nCcalls s"
        "int (length (ps_fs ?s)) = int (length (ps_fs s)) - 1"
        using s by (auto simp: sok_def ptok_def pmeas_def neq_Nil_conv)
      from con_anchor_token [of P B, unfolded con_def, rule_format, OF this(1)] r show ?thesis
        by (auto simp: bindP_def retP_def g split: option.splits sum.splits)
    qed (use con_genP [of P B m, unfolded con_def, rule_format, OF s] in
      \<open>auto simp: bindP_def split: option.splits sum.splits\<close>)
  qed
  show ?thesis
    unfolding close_func_def by (rule con_bind [OF con_genP], rule con_bind [OF con_genP]) (use drop in simp)
qed

lemmas [con_rules] = con_enterlevel [THEN con_bind_balance] con_leavelevel [THEN con_bind_balance]
  con_open_func [THEN con_bind_balance] con_close_func [THEN con_bind_balance]

section \<open>The rules\<close>

text \<open>
  The contract of the two rules that the others are given: on an input shorter than \<open>n\<close> an
  expression ends and consumes a token, and a chunk ends.
\<close>

locale grammar =
  fixes expr :: "expdesc parse" and chunk :: "unit parse" and n :: nat
  assumes con_expr: "B \<le> n \<Longrightarrow> con P B 0 0 expr (\<lambda>_. 1) (\<lambda>_ _. True)"
    and con_chunk: "B \<le> n \<Longrightarrow> con P B 0 0 chunk (\<lambda>_. 0) (\<lambda>_ _. True)"
begin

lemmas [con_rules] = con_expr [THEN con_bind] con_expr [THEN con_tail] con_chunk [THEN con_bind]

lemma con_field: "(\<And>t. P t \<Longrightarrow> t \<noteq> TK_EOS) \<Longrightarrow> con P B 0 0 (field v) (\<lambda>_. 1) (\<lambda>_ _. True)"
  unfolding field_def by (auto intro!: con_rules)

lemma con_yindex: "B \<le> Suc n \<Longrightarrow> (\<And>t. P t \<Longrightarrow> t \<noteq> TK_EOS) \<Longrightarrow> con P B 0 0 (yindex expr) (\<lambda>_. 1) (\<lambda>_ _. True)"
  unfolding yindex_def by (auto intro!: con_rules)

lemma con_yindex_inside: "B \<le> n \<Longrightarrow> con P B 0 0 (yindex expr) (\<lambda>_. 1) (\<lambda>_ _. True)"
  unfolding yindex_def
  by (rule con_bind [OF con_nextP_weak]) (auto intro!: con_rules)

lemma con_recfield: "B \<le> n \<Longrightarrow> con P B 0 0 (recfield expr cc) (\<lambda>_. 1) (\<lambda>_ _. True)"
  unfolding recfield_def
  by (auto intro!: con_rules con_yindex_inside [THEN con_bind] simp: parse_norm le_diff_conv)

lemma con_listfield: "B \<le> n \<Longrightarrow> con P B 0 0 (listfield expr cc) (\<lambda>_. 1) (\<lambda>_ _. True)"
  unfolding listfield_def by (auto intro!: con_rules)

lemmas [con_rules] = con_recfield [THEN con_tail] con_listfield [THEN con_tail]

lemma con_constructor_item: "B \<le> n \<Longrightarrow> con P B 0 0 (constructor_item expr cc) (\<lambda>_. 1) (\<lambda>_ _. True)"
  unfolding constructor_item_def by (auto intro!: con_rules)

lemmas [con_rules] = con_constructor_item [THEN con_bind]

lemma con_constructor_loop:
  "B \<le> m \<Longrightarrow> B \<le> n \<Longrightarrow> con P B 0 0 (constructor_loop expr m cc) (\<lambda>_. 0) (\<lambda>_ _. True)"
proof (induction m arbitrary: P B cc)
  case 0
  then show ?case by (simp add: con_def)
next
  case (Suc m)
  note [con_rules] = Suc.IH [THEN con_tail]
  show ?case
    using Suc.prems by (auto intro!: con_rules simp: parse_norm le_diff_conv)
qed

lemmas [con_rules] = con_constructor_loop [THEN con_bind]

lemma con_constructor: "B \<le> Suc n \<Longrightarrow> B \<le> Suc m \<Longrightarrow> con P B 0 0 (constructor expr m) (\<lambda>_. 1) (\<lambda>_ _. True)"
  unfolding constructor_def by (auto intro!: con_rules)

lemmas [con_rules] = con_field [THEN con_bind] con_yindex [THEN con_bind] con_constructor [THEN con_tail]

lemma con_parlist_loop: "B \<le> m \<Longrightarrow> con P B 0 0 (parlist_loop m k) (\<lambda>_. 0) (\<lambda>_ _. True)"
proof (induction m arbitrary: P B k)
  case 0
  then show ?case by (simp add: con_def)
next
  case (Suc m)
  note [con_rules] = Suc.IH [THEN con_tail]
  show ?case
    using Suc.prems by (auto intro!: con_rules simp: parse_norm le_diff_conv)
qed

lemmas [con_rules] = con_parlist_loop [THEN con_bind]

lemma con_parlist: "B \<le> m \<Longrightarrow> con P B 0 0 (parlist m) (\<lambda>_. 0) (\<lambda>_ _. True)"
  unfolding parlist_def by (auto intro!: con_rules simp: parse_norm)

lemmas [con_rules] = con_parlist [THEN con_bind]

lemma con_body: "B \<le> Suc n \<Longrightarrow> B \<le> Suc m \<Longrightarrow> con P B 0 0 (body chunk m s l) (\<lambda>_. 1) (\<lambda>_ _. True)"
  unfolding body_def by (auto intro!: con_rules simp: parse_norm le_diff_conv)

lemma con_explist1_loop: "B \<le> m \<Longrightarrow> B \<le> n \<Longrightarrow> con P B 0 0 (explist1_loop expr m v k) (\<lambda>_. 0) (\<lambda>_ _. True)"
proof (induction m arbitrary: P B v k)
  case 0
  then show ?case by (simp add: con_def)
next
  case (Suc m)
  note [con_rules] = Suc.IH [THEN con_tail]
  show ?case
    using Suc.prems by (auto intro!: con_rules simp: parse_norm le_diff_conv)
qed

lemmas [con_rules] = con_body [THEN con_bind] con_body [THEN con_tail] con_explist1_loop [THEN con_tail]

lemma con_explist1: "B \<le> Suc m \<Longrightarrow> B \<le> n \<Longrightarrow> con P B 0 0 (explist1 expr m) (\<lambda>_. 1) (\<lambda>_ _. True)"
  unfolding explist1_def by (auto intro!: con_rules simp: le_diff_conv)

lemmas [con_rules] = con_explist1 [THEN con_bind]

lemma con_callargs: "B \<le> Suc n \<Longrightarrow> B \<le> Suc m \<Longrightarrow> con P B 0 0 (callargs expr m l) (\<lambda>_. 1) (\<lambda>_ _. True)"
  unfolding callargs_def by (auto intro!: con_rules simp: parse_norm le_diff_conv)

lemmas [con_rules] = con_callargs [THEN con_bind]

lemma con_funcargs: "B \<le> Suc n \<Longrightarrow> B \<le> Suc m \<Longrightarrow> con P B 0 0 (funcargs expr m v) (\<lambda>_. 1) (\<lambda>_ _. True)"
  unfolding funcargs_def by (auto intro!: con_rules simp: parse_norm le_diff_conv Let_def)

lemmas [con_rules] = con_funcargs [THEN con_bind]

lemma con_prefixexp: "B \<le> Suc n \<Longrightarrow> con P B 0 0 (prefixexp expr) (\<lambda>_. 1) (\<lambda>_ _. True)"
  unfolding prefixexp_def by (auto intro!: con_rules simp: le_diff_conv)

lemma con_primaryexp_loop: "B \<le> m \<Longrightarrow> B \<le> Suc n \<Longrightarrow> con P B 0 0 (primaryexp_loop expr m v) (\<lambda>_. 0) (\<lambda>_ _. True)"
proof (induction m arbitrary: P B v)
  case 0
  then show ?case by (simp add: con_def)
next
  case (Suc m)
  note [con_rules] = Suc.IH [THEN con_tail]
  show ?case
    using Suc.prems by (auto intro!: con_rules simp: parse_norm le_diff_conv)
qed

lemmas [con_rules] = con_prefixexp [THEN con_bind] con_primaryexp_loop [THEN con_tail]

lemma con_primaryexp: "B \<le> Suc m \<Longrightarrow> B \<le> Suc n \<Longrightarrow> con P B 0 0 (primaryexp expr m) (\<lambda>_. 1) (\<lambda>_ _. True)"
  unfolding primaryexp_def by (auto intro!: con_rules simp: le_diff_conv)

lemmas [con_rules] = con_primaryexp [THEN con_bind] con_primaryexp [THEN con_tail]

lemma con_simpleexp: "B \<le> Suc m \<Longrightarrow> B \<le> Suc n \<Longrightarrow> con P B 0 0 (simpleexp expr chunk m) (\<lambda>_. 1) (\<lambda>_ _. True)"
proof -
  have "con P B 0 0 (\<lambda>s. case tok_seminfo (ls_t (ps_ls s)) of SemNum r \<Rightarrow> retP r s | _ \<Rightarrow> Some (Inl ErrFault)) (\<lambda>_. 0) (\<lambda>_. P)" for P B
    by (auto simp: con_def retP_def split: seminfo.splits)
  note [con_rules] = this [THEN con_bind]
  assume "B \<le> Suc m" "B \<le> Suc n"
  then show ?thesis
    unfolding simpleexp_def check_condition_def
    by (auto intro!: con_rules simp: parse_norm le_diff_conv Let_def)
qed

lemmas [con_rules] = con_simpleexp [THEN con_bind]

lemma con_block: "B \<le> n \<Longrightarrow> con P B 0 0 (block chunk) (\<lambda>_. 0) (\<lambda>_ _. True)"
  unfolding block_def by (auto intro!: con_rules)

lemmas [con_rules] = con_block [THEN con_bind]

lemma con_assignment: "B \<le> m \<Longrightarrow> B \<le> Suc n \<Longrightarrow> con P B 0 0 (assignment expr m lhs k) (\<lambda>_. 0) (\<lambda>_ _. True)"
proof (induction m arbitrary: P B lhs k)
  case 0
  then show ?case by (simp add: con_def)
next
  case (Suc m)
  note [con_rules] = Suc.IH [THEN con_bind]
  show ?case
    using Suc.prems by (auto intro!: con_rules simp: parse_norm le_diff_conv check_condition_def Let_def)
qed

lemma con_cond: "B \<le> n \<Longrightarrow> con P B 0 0 (cond expr) (\<lambda>_. 1) (\<lambda>_ _. True)"
  unfolding cond_def by (auto intro!: con_rules)

lemma con_exp1: "B \<le> n \<Longrightarrow> con P B 0 0 (exp1 expr) (\<lambda>_. 1) (\<lambda>_ _. True)"
  unfolding exp1_def by (auto intro!: con_rules)

lemmas [con_rules] = con_assignment [THEN con_bind] con_cond [THEN con_bind] con_exp1 [THEN con_bind]

lemma con_whilestat: "B \<le> Suc n \<Longrightarrow> (\<And>t. P t \<Longrightarrow> t \<noteq> TK_EOS) \<Longrightarrow> con P B 0 0 (whilestat expr chunk l) (\<lambda>_. 1) (\<lambda>_ _. True)"
  unfolding whilestat_def by (auto intro!: con_rules simp: le_diff_conv)

lemma con_repeatstat: "B \<le> Suc n \<Longrightarrow> (\<And>t. P t \<Longrightarrow> t \<noteq> TK_EOS) \<Longrightarrow> con P B 0 0 (repeatstat expr chunk l) (\<lambda>_. 1) (\<lambda>_ _. True)"
  unfolding repeatstat_def by (auto intro!: con_rules simp: parse_norm le_diff_conv)

lemma con_forbody: "B \<le> n \<Longrightarrow> con P B 0 0 (forbody chunk b l k num) (\<lambda>_. 1) (\<lambda>_ _. True)"
  unfolding forbody_def by (intro con_rules) (auto intro!: con_rules simp: le_diff_conv)

lemmas [con_rules] = con_forbody [THEN con_tail]

lemma con_fornum: "B \<le> n \<Longrightarrow> con P B 0 0 (fornum expr chunk v l) (\<lambda>_. 1) (\<lambda>_ _. True)"
  unfolding fornum_def by (auto intro!: con_rules simp: parse_norm le_diff_conv)

lemma con_forlist_names: "B \<le> m \<Longrightarrow> con P B 0 0 (forlist_names m k) (\<lambda>_. 0) (\<lambda>_ _. True)"
proof (induction m arbitrary: P B k)
  case 0
  then show ?case by (simp add: con_def)
next
  case (Suc m)
  note [con_rules] = Suc.IH [THEN con_tail]
  show ?case
    using Suc.prems by (auto intro!: con_rules simp: parse_norm le_diff_conv)
qed

lemmas [con_rules] = con_forlist_names [THEN con_bind]

lemma con_forlist: "B \<le> n \<Longrightarrow> B \<le> m \<Longrightarrow> con P B 0 0 (forlist expr chunk m v) (\<lambda>_. 1) (\<lambda>_ _. True)"
  unfolding forlist_def by (auto intro!: con_rules simp: parse_norm le_diff_conv)

lemmas [con_rules] = con_fornum [THEN con_bind] con_forlist [THEN con_bind]

lemma con_forstat: "B \<le> Suc n \<Longrightarrow> B \<le> Suc m \<Longrightarrow> (\<And>t. P t \<Longrightarrow> t \<noteq> TK_EOS) \<Longrightarrow>
    con P B 0 0 (forstat expr chunk m l) (\<lambda>_. 1) (\<lambda>_ _. True)"
  unfolding forstat_def by (auto intro!: con_rules simp: parse_norm le_diff_conv)

lemma con_test_then_block: "B \<le> Suc n \<Longrightarrow> (\<And>t. P t \<Longrightarrow> t \<noteq> TK_EOS) \<Longrightarrow>
    con P B 0 0 (test_then_block expr chunk) (\<lambda>_. 1) (\<lambda>_ _. True)"
  unfolding test_then_block_def by (auto intro!: con_rules simp: le_diff_conv)

lemmas [con_rules] = con_test_then_block [THEN con_bind]

lemma con_ifstat_loop: "B \<le> m \<Longrightarrow> B \<le> Suc n \<Longrightarrow> con P B 0 0 (ifstat_loop expr chunk m fl es) (\<lambda>_. 0) (\<lambda>_ _. True)"
proof (induction m arbitrary: P B fl es)
  case 0
  then show ?case by (simp add: con_def)
next
  case (Suc m)
  note [con_rules] = Suc.IH [THEN con_tail]
  show ?case
    using Suc.prems by (auto intro!: con_rules simp: parse_norm le_diff_conv)
qed

lemmas [con_rules] = con_ifstat_loop [THEN con_bind]

lemma con_ifstat: "B \<le> Suc n \<Longrightarrow> B \<le> Suc m \<Longrightarrow> (\<And>t. P t \<Longrightarrow> t \<noteq> TK_EOS) \<Longrightarrow>
    con P B 0 0 (ifstat expr chunk m l) (\<lambda>_. 1) (\<lambda>_ _. True)"
  unfolding ifstat_def by (auto intro!: con_rules simp: parse_norm le_diff_conv)

lemma con_localfunc: "B \<le> n \<Longrightarrow> B \<le> m \<Longrightarrow> con P B 0 0 (localfunc chunk m) (\<lambda>_. 1) (\<lambda>_ _. True)"
  unfolding localfunc_def by (auto intro!: con_rules simp: parse_norm le_diff_conv)

lemma con_localstat_names: "B \<le> m \<Longrightarrow> con P B 0 0 (localstat_names m k) (\<lambda>_. 1) (\<lambda>_ _. True)"
proof (induction m arbitrary: P B k)
  case 0
  then show ?case by (simp add: con_def)
next
  case (Suc m)
  note [con_rules] = Suc.IH [THEN con_tail]
  show ?case
    using Suc.prems by (auto intro!: con_rules simp: parse_norm le_diff_conv)
qed

lemmas [con_rules] = con_localstat_names [THEN con_bind]

lemma con_localstat: "B \<le> n \<Longrightarrow> B \<le> m \<Longrightarrow> con P B 0 0 (localstat expr m) (\<lambda>_. 1) (\<lambda>_ _. True)"
  unfolding localstat_def by (auto intro!: con_rules simp: parse_norm le_diff_conv)

lemma con_funcname_loop: "B \<le> m \<Longrightarrow> con P B 0 0 (funcname_loop m v) (\<lambda>_. 0) (\<lambda>_ _. True)"
proof (induction m arbitrary: P B v)
  case 0
  then show ?case by (simp add: con_def)
next
  case (Suc m)
  note [con_rules] = Suc.IH [THEN con_tail]
  show ?case
    using Suc.prems by (auto intro!: con_rules simp: parse_norm le_diff_conv)
qed

lemmas [con_rules] = con_funcname_loop [THEN con_bind]

lemma con_funcname: "B \<le> Suc m \<Longrightarrow> con P B 0 0 (funcname m) (\<lambda>_. 1) (\<lambda>_ _. True)"
  unfolding funcname_def by (auto intro!: con_rules simp: parse_norm le_diff_conv)

lemmas [con_rules] = con_funcname [THEN con_bind]

lemma con_funcstat: "B \<le> Suc n \<Longrightarrow> B \<le> Suc m \<Longrightarrow> (\<And>t. P t \<Longrightarrow> t \<noteq> TK_EOS) \<Longrightarrow>
    con P B 0 0 (funcstat chunk m l) (\<lambda>_. 1) (\<lambda>_ _. True)"
  unfolding funcstat_def by (auto intro!: con_rules simp: parse_norm le_diff_conv)

lemma con_exprstat: "B \<le> Suc n \<Longrightarrow> B \<le> Suc m \<Longrightarrow> con P B 0 0 (exprstat expr m) (\<lambda>_. 1) (\<lambda>_ _. True)"
  unfolding exprstat_def by (auto intro!: con_rules simp: parse_norm le_diff_conv)

lemma con_retstat: "B \<le> Suc n \<Longrightarrow> B \<le> Suc m \<Longrightarrow> (\<And>t. P t \<Longrightarrow> t \<noteq> TK_EOS) \<Longrightarrow>
    con P B 0 0 (retstat expr m) (\<lambda>_. 1) (\<lambda>_ _. True)"
  unfolding retstat_def by (auto intro!: con_rules simp: parse_norm le_diff_conv)

lemmas con_statements = con_whilestat [THEN con_bind] con_repeatstat [THEN con_bind] con_forstat [THEN con_bind]
  con_ifstat [THEN con_bind] con_localfunc [THEN con_bind] con_localstat [THEN con_bind] con_funcstat [THEN con_bind]
  con_exprstat [THEN con_bind] con_retstat [THEN con_bind]

lemma con_statement: "B \<le> Suc n \<Longrightarrow> B \<le> Suc m \<Longrightarrow> con (\<lambda>t. P t \<and> t \<noteq> TK_EOS) B 0 0 (statement expr chunk m) (\<lambda>_. 1) (\<lambda>_ _. True)"
  unfolding statement_def by (auto intro!: con_rules con_statements simp: parse_norm le_diff_conv Let_def)

lemma con_chunk_loop: "B \<le> m \<Longrightarrow> B \<le> Suc n \<Longrightarrow> con P B 0 0 (chunk_loop expr chunk m l) (\<lambda>_. 0) (\<lambda>_ _. True)"
proof (induction m arbitrary: P B l)
  case 0
  then show ?case by (simp add: con_def)
next
  case (Suc m)
  note [con_rules] = Suc.IH [THEN con_tail]
  have st: "con P' B 0 0 (statement expr chunk m) (\<lambda>_. 1) (\<lambda>_ _. True)" if "\<And>t. P' t \<Longrightarrow> t \<noteq> TK_EOS" for P'
    using con_pre [OF con_statement [of B m P'], of P' B] that Suc.prems by simp
  note [con_rules] = st [THEN con_bind]
  show ?case
    using Suc.prems by (auto intro!: con_rules simp: parse_norm le_diff_conv block_follow_def)
qed

lemma con_chunk_rule: "B \<le> m \<Longrightarrow> B \<le> Suc n \<Longrightarrow> con P B 0 0 (chunk_rule expr chunk m) (\<lambda>_. 0) (\<lambda>_ _. True)"
proof -
  note [con_rules] = con_chunk_loop [THEN con_bind]
  have leave: "con P B (-1) 0 leavelevel (\<lambda>_. 0) (\<lambda>_ _. True)" for P B
    using con_leavelevel [of P B] by (auto simp: con_def split: option.splits sum.splits)
  assume "B \<le> m" "B \<le> Suc n"
  then show ?thesis
    unfolding chunk_rule_def by (auto intro!: con_rules leave)
qed

end

text \<open>
  The contract of \<^verbatim>\<open>subexpr\<close>: it returns the operator the current token stands for, of which the
  left priority does not exceed the limit.
\<close>

definition untreated :: "nat \<Rightarrow> BinOpr \<Rightarrow> bool" where
  "untreated limit opr \<longleftrightarrow> opr = OPR_NOBINOPR \<or> fst (priority opr) \<le> limit"

definition sub_post :: "nat \<Rightarrow> BinOpr \<times> expdesc \<Rightarrow> int \<Rightarrow> bool" where
  "sub_post limit r t \<longleftrightarrow> getbinopr t = fst r \<and> untreated limit (fst r)"

lemma sub_post_op: "sub_post limit (opr, v) t \<Longrightarrow> getbinopr t = opr"
  by (simp add: sub_post_def)

lemma getunopr_EOS [simp]: "getunopr TK_EOS = OPR_NOUNOPR"
  by (simp add: getunopr_def TK_word_defs)

locale operators =
  fixes sub :: "nat \<Rightarrow> (BinOpr \<times> expdesc) parse" and chunk :: "unit parse" and n :: nat
  assumes con_sub: "B \<le> n \<Longrightarrow> con P B 0 0 (sub limit) (\<lambda>_. 1) (sub_post limit)"
    and con_sub_chunk: "B \<le> n \<Longrightarrow> con P B 0 0 chunk (\<lambda>_. 0) (\<lambda>_ _. True)"

sublocale operators \<subseteq> grammar "bindP (sub 0) (\<lambda>(_, v). retP v)" chunk n
proof
  show "con P B 0 0 (bindP (sub 0) (\<lambda>(_, v). retP v)) (\<lambda>_. 1) (\<lambda>_ _. True)" if "B \<le> n" for P B
    using that by (auto intro!: con_rules con_sub [THEN con_bind])
qed (rule con_sub_chunk)

context operators
begin

lemma con_subexpr_loop:
  "B \<le> m \<Longrightarrow> B \<le> Suc n \<Longrightarrow> (\<And>t. P t \<Longrightarrow> getbinopr t = opr) \<Longrightarrow>
    con P B 0 0 (subexpr_loop numpow sub m limit opr v) (\<lambda>_. 0) (sub_post limit)"
proof (induction m arbitrary: P B opr v)
  case 0
  then show ?case by (simp add: con_def)
next
  case (Suc m)
  have ne: "t \<noteq> TK_EOS" if "P t" "opr \<noteq> OPR_NOBINOPR" for t
    using Suc.prems(3) [OF that(1)] that(2) by (auto simp: getbinopr_def TK_word_defs)
  have stop: "sub_post limit (opr, v) t" if "P t" "opr \<noteq> OPR_NOBINOPR \<longrightarrow> \<not> limit < fst (priority opr)" for t
    using Suc.prems(3) [OF that(1)] that(2) by (auto simp: sub_post_def untreated_def)
  moreover from this have "sub_post limit (OPR_NOBINOPR, v) t" if "P t" "opr = OPR_NOBINOPR" for t
    using that by simp
  ultimately show ?case
    using Suc.prems(1,2) ne
    by (auto intro!: con_rules con_sub [THEN con_bind] Suc.IH simp: le_diff_conv dest: sub_post_op)
qed

lemma con_subexpr_rule:
  assumes "B \<le> Suc n" "B \<le> Suc m"
  shows "con P B 0 0 (subexpr_rule numpow sub chunk m limit) (\<lambda>_. 1) (sub_post limit)"
proof -
  have loop: "con P B (-1) 0 (bindP (subexpr_loop numpow sub m limit opr v) (\<lambda>r. bindP leavelevel (\<lambda>_. retP r))) (\<lambda>_. 0) (sub_post limit)"
    if "\<And>t. P t \<Longrightarrow> getbinopr t = opr" "B \<le> m" "B \<le> Suc n" for P B opr v
    using that by (auto intro!: con_rules con_subexpr_loop [THEN con_bind])
  show ?thesis
    unfolding subexpr_rule_def Let_def
    using assms by (auto intro!: con_rules con_sub [THEN con_bind] loop simp: parse_norm le_diff_conv)
qed

lemma con_chunk_step:
  "B \<le> Suc n \<Longrightarrow> con P B 0 0 (chunk_rule (bindP (sub 0) (\<lambda>(_, v). retP v)) chunk (Suc n)) (\<lambda>_. 0) (\<lambda>_ _. True)"
  by (rule con_chunk_rule)

end

text \<open>Both rules keep their contract on inputs shorter than their fuel.\<close>

lemma subexpr_Suc: "subexpr numpow (Suc n) = subexpr_rule numpow (subexpr numpow n) (chunk numpow n) n"
  and chunk_Suc: "chunk numpow (Suc n) = chunk_rule (expr numpow n) (chunk numpow n) (Suc n)"
  by (simp_all add: subexpr_def chunk_def expr_def split: prod.splits)

lemma rules_operators: "operators (subexpr numpow n) (chunk numpow n) n"
proof (induction n)
  case 0
  then show ?case by unfold_locales (simp_all add: subexpr_def chunk_def con_def)
next
  case (Suc n)
  show ?case
    using operators.con_subexpr_rule [OF Suc.IH]
      operators.con_chunk_step [OF Suc.IH]
    by unfold_locales (simp_all add: subexpr_Suc chunk_Suc expr_def)
qed

interpretation rules: operators "subexpr numpow n" "chunk numpow n" n for numpow n
  by (rule rules_operators)

section \<open>Properties\<close>

lemma parser_con:
  assumes "sok s" "pmeas s < n"
  shows "case (bindP open_func (\<lambda>_. bindP (genP (set_vararg VARARG_ISVARARG)) (\<lambda>_. bindP nextP (\<lambda>_.
      bindP (chunk numpow n) (\<lambda>_. bindP (check TK_EOS) (\<lambda>_. bindP close_func (\<lambda>fs. retP (proto_of fs)))))))) s of
      None \<Rightarrow> False | Some (Inl e) \<Rightarrow> True
    | Some (Inr (p, s1)) \<Rightarrow> ptok s1 = TK_EOS \<and> ps_nCcalls s1 = ps_nCcalls s \<and> length (ps_fs s1) = length (ps_fs s)"
proof -
  note [con_rules] = rules.con_sub_chunk [THEN con_bind] con_nextP_weak [THEN con_bind]
  have "con (\<lambda>_. True) n 0 0 (bindP open_func (\<lambda>_. bindP (genP (set_vararg VARARG_ISVARARG)) (\<lambda>_. bindP nextP (\<lambda>_.
      bindP (chunk numpow n) (\<lambda>_. bindP (check TK_EOS) (\<lambda>_. bindP close_func (\<lambda>fs. retP (proto_of fs)))))))) (\<lambda>_. 0) (\<lambda>_ t. t = TK_EOS)"
    by (rule con_open_func [THEN con_bind_balance], rule con_genP [THEN con_bind], rule con_nextP_weak [THEN con_bind])
      (auto intro!: con_rules)
  from this [unfolded con_def, rule_format, of s] assms show ?thesis
    by (auto split: option.splits sum.splits)
qed



text \<open>
  The nesting of expressions and chunks is bounded: at the limit of C calls an expression or
  a chunk is the error \<^verbatim>\<open>chunk has too many syntax levels\<close>, and one that succeeds began below it.
\<close>

theorem nesting_bounded:
  "(LUAI_MAXCCALLS \<le> ps_nCcalls s \<longrightarrow>
      subexpr numpow (Suc n) limit s = Some (Inl (luaX_lexerror (ps_ls s) ''chunk has too many syntax levels'' 0))
      \<and> chunk numpow (Suc n) s = Some (Inl (luaX_lexerror (ps_ls s) ''chunk has too many syntax levels'' 0)))
   \<and> (\<forall>r. subexpr numpow n limit s = Some (Inr r) \<longrightarrow> ps_nCcalls s < LUAI_MAXCCALLS)
   \<and> (\<forall>r. chunk numpow n s = Some (Inr r) \<longrightarrow> ps_nCcalls s < LUAI_MAXCCALLS)"
proof -
  have enter: "bindP enterlevel f s = Some (Inl (luaX_lexerror (ps_ls s) ''chunk has too many syntax levels'' 0))"
    if "LUAI_MAXCCALLS \<le> ps_nCcalls s" for f :: "unit \<Rightarrow> 'a parse"
    using that by (simp add: bindP_def enterlevel_def Let_def)
  then have sub: "subexpr numpow (Suc k) limit s = Some (Inl (luaX_lexerror (ps_ls s) ''chunk has too many syntax levels'' 0))"
    and chu: "chunk numpow (Suc k) s = Some (Inl (luaX_lexerror (ps_ls s) ''chunk has too many syntax levels'' 0))"
    if "LUAI_MAXCCALLS \<le> ps_nCcalls s" for k
    using that enter unfolding subexpr_Suc chunk_Suc subexpr_rule_def chunk_rule_def by blast+
  have "subexpr numpow 0 limit s = None" "chunk numpow 0 s = None" by (simp_all add: subexpr_def chunk_def)
  with sub chu show ?thesis by (cases n) (fastforce simp: not_le [symmetric])+
qed

definition nested_ps :: parstate where
  "nested_ps = \<lparr>ps_ls = lex_demo, ps_fs = [], ps_nCcalls = 200, ps_hid = 0\<rparr>"

theorem nesting_bounded_witness:
  "chunk (\<lambda>a b. a) 1 nested_ps = Some (Inl (luaX_lexerror lex_demo ''chunk has too many syntax levels'' 0))"
  using nesting_bounded [of nested_ps "\<lambda>a b. a" 0 0] by (simp add: nested_ps_def LUAI_MAXCCALLS_def)


text \<open>A state about to read the operand and the rest of \<^verbatim>\<open>1 + 2\<close>.\<close>

definition sum_ps :: parstate where
  "sum_ps = \<lparr>ps_ls = \<lparr>ls_current = 43, ls_linenumber = 1, ls_lastline = 1,
        ls_t = \<lparr>tok_token = TK_NUMBER, tok_seminfo = SemNum (cast_num 1)\<rparr>,
        ls_lookahead = \<lparr>tok_token = TK_EOS, tok_seminfo = SemNone\<rparr>, ls_z = \<lparr>z_n = 1, z_p = ''2'', z_data = []\<rparr>,
        ls_buff = [], ls_buffsize = LUA_MINBUFFER, ls_source = ''=s'', ls_decpoint = CHR ''.'', ls_strings = [],
        ls_locale = CHR ''.''\<rparr>,
      ps_fs = [new_funcstate ''=s'' (projr (luaH_new 0 0)) 0], ps_nCcalls = 0, ps_hid = 1\<rparr>"


end
