(* ===== verification/LuaParserScope.thy ===== *)
theory LuaParserScope
  imports LuaParser
begin

text \<open>
  Scopes in the parser: the resolution of names to local variables, upvalues and globals against
  the chain of enclosing functions, and the copies a multiple assignment makes of a local variable.
\<close>

section \<open>The variables in scope\<close>

text \<open>The names of the active variables of a function, in the order of their registers.\<close>

definition active_names :: "funcstate \<Rightarrow> string option list" where
  "active_names fs = map (\<lambda>i. varname (f_locvars fs ! (fs_actvar fs ! i))) [0..<nat (fs_nactvar fs)]"

text \<open>What the parser keeps of a function state.\<close>

definition scope_ok :: "funcstate \<Rightarrow> bool" where
  "scope_ok fs \<longleftrightarrow>
     0 \<le> fs_nactvar fs \<and> fs_nactvar fs \<le> LUAI_MAXVARS \<and> (\<forall>i < nat (fs_nactvar fs). locvar_index fs (int i) \<noteq> None)
     \<and> length (f_upvalues fs) = length (fs_upvalues fs) \<and> int (length (fs_upvalues fs)) \<le> LUAI_MAXUPVALUES"

lemma scope_update [simp]:
  "locvar_index (fs\<lparr>f_upvalues := a\<rparr>) i = locvar_index fs i" "locvar_index (fs\<lparr>fs_upvalues := b\<rparr>) i = locvar_index fs i"
  "locvar_index (fs\<lparr>fs_bl := c\<rparr>) i = locvar_index fs i" "active_names (fs\<lparr>f_upvalues := a\<rparr>) = active_names fs"
  "active_names (fs\<lparr>fs_upvalues := b\<rparr>) = active_names fs" "active_names (fs\<lparr>fs_bl := c\<rparr>) = active_names fs"
  by (simp_all add: locvar_index_def active_names_def)

definition last_index :: "'a list \<Rightarrow> 'a \<Rightarrow> nat option" where
  "last_index xs x = (if x \<in> set xs then Some (Max {i. i < length xs \<and> xs ! i = x}) else None)"

lemma last_index_snoc: "last_index (xs @ [y]) x = (if y = x then Some (length xs) else last_index xs x)"
proof (cases "y = x")
  case True
  have "{i. i < length (xs @ [y]) \<and> (xs @ [y]) ! i = x} = insert (length xs) {i. i < length xs \<and> xs ! i = x}"
    using True by (auto simp: nth_append less_Suc_eq)
  moreover have "Max (insert (length xs) {i. i < length xs \<and> xs ! i = x}) = length xs"
    by (rule Max_eqI) auto
  ultimately show ?thesis using True by (simp add: last_index_def)
next
  case False
  then have "{i. i < length (xs @ [y]) \<and> (xs @ [y]) ! i = x} = {i. i < length xs \<and> xs ! i = x}"
    by (auto simp: nth_append less_Suc_eq)
  with False show ?thesis by (simp add: last_index_def)
qed

lemma last_index_bound: "last_index xs x = Some i \<Longrightarrow> i < length xs \<and> xs ! i = x"
proof -
  assume l: "last_index xs x = Some i"
  then have "{i. i < length xs \<and> xs ! i = x} \<noteq> {}" by (auto simp: last_index_def in_set_conv_nth split: if_splits)
  then have "Max {i. i < length xs \<and> xs ! i = x} \<in> {i. i < length xs \<and> xs ! i = x}" by (intro Max_in) auto
  with l show ?thesis by (auto simp: last_index_def split: if_splits)
qed

lemma searchvar_loop_spec:
  "\<forall>i < k. locvar_index fs (int i) \<noteq> None \<Longrightarrow>
   searchvar_loop fs n k =
     Inr (case last_index (map (\<lambda>i. varname (f_locvars fs ! (fs_actvar fs ! i))) [0..<k]) (Some n) of None \<Rightarrow> -1 | Some i \<Rightarrow> int i)"
proof (induction k)
  case 0
  then show ?case by (simp add: last_index_def)
next
  case (Suc k)
  then have "locvar_index fs (int k) \<noteq> None" by blast
  then have "locvar_index fs (int k) = Some (fs_actvar fs ! k)"
    by (auto simp: locvar_index_def split: if_splits)
  with Suc show ?case by (auto simp: last_index_snoc)
qed

lemma searchvar_spec:
  "scope_ok fs \<Longrightarrow> searchvar fs n = Inr (case last_index (active_names fs) (Some n) of None \<Rightarrow> -1 | Some i \<Rightarrow> int i)"
  unfolding searchvar_def active_names_def by (rule searchvar_loop_spec) (simp add: scope_ok_def)

section \<open>Resolution\<close>

text \<open>The declaration a name refers to: how many functions out, and which variable there.\<close>

primrec resolve :: "funcstate list \<Rightarrow> string \<Rightarrow> (nat \<times> nat) option" where
  "resolve [] n = None"
| "resolve (fs # prev) n =
     (case last_index (active_names fs) (Some n) of
        Some i \<Rightarrow> Some (0, i)
      | None \<Rightarrow> map_option (\<lambda>(l, i). (Suc l, i)) (resolve prev n))"

text \<open>The variable that a local register or an upvalue stands for, through the descriptors.\<close>

primrec denotes :: "funcstate list \<Rightarrow> expkind \<Rightarrow> int \<Rightarrow> (nat \<times> nat) option" where
  "denotes [] k i = None"
| "denotes (fs # prev) k i =
     (if k = VLOCAL then Some (0, nat i)
      else if k = VUPVAL \<and> 0 \<le> i \<and> i < int (length (fs_upvalues fs)) then
        map_option (\<lambda>(l, j). (Suc l, j))
          (denotes prev (uv_k (fs_upvalues fs ! nat i)) (uv_info (fs_upvalues fs ! nat i)))
      else None)"

text \<open>The block that declares a variable knows that a closure captures it.\<close>

definition captured :: "blockcnt list \<Rightarrow> nat \<Rightarrow> bool" where
  "captured bls i \<longleftrightarrow> (case dropWhile (\<lambda>bl. bl_nactvar bl > int i) bls of [] \<Rightarrow> True | bl # _ \<Rightarrow> bl_upval bl)"

lemma captured_markupval: "captured (markupval_blocks bls (int i)) i"
  by (induction bls "int i" rule: markupval_blocks.induct) (auto simp: captured_def)

lemma find_upvalue_spec:
  "find_upvalue us v k = Some i \<Longrightarrow>
    k \<le> i \<and> i < k + length us \<and> uv_k (us ! (i - k)) = e_k v \<and> uv_info (us ! (i - k)) = e_info v"
proof (induction us v k rule: find_upvalue.induct)
  case (2 u us v k)
  then show ?case by (auto split: if_splits simp: nth_Cons')
qed simp

lemma indexupvalue_spec:
  assumes "indexupvalue name v ls fs = Inr (i, fs')" "scope_ok fs" "0 \<le> e_info v" "e_info v < 256"
  shows "0 \<le> i \<and> i < int (length (fs_upvalues fs')) \<and> uv_k (fs_upvalues fs' ! nat i) = e_k v
    \<and> uv_info (fs_upvalues fs' ! nat i) = e_info v \<and> scope_ok fs' \<and> active_names fs' = active_names fs \<and> fs_bl fs' = fs_bl fs
    \<and> (\<exists>us. fs_upvalues fs' = fs_upvalues fs @ us)"
proof (cases "find_upvalue (fs_upvalues fs) v 0")
  case None
  then have "fs' = fs\<lparr>f_upvalues := f_upvalues fs @ [name],
      fs_upvalues := fs_upvalues fs @ [\<lparr>uv_k = e_k v, uv_info = e_info v mod 256\<rparr>]\<rparr>"
    "i = int (length (fs_upvalues fs))" "int (length (fs_upvalues fs)) + 1 \<le> LUAI_MAXUPVALUES"
    using assms(1) by (auto simp: indexupvalue_def bindG_def getG_def modG_def retG_def luaY_checklimit_def
        bindE_simps split: if_splits)
  with assms(2-) show ?thesis
    by (simp add: scope_ok_def)
next
  case (Some j)
  then have "fs' = fs" "i = int j"
    using assms(1) by (auto simp: indexupvalue_def bindG_def getG_def retG_def)
  with find_upvalue_spec [OF Some] assms(2) show ?thesis by auto
qed

lemma scope_ok_markupval [simp]: "scope_ok (markupval fs v) = scope_ok fs"
  "active_names (markupval fs v) = active_names fs" "fs_upvalues (markupval fs v) = fs_upvalues fs"
  by (simp_all add: scope_ok_def markupval_def)

text \<open>What a resolution keeps of the enclosing functions.\<close>

definition scope_extends :: "funcstate \<Rightarrow> funcstate \<Rightarrow> bool" where
  "scope_extends fs fs' \<longleftrightarrow> scope_ok fs' \<and> active_names fs' = active_names fs \<and> (\<exists>us. fs_upvalues fs' = fs_upvalues fs @ us)"

lemma active_names_length: "scope_ok fs \<Longrightarrow> int (length (active_names fs)) \<le> LUAI_MAXVARS"
  by (simp add: scope_ok_def active_names_def)

lemma singlevaraux_spec:
  assumes "\<forall>fs \<in> set fss. scope_ok fs" "singlevaraux ls fss n base = Inr ((k, v), fss')"
  shows "e_k v = k \<and> list_all2 scope_extends fss fss' \<and>
    (case resolve fss n of
       None \<Rightarrow> k = VGLOBAL
     | Some (l, i) \<Rightarrow>
         k = (if l = 0 then VLOCAL else VUPVAL) \<and> denotes fss' k (e_info v) = Some (l, i) \<and> 0 \<le> e_info v \<and> e_info v < 256
         \<and> (l \<noteq> 0 \<or> \<not> base \<longrightarrow> captured (fs_bl (fss' ! l)) i))"
  using assms
proof (induction fss arbitrary: base k v fss')
  case Nil
  then show ?case by (auto simp: init_exp_def)
next
  case (Cons fs prev)
  have ok: "scope_ok fs" "\<forall>fs \<in> set prev. scope_ok fs" using Cons.prems(1) by auto
  have refl: "list_all2 scope_extends prev prev" using ok(2) by (simp add: list_all2_same scope_extends_def)
  show ?case
  proof (cases "last_index (active_names fs) (Some n)")
    case (Some i)
    then have "i < length (active_names fs)" using last_index_bound [OF Some] by simp
    then have "int i < 256" using active_names_length [OF ok(1)] unfolding LUAI_MAXVARS_def by linarith
    have "k = VLOCAL \<and> v = init_exp VLOCAL (int i) \<and> fss' = (if base then fs else markupval fs (int i)) # prev"
      using Cons.prems(2) Some by (cases base) (auto simp: searchvar_spec [OF ok(1)])
    moreover have "scope_extends fs (if base then fs else markupval fs (int i))"
      using ok(1) by (simp add: scope_extends_def)
    moreover have "captured (fs_bl (markupval fs (int i))) i" by (simp add: markupval_def captured_markupval)
    ultimately show ?thesis using Some refl \<open>int i < 256\<close> by (simp add: init_exp_def)
  next
    case None
    then have "bindE (singlevaraux ls prev n False) (\<lambda>((k, var), prev1).
        if k = VGLOBAL then Inr ((VGLOBAL, var), fs # prev1)
        else bindE (indexupvalue n var ls fs) (\<lambda>(i, fs1). Inr ((VUPVAL, var\<lparr>e_info := i, e_k := VUPVAL\<rparr>), fs1 # prev1)))
      = Inr ((k, v), fss')"
      using Cons.prems(2) by (simp add: searchvar_spec [OF ok(1)])
    then obtain k1 var prev1 where r: "singlevaraux ls prev n False = Inr ((k1, var), prev1)"
      "(if k1 = VGLOBAL then Inr ((VGLOBAL, var), fs # prev1)
        else bindE (indexupvalue n var ls fs) (\<lambda>(i, fs1). Inr ((VUPVAL, var\<lparr>e_info := i, e_k := VUPVAL\<rparr>), fs1 # prev1)))
       = Inr ((k, v), fss')"
      by (elim bindE_InrE) auto
    note IH = Cons.IH [OF ok(2) r(1)]
    show ?thesis
    proof (cases "resolve prev n")
      case None
      moreover have "scope_extends fs fs" using ok(1) by (simp add: scope_extends_def)
      ultimately show ?thesis using IH r(2) \<open>last_index _ _ = None\<close> by auto
    next
      case (Some li)
      obtain l i where li: "li = (l, i)" by fastforce
      have k1: "e_k var = k1" "k1 = (if l = 0 then VLOCAL else VUPVAL)" "denotes prev1 k1 (e_info var) = Some (l, i)" "0 \<le> e_info var"
        "e_info var < 256" "captured (fs_bl (prev1 ! l)) i" "list_all2 scope_extends prev prev1"
        using IH Some li by auto
      then have "k1 \<noteq> VGLOBAL" by simp
      with r(2) obtain j fs1 where j: "indexupvalue n var ls fs = Inr (j, fs1)" "k = VUPVAL"
        "v = var\<lparr>e_info := j, e_k := VUPVAL\<rparr>" "fss' = fs1 # prev1"
        by (auto simp: bindE_simps)
      note ix = indexupvalue_spec [OF j(1) ok(1) k1(4,5)]
      then have "j < 256" by (auto simp: scope_ok_def LUAI_MAXUPVALUES_def)
      moreover have "scope_extends fs fs1" using ix by (auto simp: scope_extends_def)
      ultimately show ?thesis using ix j k1 Some li \<open>last_index _ _ = None\<close> by auto
    qed
  qed
qed

text \<open>
  C34.  Names resolve lexically.  Against any chain of open functions, a name becomes a local
  variable exactly when the innermost function declares it (the last active declaration wins),
  an upvalue exactly when an enclosing function does, and a global otherwise; following the upvalue
  descriptors through the functions reaches that very declaration; the block that
  declares a captured variable is marked, and no function loses a variable or an upvalue.
\<close>

theorem names_resolve_lexically:
  assumes "\<forall>fs \<in> set fss. scope_ok fs" "singlevaraux ls fss n True = Inr ((k, v), fss')"
  shows "list_all2 scope_extends fss fss' \<and>
    (case resolve fss n of
       None \<Rightarrow> k = VGLOBAL
     | Some (l, i) \<Rightarrow>
         k = (if l = 0 then VLOCAL else VUPVAL) \<and> denotes fss' k (e_info v) = Some (l, i)
         \<and> (l \<noteq> 0 \<longrightarrow> captured (fs_bl (fss' ! l)) i))"
  using singlevaraux_spec [OF assms] by (auto split: option.splits)

section \<open>Multiple assignment\<close>

text \<open>An indexed variable with a register replaced by the copy.\<close>

definition redirect :: "int \<Rightarrow> int \<Rightarrow> expdesc \<Rightarrow> expdesc" where
  "redirect r copy e =
     (if e_k e = VINDEXED
      then e\<lparr>e_info := (if e_info e = r then copy else e_info e), e_aux := (if e_aux e = r then copy else e_aux e)\<rparr>
      else e)"

definition uses_reg :: "int \<Rightarrow> expdesc \<Rightarrow> bool" where
  "uses_reg r e \<longleftrightarrow> e_k e = VINDEXED \<and> (e_info e = r \<or> e_aux e = r)"

lemma conflict_chain_spec:
  "conflict_chain lhs v extra = (map (redirect (e_info v) extra) lhs, \<exists>e \<in> set lhs. uses_reg (e_info v) e)"
  by (induction lhs v extra rule: conflict_chain.induct) (auto simp: redirect_def uses_reg_def Let_def)

lemma luaK_code_spec:
  "luaK_code i line ls fs = Inr (pc, fs') \<Longrightarrow> last (f_code fs') = i \<and> f_code fs' \<noteq> []"
  by (auto simp: luaK_code_def bindG_def getG_def modG_def retG_def failG_def bindE_simps split: if_splits)

lemma reserveregs_spec:
  "luaK_reserveregs k ls fs = Inr (u, fs') \<Longrightarrow> f_code fs' = f_code fs \<and> fs_freereg fs' = fs_freereg fs + k"
  by (auto simp: luaK_reserveregs_def luaK_checkstack_def bindG_def getG_def modG_def retG_def syntaxG_def bindE_simps
      split: if_splits)

text \<open>
  C35.  Assigning to a local variable that an earlier target of the same assignment indexes:
  the variable is first copied to the next free register, and every earlier target uses the copy.
  Without such a target nothing is generated.
\<close>

theorem check_conflict_copies:
  assumes "check_conflict lhs v ls fs = Inr (lhs', fs')"
  shows "if \<exists>e \<in> set lhs. uses_reg (e_info v) e
    then lhs' = map (redirect (e_info v) (fs_freereg fs)) lhs
       \<and> last (f_code fs') = CREATE_ABC (opnum OP_MOVE) (fs_freereg fs) (e_info v) 0
       \<and> (e_info v < fs_freereg fs \<longrightarrow> (\<forall>e \<in> set lhs'. \<not> uses_reg (e_info v) e))
    else lhs' = lhs \<and> fs' = fs"
proof -
  have id: "redirect r c e = e" if "\<not> uses_reg r e" for r c e
    using that by (cases e) (auto simp: redirect_def uses_reg_def)
  have new: "\<not> uses_reg r (redirect r c e)" if "r < c" for r c e
    using that by (auto simp: redirect_def uses_reg_def)
  show ?thesis
  proof (cases "\<exists>e \<in> set lhs. uses_reg (e_info v) e")
    case True
    then obtain pc fs1 where "luaK_codeABC OP_MOVE (fs_freereg fs) (e_info v) 0 ls fs = Inr (pc, fs1)"
      "luaK_reserveregs 1 ls fs1 = Inr ((), fs')" "lhs' = map (redirect (e_info v) (fs_freereg fs)) lhs"
      using assms by (auto simp: check_conflict_def conflict_chain_spec bindG_def getG_def retG_def bindE_simps)
    moreover from this have "last (f_code fs1) = CREATE_ABC (opnum OP_MOVE) (fs_freereg fs) (e_info v) 0"
      by (auto simp: luaK_codeABC_def lastlineG_def bindG_def dest: luaK_code_spec)
    ultimately show ?thesis using True new by (auto dest: reserveregs_spec)
  next
    case False
    with assms id have "lhs' = lhs \<and> fs' = fs"
      by (auto simp: check_conflict_def conflict_chain_spec bindG_def getG_def retG_def intro!: map_idI)
    with False show ?thesis by simp
  qed
qed

section \<open>Witnesses\<close>

text \<open>A function with the variable \<open>x\<close>, in it one with \<open>y\<close>, in it one that uses \<open>x\<close>.\<close>

definition one_var :: "string \<Rightarrow> funcstate" where
  "one_var x = (new_funcstate ''=s'' (projr (luaH_new 0 0)) 0)
     \<lparr>f_locvars := [\<lparr>varname = Some x, startpc = 0, endpc = 0\<rparr>], fs_nactvar := 1,
      fs_bl := [\<lparr>bl_breaklist = NO_JUMP, bl_nactvar = 0, bl_upval = False, bl_isbreakable = False\<rparr>]\<rparr>"

definition three_functions :: "funcstate list" where
  "three_functions = [one_var ''z'', one_var ''y'', one_var ''x'']"

definition scope_ls :: lexstate where
  "scope_ls = \<lparr>ls_current = EOZ, ls_linenumber = 1, ls_lastline = 1, ls_t = \<lparr>tok_token = TK_EOS, tok_seminfo = SemNone\<rparr>,
     ls_lookahead = \<lparr>tok_token = TK_EOS, tok_seminfo = SemNone\<rparr>, ls_z = luaZ_init [], ls_buff = [], ls_buffsize = 32,
     ls_source = ''=s'', ls_decpoint = CHR ''.'', ls_strings = [], ls_locale = CHR ''.''\<rparr>"

lemma one_var_ok: "scope_ok (one_var x)"
  by (simp add: scope_ok_def one_var_def new_funcstate_def locvar_index_def LUAI_MAXVARS_def LUAI_MAXUPVALUES_def)

theorem names_resolve_lexically_witness:
  "\<exists>v fss. singlevaraux scope_ls three_functions ''x'' True = Inr ((VUPVAL, v), fss) \<and> denotes fss VUPVAL (e_info v) = Some (2, 0)
     \<and> captured (fs_bl (fss ! 2)) 0"
proof -
  have ok: "\<forall>fs \<in> set three_functions. scope_ok fs" by (simp add: three_functions_def one_var_ok)
  have names: "active_names (one_var x) = [Some x]" for x by (simp add: active_names_def one_var_def new_funcstate_def)
  have "resolve three_functions ''x'' = Some (2, 0)"
    by (simp add: three_functions_def names last_index_snoc [of "[]", simplified] last_index_def [of "[]"])
  moreover have "map_sum id (fst \<circ> fst) (singlevaraux scope_ls three_functions ''x'' True) = Inr VUPVAL" by code_simp
  then obtain v fss where r: "singlevaraux scope_ls three_functions ''x'' True = Inr ((VUPVAL, v), fss)"
    by (cases "singlevaraux scope_ls three_functions ''x'' True") auto
  ultimately show ?thesis using names_resolve_lexically [OF ok r] r by auto
qed

text \<open>\<^verbatim>\<open>a[i], i = ...\<close> with \<open>a\<close> in register 0 and \<open>i\<close> in register 1.\<close>

theorem check_conflict_copies_witness:
  "\<exists>fs. check_conflict [(init_exp VINDEXED 0)\<lparr>e_aux := 1\<rparr>] (init_exp VLOCAL 1) scope_ls ((one_var ''i'')\<lparr>fs_freereg := 2\<rparr>)
      = Inr ([(init_exp VINDEXED 0)\<lparr>e_aux := 2\<rparr>], fs)
     \<and> last (f_code fs) = CREATE_ABC (opnum OP_MOVE) 2 1 0"
proof -
  let ?r = "check_conflict [(init_exp VINDEXED 0)\<lparr>e_aux := 1\<rparr>] (init_exp VLOCAL 1) scope_ls ((one_var ''i'')\<lparr>fs_freereg := 2\<rparr>)"
  have "map_sum id (\<lambda>x. ()) ?r = Inr ()" by code_simp
  then obtain lhs fs where r: "?r = Inr (lhs, fs)" by (cases ?r) auto
  from check_conflict_copies [OF r] r show ?thesis by (simp add: uses_reg_def redirect_def init_exp_def)
qed

end
