(* ===== verification/LuaTablib.thy ===== *)
theory LuaTablib
  imports LuaAux
begin

text \<open>
  The table library, \<^verbatim>\<open>ltablib.c\<close>: each function returns the number of results it pushed.

  A loop that calls back into the program, or whose course a comparison function decides, may
  run for ever; it has a bound \<open>fuel\<close> on its rounds and ends with \<open>ErrFuel\<close> when that is
  reached.  The sort of an array whose values are ordered never reaches it.
\<close>

section \<open>Sizes and traversals\<close>

definition luaL_getn :: "int \<Rightarrow> int api" where
  "luaL_getn i = bindA (lua_objlen i) (\<lambda>n. retA (cast_int n))"

definition luaL_setn :: "int \<Rightarrow> int \<Rightarrow> unit api" where
  "luaL_setn i j = retA ()"

definition aux_getn :: "int \<Rightarrow> int api" where
  "aux_getn n = bindA (luaL_checktype n 5) (\<lambda>_. luaL_getn n)"

text \<open>\<^verbatim>\<open>for (i=1; i <= n; i++)\<close>\<close>

function foreachi_loop :: "host \<Rightarrow> int \<Rightarrow> int \<Rightarrow> int api" where
  "foreachi_loop call i n =
     (if i \<le> n then
        bindA (lua_pushvalue 2) (\<lambda>_. bindA (lua_pushinteger i) (\<lambda>_. bindA (lua_rawgeti 1 i) (\<lambda>_.
        bindA (lua_call call 2 1) (\<lambda>_. bindA (lua_isnil (-1)) (\<lambda>nil.
        if \<not> nil then retA 1
        else bindA (lua_pop 1) (\<lambda>_. foreachi_loop call (i + 1) n))))))
      else retA 0)"
  by pat_completeness auto
termination
  by (relation "measure (\<lambda>(call, i, n). nat (n + 1 - i))") auto

declare foreachi_loop.simps [simp del]

definition foreachi :: "host \<Rightarrow> int api" where
  "foreachi call = bindA (aux_getn 1) (\<lambda>n. bindA (luaL_checktype 2 6) (\<lambda>_. foreachi_loop call 1 n))"

primrec foreach_loop :: "nat \<Rightarrow> host \<Rightarrow> int api" where
  "foreach_loop 0 call = throwA ErrFuel"
| "foreach_loop (Suc fuel) call =
     bindA (lua_next 1) (\<lambda>more.
     if \<not> more then retA 0
     else
       bindA (lua_pushvalue 2) (\<lambda>_. bindA (lua_pushvalue (-3)) (\<lambda>_. bindA (lua_pushvalue (-3)) (\<lambda>_.
       bindA (lua_call call 2 1) (\<lambda>_. bindA (lua_isnil (-1)) (\<lambda>nil.
       if \<not> nil then retA 1
       else bindA (lua_pop 2) (\<lambda>_. foreach_loop fuel call)))))))"

definition foreach :: "nat \<Rightarrow> host \<Rightarrow> int api" where
  "foreach fuel call = bindA (luaL_checktype 1 5) (\<lambda>_. bindA (luaL_checktype 2 6) (\<lambda>_.
     bindA lua_pushnil (\<lambda>_. foreach_loop fuel call)))"

primrec maxn_loop :: "nat \<Rightarrow> lua_Number \<Rightarrow> lua_Number api" where
  "maxn_loop 0 m = throwA ErrFuel"
| "maxn_loop (Suc fuel) m =
     bindA (lua_next 1) (\<lambda>more.
     if \<not> more then retA m
     else
       bindA (lua_pop 1) (\<lambda>_. bindA (lua_type (-1)) (\<lambda>t.
       bindA (if t = 3 then bindA (lua_tonumber (-1)) (\<lambda>v. retA (if luai_numlt m v then v else m))
              else retA m) (maxn_loop fuel))))"

definition maxn :: "nat \<Rightarrow> int api" where
  "maxn fuel = bindA (luaL_checktype 1 5) (\<lambda>_. bindA lua_pushnil (\<lambda>_.
     bindA (maxn_loop fuel (cast_num 0)) (\<lambda>m. bindA (lua_pushnumber m) (\<lambda>_. retA 1))))"

definition getn :: "int api" where
  "getn = bindA (aux_getn 1) (\<lambda>n. bindA (lua_pushinteger n) (\<lambda>_. retA 1))"

definition setn :: "int api" where
  "setn = bindA (luaL_checktype 1 5) (\<lambda>_.
     luaL_error ([CHR 0x27] @ ''setn'' @ [CHR 0x27] @ '' is obsolete'') [])"

section \<open>Insertion, removal, concatenation\<close>

function move_up :: "int \<Rightarrow> int \<Rightarrow> unit api" where
  "move_up i pos =
     (if i > pos then bindA (lua_rawgeti 1 (i - 1)) (\<lambda>_. bindA (lua_rawseti 1 i) (\<lambda>_. move_up (i - 1) pos))
      else retA ())"
  by pat_completeness auto
termination
  by (relation "measure (\<lambda>(i, pos). nat (i - pos))") auto

declare move_up.simps [simp del]

definition tinsert :: "int api" where
  "tinsert = bindA (aux_getn 1) (\<lambda>n. let e = n + 1 in bindA lua_gettop (\<lambda>top.
     bindA (if top = 2 then retA (e, e)
            else if top = 3 then
              bindA (luaL_checkint 2) (\<lambda>pos. let e1 = (if pos > e then pos else e) in
              bindA (move_up e1 pos) (\<lambda>_. retA (pos, e1)))
            else luaL_error (''wrong number of arguments to '' @ [CHR 0x27] @ ''insert'' @ [CHR 0x27]) []) (\<lambda>(pos, e1).
     bindA (luaL_setn 1 e1) (\<lambda>_. bindA (lua_rawseti 1 pos) (\<lambda>_. retA 0)))))"

function move_down :: "int \<Rightarrow> int \<Rightarrow> unit api" where
  "move_down pos e =
     (if pos < e then bindA (lua_rawgeti 1 (pos + 1)) (\<lambda>_. bindA (lua_rawseti 1 pos) (\<lambda>_. move_down (pos + 1) e))
      else retA ())"
  by pat_completeness auto
termination
  by (relation "measure (\<lambda>(pos, e). nat (e - pos))") auto

declare move_down.simps [simp del]

definition tremove :: "int api" where
  "tremove = bindA (aux_getn 1) (\<lambda>e. bindA (luaL_optint 2 e) (\<lambda>pos.
     if \<not> (1 \<le> pos \<and> pos \<le> e) then retA 0
     else
       bindA (luaL_setn 1 (e - 1)) (\<lambda>_. bindA (lua_rawgeti 1 pos) (\<lambda>_. bindA (move_down pos e) (\<lambda>_.
       bindA lua_pushnil (\<lambda>_. bindA (lua_rawseti 1 e) (\<lambda>_. retA 1)))))))"

definition addfield :: "host \<Rightarrow> nat \<Rightarrow> luaL_Buffer \<Rightarrow> int \<Rightarrow> luaL_Buffer api" where
  "addfield call bsz B i = bindA (lua_rawgeti 1 i) (\<lambda>_. bindA (lua_isstring (-1)) (\<lambda>str.
     bindA (if str then retA ()
            else bindA (luaL_typename (-1)) (\<lambda>tn.
              luaL_error (''invalid value (%s) at index %d in table for '' @ [CHR 0x27] @ ''concat'' @ [CHR 0x27])
                [FStr (Some tn), FInt i])) (\<lambda>_.
     luaL_addvalue call bsz B)))"

function concat_fields :: "host \<Rightarrow> nat \<Rightarrow> string \<Rightarrow> luaL_Buffer \<Rightarrow> int \<Rightarrow> int \<Rightarrow> luaL_Buffer api" where
  "concat_fields call bsz sep B i e =
     (if i < e then
        bindA (addfield call bsz B i) (\<lambda>B1. bindA (luaL_addlstring call bsz sep B1) (\<lambda>B2.
        concat_fields call bsz sep B2 (i + 1) e))
      else if i = e then addfield call bsz B i
      else retA B)"
  by pat_completeness auto
termination
  by (relation "measure (\<lambda>(call, bsz, sep, B, i, e). nat (e - i))") auto

declare concat_fields.simps [simp del]

definition tconcat :: "host \<Rightarrow> nat \<Rightarrow> int api" where
  "tconcat call bsz = bindA (luaL_optlstring 2 (Some [])) (\<lambda>sep. bindA (luaL_checktype 1 5) (\<lambda>_.
     bindA (luaL_optint 3 1) (\<lambda>i. bindA (lua_isnoneornil 4) (\<lambda>none.
     bindA (if none then luaL_getn 1 else luaL_checkint 4) (\<lambda>e.
     bindA (concat_fields call bsz (case sep of None \<Rightarrow> [] | Some s \<Rightarrow> s) luaL_buffinit i e) (\<lambda>B.
     bindA (luaL_pushresult call B) (\<lambda>_. retA 1)))))))"

section \<open>Sorting\<close>

definition set2 :: "int \<Rightarrow> int \<Rightarrow> unit api" where
  "set2 i j = bindA (lua_rawseti 1 i) (\<lambda>_. lua_rawseti 1 j)"

definition sort_comp :: "host \<Rightarrow> int \<Rightarrow> int \<Rightarrow> bool api" where
  "sort_comp call a b = bindA (lua_isnil 2) (\<lambda>nil.
     if \<not> nil then
       bindA (lua_pushvalue 2) (\<lambda>_. bindA (lua_pushvalue (a - 1)) (\<lambda>_. bindA (lua_pushvalue (b - 2)) (\<lambda>_.
       bindA (lua_call call 2 1) (\<lambda>_. bindA (lua_toboolean (-1)) (\<lambda>res. bindA (lua_pop 1) (\<lambda>_. retA res))))))
     else lua_lessthan call a b)"

text \<open>\<^verbatim>\<open>while (lua_rawgeti(L, 1, ++i), sort_comp(L, -1, -2))\<close>; the result is the last \<open>i\<close>.\<close>

function up_loop :: "host \<Rightarrow> int \<Rightarrow> int \<Rightarrow> int api" where
  "up_loop call u i =
     bindA (lua_rawgeti 1 (i + 1)) (\<lambda>_. bindA (sort_comp call (-1) (-2)) (\<lambda>less.
     if \<not> less then retA (i + 1)
     else if i + 1 > u then luaL_error ''invalid order function for sorting'' []
     else bindA (lua_pop 1) (\<lambda>_. up_loop call u (i + 1))))"
  by pat_completeness auto
termination
  by (relation "measure (\<lambda>(call, u, i). nat (u - i))") auto

declare up_loop.simps [simp del]

text \<open>\<^verbatim>\<open>while (lua_rawgeti(L, 1, --j), sort_comp(L, -3, -1))\<close>\<close>

function down_loop :: "host \<Rightarrow> int \<Rightarrow> int \<Rightarrow> int api" where
  "down_loop call l j =
     bindA (lua_rawgeti 1 (j - 1)) (\<lambda>_. bindA (sort_comp call (-3) (-1)) (\<lambda>less.
     if \<not> less then retA (j - 1)
     else if j - 1 < l then luaL_error ''invalid order function for sorting'' []
     else bindA (lua_pop 1) (\<lambda>_. down_loop call l (j - 1))))"
  by pat_completeness auto
termination
  by (relation "measure (\<lambda>(call, l, j). nat (j - l))") auto

declare down_loop.simps [simp del]

primrec partition_loop :: "nat \<Rightarrow> host \<Rightarrow> int \<Rightarrow> int \<Rightarrow> int \<Rightarrow> int \<Rightarrow> int api" where
  "partition_loop 0 call l u i j = throwA ErrFuel"
| "partition_loop (Suc fuel) call l u i j =
     bindA (up_loop call u i) (\<lambda>i1. bindA (down_loop call l j) (\<lambda>j1.
     if j1 < i1 then bindA (lua_pop 3) (\<lambda>_. retA i1)
     else bindA (set2 i1 j1) (\<lambda>_. partition_loop fuel call l u i1 j1)))"

text \<open>The sort of two and three elements; whether more are left, and the middle.\<close>

definition sort_ends :: "host \<Rightarrow> int \<Rightarrow> int \<Rightarrow> unit api" where
  "sort_ends call l u = bindA (lua_rawgeti 1 l) (\<lambda>_. bindA (lua_rawgeti 1 u) (\<lambda>_.
     bindA (sort_comp call (-1) (-2)) (\<lambda>less. if less then set2 l u else lua_pop 2)))"

definition sort_middle :: "host \<Rightarrow> int \<Rightarrow> int \<Rightarrow> int \<Rightarrow> unit api" where
  "sort_middle call l i u = bindA (lua_rawgeti 1 i) (\<lambda>_. bindA (lua_rawgeti 1 l) (\<lambda>_.
     bindA (sort_comp call (-2) (-1)) (\<lambda>less.
     if less then set2 i l
     else bindA (lua_pop 1) (\<lambda>_. bindA (lua_rawgeti 1 u) (\<lambda>_.
          bindA (sort_comp call (-1) (-2)) (\<lambda>less. if less then set2 i u else lua_pop 2))))))"

text \<open>The pivot is kept on the stack and in \<^verbatim>\<open>a[u-1]\<close>, and put in its place at the end.\<close>

definition save_pivot :: "int \<Rightarrow> int \<Rightarrow> unit api" where
  "save_pivot i u = bindA (lua_rawgeti 1 i) (\<lambda>_. bindA (lua_pushvalue (-1)) (\<lambda>_. bindA (lua_rawgeti 1 (u - 1)) (\<lambda>_.
     set2 i (u - 1))))"

definition place_pivot :: "int \<Rightarrow> int \<Rightarrow> unit api" where
  "place_pivot i u = bindA (lua_rawgeti 1 (u - 1)) (\<lambda>_. bindA (lua_rawgeti 1 i) (\<lambda>_. set2 (u - 1) i))"

text \<open>The sum in \<^verbatim>\<open>(l+u)/2\<close> is one of \<^verbatim>\<open>int\<close>.\<close>

primrec auxsort :: "nat \<Rightarrow> host \<Rightarrow> int \<Rightarrow> int \<Rightarrow> unit api" where
  "auxsort 0 call l u = throwA ErrFuel"
| "auxsort (Suc fuel) call l u =
     (if l < u then
        bindA (sort_ends call l u) (\<lambda>_.
        if u - l = 1 then retA ()
        else if l + u > INT_MAX then throwA ErrFault
        else
          let m = (l + u) div 2 in
          bindA (sort_middle call l m u) (\<lambda>_.
          if u - l = 2 then retA ()
          else
            bindA (save_pivot m u) (\<lambda>_.
            bindA (partition_loop fuel call l u l (u - 1)) (\<lambda>i.
            bindA (place_pivot i u) (\<lambda>_.
            if i - l < u - i then
              bindA (auxsort fuel call l (i - 1)) (\<lambda>_. auxsort fuel call (i + 1) u)
            else
              bindA (auxsort fuel call (i + 1) u) (\<lambda>_. auxsort fuel call l (i - 1)))))))
      else retA ())"

definition sort :: "nat \<Rightarrow> host \<Rightarrow> int api" where
  "sort fuel call = bindA (aux_getn 1) (\<lambda>n. bindA (luaL_checkstack 40 []) (\<lambda>_. bindA (lua_isnoneornil 2) (\<lambda>none.
     bindA (if none then retA () else luaL_checktype 2 6) (\<lambda>_. bindA (lua_settop 2) (\<lambda>_.
     bindA (auxsort fuel call 1 n) (\<lambda>_. retA 0))))))"

end
