(* ===== verification/LuaSort.thy ===== *)
theory LuaSort
  imports LuaTablib
begin

text \<open>
  The sort of \<^verbatim>\<open>ltablib.c\<close> on an array of numbers or of strings: it returns, the array holds
  the same values, and they are in order.  The in-place algorithm on the table and the stack is
  followed step by step on the function from indices to values that the table stands for.
\<close>

section \<open>The order of values\<close>

definition value_less :: "tvalue \<Rightarrow> tvalue \<Rightarrow> bool" where
  "value_less x y =
     (case (x, y) of (TNumber a, TNumber b) \<Rightarrow> luai_numlt a b
      | (TString a, TString b) \<Rightarrow> l_strcmp a b < 0 | _ \<Rightarrow> False)"

text \<open>Values that the order compares: numbers other than NaN, or strings.\<close>

definition comparable :: "tvalue set \<Rightarrow> bool" where
  "comparable V \<longleftrightarrow> (\<forall>x \<in> V. \<exists>a. x = TNumber a \<and> \<not> dbl_isnan a) \<or> (\<forall>x \<in> V. \<exists>s. x = TString s)"

lemma strcmp_swap: "strcmp a b = - strcmp b a"
  by (induction a b rule: strcmp.induct) auto

lemma strcmp_trans: "strcmp a b \<le> 0 \<Longrightarrow> strcmp b c \<le> 0 \<Longrightarrow> strcmp a c \<le> 0"
proof (induction a arbitrary: b c)
  case Nil
  then show ?case by (cases c) auto
next
  case (Cons x xs)
  then show ?case by (cases b; cases c) (fastforce split: if_splits)+
qed

definition not_above :: "tvalue \<Rightarrow> tvalue \<Rightarrow> bool" where
  "not_above x y \<longleftrightarrow> \<not> value_less y x"

lemma comparable_cases:
  assumes "comparable V" "x \<in> V" "y \<in> V"
  obtains (num) a b where "x = TNumber a" "y = TNumber b" "\<not> dbl_isnan a" "\<not> dbl_isnan b"
  | (str) a b where "x = TString a" "y = TString b"
  using assms unfolding comparable_def by metis

lemma value_order:
  assumes "comparable V" "x \<in> V" "y \<in> V"
  shows value_less_above: "value_less x y \<Longrightarrow> not_above x y" and value_above: "\<not> value_less x y \<Longrightarrow> not_above y x"
proof -
  show "not_above x y" if "value_less x y"
    using assms
  proof (cases rule: comparable_cases)
    case (str a b)
    then show ?thesis using that strcmp_swap [of a b] by (simp add: not_above_def value_less_def l_strcmp_spec)
  qed (use that in \<open>simp add: not_above_def value_less_def luai_numlt_def\<close>)
qed (simp add: not_above_def)

lemma not_above_refl: "comparable V \<Longrightarrow> x \<in> V \<Longrightarrow> not_above x x"
  using value_order [of V x x] by (cases "value_less x x") auto

lemma not_above_trans:
  assumes "comparable V" "x \<in> V" "y \<in> V" "z \<in> V" "not_above x y" "not_above y z"
  shows "not_above x z"
proof -
  consider a b c where "x = TNumber a" "y = TNumber b" "z = TNumber c" "\<not> dbl_isnan a" "\<not> dbl_isnan b" "\<not> dbl_isnan c"
    | a b c where "x = TString a" "y = TString b" "z = TString c"
    using assms(1-4) unfolding comparable_def by metis
  then show ?thesis
  proof cases
    case 1
    then show ?thesis using assms(5,6) by (simp add: not_above_def value_less_def luai_numlt_def)
  next
    case 2
    have "strcmp a b \<le> 0" "strcmp b c \<le> 0" 
      using assms(5,6) 2 strcmp_swap [of a b] strcmp_swap [of b c] by (simp_all add: not_above_def value_less_def l_strcmp_spec)
    then have "strcmp a c \<le> 0" by (rule strcmp_trans)
    then show ?thesis using 2 strcmp_swap [of a c] by (simp add: not_above_def value_less_def l_strcmp_spec)
  qed
qed

lemma comparable_not_nil: "comparable V \<Longrightarrow> x \<in> V \<Longrightarrow> x \<noteq> TNil"
  by (auto simp: comparable_def)

lemma luaV_lessthan_value:
  "comparable V \<Longrightarrow> x \<in> V \<Longrightarrow> y \<in> V \<Longrightarrow> luaV_lessthan call S x y = Inr (value_less x y, S)"
  by (cases rule: comparable_cases) (assumption | simp add: luaV_lessthan_def value_less_def)+

section \<open>The array on the stack\<close>

text \<open>A call of \<^verbatim>\<open>auxsort\<close> without an order function: table \<open>h\<close> and \<^verbatim>\<open>nil\<close> below what it pushes.\<close>

definition sort_frame :: "nat \<Rightarrow> lstate \<Rightarrow> bool" where
  "sort_frame h L \<longleftrightarrow> (\<exists>t. table_at 1 h t [TTable h, TNil] L) \<and> 8 \<le> ci_top L"

definition arr :: "lstate \<Rightarrow> nat \<Rightarrow> tvalue list \<Rightarrow> (int \<Rightarrow> tvalue) \<Rightarrow> lstate \<Rightarrow> bool" where
  "arr L h r a X \<longleftrightarrow> (\<exists>t. table_ok t \<and> (\<forall>k. INT_MIN \<le> k \<and> k \<le> INT_MAX \<longrightarrow> ival t k = a k)
     \<and> X = L\<lparr>st := set_table h t (st L), stack := [TTable h, TNil] @ r\<rparr>)"

lemma arr_stack: "arr L h r a X \<Longrightarrow> stack X = [TTable h, TNil] @ r \<and> ci_top X = ci_top L"
  by (auto simp: arr_def)

lemma arr_table:
  assumes "sort_frame h L" "arr L h r a X"
  obtains t where "table_at 1 h t [TTable h, TNil] X" "table_ok t" "\<forall>k. INT_MIN \<le> k \<and> k \<le> INT_MAX \<longrightarrow> ival t k = a k"
    "X = L\<lparr>st := set_table h t (st L), stack := [TTable h, TNil] @ r\<rparr>"
  using assms unfolding sort_frame_def arr_def by (auto simp: table_at_def set_table_def)

text \<open>Each operation on a state that stands for \<open>a\<close>: it returns, and what the new state stands for.\<close>

lemma arr_get:
  assumes "sort_frame h L" "arr L h r a X" "INT_MIN \<le> k" "k \<le> INT_MAX" "length r \<le> 5"
  obtains Y where "lua_rawgeti 1 k X = Inr ((), Y)" "arr L h (r @ [a k]) a Y"
proof -
  obtain t where t: "table_at 1 h t [TTable h, TNil] X" "table_ok t" "\<forall>k. INT_MIN \<le> k \<and> k \<le> INT_MAX \<longrightarrow> ival t k = a k"
    "X = L\<lparr>st := set_table h t (st L), stack := [TTable h, TNil] @ r\<rparr>"
    by (rule arr_table [OF assms(1,2)])
  have room: "length ([TTable h, TNil] @ r) < ci_top X" using assms(1,5) t(4) by (simp add: sort_frame_def)
  have "lua_rawgeti 1 k X = Inr ((), X\<lparr>stack := [TTable h, TNil] @ r @ [a k]\<rparr>)"
    using rawgeti_eval [OF t(1) _ room, of k] it.geti_val [OF t(2) assms(3,4)] t(3) assms(3,4) t(4) by simp
  then show thesis by (rule that) (use t(2,3,4) in \<open>auto simp: arr_def\<close>)
qed

text \<open>A value can be stored at a key that has one.\<close>

lemma table_puti_present:
  assumes "table_ok t" "INT_MIN \<le> k" "k \<le> INT_MAX" "ival t k \<noteq> TNil"
  shows "\<exists>t'. table_puti t k v = Inr t'"
proof -
  have s: "luaH_getnum t k = Inr (scan t (TNumber (cast_num k)))"
    using luaH_getnum_spec [of t k] assms table_ok_nodes table_ok_sizearray by blast
  have "scan t (TNumber (cast_num k)) \<noteq> SNil" using assms(4) by (auto simp: ival_def lookup_def slot_read_def)
  moreover from this obtain t' where "slot_write t (scan t (TNumber (cast_num k))) v = Inr t'"
    by (rule slot_write_ok [OF assms(1)])
  ultimately show ?thesis using s by (simp add: table_puti_def luaH_setnum_def luaH_setnum_with_def)
qed

lemma arr_put:
  assumes "sort_frame h L" "arr L h (r @ [v]) a X" "INT_MIN \<le> k" "k \<le> INT_MAX" "a k \<noteq> TNil"
  obtains Y where "lua_rawseti 1 k X = Inr ((), Y)" "arr L h r (a(k := v)) Y"
proof -
  obtain t where t: "table_at 1 h t [TTable h, TNil] X" "table_ok t" "\<forall>k. INT_MIN \<le> k \<and> k \<le> INT_MAX \<longrightarrow> ival t k = a k"
    "X = L\<lparr>st := set_table h t (st L), stack := [TTable h, TNil] @ r @ [v]\<rparr>"
    by (rule arr_table [OF assms(1,2)])
  obtain t' where p: "table_puti t k v = Inr t'" using table_puti_present t(2,3) assms(3-5) by metis
  have "lua_rawseti 1 k X = Inr ((), X\<lparr>st := set_table h t' (st X), stack := [TTable h, TNil] @ r\<rparr>)"
    using rawseti_eval [OF t(1), of r v k] p t(4) by simp
  moreover have "table_ok t'" "\<And>m. INT_MIN \<le> m \<Longrightarrow> m \<le> INT_MAX \<Longrightarrow> ival t' m = (a(k := v)) m"
    using it.puti_ok [OF t(2) assms(3,4) p] it.puti_val [OF t(2) assms(3,4) p] t(3) by auto
  ultimately show thesis using t(4) by (intro that) (auto simp: arr_def set_table_twice)
qed

lemma arr_set2:
  assumes "sort_frame h L" "arr L h (r @ [x, y]) a X" "{i, j} \<subseteq> {INT_MIN..INT_MAX}" "a i \<noteq> TNil" "a j \<noteq> TNil" "y \<noteq> TNil"
  obtains Y where "set2 i j X = Inr ((), Y)" "arr L h r (a(i := y, j := x)) Y"
proof -
  obtain Y where Y: "lua_rawseti 1 i X = Inr ((), Y)" "arr L h (r @ [x]) (a(i := y)) Y"
    using arr_put [OF assms(1), of "r @ [x]" y a X i] assms by auto
  have "(a(i := y)) j \<noteq> TNil" using assms(5,6) by simp
  then obtain Z where Z: "lua_rawseti 1 j Y = Inr ((), Z)" "arr L h r (a(i := y, j := x)) Z"
    using arr_put [OF assms(1) Y(2), of j] assms(3) by auto
  with Y show thesis by (intro that) (simp_all add: set2_def bindA_def)
qed

lemma arr_pop:
  assumes "arr L h (r @ r') a X" "n = length r'"
  obtains Y where "lua_pop n X = Inr ((), Y)" "arr L h r a Y"
proof -
  obtain t where t: "X = L\<lparr>st := set_table h t (st L), stack := [TTable h, TNil] @ r @ r'\<rparr>" "table_ok t"
      "\<forall>k. INT_MIN \<le> k \<and> k \<le> INT_MAX \<longrightarrow> ival t k = a k"
    using assms(1) by (auto simp: arr_def)
  then have "lua_pop n X = Inr ((), X\<lparr>stack := [TTable h, TNil] @ r\<rparr>)"
    using assms(2) by (simp add: lua_pop_def lua_settop_def nat_diff_distrib' nat_add_distrib)
  then show thesis by (rule that) (use t in \<open>auto simp: arr_def\<close>)
qed

lemma arr_value:
  assumes "arr L h r a X" "0 < i" "i \<le> length r" "i < 10000"
  shows "adrA (- int i) X = Inr (AStack (2 + length r - i), X)" "valA (- int i) X = Inr (r ! (length r - i), X)"
proof -
  have "(TTable h # TNil # r) ! (2 + length r - i) = r ! (length r - i)"
    using assms(2,3) by (auto simp: nth_append nth_Cons' Suc_diff_le)
  then show "adrA (- int i) X = Inr (AStack (2 + length r - i), X)" "valA (- int i) X = Inr (r ! (length r - i), X)"
    using negative_index [of i X] assms arr_stack [OF assms(1)] by (simp_all add: adrA_def)
qed

lemma arr_copy:
  assumes "sort_frame h L" "arr L h (r @ [x]) a X" "length r \<le> 4"
  obtains Y where "lua_pushvalue (- 1) X = Inr ((), Y)" "arr L h (r @ [x, x]) a Y"
proof -
  have "valA (- 1) X = Inr (x, X)" using arr_value(2) [OF assms(2), of 1] by simp
  moreover have "adrA (- 1) X = Inr (AStack (2 + length r), X)" using arr_value(1) [OF assms(2), of 1] by simp
  ultimately have "lua_pushvalue (- 1) X = Inr ((), X\<lparr>stack := stack X @ [x]\<rparr>)" 
    using assms arr_stack [OF assms(2)] by (simp add: lua_pushvalue_def valid_adrA_def bindA_def retA_def pushA_def sort_frame_def)
  then show thesis by (rule that) (use assms(2) in \<open>auto simp: arr_def\<close>)
qed

lemma arr_comp:
  assumes "sort_frame h L" "arr L h r a X" "comparable V" "0 < i" "i \<le> length r" "0 < j" "j \<le> length r" "i < 10000" "j < 10000"
    and "r ! (length r - i) \<in> V" "r ! (length r - j) \<in> V"
  shows "sort_comp call (- int i) (- int j) X = Inr (value_less (r ! (length r - i)) (r ! (length r - j)), X)"
proof -
  have s: "stack X = [TTable h, TNil] @ r" "2 \<le> int (ci_top X)" using arr_stack [OF assms(2)] assms(1) by (auto simp: sort_frame_def)
  have "lua_isnil 2 X = Inr (True, X)"
    using positive_index [of 2 X] s by (simp add: lua_isnil_def lua_type_def bindA_def adrA_def retA_def)
  moreover have "lua_lessthan call (- int i) (- int j) X = Inr (value_less (r ! (length r - i)) (r ! (length r - j)), X)"
    using arr_value [OF assms(2,4,5,8)] arr_value [OF assms(2,6,7,9)] luaV_lessthan_value [OF assms(3,10,11)]
    by (simp add: lua_lessthan_def two_values_def bindA_def stepS_def)
  ultimately show ?thesis by (simp add: sort_comp_def bindA_def)
qed

text \<open>The three comparisons of the code.\<close>

lemma arr_comps:
  assumes F: "sort_frame h L" and V: "comparable V" "x \<in> V" "y \<in> V"
  shows "arr L h (r @ [x, y]) a X \<Longrightarrow> sort_comp call (-1) (-2) X = Inr (value_less y x, X)"
    "arr L h (r @ [x, y]) a X \<Longrightarrow> sort_comp call (-2) (-1) X = Inr (value_less x y, X)"
    "arr L h (r @ [x, z, y]) a X \<Longrightarrow> sort_comp call (-3) (-1) X = Inr (value_less x y, X)"
  using arr_comp [OF F _ V(1), of "r @ [x, y]" a X 1 2 call] arr_comp [OF F _ V(1), of "r @ [x, y]" a X 2 1 call]
    arr_comp [OF F _ V(1), of "r @ [x, z, y]" a X 3 1 call] V
  by (simp_all add: nth_append)

section \<open>The same values in another order\<close>

definition same_values :: "int \<Rightarrow> int \<Rightarrow> (int \<Rightarrow> tvalue) \<Rightarrow> (int \<Rightarrow> tvalue) \<Rightarrow> bool" where
  "same_values l u a b \<longleftrightarrow> (\<forall>m. m < l \<or> u < m \<longrightarrow> b m = a m)
     \<and> image_mset b (mset_set {l..u}) = image_mset a (mset_set {l..u})"

lemma same_refl [simp]: "same_values l u a a"
  by (simp add: same_values_def)

lemma same_trans: "same_values l u a b \<Longrightarrow> same_values l u b c \<Longrightarrow> same_values l u a c"
  by (simp add: same_values_def)

lemma same_image:
  assumes "same_values l u a b"
  shows "b ` {l..u} = a ` {l..u}"
proof -
  have "set_mset (image_mset b (mset_set {l..u})) = set_mset (image_mset a (mset_set {l..u}))"
    using assms by (simp only: same_values_def)
  then show ?thesis by simp
qed

lemma same_in:
  assumes "same_values l u a b" "a ` {l..u} \<subseteq> V" "l \<le> m" "m \<le> u"
  shows "b m \<in> V"
proof -
  have "b m \<in> b ` {l..u}" using assms(3,4) by simp
  with same_image [OF assms(1)] assms(2) show ?thesis by blast
qed

lemma same_wider:
  assumes "same_values l' u' a b" "l \<le> l'" "u' \<le> u"
  shows "same_values l u a b"
proof (cases "l' \<le> u'")
  case False
  have "b m = a m" for m using assms(1) False by (cases "m < l'") (auto simp: same_values_def)
  then have "b = a" by blast
  then show ?thesis by simp
next
  case True
  let ?R = "{l..u} - {l'..u'}"
  have e: "{l..u} = {l'..u'} \<union> ?R" using assms(2,3) True by auto
  have "mset_set ({l'..u'} \<union> ?R) = mset_set {l'..u'} + mset_set ?R" by (rule mset_set_Union) auto
  then have "mset_set {l..u} = mset_set {l'..u'} + mset_set ?R" using e by simp
  moreover have "image_mset b (mset_set ?R) = image_mset a (mset_set ?R)"
    using assms(1) by (intro image_mset_cong) (auto simp: same_values_def)
  ultimately show ?thesis using assms by (simp add: same_values_def)
qed

lemma same_swap:
  assumes "l \<le> i" "i \<le> u" "l \<le> j" "j \<le> u"
  shows "same_values l u a (a(i := a j, j := a i))"
proof -
  let ?f = "id(i := j, j := i)"
  have inj: "inj_on ?f {l..u}" by (auto simp: inj_on_def)
  have "?f ` {l..u} = {l..u}" by (rule endo_inj_surj [OF _ _ inj]) (use assms in auto)
  then have "image_mset ?f (mset_set {l..u}) = mset_set {l..u}" using image_mset_mset_set [OF inj] by simp
  then have "image_mset a (mset_set {l..u}) = image_mset (a \<circ> ?f) (mset_set {l..u})"
    by (metis multiset.map_comp)
  also have "a \<circ> ?f = a(i := a j, j := a i)" by auto
  finally have "image_mset (a(i := a j, j := a i)) (mset_set {l..u}) = image_mset a (mset_set {l..u})" by (rule sym)
  moreover have "(a(i := a j, j := a i)) m = a m" if "m < l \<or> u < m" for m using that assms by auto
  ultimately show ?thesis unfolding same_values_def by blast
qed

section \<open>Two and three elements\<close>

lemma int_range: "1 \<le> k \<Longrightarrow> k < INT_MAX \<Longrightarrow> INT_MIN \<le> k \<and> k \<le> INT_MAX \<and> k \<in> {INT_MIN..INT_MAX}"
  by (simp add: INT_MIN_def)

text \<open>Two values read, compared and put back in order.\<close>

lemma swap_or_pop:
  assumes F: "sort_frame h L" and X: "arr L h [a i, a j] a X" and V: "comparable V" "a i \<in> V" "a j \<in> V"
    and k: "{i, j} \<subseteq> {INT_MIN..INT_MAX}"
  obtains Y where "(if value_less (a j) (a i) then set2 i j else lua_pop 2) X = Inr ((), Y)"
    "arr L h [] (if value_less (a j) (a i) then a(i := a j, j := a i) else a) Y"
proof (cases "value_less (a j) (a i)")
  case True
  have "a i \<noteq> TNil" "a j \<noteq> TNil" using comparable_not_nil V by blast+
  then obtain Y where "set2 i j X = Inr ((), Y)" "arr L h [] (a(i := a j, j := a i)) Y"
    using arr_set2 [OF F, of "[]" "a i" "a j" a X i j] X k by auto
  with True show thesis by (intro that) auto
next
  case False
  obtain Y where "lua_pop 2 X = Inr ((), Y)" "arr L h [] a Y" using arr_pop [of L h "[]" "[a i, a j]" a X 2] X by auto
  with False show thesis by (intro that) auto
qed

lemma sort_ends_spec:
  assumes F: "sort_frame h L" and X: "arr L h [] a X" and V: "comparable V" "a ` {l..u} \<subseteq> V"
    and lu: "1 \<le> l" "l < u" "u < INT_MAX"
  obtains b Y where "sort_ends call l u X = Inr ((), Y)" "arr L h [] b Y" "same_values l u a b" "not_above (b l) (b u)"
proof -
  have v: "a l \<in> V" "a u \<in> V" using V(2) lu by auto
  have k: "INT_MIN \<le> l \<and> l \<le> INT_MAX" "INT_MIN \<le> u \<and> u \<le> INT_MAX" using int_range [of l] int_range [of u] lu by auto
  obtain X1 where X1: "lua_rawgeti 1 l X = Inr ((), X1)" "arr L h [a l] a X1" using arr_get [OF F X, of l] k by auto
  obtain X2 where X2: "lua_rawgeti 1 u X1 = Inr ((), X2)" "arr L h [a l, a u] a X2" using arr_get [OF F X1(2), of u] k by auto
  have c: "sort_comp call (-1) (-2) X2 = Inr (value_less (a u) (a l), X2)"
    using arr_comps(1) [OF F V(1) v, of "[]" a X2 call] X2(2) by simp
  obtain Y where Y: "(if value_less (a u) (a l) then set2 l u else lua_pop 2) X2 = Inr ((), Y)"
    "arr L h [] (if value_less (a u) (a l) then a(l := a u, u := a l) else a) Y"
    using swap_or_pop [OF F X2(2) V(1) v] k by auto
  have "sort_ends call l u X = Inr ((), Y)"
    using X1(1) X2(1) c Y(1) by (simp add: sort_ends_def bindA_def)
  moreover have "same_values l u a (if value_less (a u) (a l) then a(l := a u, u := a l) else a)"
    using same_swap [of l l u u a] lu by simp
  moreover have "not_above ((if value_less (a u) (a l) then a(l := a u, u := a l) else a) l)
      ((if value_less (a u) (a l) then a(l := a u, u := a l) else a) u)"
    using value_order [OF V(1) v(2,1)] lu by auto
  ultimately show thesis using Y(2) that by blast
qed

lemma sort_middle_spec:
  assumes F: "sort_frame h L" and X: "arr L h [] a X" and V: "comparable V" "a ` {l..u} \<subseteq> V"
    and lu: "1 \<le> l" "l < m" "m < u" "u < INT_MAX" and ends: "not_above (a l) (a u)"
  obtains b Y where "sort_middle call l m u X = Inr ((), Y)" "arr L h [] b Y" "same_values l u a b"
    "not_above (b l) (b m)" "not_above (b m) (b u)"
proof -
  have v: "a l \<in> V" "a m \<in> V" "a u \<in> V" using V(2) lu by auto
  have nil: "a l \<noteq> TNil" "a m \<noteq> TNil" using comparable_not_nil V(1) v by blast+
  have k: "INT_MIN \<le> l \<and> l \<le> INT_MAX" "INT_MIN \<le> u \<and> u \<le> INT_MAX" "INT_MIN \<le> m \<and> m \<le> INT_MAX"
    using int_range [of l] int_range [of u] int_range [of m] lu by auto
  obtain X1 where X1: "lua_rawgeti 1 m X = Inr ((), X1)" "arr L h [a m] a X1" using arr_get [OF F X, of m] k by auto
  obtain X2 where X2: "lua_rawgeti 1 l X1 = Inr ((), X2)" "arr L h [a m, a l] a X2" using arr_get [OF F X1(2), of l] k by auto
  have c: "sort_comp call (-2) (-1) X2 = Inr (value_less (a m) (a l), X2)"
    using arr_comps(2) [OF F V(1) v(2,1), of "[]" a X2 call] X2(2) by simp
  show thesis
  proof (cases "value_less (a m) (a l)")
    case True
    obtain Y where Y: "set2 m l X2 = Inr ((), Y)" "arr L h [] (a(m := a l, l := a m)) Y"
      using arr_set2 [OF F, of "[]" "a m" "a l" a X2 m l] X2(2) nil k by auto
    have "sort_middle call l m u X = Inr ((), Y)"
      using X1(1) X2(1) c Y(1) True by (simp add: sort_middle_def bindA_def)
    moreover note Y(2)
    moreover have "same_values l u a (a(m := a l, l := a m))" by (rule same_swap) (use lu in auto)
    moreover have "not_above (a m) (a l)" using value_order(1) [OF V(1) v(2,1) True] .
    ultimately show thesis using that [of Y "a(m := a l, l := a m)"] ends lu by auto
  next
    case False
    obtain X3 where X3: "lua_pop 1 X2 = Inr ((), X3)" "arr L h [a m] a X3"
      using arr_pop [of L h "[a m]" "[a l]" a X2 1] X2(2) by auto
    obtain X4 where X4: "lua_rawgeti 1 u X3 = Inr ((), X4)" "arr L h [a m, a u] a X4" using arr_get [OF F X3(2), of u] k by auto
    have c2: "sort_comp call (-1) (-2) X4 = Inr (value_less (a u) (a m), X4)"
      using arr_comps(1) [OF F V(1) v(2,3), of "[]" a X4 call] X4(2) by simp
    let ?b = "if value_less (a u) (a m) then a(m := a u, u := a m) else a"
    obtain Y where Y: "(if value_less (a u) (a m) then set2 m u else lua_pop 2) X4 = Inr ((), Y)" "arr L h [] ?b Y"
      using swap_or_pop [OF F X4(2) V(1) v(2,3)] k by auto
    have "sort_middle call l m u X = Inr ((), Y)"
      using X1(1) X2(1) c False X3(1) X4(1) c2 Y(1) by (simp add: sort_middle_def bindA_def)
    moreover note Y(2)
    moreover have "same_values l u a ?b" using same_swap [of l m u u a] lu by simp
    moreover have "not_above (a l) (a m)" using False by (simp add: not_above_def)
    ultimately show thesis using that [of Y ?b] ends lu value_order [OF V(1) v(3,2)] by (auto split: if_splits)
  qed
qed

section \<open>The partition\<close>

lemma up_loop_spec:
  assumes F: "sort_frame h L" and X: "arr L h [P] a X" and V: "comparable V" "a ` {l..u} \<subseteq> V" "P \<in> V"
    and lu: "1 \<le> l" "u < INT_MAX" "l \<le> i" "i < k" "k \<le> u"
    and stop: "not_above P (a k)" "\<forall>m. i < m \<and> m < k \<longrightarrow> value_less (a m) P"
  shows "\<exists>Y. up_loop call u i X = Inr (k, Y) \<and> arr L h [P, a k] a Y"
  using X lu(3,4) stop(2)
proof (induction "nat (k - i)" arbitrary: i X rule: less_induct)
  case (less i)
  have v: "a (i + 1) \<in> V" using V(2) less.prems lu by auto
  obtain X1 where X1: "lua_rawgeti 1 (i + 1) X = Inr ((), X1)" "arr L h [P, a (i + 1)] a X1"
    using arr_get [OF F less.prems(1), of "i + 1"] int_range [of "i + 1"] less.prems lu by auto
  have c: "sort_comp call (-1) (-2) X1 = Inr (value_less (a (i + 1)) P, X1)"
    using arr_comps(1) [OF F V(1,3) v, of "[]" a X1 call] X1(2) by simp
  show ?case
  proof (cases "i + 1 = k")
    case True
    with stop(1) X1 c show ?thesis by (subst up_loop.simps) (auto simp: bindA_def retA_def not_above_def)
  next
    case False
    then have less': "value_less (a (i + 1)) P" using less.prems by auto
    obtain X2 where X2: "lua_pop 1 X1 = Inr ((), X2)" "arr L h [P] a X2"
      using arr_pop [of L h "[P]" "[a (i + 1)]" a X1 1] X1(2) by auto
    have "\<exists>Y. up_loop call u (i + 1) X2 = Inr (k, Y) \<and> arr L h [P, a k] a Y"
      by (rule less.hyps) (use less.prems X2 False in auto)
    with X1 c less' X2 lu less.prems False show ?thesis by (subst up_loop.simps) (auto simp: bindA_def)
  qed
qed

lemma down_loop_spec:
  assumes F: "sort_frame h L" and X: "arr L h [P, z] a X" and V: "comparable V" "a ` {l..u} \<subseteq> V" "P \<in> V"
    and lu: "1 \<le> l" "u < INT_MAX" "l \<le> k" "k < j" "j \<le> u"
    and stop: "not_above (a k) P" "\<forall>m. k < m \<and> m < j \<longrightarrow> value_less P (a m)"
  shows "\<exists>Y. down_loop call l j X = Inr (k, Y) \<and> arr L h [P, z, a k] a Y"
  using X lu(4,5) stop(2)
proof (induction "nat (j - k)" arbitrary: j X rule: less_induct)
  case (less j)
  have v: "a (j - 1) \<in> V" using V(2) less.prems lu by auto
  obtain X1 where X1: "lua_rawgeti 1 (j - 1) X = Inr ((), X1)" "arr L h [P, z, a (j - 1)] a X1"
    using arr_get [OF F less.prems(1), of "j - 1"] int_range [of "j - 1"] less.prems lu by auto
  have c: "sort_comp call (-3) (-1) X1 = Inr (value_less P (a (j - 1)), X1)"
    using arr_comps(3) [OF F V(1,3) v, of "[]" z a X1 call] X1(2) by simp
  show ?case
  proof (cases "j - 1 = k")
    case True
    with stop(1) X1 c show ?thesis by (subst down_loop.simps) (auto simp: bindA_def retA_def not_above_def)
  next
    case False
    then have less': "value_less P (a (j - 1))" using less.prems by auto
    obtain X2 where X2: "lua_pop 1 X1 = Inr ((), X2)" "arr L h [P, z] a X2"
      using arr_pop [of L h "[P, z]" "[a (j - 1)]" a X1 1] X1(2) by auto
    have "\<exists>Y. down_loop call l (j - 1) X2 = Inr (k, Y) \<and> arr L h [P, z, a k] a Y"
      by (rule less.hyps) (use less.prems X2 False in auto)
    with X1 c less' X2 lu less.prems False show ?thesis by (subst down_loop.simps) (auto simp: bindA_def)
  qed
qed

text \<open>The first and the last index of an interval with a property that one of them has.\<close>

lemma first_int:
  fixes i s :: int
  assumes "i < s" "Q s"
  obtains k where "i < k" "k \<le> s" "Q k" "\<forall>m. i < m \<and> m < k \<longrightarrow> \<not> Q m"
proof -
  let ?p = "\<lambda>n. Q (i + 1 + int n)"
  define n where "n = (LEAST n. ?p n)"
  have p: "?p (nat (s - i - 1))" using assms by simp
  have "?p n" unfolding n_def by (rule LeastI [of ?p, OF p])
  moreover have "n \<le> nat (s - i - 1)" unfolding n_def by (rule Least_le [of ?p, OF p])
  moreover have "\<not> Q m" if "i < m" "m < i + 1 + int n" for m
  proof -
    have "nat (m - i - 1) < n" using that by simp
    then have "\<not> ?p (nat (m - i - 1))" unfolding n_def by (rule not_less_Least)
    with that(1) show ?thesis by simp
  qed
  ultimately show thesis using assms(1) by (intro that [of "i + 1 + int n"]) auto
qed

lemma last_int:
  fixes j s :: int
  assumes "s < j" "Q s"
  obtains k where "s \<le> k" "k < j" "Q k" "\<forall>m. k < m \<and> m < j \<longrightarrow> \<not> Q m"
proof -
  have "- j < - s" "Q (- (- s))" using assms by simp_all
  then obtain k where "- j < k" "k \<le> - s" "Q (- k)" "\<forall>m. - j < m \<and> m < k \<longrightarrow> \<not> Q (- m)"
    by (rule first_int [of "- j" "- s" "\<lambda>m. Q (- m)"])
  moreover from this(4) have "\<forall>m. - k < m \<and> m < j \<longrightarrow> \<not> Q m" by (metis add.inverse_inverse neg_less_iff_less)
  ultimately show thesis by (intro that [of "- k"]) auto
qed

text \<open>The invariant in the code's comment: \<^verbatim>\<open>a[l..i] <= P <= a[j..u]\<close>.\<close>

definition part_inv :: "int \<Rightarrow> int \<Rightarrow> tvalue \<Rightarrow> int \<Rightarrow> int \<Rightarrow> (int \<Rightarrow> tvalue) \<Rightarrow> bool" where
  "part_inv l u P i j a \<longleftrightarrow> l \<le> i \<and> i \<le> j \<and> j < u \<and> i < u - 1 \<and> l < j \<and> a (u - 1) = P
     \<and> (\<forall>m. l \<le> m \<and> m \<le> i \<longrightarrow> not_above (a m) P) \<and> (\<forall>m. j \<le> m \<and> m < u \<longrightarrow> not_above P (a m))"

definition parted :: "int \<Rightarrow> int \<Rightarrow> tvalue \<Rightarrow> int \<Rightarrow> (int \<Rightarrow> tvalue) \<Rightarrow> bool" where
  "parted l u P i a \<longleftrightarrow> l < i \<and> i < u \<and> a (u - 1) = P
     \<and> (\<forall>m. l \<le> m \<and> m < i \<longrightarrow> not_above (a m) P) \<and> (\<forall>m. i \<le> m \<and> m < u \<longrightarrow> not_above P (a m))"

lemma partition_spec:
  assumes F: "sort_frame h L" and V: "comparable V" "P \<in> V" and lu: "1 \<le> l" "u < INT_MAX"
  shows "arr L h [P] a X \<Longrightarrow> a ` {l..u} \<subseteq> V \<Longrightarrow> part_inv l u P i j a \<Longrightarrow> nat (j - i) < fuel \<Longrightarrow>
    \<exists>k b Y. partition_loop fuel call l u i j X = Inr (k, Y) \<and> arr L h [] b Y \<and> same_values l u a b \<and> b l = a l \<and> b u = a u
      \<and> parted l u P k b"
proof (induction fuel arbitrary: i j a X)
  case (Suc fuel)
  note X = Suc.prems(1) and aV = Suc.prems(2)
  have inv: "l \<le> i" "i \<le> j" "j < u" "i < u - 1" "l < j" "a (u - 1) = P"
    "\<And>m. l \<le> m \<Longrightarrow> m \<le> i \<Longrightarrow> not_above (a m) P" "\<And>m. j \<le> m \<Longrightarrow> m < u \<Longrightarrow> not_above P (a m)"
    using Suc.prems(3) by (simp_all add: part_inv_def)
  have inV: "a m \<in> V" if "l \<le> m" "m \<le> u" for m using aV that by auto
  obtain i1 where i1: "i < i1" "i1 \<le> u - 1" "not_above P (a i1)" "\<forall>m. i < m \<and> m < i1 \<longrightarrow> \<not> not_above P (a m)"
    by (rule first_int [of i "u - 1" "\<lambda>m. not_above P (a m)"]) (use inv not_above_refl [OF V] in auto)
  obtain j1 where j1: "l \<le> j1" "j1 < j" "not_above (a j1) P" "\<forall>m. j1 < m \<and> m < j \<longrightarrow> \<not> not_above (a m) P"
    by (rule last_int [of l j "\<lambda>m. not_above (a m) P"]) (use inv in auto)
  have "\<exists>Y. up_loop call u i X = Inr (i1, Y) \<and> arr L h [P, a i1] a Y"
    by (rule up_loop_spec [OF F X V(1) aV V(2) lu inv(1) i1(1) _ i1(3)]) (use i1(2,4) in \<open>simp_all add: not_above_def\<close>)
  then obtain X1 where X1: "up_loop call u i X = Inr (i1, X1)" "arr L h [P, a i1] a X1" by blast
  have "\<exists>Y. down_loop call l j X1 = Inr (j1, Y) \<and> arr L h [P, a i1, a j1] a Y"
    by (rule down_loop_spec [OF F X1(2) V(1) aV V(2) lu j1(1,2) _ j1(3)]) (use j1(4) inv(3) in \<open>simp_all add: not_above_def\<close>)
  then obtain X2 where X2: "down_loop call l j X1 = Inr (j1, X2)" "arr L h [P, a i1, a j1] a X2" by blast
  show ?case
  proof (cases "j1 < i1")
    case True
    obtain Y where Y: "lua_pop 3 X2 = Inr ((), Y)" "arr L h [] a Y"
      using arr_pop [of L h "[]" "[P, a i1, a j1]" a X2 3] X2(2) by auto
    have "not_above (a m) P" if "l \<le> m" "m < i1" for m
      using inv(7) that i1 value_order(1) [OF V(1) _ V(2), of "a m"] inV [of m] by (cases "m \<le> i") (auto simp: not_above_def)
    moreover have "not_above P (a m)" if "i1 \<le> m" "m < u" for m
      using inv(8) that j1 True value_order(1) [OF V(1) V(2), of "a m"] inV [of m] inv(1) i1(1) by (cases "j \<le> m") (auto simp: not_above_def)
    ultimately have "parted l u P i1 a" using i1 inv by (auto simp: parted_def)
    with X1 X2 Y True show ?thesis by (auto simp: bindA_def retA_def intro!: exI [of _ a])
  next
    case False
    let ?b = "a(i1 := a j1, j1 := a i1)"
    have nil: "a i1 \<noteq> TNil" "a j1 \<noteq> TNil" using comparable_not_nil [OF V(1) inV] i1 j1 inv by auto
    have k: "INT_MIN \<le> i1 \<and> i1 \<le> INT_MAX" "INT_MIN \<le> j1 \<and> j1 \<le> INT_MAX"
      using int_range [of i1] int_range [of j1] i1 j1 inv lu by auto
    obtain X3 where X3: "set2 i1 j1 X2 = Inr ((), X3)" "arr L h [P] ?b X3"
      using arr_set2 [OF F, of "[P]" "a i1" "a j1" a X2 i1 j1] X2(2) nil k by auto
    have s: "same_values l u a ?b" by (rule same_swap) (use i1 j1 inv in auto)
    have "part_inv l u P i1 j1 ?b"
      unfolding part_inv_def
    proof (intro conjI allI impI)
      fix m
      show "not_above (?b m) P" if "l \<le> m \<and> m \<le> i1"
        using inv(7) that i1 j1 value_order(1) [OF V(1) _ V(2), of "a m"] inV [of m] inv False
        by (cases "m \<le> i") (auto simp: not_above_def)
      show "not_above P (?b m)" if "j1 \<le> m \<and> m < u"
        using inv(8) that i1 j1 value_order(1) [OF V(1) V(2), of "a m"] inV [of m] inv False
        by (cases "j \<le> m") (auto simp: not_above_def)
    qed (use i1 j1 inv False in auto)
    moreover have "?b ` {l..u} \<subseteq> V" using same_image [OF s] aV by simp
    moreover have "nat (j1 - i1) < fuel" using Suc.prems(4) i1(1) j1(2) False by simp
    ultimately obtain k b Y where *: "partition_loop fuel call l u i1 j1 X3 = Inr (k, Y)" "arr L h [] b Y"
      "same_values l u ?b b" "b l = ?b l" "b u = ?b u" "parted l u P k b"
      using Suc.IH [OF X3(2), of i1 j1] by blast
    have "b l = a l" "b u = a u" using *(4,5) i1 j1 inv False by auto
    moreover have "partition_loop (Suc fuel) call l u i j X = Inr (k, Y)"
      using X1(1) X2(1) X3(1) *(1) False by (simp add: bindA_def)
    moreover have "same_values l u a b" using s *(3) by (rule same_trans)
    ultimately show ?thesis using *(2,6) by blast
  qed
qed simp

section \<open>The sort\<close>

definition ordered :: "int \<Rightarrow> int \<Rightarrow> (int \<Rightarrow> tvalue) \<Rightarrow> bool" where
  "ordered l u a \<longleftrightarrow> (\<forall>i j. l \<le> i \<and> i \<le> j \<and> j \<le> u \<longrightarrow> not_above (a i) (a j))"

text \<open>Two ordered parts around a pivot.\<close>

lemma ordered_join:
  assumes V: "comparable V" "a ` {l..u} \<subseteq> V" and k: "l \<le> k" "k \<le> u"
    and low: "ordered l (k - 1) a" "\<forall>m. l \<le> m \<and> m < k \<longrightarrow> not_above (a m) (a k)"
    and high: "ordered (k + 1) u a" "\<forall>m. k < m \<and> m \<le> u \<longrightarrow> not_above (a k) (a m)"
  shows "ordered l u a"
  unfolding ordered_def
proof (intro allI impI)
  fix i j assume ij: "l \<le> i \<and> i \<le> j \<and> j \<le> u"
  then have v: "a i \<in> V" "a k \<in> V" "a j \<in> V" using V(2) k by auto
  have "not_above (a i) (a k)" if "i \<le> k" using that low(2) ij not_above_refl [OF V(1) v(2)] by (cases "i = k") auto
  moreover have "not_above (a k) (a j)" if "k \<le> j" using that high(2) ij not_above_refl [OF V(1) v(2)] by (cases "j = k") auto
  moreover have "not_above (a i) (a j)" if "j < k" using that low(1) ij by (simp add: ordered_def)
  moreover have "not_above (a i) (a j)" if "k < i" using that high(1) ij by (simp add: ordered_def)
  ultimately show "not_above (a i) (a j)" using not_above_trans [OF V(1) v] by (cases "j < k"; cases "k < i") auto
qed

lemma ordered_cong: "ordered l u a \<Longrightarrow> (\<And>m. l \<le> m \<Longrightarrow> m \<le> u \<Longrightarrow> b m = a m) \<Longrightarrow> ordered l u b"
  by (simp add: ordered_def)

text \<open>The part sorted second does not touch the first.\<close>

lemma same_outside: "same_values l u a b \<Longrightarrow> m < l \<or> u < m \<Longrightarrow> b m = a m"
  by (auto simp: same_values_def)

lemma same_bound:
  assumes "same_values l u a b" "\<forall>m. l \<le> m \<and> m \<le> u \<longrightarrow> Q (a m)" "l \<le> m" "m \<le> u"
  shows "Q (b m)"
  using same_in [OF assms(1), of "Collect Q" m] assms(2-4) by (auto simp: image_subset_iff)

text \<open>A partitioned array whose two parts are sorted, one after the other.\<close>

lemma sort_low_high:
  assumes V: "comparable V" "a ` {l..u} \<subseteq> V" and k: "l \<le> k" "k \<le> u"
    and low: "\<forall>m. l \<le> m \<and> m \<le> k - 1 \<longrightarrow> not_above (a m) (a k)" and high: "\<forall>m. k + 1 \<le> m \<and> m \<le> u \<longrightarrow> not_above (a k) (a m)"
    and b: "same_values l (k - 1) a b" "ordered l (k - 1) b" and c: "same_values (k + 1) u b c" "ordered (k + 1) u c"
  shows "same_values l u a c \<and> ordered l u c"
proof -
  note ob = same_outside [OF b(1)] and oc = same_outside [OF c(1)]
  have ac: "same_values l u a c"
    by (rule same_trans [OF same_wider [OF b(1)] same_wider [OF c(1)]]) (use k in auto)
  have "ordered l (k - 1) c" by (rule ordered_cong [OF b(2)]) (use oc in auto)
  moreover have "not_above (c m) (c k)" if "l \<le> m" "m < k" for m
    using same_bound [OF b(1) low, of m] that ob [of k] oc [of k] oc [of m] by simp
  moreover have "not_above (c k) (c m)" if "k < m" "m \<le> u" for m
  proof -
    have "\<forall>m. k + 1 \<le> m \<and> m \<le> u \<longrightarrow> not_above (a k) (b m)" using high ob by simp
    then show ?thesis using same_bound [OF c(1), of "not_above (a k)" m] that ob [of k] oc [of k] by simp
  qed
  ultimately have "ordered l u c"
    using c(2) same_image [OF ac] V(2) by (intro ordered_join [OF V(1) _ k]) auto
  with ac show ?thesis by blast
qed

lemma sort_high_low:
  assumes V: "comparable V" "a ` {l..u} \<subseteq> V" and k: "l \<le> k" "k \<le> u"
    and low: "\<forall>m. l \<le> m \<and> m \<le> k - 1 \<longrightarrow> not_above (a m) (a k)" and high: "\<forall>m. k + 1 \<le> m \<and> m \<le> u \<longrightarrow> not_above (a k) (a m)"
    and b: "same_values (k + 1) u a b" "ordered (k + 1) u b" and c: "same_values l (k - 1) b c" "ordered l (k - 1) c"
  shows "same_values l u a c \<and> ordered l u c"
proof -
  note ob = same_outside [OF b(1)] and oc = same_outside [OF c(1)]
  have ac: "same_values l u a c"
    by (rule same_trans [OF same_wider [OF b(1)] same_wider [OF c(1)]]) (use k in auto)
  have "ordered (k + 1) u c" by (rule ordered_cong [OF b(2)]) (use oc in auto)
  moreover have "not_above (c k) (c m)" if "k < m" "m \<le> u" for m
    using same_bound [OF b(1) high, of m] that ob [of k] oc [of k] oc [of m] by simp
  moreover have "not_above (c m) (c k)" if "l \<le> m" "m < k" for m
  proof -
    have "\<forall>m. l \<le> m \<and> m \<le> k - 1 \<longrightarrow> not_above (b m) (a k)" using low ob by simp
    then show ?thesis using same_bound [OF c(1), of "\<lambda>x. not_above x (a k)" m] that ob [of k] oc [of k] by simp
  qed
  ultimately have "ordered l u c"
    using c(2) same_image [OF ac] V(2) by (intro ordered_join [OF V(1) _ k]) auto
  with ac show ?thesis by blast
qed

text \<open>The pivot put aside before the partition, and put in its place after it.\<close>

lemma pivot_aside:
  assumes F: "sort_frame h L" and X: "arr L h [] a X" and V: "comparable V" "a ` {l..u} \<subseteq> V"
    and lu: "1 \<le> l" "l < m" "m < u - 1" "u < INT_MAX"
  obtains Y where "save_pivot m u X = Inr ((), Y)" "arr L h [a m] (a(m := a (u - 1), u - 1 := a m)) Y"
proof -
  have v: "a m \<in> V" "a (u - 1) \<in> V" using V(2) lu by auto
  have nil: "a m \<noteq> TNil" "a (u - 1) \<noteq> TNil" using comparable_not_nil V(1) v by blast+
  have k: "INT_MIN \<le> m \<and> m \<le> INT_MAX" "INT_MIN \<le> u - 1 \<and> u - 1 \<le> INT_MAX"
    using int_range [of m] int_range [of "u - 1"] lu by auto
  obtain X1 where X1: "lua_rawgeti 1 m X = Inr ((), X1)" "arr L h [a m] a X1" using arr_get [OF F X, of m] k by auto
  obtain X2 where X2: "lua_pushvalue (-1) X1 = Inr ((), X2)" "arr L h [a m, a m] a X2"
    using arr_copy [OF F, of "[]" "a m" a X1] X1(2) by auto
  obtain X3 where X3: "lua_rawgeti 1 (u - 1) X2 = Inr ((), X3)" "arr L h [a m, a m, a (u - 1)] a X3"
    using arr_get [OF F X2(2), of "u - 1"] k by auto
  obtain Y where "set2 m (u - 1) X3 = Inr ((), Y)" "arr L h [a m] (a(m := a (u - 1), u - 1 := a m)) Y"
    using arr_set2 [OF F, of "[a m]" "a m" "a (u - 1)" a X3 m "u - 1"] X3(2) nil k by auto
  with X1 X2 X3 show thesis by (intro that) (simp_all add: save_pivot_def bindA_def)
qed

lemma pivot_back:
  assumes F: "sort_frame h L" and X: "arr L h [] a X" and V: "comparable V" "a ` {l..u} \<subseteq> V"
    and lu: "1 \<le> l" "l < k" "k < u" "u < INT_MAX"
  obtains Y where "place_pivot k u X = Inr ((), Y)"
    "arr L h [] (a(u - 1 := a k, k := a (u - 1))) Y"
proof -
  have v: "a k \<in> V" "a (u - 1) \<in> V" using V(2) lu by auto
  have nil: "a k \<noteq> TNil" "a (u - 1) \<noteq> TNil" using comparable_not_nil V(1) v by blast+
  have r: "INT_MIN \<le> k \<and> k \<le> INT_MAX" "INT_MIN \<le> u - 1 \<and> u - 1 \<le> INT_MAX"
    using int_range [of k] int_range [of "u - 1"] lu by auto
  obtain X1 where X1: "lua_rawgeti 1 (u - 1) X = Inr ((), X1)" "arr L h [a (u - 1)] a X1" using arr_get [OF F X, of "u - 1"] r by auto
  obtain X2 where X2: "lua_rawgeti 1 k X1 = Inr ((), X2)" "arr L h [a (u - 1), a k] a X2"
    using arr_get [OF F X1(2), of k] r by auto
  obtain Y where "set2 (u - 1) k X2 = Inr ((), Y)" "arr L h [] (a(u - 1 := a k, k := a (u - 1))) Y"
    using arr_set2 [OF F, of "[]" "a (u - 1)" "a k" a X2 "u - 1" k] X2(2) nil r by auto
  with X1 X2 show thesis by (intro that) (simp_all add: place_pivot_def bindA_def)
qed

text \<open>One round of the loop: a pivot in its place, smaller values below it and larger ones above.\<close>

lemma pivot_stage:
  assumes F: "sort_frame h L" and X: "arr L h [] c X" and V: "comparable V" "c ` {l..u} \<subseteq> V"
    and lu: "1 \<le> l" "l < m" "m < u - 1" "u < INT_MAX" and ends: "not_above (c l) (c m)" "not_above (c m) (c u)"
    and fuel: "nat (u - l) \<le> fuel"
  obtains k f X3 X4 Y where "save_pivot m u X = Inr ((), X3)"
    "partition_loop fuel call l u l (u - 1) X3 = Inr (k, X4)" "place_pivot k u X4 = Inr ((), Y)"
    "arr L h [] f Y" "same_values l u c f" "l < k" "k < u"
    "\<forall>i. l \<le> i \<and> i \<le> k - 1 \<longrightarrow> not_above (f i) (f k)" "\<forall>i. k + 1 \<le> i \<and> i \<le> u \<longrightarrow> not_above (f k) (f i)"
proof -
  let ?P = "c m" and ?d = "c(m := c (u - 1), u - 1 := c m)"
  have PV: "?P \<in> V" using V(2) lu by auto
  obtain X3 where d: "save_pivot m u X = Inr ((), X3)" "arr L h [?P] ?d X3"
    by (rule pivot_aside [OF F X V lu])
  have cd: "same_values l u c ?d" by (rule same_swap) (use lu in auto)
  have dV: "?d ` {l..u} \<subseteq> V" using same_image [OF cd] V(2) by simp
  have inv: "part_inv l u ?P l (u - 1) ?d"
    using lu ends(1) not_above_refl [OF V(1) PV] by (auto simp: part_inv_def le_less dest: zle_diff1_eq [THEN iffD1])
  have smaller: "nat (u - 1 - l) < fuel" using fuel lu by linarith
  obtain k e X4 where e: "partition_loop fuel call l u l (u - 1) X3 = Inr (k, X4)" "arr L h [] e X4" "same_values l u ?d e"
    "e u = ?d u" "parted l u ?P k e"
    using partition_spec [OF F V(1) PV lu(1,4) d(2) dV inv, of fuel call] smaller by blast
  have k: "l < k" "k < u" "e (u - 1) = ?P" "\<forall>i. l \<le> i \<and> i < k \<longrightarrow> not_above (e i) ?P"
    "\<forall>i. k \<le> i \<and> i < u \<longrightarrow> not_above ?P (e i)"
    using e(5) by (simp_all add: parted_def)
  have eV: "e ` {l..u} \<subseteq> V" using same_image [OF e(3)] dV by simp
  let ?f = "e(u - 1 := e k, k := e (u - 1))"
  obtain X5 where f: "place_pivot k u X4 = Inr ((), X5)" "arr L h [] ?f X5"
    by (rule pivot_back [OF F e(2) V(1) eV lu(1) k(1,2) lu(4)])
  have ef: "same_values l u e ?f" by (rule same_swap) (use k in auto)
  have cf: "same_values l u c ?f" using cd e(3) ef by (blast intro: same_trans)
  have fk: "?f k = ?P" using k(3) by simp
  have low: "\<forall>i. l \<le> i \<and> i \<le> k - 1 \<longrightarrow> not_above (?f i) (?f k)" using k unfolding fk by auto
  have high: "\<forall>i. k + 1 \<le> i \<and> i \<le> u \<longrightarrow> not_above (?f k) (?f i)"
    unfolding fk
  proof (intro allI impI)
    fix i assume i: "k + 1 \<le> i \<and> i \<le> u"
    have "not_above ?P (e u)" using e(4) ends(2) lu by auto
    moreover have "not_above ?P (e k)" using k by auto
    ultimately show "not_above ?P (?f i)" using i k(5) by (cases "i = u"; cases "i = u - 1") auto
  qed
  show thesis by (rule that [OF d(1) e(1) f cf k(1,2) low high])
qed

lemma ordered_empty: "u < l \<Longrightarrow> ordered l u a"
  unfolding ordered_def by (intro allI impI) linarith

lemma ordered_single:
  assumes "comparable V" "a k \<in> V"
  shows "ordered k k a"
  unfolding ordered_def
proof (intro allI impI)
  fix i j assume "k \<le> i \<and> i \<le> j \<and> j \<le> k"
  then have "i = k" "j = k" by auto
  then show "not_above (a i) (a j)" using not_above_refl [OF assms] by simp
qed

lemma auxsort_spec:
  assumes F: "sort_frame h L" and V: "comparable V"
  shows "arr L h [] a X \<Longrightarrow> a ` {l..u} \<subseteq> V \<Longrightarrow> 1 \<le> l \<Longrightarrow> 2 * u \<le> INT_MAX \<Longrightarrow> nat (u - l) < fuel \<Longrightarrow>
    \<exists>b Y. auxsort fuel call l u X = Inr ((), Y) \<and> arr L h [] b Y \<and> same_values l u a b \<and> ordered l u b"
proof (induction fuel arbitrary: l u a X)
  case (Suc fuel)
  note X = Suc.prems(1) and aV = Suc.prems(2)
  show ?case
  proof (cases "l < u")
    case False
    then consider "u < l" | "u = l" by linarith
    then have "ordered l u a" using aV by cases (auto intro: ordered_empty ordered_single [OF V])
    with False X show ?thesis by (auto simp: retA_def intro!: exI [of _ a])
  next
    case True
    have u: "u < INT_MAX" using Suc.prems(3,4) True by linarith
    obtain b X1 where b: "sort_ends call l u X = Inr ((), X1)" "arr L h [] b X1" "same_values l u a b" "not_above (b l) (b u)"
      by (rule sort_ends_spec [OF F X V aV Suc.prems(3) True u])
    have bV: "b ` {l..u} \<subseteq> V" using same_image [OF b(3)] aV by simp
    show ?thesis
    proof (cases "u - l = 1")
      case two: True
      then have u1: "u = l + 1" by simp
      have "b u \<in> V" using bV True by auto
      moreover have "\<forall>m. l < m \<and> m \<le> u \<longrightarrow> not_above (b l) (b m)"
      proof (intro allI impI)
        fix m assume "l < m \<and> m \<le> u"
        then have "m = u" using u1 by simp
        with b(4) show "not_above (b l) (b m)" by simp
      qed
      ultimately have "ordered l u b"
        by (intro ordered_join [OF V bV, of l]) (use u1 in \<open>auto intro: ordered_empty ordered_single [OF V]\<close>)
      with b two True show ?thesis by (auto simp: bindA_def retA_def)
    next
      case more: False
      define m where "m = (l + u) div 2"
      have m: "l < m" "m < u" "\<not> l + u > INT_MAX" using more True Suc.prems(4) by (auto simp: m_def)
      obtain c X2 where c: "sort_middle call l m u X1 = Inr ((), X2)" "arr L h [] c X2" "same_values l u b c"
        "not_above (c l) (c m)" "not_above (c m) (c u)"
        by (rule sort_middle_spec [OF F b(2) V bV Suc.prems(3) m(1,2) u b(4)])
      have ac: "same_values l u a c" using b(3) c(3) by (rule same_trans)
      have cV: "c ` {l..u} \<subseteq> V" using same_image [OF ac] aV by simp
      show ?thesis
      proof (cases "u - l = 2")
        case three: True
        have lm: "l = m - 1" "u = m + 1" using three m by auto
        have low: "\<forall>i. l \<le> i \<and> i < m \<longrightarrow> not_above (c i) (c m)" "\<forall>i. m < i \<and> i \<le> u \<longrightarrow> not_above (c m) (c i)"
        proof -
          have "i = l" if "l \<le> i" "i < m" for i using that lm by simp
          then show "\<forall>i. l \<le> i \<and> i < m \<longrightarrow> not_above (c i) (c m)" using c(4) by blast
          have "i = u" if "m < i" "i \<le> u" for i using that lm by simp
          then show "\<forall>i. m < i \<and> i \<le> u \<longrightarrow> not_above (c m) (c i)" using c(5) by blast
        qed
        have "c l \<in> V" "c u \<in> V" using cV True by auto
        then have "ordered l u c"
          by (intro ordered_join [OF V cV, of m] low) (use lm in \<open>auto intro: ordered_single [OF V]\<close>)
        with b c ac True more three m(3) show ?thesis by (auto simp: bindA_def retA_def Let_def m_def)
      next
        case False
        have mu: "m < u - 1" using more False True by (auto simp: m_def)
        have fuel: "nat (u - l) \<le> fuel" using Suc.prems(5) by simp
        obtain k f X3 X4 X5 where st: "save_pivot m u X2 = Inr ((), X3)"
            "partition_loop fuel call l u l (u - 1) X3 = Inr (k, X4)" "place_pivot k u X4 = Inr ((), X5)"
          and f: "arr L h [] f X5" "same_values l u c f" and k: "l < k" "k < u"
          and low: "\<forall>i. l \<le> i \<and> i \<le> k - 1 \<longrightarrow> not_above (f i) (f k)" and high: "\<forall>i. k + 1 \<le> i \<and> i \<le> u \<longrightarrow> not_above (f k) (f i)"
          by (rule pivot_stage [OF F c(2) V cV Suc.prems(3) m(1) mu u c(4,5) fuel, where call = call]) blast
        have af: "same_values l u a f" using ac f(2) by (rule same_trans)
        have fV: "f ` {l..u} \<subseteq> V" using same_image [OF af] aV by simp
        note start = b(1) c(1) st
        have step: "auxsort (Suc fuel) call l u X =
            (if k - l < u - k then bindA (auxsort fuel call l (k - 1)) (\<lambda>_. auxsort fuel call (k + 1) u)
             else bindA (auxsort fuel call (k + 1) u) (\<lambda>_. auxsort fuel call l (k - 1))) X5"
          using start True more False m(3) by (simp add: bindA_def Let_def m_def)
        have size: "nat (k - 1 - l) < fuel" "nat (u - (k + 1)) < fuel" "2 * (k - 1) \<le> INT_MAX" "1 \<le> k + 1"
          using Suc.prems(3-5) k(1,2) by auto
        have part: "g ` {l..k - 1} \<subseteq> V \<and> g ` {k + 1..u} \<subseteq> V" if "same_values l u a g" for g
        proof -
          have "g m \<in> V" if "l \<le> m" "m \<le> u" for m using same_in [OF \<open>same_values l u a g\<close> aV that] .
          then show ?thesis using k(1,2) by (auto simp: image_subset_iff)
        qed
        show ?thesis
        proof (cases "k - l < u - k")
          case small: True
          obtain g X6 where g: "auxsort fuel call l (k - 1) X5 = Inr ((), X6)" "arr L h [] g X6"
            "same_values l (k - 1) f g" "ordered l (k - 1) g"
            using Suc.IH [OF f(1), of l "k - 1"] part [OF af] Suc.prems(3) size by blast
          have ag: "same_values l u a g" using same_trans [OF af same_wider [OF g(3)]] k by simp
          obtain g' Y where g': "auxsort fuel call (k + 1) u X6 = Inr ((), Y)" "arr L h [] g' Y"
            "same_values (k + 1) u g g'" "ordered (k + 1) u g'"
            using Suc.IH [OF g(2), of "k + 1" u] part [OF ag] Suc.prems(4) size by blast
          have "same_values l u f g' \<and> ordered l u g'"
            by (rule sort_low_high [OF V fV _ _ low high g(3,4) g'(3,4)]) (use k in auto)
          moreover have "auxsort (Suc fuel) call l u X = Inr ((), Y)"
            using step small g(1) g'(1) by (simp add: bindA_def)
          ultimately show ?thesis using g'(2) same_trans [OF af] by blast
        next
          case large: False
          obtain g X6 where g: "auxsort fuel call (k + 1) u X5 = Inr ((), X6)" "arr L h [] g X6"
            "same_values (k + 1) u f g" "ordered (k + 1) u g"
            using Suc.IH [OF f(1), of "k + 1" u] part [OF af] Suc.prems(4) size by blast
          have ag: "same_values l u a g" using same_trans [OF af same_wider [OF g(3)]] k by simp
          obtain g' Y where g': "auxsort fuel call l (k - 1) X6 = Inr ((), Y)" "arr L h [] g' Y"
            "same_values l (k - 1) g g'" "ordered l (k - 1) g'"
            using Suc.IH [OF g(2), of l "k - 1"] part [OF ag] Suc.prems(3) size by blast
          have "same_values l u f g' \<and> ordered l u g'"
            by (rule sort_high_low [OF V fV _ _ low high g(3,4) g'(3,4)]) (use k in auto)
          moreover have "auxsort (Suc fuel) call l u X = Inr ((), Y)"
            using step large g(1) g'(1) by (simp add: bindA_def)
          ultimately show ?thesis using g'(2) same_trans [OF af] by blast
        qed
      qed
    qed
  qed
qed simp

text \<open>
  C27.  \<^verbatim>\<open>table.sort\<close> without an order function, on a table whose elements \<open>1 .. n\<close> are numbers
  other than NaN or are strings: it returns within \<open>n + 1\<close> rounds, the elements are the same
  (each as often as before) and in order, no other integer key has changed, and the table is
  still in order.
\<close>

theorem sort_sorts:
  assumes "stack L = [TTable h]" "s_tables (st L) h = Some t" "table_ok t" "20 \<le> ci_top L"
    and "luaH_getn t = Inr n" "2 * n \<le> INT_MAX" "comparable (ival t ` {1..n})" "nat n < fuel"
  shows "\<exists>t' L'. sort fuel call L = Inr (0, L') \<and> s_tables (st L') h = Some t' \<and> table_ok t'
    \<and> image_mset (ival t') (mset_set {1..n}) = image_mset (ival t) (mset_set {1..n})
    \<and> ordered 1 n (ival t')
    \<and> (\<forall>k. INT_MIN \<le> k \<and> k \<le> INT_MAX \<and> (k < 1 \<or> n < k) \<longrightarrow> ival t' k = ival t k)"
proof -
  have n: "0 \<le> n" "n < INT_MAX" using luaH_getn_spec [OF assms(3)] assms(5) by (auto simp: border_def)
  have T: "table_at 1 h t [TTable h] L" using assms(1,2,4) by (simp add: table_at_def)
  have size: "aux_getn 1 L = Inr (n, L)"
    using objlen_eval [OF T, of "[]"] assms(1,3,5) n positive_index [of 1 L] assms(4)
    by (simp add: aux_getn_def luaL_checktype_def luaL_getn_def bindA_def retA_def lua_type_def adrA_def cast_int_id INT_MIN_def)
  define L2 where "L2 = L\<lparr>ci_top := max (ci_top L) 41, stack := [TTable h, TNil]\<rparr>"
  have two: "bindA (luaL_checkstack 40 []) (\<lambda>_. bindA (lua_isnoneornil 2) (\<lambda>none.
      bindA (if none then retA () else luaL_checktype 2 6) (\<lambda>_. lua_settop 2))) L = Inr ((), L2)"
    using assms(1,4)
    by (simp add: luaL_checkstack_def lua_checkstack_def lua_isnoneornil_def lua_type_def lua_settop_def bindA_def retA_def
        adrA_def index2adr_def valA_def val_at_def L2_def LUAI_MAXCSTACK_def LUA_TNONE_def)
  let ?a = "ival t"
  have F: "sort_frame h L2" using assms(2) by (auto simp: sort_frame_def table_at_def L2_def)
  have "arr L2 h [] ?a L2" using assms(2,3) unfolding arr_def
    by (intro exI [of _ t]) (auto simp: L2_def set_table_def map_upd_triv)
  moreover have enough: "nat (n - 1) < fuel" "(1::int) \<le> 1" using assms(8) by simp_all
  ultimately obtain b Y where b: "auxsort fuel call 1 n L2 = Inr ((), Y)" "arr L2 h [] b Y" "same_values 1 n ?a b" "ordered 1 n b"
    using auxsort_spec [OF F assms(7), of ?a L2 1 n fuel call] assms(6) enough by blast
  obtain t' where t': "table_at 1 h t' [TTable h, TNil] Y" "table_ok t'"
    "\<forall>k. INT_MIN \<le> k \<and> k \<le> INT_MAX \<longrightarrow> ival t' k = b k"
    by (rule arr_table [OF F b(2)])
  have same: "ival t' k = b k" if "1 \<le> k" "k \<le> n" for k using t'(3) that n by (simp add: INT_MIN_def)
  have "image_mset (ival t') (mset_set {1..n}) = image_mset b (mset_set {1..n})"
    by (rule image_mset_cong) (use same in auto)
  moreover have "ordered 1 n (ival t')" by (rule ordered_cong [OF b(4)]) (use same in auto)
  moreover have "sort fuel call L = Inr (0, Y)"
  proof -
    have "sort fuel call L = bindA (bindA (luaL_checkstack 40 []) (\<lambda>_. bindA (lua_isnoneornil 2) (\<lambda>none.
      bindA (if none then retA () else luaL_checktype 2 6) (\<lambda>_. lua_settop 2)))) (\<lambda>_. bindA (auxsort fuel call 1 n) (\<lambda>_. retA 0)) L"
      using size by (simp add: sort_def bindA_def bindE_assoc case_prod_unfold)
    then show ?thesis using two b(1) by (simp add: bindA_def retA_def)
  qed
  ultimately show ?thesis using t' b(3) by (auto simp: table_at_def same_values_def)
qed

text \<open>The array \<open>{3, 1, 2, 0}\<close>.\<close>

definition put_number :: "int \<Rightarrow> int \<Rightarrow> table \<Rightarrow> table" where
  "put_number i v t = projr (table_puti t i (TNumber (cast_num v)))"

definition unsorted_table :: table where
  "unsorted_table = put_number 4 0 (put_number 3 2 (put_number 2 1 (put_number 1 3 (projr (luaH_new 4 0)))))"

lemma put_number_ok:
  "table_ok t \<Longrightarrow> table_puti t i (TNumber (cast_num v)) = Inr (put_number i v t) \<Longrightarrow> INT_MIN \<le> i \<and> i \<le> INT_MAX
    \<Longrightarrow> table_ok (put_number i v t)"
  using it.puti_ok [of t i "TNumber (cast_num v)"] by auto

lemma unsorted_table_ok: "table_ok unsorted_table"
proof -
  let ?t0 = "projr (luaH_new 4 0)"
  have "luaH_new 4 0 = Inr ?t0" by code_simp
  then have "table_ok ?t0" using luaH_new_ok [of 4 0] by auto
  moreover have "table_puti ?t0 1 (TNumber (cast_num 3)) = Inr (put_number 1 3 ?t0)"
    "table_puti (put_number 1 3 ?t0) 2 (TNumber (cast_num 1)) = Inr (put_number 2 1 (put_number 1 3 ?t0))"
    "table_puti (put_number 2 1 (put_number 1 3 ?t0)) 3 (TNumber (cast_num 2)) = Inr (put_number 3 2 (put_number 2 1 (put_number 1 3 ?t0)))"
    "table_puti (put_number 3 2 (put_number 2 1 (put_number 1 3 ?t0))) 4 (TNumber (cast_num 0)) = Inr unsorted_table"
    by code_simp+
  ultimately show ?thesis unfolding unsorted_table_def
    by (intro put_number_ok) (auto simp: INT_MIN_def INT_MAX_def unsorted_table_def)
qed

definition unsorted_state :: lstate where
  "unsorted_state = sample_state\<lparr>st := set_table 0 unsorted_table (st sample_state), stack := [TTable 0], ci_top := 20\<rparr>"

theorem sort_sorts_witness:
  "\<exists>t' L'. sort 5 no_host unsorted_state = Inr (0, L') \<and> s_tables (st L') 0 = Some t' \<and> ordered 1 4 (ival t')
    \<and> image_mset (ival t') (mset_set {1..4}) = image_mset (ival unsorted_table) (mset_set {1..4})"
proof -
  have i: "{1..4} = {1, 2, 3, 4::int}" by auto
  have "ival unsorted_table 1 = TNumber (cast_num 3) \<and> \<not> dbl_isnan (cast_num 3)"
    "ival unsorted_table 2 = TNumber (cast_num 1) \<and> \<not> dbl_isnan (cast_num 1)"
    "ival unsorted_table 3 = TNumber (cast_num 2) \<and> \<not> dbl_isnan (cast_num 2)"
    "ival unsorted_table 4 = TNumber (cast_num 0) \<and> \<not> dbl_isnan (cast_num 0)" by code_simp+
  then have "comparable (ival unsorted_table ` {1..4})" unfolding comparable_def i by auto
  moreover have "luaH_getn unsorted_table = Inr 4" by code_simp
  ultimately show ?thesis
    using sort_sorts [of unsorted_state 0 unsorted_table 4 5 no_host] unsorted_table_ok
    by (auto simp: unsorted_state_def set_table_def INT_MAX_def)
qed

end
