(* ===== verification/LuaStrlib.thy ===== *)
theory LuaStrlib
  imports LuaMatch LuaLexSafe
begin

text \<open>
  The functions of the string library, \<^verbatim>\<open>lstrlib.c\<close>, as C functions over the interface: each
  returns the number of results it pushed.

  \<open>call\<close> runs functions, \<open>bsz\<close> is the size of the array of a buffer, and \<open>sprintf\<close> is the C
  library's \<^verbatim>\<open>sprintf\<close> on one argument, giving the text it writes.
\<close>

section \<open>Characters and slices\<close>

definition str_len :: "int api" where
  "str_len = bindA (luaL_checklstring 1) (\<lambda>s. bindA (lua_pushinteger (int (length s))) (\<lambda>_. retA 1))"

definition posrelat :: "int \<Rightarrow> nat \<Rightarrow> int" where
  "posrelat pos len = (let p = (if pos < 0 then pos + (int len + 1) else pos) in if p \<ge> 0 then p else 0)"

definition slice :: "string \<Rightarrow> int \<Rightarrow> int \<Rightarrow> string" where
  "slice s i n = take (nat n) (drop (nat i) s)"

definition sub_bounds :: "int \<Rightarrow> int \<Rightarrow> nat \<Rightarrow> int \<times> int" where
  "sub_bounds start end l =
     (let s = posrelat start l; e = posrelat end l in (if s < 1 then 1 else s, if e > int l then int l else e))"

definition str_sub :: "int api" where
  "str_sub = bindA (luaL_checklstring 1) (\<lambda>s. bindA (luaL_checkinteger 2) (\<lambda>i. bindA (luaL_optinteger 3 (-1)) (\<lambda>j.
     let (start, end) = sub_bounds i j (length s) in
     bindA (if start \<le> end then lua_pushlstring (slice s (start - 1) (end - start + 1)) else lua_pushlstring []) (\<lambda>_.
     retA 1))))"

definition bufferA :: "host \<Rightarrow> (luaL_Buffer \<Rightarrow> luaL_Buffer api) \<Rightarrow> unit api" where
  "bufferA call f = bindA (f luaL_buffinit) (\<lambda>B. bindA (luaL_pushresult call B) (\<lambda>_. retA ()))"

definition str_reverse :: "host \<Rightarrow> nat \<Rightarrow> int api" where
  "str_reverse call bsz = bindA (luaL_checklstring 1) (\<lambda>s.
     bindA (bufferA call (luaL_addlstring call bsz (rev s))) (\<lambda>_. retA 1))"

definition str_lower :: "host \<Rightarrow> nat \<Rightarrow> int api" where
  "str_lower call bsz = bindA (luaL_checklstring 1) (\<lambda>s.
     bindA (bufferA call (luaL_addlstring call bsz (map (\<lambda>c. int2char (tolower (char2int c))) s))) (\<lambda>_. retA 1))"

definition str_upper :: "host \<Rightarrow> nat \<Rightarrow> int api" where
  "str_upper call bsz = bindA (luaL_checklstring 1) (\<lambda>s.
     bindA (bufferA call (luaL_addlstring call bsz (map (\<lambda>c. int2char (toupper (char2int c))) s))) (\<lambda>_. retA 1))"

primrec rep_loop :: "host \<Rightarrow> nat \<Rightarrow> string \<Rightarrow> nat \<Rightarrow> luaL_Buffer \<Rightarrow> luaL_Buffer api" where
  "rep_loop call bsz s 0 B = retA B"
| "rep_loop call bsz s (Suc n) B = bindA (luaL_addlstring call bsz s B) (rep_loop call bsz s n)"

definition str_rep :: "host \<Rightarrow> nat \<Rightarrow> int api" where
  "str_rep call bsz = bindA (luaL_checklstring 1) (\<lambda>s. bindA (luaL_checkint 2) (\<lambda>n.
     bindA (bufferA call (rep_loop call bsz s (nat n))) (\<lambda>_. retA 1)))"

definition str_byte :: "int api" where
  "str_byte = bindA (luaL_checklstring 1) (\<lambda>s. bindA (luaL_optinteger 2 1) (\<lambda>i.
     let l = length s; posi0 = posrelat i l in
     bindA (luaL_optinteger 3 posi0) (\<lambda>j.
     let pose0 = posrelat j l;
         posi = (if posi0 \<le> 0 then 1 else posi0);
         pose = (if pose0 > int l then int l else pose0) in
     if posi > pose then retA 0
     else
       let n = cast_int (pose - posi + 1) in
       bindA (if posi + n \<le> pose then luaL_error ''string slice too long'' [] else retA ()) (\<lambda>_.
       bindA (luaL_checkstack n ''string slice too long'') (\<lambda>_.
       bindA (forA (slice s (posi - 1) n) (\<lambda>c. lua_pushinteger (char2int c))) (\<lambda>_. retA n))))))"

primrec char_loop :: "host \<Rightarrow> nat \<Rightarrow> nat list \<Rightarrow> luaL_Buffer \<Rightarrow> luaL_Buffer api" where
  "char_loop call bsz [] B = retA B"
| "char_loop call bsz (i # is) B =
     bindA (luaL_checkint (int i)) (\<lambda>c.
     bindA (luaL_argcheck (c mod 256 = c) (int i) ''invalid value'') (\<lambda>_.
     bindA (luaL_addchar call bsz (int2char c) B) (char_loop call bsz is)))"

definition str_char :: "host \<Rightarrow> nat \<Rightarrow> int api" where
  "str_char call bsz = bindA lua_gettop (\<lambda>n.
     bindA (bufferA call (char_loop call bsz [1 ..< nat n + 1])) (\<lambda>_. retA 1))"

definition str_dump :: "host \<Rightarrow> nat \<Rightarrow> int api" where
  "str_dump call bsz = bindA (luaL_checktype 1 6) (\<lambda>_. bindA (lua_settop 1) (\<lambda>_.
     bindA (lua_dump (\<lambda>b d. (0, d @ b)) []) (\<lambda>(status, bytes).
     if status \<noteq> 0 then luaL_error ''unable to dump given function'' []
     else bindA (bufferA call (luaL_addlstring call bsz bytes)) (\<lambda>_. retA 1))))"

section \<open>Searching\<close>

text \<open>\<^verbatim>\<open>lmemfind\<close>: the bytes before the first occurrence.\<close>

function memfind_loop :: "string \<Rightarrow> nat \<Rightarrow> string \<Rightarrow> nat \<Rightarrow> nat option" where
  "memfind_loop s1 l1 s2 base =
     (if l1 = 0 then None
      else case List.find (\<lambda>i. s1 ! i = hd s2) [0 ..< l1] of
        None \<Rightarrow> None
      | Some i \<Rightarrow>
          if take (length s2 - 1) (drop (i + 1) s1) = tl s2 then Some (base + i)
          else memfind_loop (drop (i + 1) s1) (l1 - (i + 1)) s2 (base + (i + 1)))"
  by pat_completeness auto
termination
  by (relation "measure (\<lambda>(s1, l1, s2, base). l1)") auto

declare memfind_loop.simps [simp del]

definition lmemfind :: "string \<Rightarrow> string \<Rightarrow> nat option" where
  "lmemfind s1 s2 =
     (if s2 = [] then Some 0
      else if length s2 > length s1 then None
      else memfind_loop s1 (length s1 - (length s2 - 1)) s2 0)"

definition SPECIALS :: string where "SPECIALS = ''^$*+?.([%-''"

definition push_onecapture :: "MatchState \<Rightarrow> int \<Rightarrow> nat \<Rightarrow> nat \<Rightarrow> unit api" where
  "push_onecapture ms i s e =
     (if i \<ge> int (length (ms_capture ms)) then
        (if i = 0 then lua_pushlstring (slice (ms_src ms) (int s) (int e - int s))
         else luaL_error ''invalid capture index'' [])
      else
        let (init, l) = ms_capture ms ! nat i in
        if l = CAP_UNFINISHED then luaL_error ''unfinished capture'' []
        else if l = CAP_POSITION then lua_pushinteger (int init + 1)
        else lua_pushlstring (slice (ms_src ms) (int init) l))"

text \<open>\<open>whole\<close>: the start of the match is not \<^verbatim>\<open>NULL\<close>.\<close>

definition push_captures :: "MatchState \<Rightarrow> bool \<Rightarrow> nat \<Rightarrow> nat \<Rightarrow> int api" where
  "push_captures ms whole s e =
     (let nlevels = (if ms_capture ms = [] \<and> whole then 1 else length (ms_capture ms)) in
      bindA (luaL_checkstack (int nlevels) ''too many captures'') (\<lambda>_.
      bindA (forA [0 ..< nlevels] (\<lambda>i. push_onecapture ms (int i) s e)) (\<lambda>_. retA (int nlevels))))"

definition match_start :: "string \<Rightarrow> string \<Rightarrow> MatchState" where
  "match_start w src = \<lparr>ms_src = src, ms_where = w, ms_capture = []\<rparr>"

text \<open>The search for the first match from \<open>s1\<close> on.\<close>

function find_loop :: "string \<Rightarrow> string \<Rightarrow> string \<Rightarrow> bool \<Rightarrow> nat \<Rightarrow> lua_error + (nat \<times> nat \<times> MatchState) option" where
  "find_loop w src p anchor s1 =
     bindE (do_match (match_start w src) s1 p) (\<lambda>(res, ms).
     case res of
       Some e \<Rightarrow> Inr (Some (s1, e, ms))
     | None \<Rightarrow> if s1 < length src \<and> \<not> anchor then find_loop w src p anchor (s1 + 1) else Inr None)"
  by pat_completeness auto
termination
  by (relation "measure (\<lambda>(w, src, p, anchor, s1). length src - s1)") auto

declare find_loop.simps [simp del]

definition liftA :: "lua_error + 'a \<Rightarrow> 'a api" where
  "liftA m L = bindE m (\<lambda>x. Inr (x, L))"

definition anchored :: "string \<Rightarrow> bool \<times> string" where
  "anchored p = (if peek p = CHR ''^'' then (True, drop 1 p) else (False, p))"

definition str_find_aux :: "bool \<Rightarrow> int api" where
  "str_find_aux fnd =
     bindA (luaL_checklstring 1) (\<lambda>s. bindA (luaL_checklstring 2) (\<lambda>p. bindA (luaL_optinteger 3 1) (\<lambda>i.
     let l1 = length s; i0 = posrelat i l1 - 1; init = nat (if i0 < 0 then 0 else if i0 > int l1 then int l1 else i0) in
     bindA (if fnd then lua_toboolean 4 else retA False) (\<lambda>plain.
     if fnd \<and> (plain \<or> \<not> list_ex (\<lambda>c. c \<in> set SPECIALS) (cstr p)) then
       (case lmemfind (drop init s) p of
          Some k \<Rightarrow> bindA (lua_pushinteger (int (init + k) + 1)) (\<lambda>_.
                    bindA (lua_pushinteger (int (init + k) + int (length p))) (\<lambda>_. retA 2))
        | None \<Rightarrow> bindA lua_pushnil (\<lambda>_. retA 1))
     else
       let (anchor, pat) = anchored p in
       bindA (where_text 1) (\<lambda>w. bindA (liftA (find_loop w s pat anchor init)) (\<lambda>r.
       case r of
         None \<Rightarrow> bindA lua_pushnil (\<lambda>_. retA 1)
       | Some (s1, e, ms) \<Rightarrow>
           if fnd then
             bindA (lua_pushinteger (int s1 + 1)) (\<lambda>_. bindA (lua_pushinteger (int e)) (\<lambda>_.
             bindA (push_captures ms False 0 0) (\<lambda>n. retA (n + 2))))
           else push_captures ms True s1 e))))))"

definition str_find :: "int api" where
  "str_find = str_find_aux True"

definition str_match :: "int api" where
  "str_match = str_find_aux False"

definition lua_upvalueindex :: "int \<Rightarrow> int" where
  "lua_upvalueindex i = LUA_GLOBALSINDEX - i"

text \<open>The position kept in the third upvalue is a \<^verbatim>\<open>size_t\<close>.\<close>

definition gmatch_aux :: "int api" where
  "gmatch_aux =
     bindA (lua_tolstring (lua_upvalueindex 1)) (\<lambda>so. bindA (lua_tolstring (lua_upvalueindex 2)) (\<lambda>po.
     bindA (lua_tointeger (lua_upvalueindex 3)) (\<lambda>start.
     case (so, po) of
       (Some s, Some p) \<Rightarrow>
         if start < 0 \<or> start > int (length s) then retA 0
         else bindA (where_text 1) (\<lambda>w. bindA (liftA (find_loop w s p False (nat start))) (\<lambda>r.
           case r of
             None \<Rightarrow> retA 0
           | Some (src, e, ms) \<Rightarrow>
               bindA (lua_pushinteger (if e = src then int e + 1 else int e)) (\<lambda>_.
               bindA (lua_replace (lua_upvalueindex 3)) (\<lambda>_. push_captures ms True src e))))
     | _ \<Rightarrow> throwA ErrFault)))"

text \<open>\<open>gmatch_id\<close> is the address of \<^verbatim>\<open>gmatch_aux\<close>.\<close>

definition gmatch :: "nat \<Rightarrow> int api" where
  "gmatch gmatch_id =
     bindA (luaL_checklstring 1) (\<lambda>_. bindA (luaL_checklstring 2) (\<lambda>_. bindA (lua_settop 2) (\<lambda>_.
     bindA (lua_pushinteger 0) (\<lambda>_. bindA (lua_pushcclosure gmatch_id 3) (\<lambda>_. retA 1)))))"

definition gfind_nodef :: "int api" where
  "gfind_nodef = luaL_error ([CHR 0x27] @ ''string.gfind'' @ [CHR 0x27] @ '' was renamed to '' @ [CHR 0x27] @ ''string.gmatch'' @ [CHR 0x27]) []"

section \<open>Substitution\<close>

function add_s_loop :: "host \<Rightarrow> nat \<Rightarrow> MatchState \<Rightarrow> nat \<Rightarrow> nat \<Rightarrow> string \<Rightarrow> luaL_Buffer \<Rightarrow> luaL_Buffer api" where
  "add_s_loop call bsz ms s e news B =
     (case news of
        [] \<Rightarrow> retA B
      | c # r \<Rightarrow>
          if c \<noteq> L_ESC then bindA (luaL_addchar call bsz c B) (add_s_loop call bsz ms s e r)
          else
            let d = peek r in
            if \<not> isdigit (char2int d) then bindA (luaL_addchar call bsz d B) (add_s_loop call bsz ms s e (drop 1 r))
            else if d = CHR ''0'' then
              bindA (luaL_addlstring call bsz (slice (ms_src ms) (int s) (int e - int s)) B) (add_s_loop call bsz ms s e (drop 1 r))
            else
              bindA (push_onecapture ms (char2int d - 49) s e) (\<lambda>_.
              bindA (luaL_addvalue call bsz B) (add_s_loop call bsz ms s e (drop 1 r))))"
  by pat_completeness auto
termination
  by (relation "measure (\<lambda>(call, bsz, ms, s, e, news, B). length news)") auto

definition add_s :: "host \<Rightarrow> nat \<Rightarrow> MatchState \<Rightarrow> nat \<Rightarrow> nat \<Rightarrow> luaL_Buffer \<Rightarrow> luaL_Buffer api" where
  "add_s call bsz ms s e B = bindA (lua_tolstring 3) (\<lambda>so.
     case so of None \<Rightarrow> throwA ErrFault | Some news \<Rightarrow> add_s_loop call bsz ms s e news B)"

definition add_value :: "host \<Rightarrow> nat \<Rightarrow> MatchState \<Rightarrow> nat \<Rightarrow> nat \<Rightarrow> luaL_Buffer \<Rightarrow> luaL_Buffer api" where
  "add_value call bsz ms s e B = bindA (lua_type 3) (\<lambda>t.
     if t = 3 \<or> t = 4 then add_s call bsz ms s e B
     else
       bindA (if t = 6 then
                bindA (lua_pushvalue 3) (\<lambda>_. bindA (push_captures ms True s e) (\<lambda>n. lua_call call (nat n) 1))
              else if t = 5 then bindA (push_onecapture ms 0 s e) (\<lambda>_. lua_gettable call 3)
              else retA ()) (\<lambda>_.
       bindA (lua_toboolean (-1)) (\<lambda>b.
       bindA (if \<not> b then
                bindA (lua_pop 1) (\<lambda>_. lua_pushlstring (slice (ms_src ms) (int s) (int e - int s)))
              else bindA (lua_isstring (-1)) (\<lambda>str.
                if str then retA ()
                else bindA (luaL_typename (-1)) (\<lambda>tn. luaL_error ''invalid replacement value (a %s)'' [FStr (Some tn)]))) (\<lambda>_.
       luaL_addvalue call bsz B))))"

text \<open>A subject pointer beyond \<^verbatim>\<open>src_end\<close> would be a fault.\<close>

function gsub_loop :: "host \<Rightarrow> nat \<Rightarrow> string \<Rightarrow> string \<Rightarrow> string \<Rightarrow> bool \<Rightarrow> int \<Rightarrow> nat \<Rightarrow> int \<Rightarrow> luaL_Buffer
    \<Rightarrow> (nat \<times> int \<times> luaL_Buffer) api" where
  "gsub_loop call bsz w subj p anchor max_s src n B =
     (if src > length subj then throwA ErrFault
      else if n < max_s then
        bindA (liftA (do_match (match_start w subj) src p)) (\<lambda>(res, ms).
        bindA (case res of Some e \<Rightarrow> add_value call bsz ms src e B | None \<Rightarrow> retA B) (\<lambda>B1.
        let n1 = (if res \<noteq> None then n + 1 else n) in
        if res \<noteq> None \<and> the res > src then
          (if anchor then retA (the res, n1, B1) else gsub_loop call bsz w subj p anchor max_s (the res) n1 B1)
        else if src < length subj then
          bindA (luaL_addchar call bsz (subj ! src) B1) (\<lambda>B2.
          if anchor then retA (src + 1, n1, B2) else gsub_loop call bsz w subj p anchor max_s (src + 1) n1 B2)
        else retA (src, n1, B1)))
      else retA (src, n, B))"
  by pat_completeness auto
termination
  by (relation "measure (\<lambda>(call, bsz, w, subj, p, anchor, max_s, src, n, B). length subj + 1 - src)") auto

declare gsub_loop.simps [simp del]

definition str_gsub :: "host \<Rightarrow> nat \<Rightarrow> int api" where
  "str_gsub call bsz =
     bindA (luaL_checklstring 1) (\<lambda>subj. bindA (luaL_checklstring 2) (\<lambda>p0. bindA (lua_type 3) (\<lambda>tr.
     bindA (luaL_optint 4 (int (length subj) + 1)) (\<lambda>max_s.
     let (anchor, p) = anchored p0 in
     bindA (luaL_argcheck (tr = 3 \<or> tr = 4 \<or> tr = 6 \<or> tr = 5) 3 ''string/function/table expected'') (\<lambda>_.
     bindA (where_text 1) (\<lambda>w.
     bindA (gsub_loop call bsz w subj p anchor max_s 0 0 luaL_buffinit) (\<lambda>(src, n, B).
     bindA (luaL_addlstring call bsz (drop src subj) B) (\<lambda>B1.
     bindA (luaL_pushresult call B1) (\<lambda>_.
     bindA (lua_pushinteger n) (\<lambda>_. retA 2))))))))))"

section \<open>Formatting\<close>

definition MAX_ITEM :: nat where "MAX_ITEM = 512"
definition FLAGS :: string where "FLAGS = ''-+ #0''"
definition LUA_INTFRMLEN :: string where "LUA_INTFRMLEN = ''l''"

text \<open>\<^verbatim>\<open>sizeof\<close> counts the zero at the end of a literal.\<close>

definition MAX_FORMAT :: nat where
  "MAX_FORMAT = (length FLAGS + 1) + (length LUA_INTFRMLEN + 1) + 10"

definition quote_char :: "byte \<Rightarrow> string" where
  "quote_char c =
     (if c = CHR 0x22 \<or> c = CHR 0x5C \<or> c = CHR 0x0A then [CHR 0x5C, c]
      else if c = CHR 0x0D then [CHR 0x5C, CHR ''r'']
      else if c = NUL then [CHR 0x5C, CHR ''0'', CHR ''0'', CHR ''0'']
      else [c])"

definition quoted :: "string \<Rightarrow> string" where
  "quoted s = [CHR 0x22] @ concat (map quote_char s) @ [CHR 0x22]"

definition addquoted :: "host \<Rightarrow> nat \<Rightarrow> int \<Rightarrow> luaL_Buffer \<Rightarrow> luaL_Buffer api" where
  "addquoted call bsz arg B = bindA (luaL_checklstring arg) (\<lambda>s.
     luaL_addlstring call bsz (quoted s) B)"

definition skip_digit :: "string \<Rightarrow> string" where
  "skip_digit p = (if isdigit (char2int (peek p)) then drop 1 p else p)"

text \<open>\<^verbatim>\<open>scanformat\<close>: the rest from the conversion character on, and \<^verbatim>\<open>form\<close>.\<close>

definition scanformat :: "string \<Rightarrow> (string \<times> string) api" where
  "scanformat strfrmt =
     (let p1 = dropWhile (\<lambda>c. c \<noteq> NUL \<and> c \<in> set FLAGS) strfrmt in
      if length strfrmt - length p1 \<ge> length FLAGS + 1 then luaL_error ''invalid format (repeated flags)'' []
      else
        let p2 = skip_digit (skip_digit p1);
            p3 = (if peek p2 = CHR ''.'' then skip_digit (skip_digit (drop 1 p2)) else p2) in
        if isdigit (char2int (peek p3)) then luaL_error ''invalid format (width or precision too long)'' []
        else retA (p3, CHR ''%'' # take (length strfrmt - length p3) strfrmt @ [peek p3]))"

definition addintlen :: "string \<Rightarrow> string" where
  "addintlen form = butlast form @ LUA_INTFRMLEN @ [List.last form]"

datatype sprintf_arg = SInt int | SUint int | SDouble lua_Number | SStr string

definition format_item :: "(string \<Rightarrow> sprintf_arg \<Rightarrow> string) \<Rightarrow> string \<Rightarrow> byte \<Rightarrow> int \<Rightarrow> string option api" where
  "format_item sprintf form conv arg =
     (if conv = CHR ''c'' then
        bindA (luaL_checknumber arg) (\<lambda>d. retA (Some (sprintf form (SInt (lua_number2int d)))))
      else if conv = CHR ''d'' \<or> conv = CHR ''i'' then
        bindA (luaL_checknumber arg) (\<lambda>d. retA (Some (sprintf (addintlen form) (SInt (lua_number2integer d)))))
      else if conv \<in> set ''ouxX'' then
        bindA (luaL_checknumber arg) (\<lambda>d. retA (Some (sprintf (addintlen form) (SUint (lua_number2integer d mod 2 ^ 64)))))
      else if conv \<in> set ''eEfgG'' then
        bindA (luaL_checknumber arg) (\<lambda>d. retA (Some (sprintf form (SDouble d))))
      else retA None)"

function format_loop :: "(string \<Rightarrow> sprintf_arg \<Rightarrow> string) \<Rightarrow> host \<Rightarrow> nat \<Rightarrow> int \<Rightarrow> string \<Rightarrow> int \<Rightarrow> luaL_Buffer \<Rightarrow> luaL_Buffer api" where
  "format_loop sprintf call bsz ntop strfrmt arg B =
     (case strfrmt of
        [] \<Rightarrow> retA B
      | c # r \<Rightarrow>
          if c \<noteq> L_ESC then bindA (luaL_addchar call bsz c B) (format_loop sprintf call bsz ntop r arg)
          else if peek r = L_ESC then bindA (luaL_addchar call bsz L_ESC B) (format_loop sprintf call bsz ntop (drop 1 r) arg)
          else if arg + 1 > ntop then luaL_argerror (arg + 1) ''no value''
          else
            bindA (scanformat r) (\<lambda>(p, form).
            let conv = peek p; rest = drop 1 p; a = arg + 1 in
            if length rest > length r then throwA ErrFault
            else if conv = CHR ''q'' then bindA (addquoted call bsz a B) (format_loop sprintf call bsz ntop rest a)
            else if conv = CHR ''s'' then
              bindA (luaL_checklstring a) (\<lambda>s.
              if CHR ''.'' \<notin> set form \<and> length s \<ge> 100 then
                bindA (lua_pushvalue a) (\<lambda>_. bindA (luaL_addvalue call bsz B) (format_loop sprintf call bsz ntop rest a))
              else bindA (luaL_addlstring call bsz (sprintf form (SStr (cstr s))) B) (format_loop sprintf call bsz ntop rest a))
            else
              bindA (format_item sprintf form conv a) (\<lambda>t.
              case t of
                None \<Rightarrow> luaL_error (''invalid option '' @ [CHR 0x27] @ ''%%%c'' @ [CHR 0x27] @ '' to '' @ [CHR 0x27] @ ''format'' @ [CHR 0x27])
                          [FInt (char2int conv)]
              | Some txt \<Rightarrow> bindA (luaL_addlstring call bsz txt B) (format_loop sprintf call bsz ntop rest a))))"
  by pat_completeness auto
termination
  by (relation "measure (\<lambda>(sprintf, call, bsz, ntop, strfrmt, arg, B). length strfrmt)") auto

definition str_format :: "(string \<Rightarrow> sprintf_arg \<Rightarrow> string) \<Rightarrow> host \<Rightarrow> nat \<Rightarrow> int api" where
  "str_format sprintf call bsz = bindA lua_gettop (\<lambda>ntop. bindA (luaL_checklstring 1) (\<lambda>strfrmt.
     bindA (bufferA call (format_loop sprintf call bsz ntop strfrmt 1)) (\<lambda>_. retA 1)))"

definition createmetatable :: "host \<Rightarrow> unit api" where
  "createmetatable call = bindA (lua_createtable 0 1) (\<lambda>_. bindA (lua_pushlstring []) (\<lambda>_.
     bindA (lua_pushvalue (-2)) (\<lambda>_. bindA (lua_setmetatable (-2)) (\<lambda>_. bindA (lua_pop 1) (\<lambda>_.
     bindA (lua_pushvalue (-2)) (\<lambda>_. bindA (lua_setfield call (-2) ''__index'') (\<lambda>_. lua_pop 1)))))))"

end
