(* ===== verification/LuaStrSpec.thy ===== *)
theory LuaStrSpec
  imports LuaStrlib
begin

text \<open>
  What the string library promises: \<open>lmemfind\<close> finds the first occurrence and \<open>find_loop\<close> the
  leftmost match, and the lexical analyser reads the text that \<^verbatim>\<open>%q\<close> writes as the string it
  was written for.
\<close>

section \<open>The first occurrence\<close>

definition occurs_at :: "string \<Rightarrow> string \<Rightarrow> nat \<Rightarrow> bool" where
  "occurs_at s1 s2 k \<longleftrightarrow> take (length s2) (drop k s1) = s2"

lemma occurs_at_Cons: "occurs_at s1 (c # s2) k \<longleftrightarrow> k < length s1 \<and> s1 ! k = c \<and> take (length s2) (drop (k + 1) s1) = s2"
proof (cases "k < length s1")
  case True
  then have "drop k s1 = s1 ! k # drop (k + 1) s1" by (simp add: Cons_nth_drop_Suc)
  with True show ?thesis by (simp add: occurs_at_def)
qed (simp add: occurs_at_def)

definition first_occ :: "string \<Rightarrow> string \<Rightarrow> nat \<Rightarrow> nat option" where
  "first_occ s1 s2 n = List.find (occurs_at s1 s2) [0 ..< n]"

lemma find_upt_None: "List.find P [0 ..< n] = None \<longleftrightarrow> (\<forall>i < n. \<not> P i)"
  by (auto simp: find_None_iff)

lemma find_upt_Some: "List.find P [0 ..< n] = Some k \<longleftrightarrow> k < n \<and> P k \<and> (\<forall>i < k. \<not> P i)"
  by (fastforce simp: find_Some_iff)

text \<open>A search that may skip the first \<open>m\<close> places is one in the rest.\<close>

lemma first_occ_drop:
  assumes "\<forall>i < m. \<not> occurs_at s1 s2 i" "m \<le> n"
  shows "first_occ s1 s2 n = map_option ((+) m) (first_occ (drop m s1) s2 (n - m))"
proof -
  have o: "occurs_at (drop m s1) s2 i = occurs_at s1 s2 (m + i)" for i
    by (simp add: occurs_at_def add.commute)
  show ?thesis
  proof (cases "first_occ (drop m s1) s2 (n - m)")
    case None
    then have "\<forall>i < n - m. \<not> occurs_at s1 s2 (m + i)" by (simp add: first_occ_def find_upt_None o)
    then have "\<not> occurs_at s1 s2 i" if "i < n" for i
      using that assms by (cases "i < m") (auto dest: spec [of _ "i - m"])
    then have "first_occ s1 s2 n = None" by (simp add: first_occ_def find_upt_None)
    with None show ?thesis by simp
  next
    case (Some k)
    then have k: "k < n - m" "occurs_at s1 s2 (m + k)" "\<forall>i < k. \<not> occurs_at s1 s2 (m + i)"
      by (simp_all add: first_occ_def find_upt_Some o)
    have "\<not> occurs_at s1 s2 i" if "i < m + k" for i
      using that assms k(3) by (cases "i < m") (auto dest: spec [of _ "i - m"])
    with k have "first_occ s1 s2 n = Some (m + k)" by (simp add: first_occ_def find_upt_Some)
    with Some show ?thesis by simp
  qed
qed

lemma memfind_loop_first:
  "s2 = c # cs \<Longrightarrow> memfind_loop s1 l1 s2 base = map_option ((+) base) (first_occ s1 s2 l1)"
  if "l1 \<le> length s1"
  using that
proof (induction s1 l1 s2 base rule: memfind_loop.induct)
  case (1 s1 l1 s2 base)
  note s2 = 1(2) and len = 1(3)
  have occ: "occurs_at s1 s2 k \<longleftrightarrow> k < length s1 \<and> s1 ! k = c \<and> take (length cs) (drop (k + 1) s1) = cs" for k
    unfolding s2 by (rule occurs_at_Cons)
  show ?case
  proof (cases "List.find (\<lambda>i. s1 ! i = hd s2) [0 ..< l1]")
    case None
    then have "first_occ s1 s2 l1 = None" using s2 occ by (simp add: first_occ_def find_upt_None)
    then show ?thesis by (subst memfind_loop.simps) (simp add: None)
  next
    case (Some i)
    then have i: "i < l1" "s1 ! i = c" "\<forall>j < i. s1 ! j \<noteq> c" using s2 by (simp_all add: find_upt_Some)
    show ?thesis
    proof (cases "take (length cs) (drop (i + 1) s1) = cs")
      case True
      then have "first_occ s1 s2 l1 = Some i" using i len occ by (simp add: first_occ_def find_upt_Some)
      with True Some i(1) s2 show ?thesis by (subst memfind_loop.simps) simp
    next
      case False
      have "first_occ s1 s2 l1 = map_option ((+) (i + 1)) (first_occ (drop (i + 1) s1) s2 (l1 - (i + 1)))"
        by (rule first_occ_drop) (use i False occ less_Suc_eq in auto)
      moreover have "memfind_loop (drop (i + 1) s1) (l1 - (i + 1)) s2 (base + (i + 1)) =
          map_option ((+) (base + (i + 1))) (first_occ (drop (i + 1) s1) s2 (l1 - (i + 1)))"
        by (rule 1(1)) (use i False Some s2 len in auto)
      ultimately show ?thesis using False Some i(1) s2
        by (subst memfind_loop.simps)
          (cases "first_occ (drop (i + 1) s1) s2 (l1 - (i + 1))"; simp)
    qed
  qed
qed

text \<open>
  \<open>lmemfind\<close>, which looks for the first byte with \<^verbatim>\<open>memchr\<close> and compares the rest from
  there, returns the first place where the pattern occurs, and nothing exactly when there is
  none.
\<close>

theorem lmemfind_first:
  "lmemfind s1 s2 = List.find (occurs_at s1 s2) [0 ..< length s1 + 1]"
proof (cases s2)
  case Nil
  have "[0 ..< length s1 + 1] = 0 # [1 ..< length s1 + 1]" using upt_conv_Cons [of 0 "length s1 + 1"] by simp
  with Nil show ?thesis by (simp add: lmemfind_def occurs_at_def del: upt_Suc)
next
  case (Cons c cs)
  have short: "\<not> occurs_at s1 s2 k" if "k + length s2 > length s1" for k
  proof
    assume "occurs_at s1 s2 k"
    then have "length s2 \<le> length s1 - k" unfolding occurs_at_def by (metis length_drop length_take min.cobounded1 min.commute)
    with that Cons show False by simp
  qed
  show ?thesis
  proof (cases "length s2 > length s1")
    case True
    then have "List.find (occurs_at s1 s2) [0 ..< length s1 + 1] = None"
      using short unfolding find_upt_None by simp
    with True Cons show ?thesis by (simp add: lmemfind_def)
  next
    case False
    let ?m = "length s1 - (length s2 - 1)"
    have "List.find (occurs_at s1 s2) [0 ..< length s1 + 1] = first_occ s1 s2 ?m"
    proof (cases "first_occ s1 s2 ?m")
      case None
      then have "\<not> occurs_at s1 s2 k" if "k < length s1 + 1" for k
        using short [of k] that Cons False by (cases "k < ?m") (auto simp: first_occ_def find_upt_None)
      with None show ?thesis by (simp add: find_upt_None del: upt_Suc)
    next
      case (Some k)
      then have "List.find (occurs_at s1 s2) [0 ..< length s1 + 1] = Some k"
        unfolding first_occ_def find_upt_Some by auto
      with Some show ?thesis by simp
    qed
    moreover have "lmemfind s1 s2 = first_occ s1 s2 ?m"
      using False Cons memfind_loop_first [of ?m s1 s2 c cs 0] by (simp add: lmemfind_def option.map_ident_strong)
    ultimately show ?thesis by simp
  qed
qed

section \<open>Quoted strings\<close>

text \<open>The analyser about to read \<open>xs\<close>, with \<open>b\<close> in its buffer and on line \<open>l\<close>.\<close>

definition facing :: "lexstate \<Rightarrow> string \<Rightarrow> string \<Rightarrow> int \<Rightarrow> bool" where
  "facing ls xs b l \<longleftrightarrow>
     ls_buff ls = b \<and> ls_linenumber ls = l \<and> 0 < ls_buffsize ls \<and> int (length b) \<le> ls_buffsize ls
     \<and> (case xs of [] \<Rightarrow> ls_current ls = EOZ
        | c # cs \<Rightarrow> ls_current ls = char2int c \<and> zio_ok (ls_z ls) \<and> zrest (ls_z ls) = cs)"

lemma facing_current: "facing ls (c # xs) b l \<Longrightarrow> ls_current ls = char2int c"
  by (simp add: facing_def)

lemma lex_next_facing:
  assumes "facing ls (c # xs) b l"
  obtains ls' where "lex_next ls = Inr ls'" "facing ls' xs b l"
proof (cases xs)
  case Nil
  with assms obtain z' where "zgetc (ls_z ls) = Inr (EOZ, z')" by (auto simp: facing_def elim: zgetc_Nil)
  with assms Nil show ?thesis by (intro that) (auto simp: lex_next_def facing_def)
next
  case (Cons d ds)
  with assms have "zio_ok (ls_z ls)" "zrest (ls_z ls) = d # ds" by (simp_all add: facing_def)
  then obtain z' where "zgetc (ls_z ls) = Inr (char2int d, z')" "zio_ok z'" "zrest z' = ds" by (rule zgetc_Cons)
  with assms Cons show ?thesis by (intro that) (auto simp: lex_next_def facing_def)
qed

definition fits :: "string \<Rightarrow> bool" where
  "fits b \<longleftrightarrow> int (length b) + 1 < MAX_SIZET div 2"

lemma save_facing:
  assumes "facing ls xs b l" "fits b"
  obtains ls' where "save ls c = Inr ls'" "facing ls' xs (b @ [int2char c]) l"
proof -
  let ?n = "int (length b)"
  have b: "ls_buff ls = b" "0 < ls_buffsize ls" "?n \<le> ls_buffsize ls" using assms(1) by (simp_all add: facing_def)
  have "\<exists>m. save ls c = Inr (ls\<lparr>ls_buff := b @ [int2char c], ls_buffsize := m\<rparr>) \<and> 0 < m \<and> ?n + 1 \<le> m"
  proof (cases "?n + 1 > ls_buffsize ls")
    case True
    with b assms(2) show ?thesis
      by (intro exI [of _ "ls_buffsize ls * 2"]) (simp add: save_def Let_def fits_def Suc_le_eq)
  next
    case False
    with b show ?thesis by (intro exI [of _ "ls_buffsize ls"]) (simp add: save_def Let_def)
  qed
  then obtain m where "save ls c = Inr (ls\<lparr>ls_buff := b @ [int2char c], ls_buffsize := m\<rparr>)" "0 < m" "?n + 1 \<le> m" by blast
  with assms(1) show ?thesis by (intro that) (auto simp: facing_def split: list.splits)
qed

lemma save_and_next_facing:
  assumes "facing ls (c # xs) b l" "fits b"
  obtains ls' where "save_and_next ls = Inr ls'" "facing ls' xs (b @ [c]) l"
proof -
  obtain ls1 where "save ls (char2int c) = Inr ls1" "facing ls1 (c # xs) (b @ [c]) l"
    using save_facing [OF assms, of "char2int c"] by auto
  then show ?thesis using facing_current [OF assms(1)] that
    by (auto simp: save_and_next_def elim: lex_next_facing)
qed

text \<open>A line break before a character that is not part of one.\<close>

lemma inclinenumber_facing:
  assumes "facing ls (c # d # xs) b l" "d \<noteq> CHR 0x0A" "d \<noteq> CHR 0x0D" "l + 1 < MAX_INT"
  obtains ls' where "inclinenumber ls = Inr ls'" "facing ls' (d # xs) b (l + 1)"
proof -
  obtain ls1 where n: "lex_next ls = Inr ls1" "facing ls1 (d # xs) b l" by (rule lex_next_facing [OF assms(1)])
  have "char2int (CHR 0x0A) = 10" "char2int (CHR 0x0D) = 13" by code_simp+
  then have "\<not> currIsNewline ls1"
    using n(2) assms(2,3) by (metis currIsNewline_def facing_current char2int_inject)
  with n assms(4) show ?thesis
    by (intro that [of "ls1\<lparr>ls_linenumber := ls_linenumber ls1 + 1\<rparr>"])
      (auto simp: inclinenumber_def facing_def Let_def)
qed

lemma quote_head: "\<exists>d xs. concat (map quote_char s) @ CHR 0x22 # rest = d # xs \<and> d \<noteq> CHR 0x0A \<and> d \<noteq> CHR 0x0D"
  by (cases s) (auto simp: quote_char_def)

text \<open>One character of the string, in whichever way it is written.\<close>

lemma read_quote_char:
  assumes "facing ls (quote_char c @ d # xs) b l" "d \<noteq> CHR 0x0A" "d \<noteq> CHR 0x0D" "fits b" "l + 1 < MAX_INT"
  obtains ls' l' where "read_string_loop ls 34 = read_string_loop ls' 34" "facing ls' (d # xs) (b @ [c]) l'"
    "l \<le> l'" "l' \<le> l + 1"
proof -
  note result = that
  have codes: "char2int (CHR 0x22) = 34" "char2int (CHR 0x5C) = 92" "char2int (CHR 0x0A) = 10"
    "char2int (CHR 0x0D) = 13" "char2int (CHR ''r'') = 114" "char2int (CHR ''0'') = 48" "char2int NUL = 0"
    by code_simp+
  have code: "char2int c = 34 \<longleftrightarrow> c = CHR 0x22" "char2int c = 92 \<longleftrightarrow> c = CHR 0x5C" "char2int c = 10 \<longleftrightarrow> c = CHR 0x0A"
    "char2int c = 13 \<longleftrightarrow> c = CHR 0x0D" "int2char 10 = CHR 0x0A" "int2char 13 = CHR 0x0D" "int2char 0 = NUL"
    unfolding codes [symmetric] by (simp_all only: char2int_inject int2char_char2int)
  have nul: "NUL \<noteq> CHR 0x22" "NUL \<noteq> CHR 0x5C" "NUL \<noteq> CHR 0x0A" "NUL \<noteq> CHR 0x0D" by code_simp+
  have escaped: thesis
    if q: "quote_char c = CHR 0x5C # e" 
      and e: "\<And>ls1. facing ls1 (e @ d # xs) b l \<Longrightarrow>
            \<exists>ls2 l'. read_escape ls1 = Inr ls2 \<and> facing ls2 (d # xs) (b @ [c]) l' \<and> l \<le> l' \<and> l' \<le> l + 1" for e
  proof -
    have f: "facing ls (CHR 0x5C # e @ d # xs) b l" using assms(1) q by simp
    then obtain ls1 where n: "lex_next ls = Inr ls1" "facing ls1 (e @ d # xs) b l" by (rule lex_next_facing)
    then obtain ls2 l' where r: "read_escape ls1 = Inr ls2" "facing ls2 (d # xs) (b @ [c]) l'" "l \<le> l'" "l' \<le> l + 1"
      using e by blast
    have "ls_current ls = 92" using facing_current [OF f] codes by simp
    with n r have "read_string_loop ls 34 = read_string_loop ls2 34"
      by (subst read_string_loop.simps) (simp add: EOZ_def currIsNewline_def)
    with r show thesis by (intro result)
  qed
  consider "c = CHR 0x22 \<or> c = CHR 0x5C" | "c = CHR 0x0A" | "c = CHR 0x0D" | "c = NUL"
    | "c \<noteq> CHR 0x22" "c \<noteq> CHR 0x5C" "c \<noteq> CHR 0x0A" "c \<noteq> CHR 0x0D" "c \<noteq> NUL" by blast
  then show thesis
  proof cases
    case 1
    show ?thesis
    proof (rule escaped [of "[c]"])
      fix ls1 assume f: "facing ls1 ([c] @ d # xs) b l"
      have "ls_current ls1 = 34 \<or> ls_current ls1 = 92" using facing_current [of ls1 c] f 1 codes by auto
      moreover obtain ls2 where "save_and_next ls1 = Inr ls2" "facing ls2 (d # xs) (b @ [c]) l"
        using f assms(4) by (auto elim: save_and_next_facing)
      ultimately show "\<exists>ls2 l'. read_escape ls1 = Inr ls2 \<and> facing ls2 (d # xs) (b @ [c]) l' \<and> l \<le> l' \<and> l' \<le> l + 1"
        by (auto simp: read_escape_def simple_escape_def currIsNewline_def EOZ_def isdigit_def)
    qed (use 1 nul nul [symmetric] in \<open>auto simp: quote_char_def\<close>)
  next
    case 2
    show ?thesis
    proof (rule escaped [of "[c]"])
      fix ls1 assume f: "facing ls1 ([c] @ d # xs) b l"
      then have cur: "ls_current ls1 = 10" using facing_current [of ls1 c] 2 codes by auto
      obtain ls2 where s: "save ls1 10 = Inr ls2" "facing ls2 (c # d # xs) (b @ [c]) l"
        using save_facing [OF f assms(4), of 10] 2 code by auto
      obtain ls3 where "inclinenumber ls2 = Inr ls3" "facing ls3 (d # xs) (b @ [c]) (l + 1)"
        using inclinenumber_facing [OF s(2) assms(2,3,5)] by auto
      with s cur show "\<exists>ls2 l'. read_escape ls1 = Inr ls2 \<and> facing ls2 (d # xs) (b @ [c]) l' \<and> l \<le> l' \<and> l' \<le> l + 1"
        by (auto simp: read_escape_def simple_escape_def currIsNewline_def)
    qed (use 2 in \<open>auto simp: quote_char_def\<close>)
  next
    case 3
    show ?thesis
    proof (rule escaped [of "''r''"])
      fix ls1 assume f: "facing ls1 (''r'' @ d # xs) b l"
      then have cur: "ls_current ls1 = 114" using facing_current [of ls1 "CHR ''r''"] codes by auto
      obtain ls2 where s: "save ls1 13 = Inr ls2" "facing ls2 (CHR ''r'' # d # xs) (b @ [c]) l"
        using save_facing [OF f assms(4), of 13] 3 code by auto
      obtain ls3 where "lex_next ls2 = Inr ls3" "facing ls3 (d # xs) (b @ [c]) l" by (rule lex_next_facing [OF s(2)])
      with s cur show "\<exists>ls2 l'. read_escape ls1 = Inr ls2 \<and> facing ls2 (d # xs) (b @ [c]) l' \<and> l \<le> l' \<and> l' \<le> l + 1"
        by (auto simp: read_escape_def simple_escape_def)
    qed (use 3 in \<open>auto simp: quote_char_def\<close>)
  next
    case 4
    show ?thesis
    proof (rule escaped [of "''000''"])
      fix ls1 assume f: "facing ls1 (''000'' @ d # xs) b l"
      then have f1: "facing ls1 (CHR ''0'' # CHR ''0'' # CHR ''0'' # d # xs) b l" by simp
      obtain ls2 where n2: "lex_next ls1 = Inr ls2" and f2: "facing ls2 (CHR ''0'' # CHR ''0'' # d # xs) b l"
        by (rule lex_next_facing [OF f1])
      obtain ls3 where n3: "lex_next ls2 = Inr ls3" and f3: "facing ls3 (CHR ''0'' # d # xs) b l"
        by (rule lex_next_facing [OF f2])
      obtain ls4 where n4: "lex_next ls3 = Inr ls4" and f4: "facing ls4 (d # xs) b l" by (rule lex_next_facing [OF f3])
      have cur: "ls_current ls1 = 48" "ls_current ls2 = 48" "ls_current ls3 = 48"
        using facing_current [OF f1] facing_current [OF f2] facing_current [OF f3] codes by simp_all
      have dec: "read_decesc 3 ls1 0 = Inr (0, ls4)"
        using n2 n3 n4 cur by (simp add: numeral_3_eq_3 isdigit_def)
      obtain ls5 where "save ls4 0 = Inr ls5" "facing ls5 (d # xs) (b @ [c]) l"
        using save_facing [OF f4 assms(4), of 0] 4 code by auto
      with dec cur show "\<exists>ls2 l'. read_escape ls1 = Inr ls2 \<and> facing ls2 (d # xs) (b @ [c]) l' \<and> l \<le> l' \<and> l' \<le> l + 1"
        by (auto simp: read_escape_def simple_escape_def currIsNewline_def EOZ_def isdigit_def)
    qed (use 4 nul nul [symmetric] in \<open>auto simp: quote_char_def\<close>)
  next
    case 5
    then have f: "facing ls (c # d # xs) b l" using assms(1) by (simp add: quote_char_def)
    obtain ls' where "save_and_next ls = Inr ls'" "facing ls' (d # xs) (b @ [c]) l"
      using save_and_next_facing [OF f assms(4)] by blast
    moreover from this have "read_string_loop ls 34 = read_string_loop ls' 34"
      using facing_current [OF f] 5 code
      by (subst read_string_loop.simps) (simp add: currIsNewline_def)
    ultimately show ?thesis by (intro result [of ls' l]) auto
  qed
qed

text \<open>All of them, up to the closing quote.\<close>

lemma read_quoted:
  assumes "facing ls (concat (map quote_char s) @ CHR 0x22 # rest) b l"
    "int (length b + length s) < MAX_SIZET div 2" "l + int (length s) < MAX_INT"
  obtains ls' l' where "read_string_loop ls 34 = Inr ls'" "facing ls' (CHR 0x22 # rest) (b @ s) l'"
    "l' \<le> l + int (length s)"
  using assms
proof (induction s arbitrary: ls b l thesis)
  case Nil
  have "char2int (CHR 0x22) = 34" by code_simp
  with facing_current [of ls "CHR 0x22" rest] Nil(2) have "ls_current ls = 34" by simp
  then have "read_string_loop ls 34 = Inr ls" by (subst read_string_loop.simps) simp
  with Nil show ?case by simp
next
  case (Cons c s)
  obtain d xs where d: "concat (map quote_char s) @ CHR 0x22 # rest = d # xs" "d \<noteq> CHR 0x0A" "d \<noteq> CHR 0x0D"
    using quote_head by blast
  have f: "facing ls (quote_char c @ d # xs) b l" using Cons.prems(2) d(1) by simp
  have "fits b" "l + 1 < MAX_INT" using Cons.prems(3,4) by (simp_all add: fits_def)
  then obtain ls1 l1 where s1: "read_string_loop ls 34 = read_string_loop ls1 34" "facing ls1 (d # xs) (b @ [c]) l1"
    "l \<le> l1" "l1 \<le> l + 1"
    by (rule read_quote_char [OF f d(2,3)])
  have "facing ls1 (concat (map quote_char s) @ CHR 0x22 # rest) (b @ [c]) l1" using s1(2) d(1) by simp
  then obtain ls2 l2 where "read_string_loop ls1 34 = Inr ls2" "facing ls2 (CHR 0x22 # rest) ((b @ [c]) @ s) l2"
      "l2 \<le> l1 + int (length s)"
    using Cons.prems(3,4) s1(4) by (rule_tac Cons.IH) auto
  with s1 show ?case by (intro Cons.prems(1)) auto
qed

text \<open>
  C26.  What \<^verbatim>\<open>%q\<close> writes (\<open>quoted s\<close>) is read back by the lexical analyser as the string
  itself, whatever bytes it holds (quotes, backslashes, line breaks and zeros included) and
  whatever follows, as long as the chunk's lines and the buffer stay within their limits; the
  analyser goes on right behind it.
\<close>

theorem quoted_reads_back:
  assumes "facing ls (quoted s @ rest) [] l"
    "int (length s) + 3 < MAX_SIZET div 2" "l + int (length s) < MAX_INT"
  shows "\<exists>ls' b l'. read_string ls 34 = Inr (SemStr s, ls') \<and> facing ls' rest b l'"
proof -
  have q: "facing ls (CHR 0x22 # concat (map quote_char s) @ CHR 0x22 # rest) [] l"
    using assms(1) by (simp add: quoted_def)
  have "fits []" using assms(2) by (simp add: fits_def)
  then obtain ls1 where r1: "save_and_next ls = Inr ls1" "facing ls1 (concat (map quote_char s) @ CHR 0x22 # rest) [CHR 0x22] l"
    using save_and_next_facing [OF q] by auto
  obtain ls2 l2 where r2: "read_string_loop ls1 34 = Inr ls2" "facing ls2 (CHR 0x22 # rest) ([CHR 0x22] @ s) l2"
    by (rule read_quoted [OF r1(2)]) (use assms(2,3) in auto)
  have "fits ([CHR 0x22] @ s)" using assms(2) by (simp add: fits_def)
  then obtain ls3 where r3: "save_and_next ls2 = Inr ls3" "facing ls3 rest (([CHR 0x22] @ s) @ [CHR 0x22]) l2"
    by (rule save_and_next_facing [OF r2(2)])
  then have b: "ls_buff ls3 = CHR 0x22 # s @ [CHR 0x22]" by (simp add: facing_def)
  have "read_string ls 34 = Inr (SemStr s, luaX_newstring ls3 s)"
    using r1 r2 r3 b by (simp add: read_string_def Let_def)
  moreover have "facing (luaX_newstring ls3 s) rest (CHR 0x22 # s @ [CHR 0x22]) l2"
    using r3 by (simp add: facing_def luaX_newstring_def split: list.splits)
  ultimately show ?thesis by blast
qed

text \<open>The text of \<open>string.format("%q", "\n\r\0001\"")\<close>, followed by \<open> x\<close>.\<close>

definition quoted_sample :: string where
  "quoted_sample = [CHR 0x0A, CHR 0x0D, NUL, CHR ''1'', CHR 0x22]"

theorem quoted_reads_back_witness:
  "\<exists>ls. luaX_setinput CHR ''.'' \<lparr>tok_token = 0, tok_seminfo = SemNone\<rparr> (luaZ_init [quoted quoted_sample @ '' x'']) ''=q'' = Inr ls
     \<and> (\<exists>ls' b l'. read_string ls 34 = Inr (SemStr quoted_sample, ls') \<and> facing ls' '' x'' b l')"
proof -
  let ?z = "luaZ_init [quoted quoted_sample @ '' x'']"
  have q: "quoted quoted_sample @ '' x'' = CHR 0x22 # tl (quoted quoted_sample @ '' x'')" by (simp add: quoted_def)
  obtain z' where z: "zgetc ?z = Inr (char2int CHR 0x22, z')" "zio_ok z'" "zrest z' = tl (quoted quoted_sample @ '' x'')"
    by (rule zgetc_Cons [of ?z "CHR 0x22" "tl (quoted quoted_sample @ '' x'')"]) (use q in auto)
  let ?init = "\<lparr>ls_current = 0, ls_linenumber = 1, ls_lastline = 1, ls_t = \<lparr>tok_token = 0, tok_seminfo = SemNone\<rparr>,
        ls_lookahead = \<lparr>tok_token = TK_EOS, tok_seminfo = SemNone\<rparr>, ls_z = ?z,
        ls_buff = [], ls_buffsize = LUA_MINBUFFER, ls_source = ''=q'',
        ls_decpoint = CHR ''.'', ls_strings = [], ls_locale = CHR ''.''\<rparr>"
  let ?ls = "?init\<lparr>ls_current := char2int CHR 0x22, ls_z := z'\<rparr>"
  have "facing ?ls (quoted quoted_sample @ '' x'') [] 1"
    using z by (subst q) (simp add: facing_def LUA_MINBUFFER_def)
  moreover have "int (length quoted_sample) + 3 < MAX_SIZET div 2" "1 + int (length quoted_sample) < MAX_INT" by code_simp+
  ultimately have "\<exists>ls' b l'. read_string ?ls 34 = Inr (SemStr quoted_sample, ls') \<and> facing ls' '' x'' b l'"
    by (rule quoted_reads_back)
  moreover have "luaX_setinput CHR ''.'' \<lparr>tok_token = 0, tok_seminfo = SemNone\<rparr> ?z ''=q'' = Inr ?ls"
    using z(1) by (simp add: luaX_setinput_def lex_next_def)
  ultimately show ?thesis by blast
qed

section \<open>The leftmost match\<close>

text \<open>
  The search loop of \<^verbatim>\<open>str_find_aux\<close> and \<^verbatim>\<open>gmatch_aux\<close> returns the leftmost match: the
  pattern does not match at any position between the start and the one returned, it does
  match there, and a result without a match has tried every position up to and including the
  end of the subject.  An anchored pattern is tried at the start only.
\<close>

theorem find_loop_leftmost:
  assumes "find_loop w src p anchor s1 = Inr r" "s1 \<le> length src"
  shows "case r of
      Some (k, e, ms) \<Rightarrow> s1 \<le> k \<and> k \<le> length src \<and> (anchor \<longrightarrow> k = s1)
        \<and> do_match (match_start w src) k p = Inr (Some e, ms)
        \<and> (\<forall>j. s1 \<le> j \<and> j < k \<longrightarrow> (\<exists>ms'. do_match (match_start w src) j p = Inr (None, ms')))
    | None \<Rightarrow> \<forall>j. s1 \<le> j \<and> j \<le> (if anchor then s1 else length src) \<longrightarrow>
        (\<exists>ms'. do_match (match_start w src) j p = Inr (None, ms'))"
  using assms
proof (induction w src p anchor s1 rule: find_loop.induct)
  case (1 w src p anchor s1)
  obtain res ms where m: "do_match (match_start w src) s1 p = Inr (res, ms)"
    using 1(2) by (subst (asm) find_loop.simps) (auto simp: bindE_simps)
  show ?case
  proof (cases res)
    case (Some e)
    with m 1(2,3) show ?thesis by (subst (asm) find_loop.simps) auto
  next
    case None
    show ?thesis
    proof (cases "s1 < length src \<and> \<not> anchor")
      case False
      then have "r = None" using 1(2) m None by (subst (asm) find_loop.simps) (auto split: if_splits)
      moreover have "\<exists>ms'. do_match (match_start w src) j p = Inr (None, ms')"
        if "s1 \<le> j" "j \<le> (if anchor then s1 else length src)" for j
      proof -
        have "j = s1" using that False 1(3) by (auto split: if_splits)
        with m None show ?thesis by simp
      qed
      ultimately show ?thesis by simp
    next
      case True
      have "find_loop w src p anchor (s1 + 1) = Inr r" using 1(2) m None True by (subst (asm) find_loop.simps) simp
      note IH = 1(1) [OF m refl None True this]
      have at: "\<exists>ms'. do_match (match_start w src) j p = Inr (None, ms')" if "j = s1" for j using m None that by simp
      show ?thesis
      proof (cases r)
        case rNone: None
        with IH True at show ?thesis by (auto simp: Suc_le_eq) (metis le_neq_implies_less)
      next
        case (Some t)
        obtain k e ms1 where "t = (k, e, ms1)" by (cases t)
        with Some IH True at show ?thesis by (auto simp: Suc_le_eq) (metis le_neq_implies_less)
      qed
    qed
  qed
qed

theorem find_loop_leftmost_witness:
  "\<exists>e ms. find_loop [] ''aab'' ''b'' False 0 = Inr (Some (2, e, ms))
     \<and> do_match (match_start [] ''aab'') 2 ''b'' = Inr (Some e, ms)"
proof -
  have f: "find_loop [] ''aab'' ''b'' False 0 = Inr (Some (2, 3, match_start [] ''aab''))" by code_simp
  with find_loop_leftmost [OF f] show ?thesis by auto
qed

end
