(* ===== verification/LuaUpval.thy ===== *)
theory LuaUpval
  imports LuaExec
begin

text \<open>
  Upvalues are variables: \<^verbatim>\<open>luaF_findupval\<close> gives one upvalue for each slot of the stack,
  assignments through an upvalue change that variable only, and \<^verbatim>\<open>luaF_close\<close> moves
  variables off the stack without changing any.
\<close>

section \<open>The list of open upvalues\<close>

definition descending :: "(nat \<times> nat) list \<Rightarrow> bool" where
  "descending pp \<longleftrightarrow> sorted_wrt (\<lambda>x y. fst y < fst x) pp"

definition open_wf :: "store \<Rightarrow> bool" where
  "open_wf S \<longleftrightarrow>
     descending (s_openupval S) \<and> distinct (map snd (s_openupval S)) \<and>
     (\<forall>(l, u) \<in> set (s_openupval S). l < length (s_stack S) \<and> u < s_next S)"

text \<open>The variable an upvalue stands for: a slot of the stack while it is open, its own value when closed.\<close>

definition cell_of :: "store \<Rightarrow> nat \<Rightarrow> tvalue" where
  "cell_of S u = (case open_level (s_openupval S) u of Some l \<Rightarrow> s_stack S ! l | None \<Rightarrow> s_upvals S u)"

lemma descending_Cons: "descending ((l, u) # pp) \<longleftrightarrow> (\<forall>(l', u') \<in> set pp. l' < l) \<and> descending pp"
  by (auto simp: descending_def)

lemma option_eqI: "(\<And>l. x = Some l \<longleftrightarrow> y = Some l) \<Longrightarrow> x = y"
  by (cases x; cases y) blast+

lemma open_level_Cons: "open_level ((l, u) # pp) v = (if v = u then Some l else open_level pp v)"
  by (simp add: open_level_def)

lemma open_level_Nil [simp]: "open_level [] v = None"
  by (simp add: open_level_def)

lemma open_level_iff:
  "distinct (map snd pp) \<Longrightarrow> open_level pp u = Some l \<longleftrightarrow> (l, u) \<in> set pp"
proof -
  assume "distinct (map snd pp)"
  then have "distinct (map fst (map (\<lambda>(v, p). (p, v)) pp))" by (simp add: comp_def case_prod_beta)
  then show ?thesis by (auto simp: open_level_def)
qed

lemma open_level_None: "open_level pp u = None \<longleftrightarrow> u \<notin> snd ` set pp"
  by (force simp: open_level_def map_of_eq_None_iff)

lemma descending_level_unique:
  "descending pp \<Longrightarrow> (l, u) \<in> set pp \<Longrightarrow> (l, u') \<in> set pp \<Longrightarrow> u = u'"
  by (induction pp) (auto simp: descending_def)

lemma findupval_loop_spec:
  assumes "descending pp" "findupval_loop pp level new = (r, qq)"
  shows "case r of Some u \<Rightarrow> (level, u) \<in> set pp
     | None \<Rightarrow> descending qq \<and> set qq = insert (level, new) (set pp) \<and> level \<notin> fst ` set pp \<and> length qq = Suc (length pp)"
  using assms
proof (induction pp arbitrary: r qq)
  case Nil
  then show ?case by (auto simp: descending_def)
next
  case (Cons x pp)
  obtain l u where x: "x = (l, u)" by (cases x)
  consider "level = l" | "level < l" | "l < level" by linarith
  then show ?case
  proof cases
    case 2
    obtain r0 qq0 where rec: "findupval_loop pp level new = (r0, qq0)" by fastforce
    have d: "descending pp" "\<forall>(l', u') \<in> set pp. l' < l" using Cons.prems(1) x by (auto simp: descending_Cons)
    have eq: "r = r0" "qq = (l, u) # qq0" using Cons.prems(2) x 2 rec by auto
    from Cons.IH [OF d(1) rec] eq 2 d(2) x show ?thesis by (auto simp: descending_Cons split: option.splits)
  qed (use Cons.prems x in \<open>fastforce simp: descending_Cons split: option.splits\<close>)+
qed

lemma findupval_loop_head:
  assumes "descending pp" "(level, u) \<in> set pp"
  shows "findupval_loop pp level new = (Some u, pp)"
proof -
  obtain r qq where f: "findupval_loop pp level new = (r, qq)" by fastforce
  have "qq = pp" if "r \<noteq> None" using f that
    by (induction pp level new arbitrary: r qq rule: findupval_loop.induct) (force split: if_splits prod.splits)+
  moreover have "r = Some u"
  proof (cases r)
    case None
    then show ?thesis using findupval_loop_spec [OF assms(1) f] assms(2) by force
  next
    case (Some u')
    then have "(level, u') \<in> set pp" using findupval_loop_spec [OF assms(1) f] by simp
    then show ?thesis using Some descending_level_unique [OF assms] by blast
  qed
  ultimately show ?thesis using f by simp
qed

lemma distinct_snd_insert:
  assumes "distinct (map snd pp)" "set qq = insert (l, u) (set pp)" "u \<notin> snd ` set pp" "length qq = Suc (length pp)"
  shows "distinct (map snd qq)"
proof (rule card_distinct)
  have "set (map snd qq) = insert u (set (map snd pp))" using assms(2) by auto
  then show "card (set (map snd qq)) = length (map snd qq)"
    using assms(1,3,4) by (simp add: distinct_card [OF assms(1), simplified])
qed

text \<open>
  C36. One variable, one upvalue: asking for the upvalue of a slot again gives the same one, it
  reads the slot, no other upvalue has that slot, and the variables of all other upvalues are
  what they were.
\<close>

theorem findupval_shares:
  assumes "open_wf S" "level < length (s_stack S)"
  shows "\<exists>u S'. luaF_findupval level S = Inr (u, S') \<and> open_wf S' \<and> luaF_findupval level S' = Inr (u, S')
     \<and> upval_get u S' = Inr (s_stack S ! level, S')
     \<and> (\<forall>u'. open_level (s_openupval S') u' = Some level \<longleftrightarrow> u' = u)
     \<and> (\<forall>u' < s_next S. cell_of S' u' = cell_of S u')"
proof -
  let ?pp = "s_openupval S" and ?new = "s_next S"
  have wf: "descending ?pp" "distinct (map snd ?pp)"
    and bound: "\<And>l u. (l, u) \<in> set ?pp \<Longrightarrow> l < length (s_stack S) \<and> u < ?new"
    using assms(1) by (auto simp: open_wf_def)
  obtain r qq where f: "findupval_loop ?pp level ?new = (r, qq)" by fastforce
  show ?thesis
  proof (cases r)
    case (Some u)
    then have u: "(level, u) \<in> set ?pp" using findupval_loop_spec [OF wf(1) f] by simp
    have find: "luaF_findupval level S = Inr (u, S)" using f Some by (simp add: luaF_findupval_def)
    have "open_level ?pp u' = Some level \<longleftrightarrow> u' = u" for u'
      unfolding open_level_iff [OF wf(2)] using u descending_level_unique [OF wf(1) u] by blast
    moreover from this have lev: "open_level ?pp u = Some level" by blast
    have "upval_get u S = Inr (s_stack S ! level, S)" using assms(2) by (simp add: upval_get_def lev getslot_def)
    ultimately show ?thesis using assms find by (intro exI [of _ u] exI [of _ S]) simp
  next
    case None
    let ?S = "S\<lparr>s_openupval := qq, s_next := ?new + 1\<rparr>"
    have q: "descending qq" "set qq = insert (level, ?new) (set ?pp)" "level \<notin> fst ` set ?pp" "length qq = Suc (length ?pp)"
      using findupval_loop_spec [OF wf(1) f] None by auto
    have fresh: "?new \<notin> snd ` set ?pp" using bound by fastforce
    have dq: "distinct (map snd qq)" by (rule distinct_snd_insert [OF wf(2) q(2) fresh q(4)])
    have find: "luaF_findupval level S = Inr (?new, ?S)" using f None by (simp add: luaF_findupval_def)
    have wfS: "open_wf ?S" using q dq bound assms(2) by (auto simp: open_wf_def intro: less_SucI)
    have lev: "open_level qq u' = Some l \<longleftrightarrow> (u' = ?new \<and> l = level) \<or> open_level ?pp u' = Some l" for u' l
      using q(2) by (auto simp: open_level_iff [OF dq] open_level_iff [OF wf(2)])
    have self: "open_level qq u' = Some level \<longleftrightarrow> u' = ?new" for u'
    proof -
      have "open_level ?pp u' \<noteq> Some level" using q(3) by (force simp: open_level_iff [OF wf(2)])
      then show ?thesis using lev [of u' level] by blast
    qed
    have "cell_of ?S u' = cell_of S u'" if "u' < ?new" for u'
    proof -
      have "open_level qq u' = open_level ?pp u'" using that by (intro option_eqI) (simp add: lev)
      then show ?thesis by (simp add: cell_of_def split: option.split)
    qed
    moreover have "luaF_findupval level ?S = Inr (?new, ?S)"
      using findupval_loop_head [OF q(1), of level ?new] q(2) by (simp add: luaF_findupval_def)
    moreover have "upval_get ?new ?S = Inr (s_stack S ! level, ?S)"
    proof -
      have "open_level qq ?new = Some level" using self by blast
      then show ?thesis using assms(2) by (simp add: upval_get_def getslot_def)
    qed
    ultimately show ?thesis using find wfS self
      by (intro exI [of _ ?new] exI [of _ ?S]) simp
  qed
qed

text \<open>A small stack with two open upvalues for the examples.\<close>

definition open_sample :: store where
  "open_sample = \<lparr>s_tables = Map.empty, s_udatas = Map.empty, s_closures = Map.empty, s_upvals = (\<lambda>_. TNil),
     s_mt = (\<lambda>_. None), s_registry = TNil, s_gt = TNil, s_next = 9, s_decpoint = CHR ''.'',
     s_stack = [TNil, TBoolean True, TBoolean False, TNil], s_top = 4, s_ci = [], s_size_ci = 8,
     s_openupval = [(2, 7), (1, 5)], s_nCcalls = 0\<rparr>"

lemma open_sample_wf: "open_wf open_sample"
  by (simp add: open_wf_def open_sample_def descending_def)

lemma findupval_shares_witness:
  "\<exists>u S'. luaF_findupval 0 open_sample = Inr (u, S') \<and> luaF_findupval 0 S' = Inr (u, S') \<and> cell_of S' 5 = TBoolean True"
proof -
  have "0 < length (s_stack open_sample)" "5 < s_next open_sample" "cell_of open_sample 5 = TBoolean True"
    by (simp_all add: open_sample_def cell_of_def open_level_def)
  with findupval_shares [OF open_sample_wf, of 0] show ?thesis by metis
qed

section \<open>Closing\<close>

lemma close_loop_spec:
  assumes "descending pp" "\<forall>(l, u) \<in> set pp. l < length (s_stack S)" "distinct (map snd pp)"
  shows "close_loop pp level S =
    Inr ((), S\<lparr>s_upvals := (\<lambda>u. case open_level pp u of Some l \<Rightarrow> if level \<le> l then s_stack S ! l else s_upvals S u | None \<Rightarrow> s_upvals S u),
               s_openupval := filter (\<lambda>(l, u). l < level) pp\<rparr>)"
  using assms
proof (induction pp level arbitrary: S rule: close_loop.induct)
  case (1 level)
  then show ?case by (simp add: modV_def)
next
  case (2 l u pp level)
  then have d: "descending pp" "\<forall>(l', u') \<in> set pp. l' < l" by (auto simp: descending_Cons)
  show ?case
  proof (cases "level \<le> l")
    case True
    let ?S = "S\<lparr>s_upvals := (s_upvals S)(u := s_stack S ! l)\<rparr>"
    have "close_loop pp level ?S = Inr ((), ?S\<lparr>s_upvals := (\<lambda>v. case open_level pp v of Some l' \<Rightarrow>
        if level \<le> l' then s_stack ?S ! l' else s_upvals ?S v | None \<Rightarrow> s_upvals ?S v),
        s_openupval := filter (\<lambda>(l, u). l < level) pp\<rparr>)"
      using "2.prems" d by (intro "2.IH" [OF True]) auto
    moreover have "open_level pp u = None" using "2.prems"(3) by (auto simp: open_level_None)
    ultimately show ?thesis using True "2.prems"(2)
      by (auto simp: bindV_def getslot_def modV_def open_level_Cons fun_eq_iff split: option.splits)
  next
    case False
    then have f: "filter (\<lambda>(l, u). l < level) ((l, u) # pp) = (l, u) # pp" using d(2) by (fastforce simp: filter_id_conv)
    have "open_level ((l, u) # pp) v = Some l' \<Longrightarrow> l' < level" for v l'
      using False d(2) open_level_iff [OF "2.prems"(3)] by fastforce
    then have "(\<lambda>v. case open_level ((l, u) # pp) v of Some l \<Rightarrow> if level \<le> l then s_stack S ! l else s_upvals S v
        | None \<Rightarrow> s_upvals S v) = s_upvals S"
      by (fastforce simp: fun_eq_iff split: option.splits)
    with False f show ?thesis by (simp add: modV_def)
  qed
qed

lemma distinct_map_filter_snd: "distinct (map snd pp) \<Longrightarrow> distinct (map snd (filter P pp))"
  by (induction pp) auto

lemma luaF_close_spec:
  assumes "open_wf S"
  obtains S' where "luaF_close level S = Inr ((), S')" "open_wf S'" "cell_of S' = cell_of S"
    "s_openupval S' = filter (\<lambda>(l, u). l < level) (s_openupval S)" "s_stack S' = s_stack S" "s_top S' = s_top S" "s_ci S' = s_ci S"
proof -
  let ?pp = "s_openupval S"
  let ?qq = "filter (\<lambda>(l, u). l < level) ?pp"
  have wf: "descending ?pp" "\<forall>(l, u) \<in> set ?pp. l < length (s_stack S)" "distinct (map snd ?pp)"
    using assms by (auto simp: open_wf_def)
  have dq: "distinct (map snd ?qq)" using wf(3) by (rule distinct_map_filter_snd)
  have eq: "open_level ?qq u = (case open_level ?pp u of Some l \<Rightarrow> if l < level then Some l else None | None \<Rightarrow> None)" for u
  proof (rule option_eqI)
    fix l
    have "open_level ?qq u = Some l \<longleftrightarrow> open_level ?pp u = Some l \<and> l < level"
      by (simp add: open_level_iff [OF dq] open_level_iff [OF wf(3)])
    then show "open_level ?qq u = Some l \<longleftrightarrow>
        (case open_level ?pp u of Some l \<Rightarrow> if l < level then Some l else None | None \<Rightarrow> None) = Some l"
      by (auto split: option.split)
  qed
  have "descending ?qq" using wf(1) by (simp add: descending_def sorted_wrt_filter)
  then have wf': "open_wf (closed S)" if "s_openupval (closed S) = ?qq" "s_stack (closed S) = s_stack S" "s_next (closed S) = s_next S"
    for closed using assms dq that by (auto simp: open_wf_def)
  let ?S = "S\<lparr>s_upvals := (\<lambda>u. case open_level ?pp u of Some l \<Rightarrow> if level \<le> l then s_stack S ! l else s_upvals S u
      | None \<Rightarrow> s_upvals S u), s_openupval := ?qq\<rparr>"
  have run: "luaF_close level S = Inr ((), ?S)"
    by (simp add: luaF_close_def bindV_def getV_def close_loop_spec [OF wf])
  have "cell_of ?S u = cell_of S u" for u by (simp add: cell_of_def eq split: option.split)
  then have "cell_of ?S = cell_of S" by (rule ext)
  then show ?thesis using wf' [of "\<lambda>_. ?S"] by (intro that [OF run]) simp_all
qed

text \<open>
  C37. Closing changes no variable: every upvalue reads what it read, those at or above the
  level no longer live in the stack, the others still do, and whatever is later written to the
  abandoned slots reaches no upvalue.
\<close>

theorem closing_keeps_variables:
  assumes "open_wf S"
  shows "\<exists>S'. luaF_close level S = Inr ((), S') \<and> open_wf S' \<and> cell_of S' = cell_of S
     \<and> (\<forall>u l. open_level (s_openupval S') u = Some l \<longleftrightarrow> open_level (s_openupval S) u = Some l \<and> l < level)
     \<and> (\<forall>i v S''. level \<le> i \<and> setslot i v S' = Inr ((), S'') \<longrightarrow> cell_of S'' = cell_of S)"
proof -
  obtain S' where c: "luaF_close level S = Inr ((), S')" "open_wf S'" "cell_of S' = cell_of S"
    and q: "s_openupval S' = filter (\<lambda>(l, u). l < level) (s_openupval S)"
    using luaF_close_spec [OF assms] by metis
  have d: "distinct (map snd (s_openupval S))" using assms by (simp add: open_wf_def)
  have lev: "open_level (s_openupval S') u = Some l \<longleftrightarrow> open_level (s_openupval S) u = Some l \<and> l < level" for u l
    unfolding q by (simp add: open_level_iff [OF d] open_level_iff [OF distinct_map_filter_snd [OF d]])
  have "cell_of S'' = cell_of S'" if "level \<le> i" "setslot i v S' = Inr ((), S'')" for i v S''
  proof -
    have S'': "S'' = S'\<lparr>s_stack := (s_stack S')[i := v]\<rparr>" using that(2) by (auto simp: setslot_def split: if_splits)
    have "(s_stack S')[i := v] ! l = s_stack S' ! l" if "open_level (s_openupval S') u = Some l" for u l
      using that \<open>level \<le> i\<close> lev [of u l] by simp
    then show ?thesis by (auto simp: S'' cell_of_def fun_eq_iff split: option.splits)
  qed
  with c lev show ?thesis by metis
qed

lemma closing_keeps_variables_witness:
  "\<exists>S'. luaF_close 2 open_sample = Inr ((), S') \<and> cell_of S' 7 = TBoolean False \<and> open_level (s_openupval S') 7 = None"
proof -
  have c: "cell_of open_sample 7 = TBoolean False" "open_level (s_openupval open_sample) 7 = Some 2"
    by (simp_all add: open_sample_def cell_of_def open_level_def)
  obtain S' where S': "luaF_close 2 open_sample = Inr ((), S')" "cell_of S' = cell_of open_sample"
    and lev: "\<And>l. open_level (s_openupval S') 7 = Some l \<longleftrightarrow> open_level (s_openupval open_sample) 7 = Some l \<and> l < 2"
    using closing_keeps_variables [OF open_sample_wf, of 2] by metis
  have "open_level (s_openupval S') 7 = None" using lev c(2) by (cases "open_level (s_openupval S') 7") auto
  with S' c(1) show ?thesis by simp
qed

section \<open>Assignments\<close>

lemma open_level_bound: "open_wf S \<Longrightarrow> open_level (s_openupval S) u = Some l \<Longrightarrow> l < length (s_stack S)"
  by (auto simp: open_wf_def open_level_iff)

lemma upval_get_cell: "open_wf S \<Longrightarrow> upval_get u S = Inr (cell_of S u, S)"
  by (auto simp: upval_get_def cell_of_def getslot_def dest: open_level_bound split: option.splits)

lemma upval_set_spec:
  assumes "open_wf S"
  obtains S' where "upval_set u v S = Inr ((), S')" "open_wf S'" "cell_of S' = (cell_of S)(u := v)"
    "s_openupval S' = s_openupval S"
proof (cases "open_level (s_openupval S) u")
  case None
  then show ?thesis using assms
    by (intro that [of "S\<lparr>s_upvals := (s_upvals S)(u := v)\<rparr>"])
      (auto simp: upval_set_def open_wf_def cell_of_def fun_eq_iff split: option.splits)
next
  case (Some l)
  have wf: "descending (s_openupval S)" "distinct (map snd (s_openupval S))" using assms by (auto simp: open_wf_def)
  have l: "(l, u) \<in> set (s_openupval S)" using Some by (simp add: open_level_iff [OF wf(2)])
  then have b: "l < length (s_stack S)" using assms by (auto simp: open_wf_def)
  have "l' \<noteq> l" if "open_level (s_openupval S) u' = Some l'" "u' \<noteq> u" for u' l'
    using that l descending_level_unique [OF wf(1)] by (auto simp: open_level_iff [OF wf(2)])
  then have other: "(s_stack S)[l := v] ! l' = s_stack S ! l'" if "open_level (s_openupval S) u' = Some l'" "u' \<noteq> u" for u' l'
    using that by (metis nth_list_update_neq)
  show ?thesis using assms Some b other
    by (intro that [of "S\<lparr>s_stack := (s_stack S)[l := v]\<rparr>"])
      (auto simp: upval_set_def setslot_def open_wf_def cell_of_def fun_eq_iff split: option.splits)
qed

text \<open>What closures do to variables, and what it means.\<close>

datatype upval_op = Assign nat tvalue | Close nat

fun run_upval_op :: "upval_op \<Rightarrow> unit vm" where
  "run_upval_op (Assign u v) = upval_set u v"
| "run_upval_op (Close level) = luaF_close level"

fun run_upval_ops :: "upval_op list \<Rightarrow> unit vm" where
  "run_upval_ops [] = retV ()"
| "run_upval_ops (a # as) = bindV (run_upval_op a) (\<lambda>_. run_upval_ops as)"

fun assign_op :: "upval_op \<Rightarrow> (nat \<Rightarrow> tvalue) \<Rightarrow> nat \<Rightarrow> tvalue" where
  "assign_op (Assign u v) m = m(u := v)"
| "assign_op (Close level) m = m"

lemma run_upval_op_spec:
  assumes "open_wf S"
  obtains S' where "run_upval_op a S = Inr ((), S')" "open_wf S'" "cell_of S' = assign_op a (cell_of S)"
proof (cases a)
  case (Assign u v)
  then show ?thesis using upval_set_spec [OF assms, of u v] that by auto
next
  case (Close level)
  then show ?thesis using luaF_close_spec [OF assms, of level] that by auto
qed

text \<open>
  C38. Upvalues refine variables: whatever assignments closures make and whenever blocks close
  their upvalues in between, the run succeeds and every upvalue reads the last value assigned
  to it, as if each were a cell of its own that never moves.
\<close>

theorem upvalues_are_variables:
  assumes "open_wf S"
  shows "\<exists>S'. run_upval_ops as S = Inr ((), S') \<and> open_wf S'
     \<and> (\<forall>u. upval_get u S' = Inr (fold assign_op as (cell_of S) u, S'))"
  using assms
proof (induction as arbitrary: S)
  case Nil
  then show ?case by (simp add: retV_def upval_get_cell)
next
  case (Cons a as)
  obtain S1 where S1: "run_upval_op a S = Inr ((), S1)" "open_wf S1" "cell_of S1 = assign_op a (cell_of S)"
    using run_upval_op_spec [OF Cons.prems] by metis
  from Cons.IH [OF S1(2)] S1(1,3) show ?case by (simp add: bindV_def)
qed

lemma upvalues_are_variables_witness:
  "\<exists>S'. run_upval_ops [Assign 7 (TBoolean True), Close 1, Assign 7 TNil] open_sample = Inr ((), S')
     \<and> upval_get 7 S' = Inr (TNil, S') \<and> upval_get 5 S' = Inr (TBoolean True, S')"
proof -
  have c: "cell_of open_sample 5 = TBoolean True" by (simp add: open_sample_def cell_of_def open_level_def)
  obtain S' where "run_upval_ops [Assign 7 (TBoolean True), Close 1, Assign 7 TNil] open_sample = Inr ((), S')"
    "\<And>u. upval_get u S' = Inr (fold assign_op [Assign 7 (TBoolean True), Close 1, Assign 7 TNil] (cell_of open_sample) u, S')"
    using upvalues_are_variables [OF open_sample_wf] by blast
  with c show ?thesis by auto
qed

end
