(* ===== verification/Spec2Isabelle.thy ===== *)
theory Spec2Isabelle
  imports LuaApi
    LuaArith
    LuaAux
    LuaCode
    LuaCodeSpec
    LuaDebug
    LuaDump
    LuaExec
    LuaExecFlow
    LuaExecSpec
    LuaLex
    LuaLexSafe
    LuaMatch
    LuaNumber
    LuaObject
    LuaOpcodes
    LuaParser
    LuaParserSafe
    LuaParserScope
    LuaPrelude
    LuaProto
    LuaSort
    LuaStrSpec
    LuaString
    LuaStrlib
    LuaTable
    LuaTableInv
    LuaTableMap
    LuaTableResize
    LuaTablib
    LuaUpval
    LuaVm
    LuaZio
begin

text \<open>
  A verification library for the interpreter in \<^verbatim>\<open>src/lua\<close>: Lua 5.1 in C, with a socket library.

  How the program works.  A source file is read through a buffered stream (\<^verbatim>\<open>lzio.c\<close>), scanned
  (\<^verbatim>\<open>llex.c\<close>), parsed (\<^verbatim>\<open>lparser.c\<close>) and compiled (\<^verbatim>\<open>lcode.c\<close>) to prototypes of 32-bit
  instructions (\<^verbatim>\<open>lopcodes.c\<close>); a binary chunk is loaded to the same prototypes
  (\<^verbatim>\<open>lundump.c\<close>, written by \<^verbatim>\<open>ldump.c\<close>) and checked by a symbolic execution (\<^verbatim>\<open>ldebug.c\<close>) before
  the virtual machine (\<^verbatim>\<open>lvm.c\<close>) runs it.  Values (\<^verbatim>\<open>lobject.c\<close>) are doubles, interned strings
  (\<^verbatim>\<open>lstring.c\<close>), tables (\<^verbatim>\<open>ltable.c\<close>), closures and userdata; tag methods (\<^verbatim>\<open>ltm.c\<close>) extend the
  operations on them.  C functions see the machine through a stack (\<^verbatim>\<open>lapi.c\<close>) and helpers over
  it (\<^verbatim>\<open>lauxlib.c\<close>), on which the standard libraries are written.

  Common conventions (\<open>LuaPrelude\<close>).  A fallible step is a sum: \<open>Inl\<close> an error, \<open>Inr\<close> a result.
  \<open>ErrRun\<close>, \<open>ErrSyntax\<close> and \<open>ErrMem\<close> are the errors of the program.  \<open>ErrFault\<close> is an access
  outside an object, or a broken obligation of a caller, that C leaves undefined; \<open>ErrFuel\<close> is a
  walk longer than any chain of the model.  Safety lemmas state that the last two do not occur.

  The theories and what they model:
  \<^item> \<open>LuaPrelude\<close>: errors, fallible steps, bytes, words and C strings.
  \<^item> \<open>LuaNumber\<close>: doubles as bit patterns, comparison and conversion (\<^verbatim>\<open>luaconf.h\<close>, \<^verbatim>\<open>llimits.h\<close>).
  \<^item> \<open>LuaArith\<close>: the arithmetic macros of \<^verbatim>\<open>luaconf.h\<close>.
  \<^item> \<open>LuaObject\<close>: tagged values, size bytes, reading and formatting (\<^verbatim>\<open>lobject.c\<close>, \<^verbatim>\<open>lobject.h\<close>).
  \<^item> \<open>LuaOpcodes\<close>: instruction words (\<^verbatim>\<open>lopcodes.c\<close>, \<^verbatim>\<open>lopcodes.h\<close>).
  \<^item> \<open>LuaZio\<close>: buffered input (\<^verbatim>\<open>lzio.c\<close>).
  \<^item> \<open>LuaLex\<close>: the scanner (\<^verbatim>\<open>llex.c\<close>); \<open>LuaLexSafe\<close> proves it safe.
  \<^item> \<open>LuaLexSafe\<close>: safety and progress of the scanner.
  \<^item> \<open>LuaString\<close>: the string table (\<^verbatim>\<open>lstring.c\<close>, the mark bits of \<^verbatim>\<open>lgc.h\<close>).
  \<^item> \<open>LuaTable\<close>: tables (\<^verbatim>\<open>ltable.c\<close>): nodes by index, \<^verbatim>\<open>lastfree\<close>, array part.
  \<^item> \<open>LuaTableInv\<close>: the invariant of a table, and search and insertion under it.
  \<^item> \<open>LuaTableResize\<close>: rehash and resize keep the bindings.
  \<^item> \<open>LuaTableMap\<close>: a table as a finite map; the interface its clients use.
  \<^item> \<open>LuaProto\<close>: function prototypes (\<^verbatim>\<open>lfunc.c\<close>).
  \<^item> \<open>LuaDebug\<close>: the code checker and the names in messages (\<^verbatim>\<open>ldebug.c\<close>).
  \<^item> \<open>LuaDump\<close>: binary chunks (\<^verbatim>\<open>ldump.c\<close>, \<^verbatim>\<open>lundump.c\<close>).
  \<^item> \<open>LuaVm\<close>: the store of objects, tag methods and the operations of the machine (\<^verbatim>\<open>ltm.c\<close>, \<^verbatim>\<open>lvm.c\<close>).
  \<^item> \<open>LuaApi\<close>: the C interface (\<^verbatim>\<open>lapi.c\<close>).
  \<^item> \<open>LuaAux\<close>: the auxiliary library (\<^verbatim>\<open>lauxlib.c\<close>).
  \<^item> \<open>LuaMatch\<close>: the pattern matcher (\<^verbatim>\<open>lstrlib.c\<close>), and the meaning of patterns.
  \<^item> \<open>LuaStrlib\<close>: the string library (\<^verbatim>\<open>lstrlib.c\<close>).
  \<^item> \<open>LuaStrSpec\<close>: what the string library promises: search, leftmost match, quoting.
  \<^item> \<open>LuaTablib\<close>: the table library (\<^verbatim>\<open>ltablib.c\<close>).
  \<^item> \<open>LuaSort\<close>: the sort of the table library sorts.
  \<^item> \<open>LuaCode\<close>: the code generator (\<^verbatim>\<open>lcode.c\<close>).
  \<^item> \<open>LuaCodeSpec\<close>: jump lists, constants and folding of the code generator.
  \<^item> \<open>LuaParser\<close>: the parser (\<^verbatim>\<open>lparser.c\<close>).
  \<^item> \<open>LuaParserSafe\<close>: the parser terminates and keeps levels and functions in balance.
  \<^item> \<open>LuaParserScope\<close>: resolution of names, and conflicts of multiple assignment.
  \<^item> \<open>LuaExec\<close>: upvalues, calls and the interpreter (\<^verbatim>\<open>lfunc.c\<close>, \<^verbatim>\<open>ldo.c\<close>, \<^verbatim>\<open>lvm.c\<close>).
  \<^item> \<open>LuaUpval\<close>: upvalues are variables that never move.
  \<^item> \<open>LuaExecSpec\<close>: calls return what they promise and leave the chain of calls as it was.
  \<^item> \<open>LuaExecFlow\<close>: running accepted code stays inside it.

  What the properties show.
  \<^item> Numbers and objects: decoding a size byte is the least representable size; the name of a
    chunk fits its buffer; arithmetic on small integers is exact.
  \<^item> Instructions and streams: fields of an instruction word read back and do not overlap;
    reading characters or blocks is reading the concatenation of the blocks of the reader.
  \<^item> Scanner: every call ends with an error of the program or a legal token, reads inside its
    input and makes progress.
  \<^item> Strings and tables: interning gives one object for each sequence of bytes, through resizes
    and revivals; every lookup is the linear search of the table; assignments, rehashes and
    resizes keep every binding; traversal meets each binding once; the length is a border.
  \<^item> Binary chunks and their checker: dumping writes a fixed sequence of blocks, loading inverts
    it however the bytes are cut, and any input ends in an error of the program or in accepted
    code, whose jumps and operands stay in range (one exception, stated as a property).
  \<^item> Machine and interface: the order of strings is the lexicographic one; concatenation in one
    go is concatenation; the table operations of the C interface keep every table in order, raw
    assignments read back, and the stack operations are list operations.
  \<^item> Auxiliary library: string buffers collect what is added, within their share of the stack;
    references handed out are fresh and keep their values.
  

  Bounds and fuel.  Walks along collision chains carry the number of nodes as a bound, which the
  table invariant shows to be enough; \<open>traverse\<close> takes one more step than the table has
  bindings; the chains of tag methods stop after \<open>MAXTAGLOOP\<close> as in the code.  All other loops
  terminate by measures on the input.

  Parameters.  The reader and writer of chunks and the functions a host runs are arguments; the
  laws asked of a host are hypotheses (\<open>host_ok\<close>), with hosts that satisfy them in the witnesses.

  Not modelled, and why.  Coroutines, hooks and the protected parser of
  \<^verbatim>\<open>ldo.c\<close>, the collector's barriers and pace inside the operations, and the allocator.  Files,
  the loader of libraries, the operating system, the mathematical library and the sockets only call
  functions outside the program.
\<close>

end
